(* ===== verification/Lsmkv_Prelude.thy ===== *)
theory Lsmkv_Prelude
  imports "HOL-Library.Word" "HOL-Library.Monad_Syntax"
begin

unbundle bit_operations_syntax

text \<open>
  Shared vocabulary of the development: machine words and byte strings, reads of a byte
  range that may run past the end, writes into a buffer, and the generic little-endian
  conversion between words and byte lists that \<open>Coding\<close> specialises to the widths of
  \<^verbatim>\<open>utils/coding.h\<close>.

  A C++ \<open>Slice\<close>, \<open>std::string\<close> or \<open>char\<close> buffer is a list of bytes. Undefined behaviour
  of the source (a read past the end of a buffer) and a failed \<open>assert\<close> (the build never
  defines \<open>NDEBUG\<close>) are the value \<open>None\<close> of an option type; error statuses that the code
  returns are ordinary values.
\<close>

type_synonym u8 = "8 word"
type_synonym u16 = "16 word"
type_synonym u32 = "32 word"
type_synonym u64 = "64 word"
type_synonym bytes = "u8 list"

named_theorems codec \<open>length and round-trip laws of the byte encodings\<close>

section \<open>Byte ranges\<close>

text \<open>\<open>bread off n bs\<close>: the \<open>n\<close> bytes at offset \<open>off\<close>; \<open>None\<close> when they do not exist.\<close>

definition bread :: "nat \<Rightarrow> nat \<Rightarrow> bytes \<Rightarrow> bytes option" where
  "bread off n bs = (if off + n \<le> length bs then Some (take n (drop off bs)) else None)"

text \<open>\<open>bwrite off d bs\<close>: store the bytes \<open>d\<close> at offset \<open>off\<close> (\<open>memcpy\<close> into a buffer).\<close>

definition bwrite :: "nat \<Rightarrow> bytes \<Rightarrow> bytes \<Rightarrow> bytes option" where
  "bwrite off d bs =
     (if off + length d \<le> length bs
      then Some (take off bs @ d @ drop (off + length d) bs) else None)"

lemma bread_Some_iff:
  "bread off n bs = Some d \<longleftrightarrow> off + n \<le> length bs \<and> d = take n (drop off bs)"
  by (auto simp: bread_def)

lemma length_bread: "bread off n bs = Some d \<Longrightarrow> length d = n"
  by (auto simp: bread_def split: if_splits)

lemma bread_append_left [simp]:
  "off + n \<le> length xs \<Longrightarrow> bread off n (xs @ ys) = bread off n xs"
  by (simp add: bread_def)

lemma bread_append_right [simp]:
  "length xs \<le> off \<Longrightarrow> bread off n (xs @ ys) = bread (off - length xs) n ys"
  by (auto simp: bread_def)

lemma bread_all [simp]: "n = length xs \<Longrightarrow> bread 0 n xs = Some xs"
  by (simp add: bread_def)

lemma bread_prefix [simp]: "n = length xs \<Longrightarrow> bread 0 n (xs @ ys) = Some xs"
  by (simp add: bread_def)

lemma length_bwrite: "bwrite off d bs = Some bs' \<Longrightarrow> length bs' = length bs"
  by (auto simp: bwrite_def split: if_splits)

lemma bread_bwrite_same:
  "bwrite off d bs = Some bs' \<Longrightarrow> bread off (length d) bs' = Some d"
  by (auto simp: bwrite_def bread_def split: if_splits)

section \<open>Little-endian words\<close>

definition le_bytes :: "nat \<Rightarrow> 'a::len word \<Rightarrow> bytes" where
  "le_bytes n w = map (\<lambda>i. ucast (drop_bit (8 * i) w)) [0..<n]"

primrec le_word :: "bytes \<Rightarrow> 'a::len word" where
  "le_word [] = 0"
| "le_word (b # bs) = ucast b OR push_bit 8 (le_word bs)"

lemma length_le_bytes [simp, codec]: "length (le_bytes n w) = n"
  by (simp add: le_bytes_def)

lemma nth_le_bytes: "i < n \<Longrightarrow> le_bytes n w ! i = ucast (drop_bit (8 * i) w)"
  by (simp add: le_bytes_def)

lemma bit_le_word:
  "bit (le_word bs :: 'a::len word) i \<longleftrightarrow>
     i < LENGTH('a) \<and> i < 8 * length bs \<and> bit (bs ! (i div 8)) (i mod 8)"
proof (induction bs arbitrary: i)
  case Nil
  then show ?case by simp
next
  case (Cons b bs)
  show ?case
  proof (cases "i < 8")
    case True
    then show ?thesis
      by (auto simp: bit_or_iff bit_push_bit_iff bit_ucast_iff)
  next
    case False
    then have "i div 8 = Suc ((i - 8) div 8)" "i mod 8 = (i - 8) mod 8"
      by (simp_all add: le_div_geq le_mod_geq)
    moreover have "\<not> bit b i"
      using False by (metis bit_imp_le_length len_num1 len_bit0 mult_2 numeral_Bit0 not_le
          len_num0 mult.right_neutral)
    ultimately show ?thesis
      using False Cons.IH [of "i - 8"]
      by (auto simp: bit_or_iff bit_push_bit_iff bit_ucast_iff)
  qed
qed

lemma le_word_le_bytes:
  assumes "LENGTH('a) \<le> 8 * n"
  shows "le_word (le_bytes n (w :: 'a::len word)) = w"
proof (rule bit_word_eqI)
  fix i assume i: "i < LENGTH('a)"
  with assms have "i div 8 < n" by linarith
  then have "le_bytes n w ! (i div 8) = ucast (drop_bit (8 * (i div 8)) w)"
    by (rule nth_le_bytes)
  moreover have "8 * (i div 8) + i mod 8 = i" by simp
  ultimately show "bit (le_word (le_bytes n w) :: 'a word) i = bit w i"
    using i assms by (simp add: bit_le_word bit_ucast_iff bit_drop_bit_eq)
qed

lemma le_bytes_le_word:
  assumes "length bs = n" "8 * n \<le> LENGTH('a)"
  shows "le_bytes n (le_word bs :: 'a::len word) = bs"
proof (rule nth_equalityI)
  show "length (le_bytes n (le_word bs :: 'a word)) = length bs" using assms by simp
next
  fix k assume "k < length (le_bytes n (le_word bs :: 'a word))"
  then have k: "k < n" by simp
  show "le_bytes n (le_word bs :: 'a word) ! k = bs ! k"
  proof (rule bit_word_eqI)
    fix i assume i: "i < LENGTH(8)"
    then have i8: "i < 8" by simp
    from k i8 assms have "8 * k + i < LENGTH('a)" by linarith
    with k i8 assms show "bit (le_bytes n (le_word bs :: 'a word) ! k) i = bit (bs ! k) i"
      by (simp add: nth_le_bytes bit_ucast_iff bit_drop_bit_eq bit_le_word)
  qed
qed

section \<open>Words\<close>

lemma word_le_mask_iff: "w \<le> mask n \<longleftrightarrow> take_bit n w = (w :: 'a::len word)"
proof
  assume "w \<le> mask n"
  then have "uint w \<le> uint (mask n :: 'a word)" by (simp add: word_le_def)
  moreover have "uint (mask n :: 'a word) < 2 ^ n"
  proof -
    have "take_bit n (mask n :: 'a word) = mask n" by (rule bit_word_eqI) (simp add: bit_take_bit_iff bit_mask_iff)
    then have "take_bit n (uint (mask n :: 'a word)) = uint (mask n :: 'a word)"
      by (metis unsigned_take_bit_eq)
    then show ?thesis by (metis take_bit_int_less_exp)
  qed
  ultimately have "take_bit n (uint w) = uint w"
    by (simp add: take_bit_int_eq_self_iff)
  then show "take_bit n w = w" by (metis unsigned_take_bit_eq unsigned_word_eqI)
next
  assume "take_bit n w = w"
  then show "w \<le> mask n" by (metis take_bit_eq_mask word_and_le1)
qed

lemma unat_of_nat_small: "n < 2 ^ LENGTH('a) \<Longrightarrow> unat (of_nat n :: 'a::len word) = n"
  by (simp add: unat_of_nat)

lemmas unat_of_nat_u32 = unat_of_nat_small [where 'a = 32, simplified]
lemmas unat_of_nat_u64 = unat_of_nat_small [where 'a = 64, simplified]

section \<open>Lists\<close>

lemma take_drop_append3 [simp]:
  "take (length b) (drop (length a) (a @ b @ c)) = b"
  by simp

end
