(* ===== verification/Coding.thy ===== *)
theory Coding
  imports Lsmkv_Prelude
begin

text \<open>
  \<^verbatim>\<open>utils/coding.h\<close>: fixed-width integers in little-endian byte order. The source stores
  through a raw pointer; an encoder is modelled by the bytes it stores and a decoder by a
  read at the start of the bytes the pointer addresses, \<open>None\<close> when fewer bytes are there
  than the decoder reads. On a big-endian host the source byte-swaps first, so the byte
  order does not depend on the host.
\<close>

definition EncodeFixed16 :: "u16 \<Rightarrow> bytes" where
  "EncodeFixed16 v = le_bytes 2 v"

definition EncodeFixed32 :: "u32 \<Rightarrow> bytes" where
  "EncodeFixed32 v = le_bytes 4 v"

definition EncodeFixed64 :: "u64 \<Rightarrow> bytes" where
  "EncodeFixed64 v = le_bytes 8 v"

text \<open>\<open>EncodeFixed8\<close> asserts that the value is at most \<open>0x7f\<close>.\<close>

definition EncodeFixed8 :: "u8 \<Rightarrow> bytes option" where
  "EncodeFixed8 v = (if v \<le> 0x7f then Some [v] else None)"

definition EncodeFixed128 :: "u64 \<Rightarrow> u64 \<Rightarrow> bytes" where
  "EncodeFixed128 v1 v2 = EncodeFixed64 v1 @ EncodeFixed64 v2"

definition DecodeFixed64 :: "bytes \<Rightarrow> u64 option" where
  "DecodeFixed64 p = map_option le_word (bread 0 8 p)"

definition DecodeFixed32 :: "bytes \<Rightarrow> u32 option" where
  "DecodeFixed32 p = map_option le_word (bread 0 4 p)"

definition DecodeFixed16 :: "bytes \<Rightarrow> u16 option" where
  "DecodeFixed16 p = map_option le_word (bread 0 2 p)"

definition DecodeFixed8 :: "bytes \<Rightarrow> u8 option" where
  "DecodeFixed8 p = (case p of [] \<Rightarrow> None | b # _ \<Rightarrow> Some b)"

definition DecodeFixed128 :: "bytes \<Rightarrow> (u64 \<times> u64) option" where
  "DecodeFixed128 p = do { a \<leftarrow> DecodeFixed64 p; b \<leftarrow> DecodeFixed64 (drop 8 p); Some (a, b) }"

section \<open>Lengths and round trips\<close>

lemma length_EncodeFixed [simp, codec]:
  "length (EncodeFixed16 a) = 2" "length (EncodeFixed32 b) = 4" "length (EncodeFixed64 c) = 8"
  "length (EncodeFixed128 c d) = 16"
  by (simp_all add: EncodeFixed16_def EncodeFixed32_def EncodeFixed64_def EncodeFixed128_def)

lemma DecodeFixed16_EncodeFixed16 [simp, codec]:
  "DecodeFixed16 (EncodeFixed16 v @ rest) = Some v"
  by (simp add: DecodeFixed16_def EncodeFixed16_def le_word_le_bytes)

lemma DecodeFixed32_EncodeFixed32 [simp, codec]:
  "DecodeFixed32 (EncodeFixed32 v @ rest) = Some v"
  by (simp add: DecodeFixed32_def EncodeFixed32_def le_word_le_bytes)

lemma DecodeFixed64_EncodeFixed64 [simp, codec]:
  "DecodeFixed64 (EncodeFixed64 v @ rest) = Some v"
  by (simp add: DecodeFixed64_def EncodeFixed64_def le_word_le_bytes)

text \<open>The same laws where the encoding is the whole buffer.\<close>

lemmas DecodeFixed_EncodeFixed_end [simp, codec] =
  DecodeFixed16_EncodeFixed16 [where rest = "[]", simplified]
  DecodeFixed32_EncodeFixed32 [where rest = "[]", simplified]
  DecodeFixed64_EncodeFixed64 [where rest = "[]", simplified]

lemma DecodeFixed128_EncodeFixed128 [simp, codec]:
  "DecodeFixed128 (EncodeFixed128 a b @ rest) = Some (a, b)"
  by (simp add: DecodeFixed128_def EncodeFixed128_def)

lemma EncodeFixed8_DecodeFixed8: "EncodeFixed8 v = Some d \<Longrightarrow> DecodeFixed8 (d @ rest) = Some v"
  by (auto simp: EncodeFixed8_def DecodeFixed8_def split: if_splits)

lemma DecodeFixed32_None_iff [simp]: "DecodeFixed32 p = None \<longleftrightarrow> length p < 4"
  by (auto simp: DecodeFixed32_def bread_def)

lemma DecodeFixed64_None_iff [simp]: "DecodeFixed64 p = None \<longleftrightarrow> length p < 8"
  by (auto simp: DecodeFixed64_def bread_def)

lemma DecodeFixed32_Some_iff:
  "DecodeFixed32 p = Some v \<longleftrightarrow> 4 \<le> length p \<and> take 4 p = EncodeFixed32 v"
  by (auto simp: DecodeFixed32_def EncodeFixed32_def bread_def le_bytes_le_word le_word_le_bytes)

lemma DecodeFixed64_Some_iff:
  "DecodeFixed64 p = Some v \<longleftrightarrow> 8 \<le> length p \<and> take 8 p = EncodeFixed64 v"
  by (auto simp: DecodeFixed64_def EncodeFixed64_def bread_def le_bytes_le_word le_word_le_bytes)

lemma EncodeFixed32_inj [simp]: "EncodeFixed32 a = EncodeFixed32 b \<longleftrightarrow> a = b"
  by (metis DecodeFixed_EncodeFixed_end(2) option.inject)

lemma EncodeFixed64_inj [simp]: "EncodeFixed64 a = EncodeFixed64 b \<longleftrightarrow> a = b"
  by (metis DecodeFixed_EncodeFixed_end(3) option.inject)

end
