(* ===== verification/Dbformat.thy ===== *)
theory Dbformat
  imports Coding
begin

text \<open>
  \<^verbatim>\<open>include/lsmkv/dbformat.h\<close>: sequence numbers, value types, and the layouts of the keys
  the store builds. An internal key is the user key followed by eight bytes that hold the
  sequence number shifted left by eight with the value type in the low byte; a memtable key
  has the length of the internal key in front.
\<close>

type_synonym SequenceNumber = u64

text \<open>The enum has two values; the cast from a stored byte can also meet any other byte.\<close>

datatype ValueType = kTypeDeletion | kTypeValue | kTypeOther u64

definition to_ValueType :: "u64 \<Rightarrow> ValueType" where
  "to_ValueType x = (if x = 0 then kTypeDeletion else if x = 1 then kTypeValue else kTypeOther x)"

fun type_code :: "ValueType \<Rightarrow> u64" where
  "type_code kTypeDeletion = 0"
| "type_code kTypeValue = 1"
| "type_code (kTypeOther x) = x"

definition kMaxSequenceNumber :: SequenceNumber where
  "kMaxSequenceNumber = push_bit 56 1 - 1"

section \<open>Parts of an internal key\<close>

text \<open>Each accessor asserts that the key has at least eight bytes.\<close>

definition ExtractUserKey :: "bytes \<Rightarrow> bytes option" where
  "ExtractUserKey k = (if 8 \<le> length k then Some (take (length k - 8) k) else None)"

definition trailer :: "bytes \<Rightarrow> u64 option" where
  "trailer k = (if 8 \<le> length k then DecodeFixed64 (drop (length k - 8) k) else None)"

definition ExtractValueType :: "bytes \<Rightarrow> ValueType option" where
  "ExtractValueType k = map_option (\<lambda>t. to_ValueType (t AND 0xff)) (trailer k)"

definition ExtractSequenceNumber :: "bytes \<Rightarrow> SequenceNumber option" where
  "ExtractSequenceNumber k = map_option (drop_bit 8) (trailer k)"

section \<open>QueryKey\<close>

record QueryKey =
  qk_len :: u32
  qk_rep :: bytes

text \<open>The constructor sizes \<open>rep_\<close> by the 32-bit \<open>len_\<close> and then fills it.\<close>

definition mk_QueryKey :: "SequenceNumber \<Rightarrow> bytes \<Rightarrow> QueryKey option" where
  "mk_QueryKey seq key = do {
     let len = (of_nat (length key + 12) :: u32);
     let rep0 = replicate (unat len) 0;
     rep1 \<leftarrow> bwrite 0 (EncodeFixed32 (of_nat (length key + 8))) rep0;
     rep2 \<leftarrow> bwrite 4 key rep1;
     rep3 \<leftarrow> bwrite (4 + length key) (EncodeFixed64 (push_bit 8 seq)) rep2;
     Some \<lparr>qk_len = len, qk_rep = rep3\<rparr> }"

definition qk_sequence :: "QueryKey \<Rightarrow> SequenceNumber option" where
  "qk_sequence q = map_option (drop_bit 8) (DecodeFixed64 (drop (unat (qk_len q) - 8) (qk_rep q)))"

definition qk_user_key :: "QueryKey \<Rightarrow> bytes option" where
  "qk_user_key q = bread 4 (unat (qk_len q) - 12) (qk_rep q)"

definition mem_key :: "QueryKey \<Rightarrow> bytes option" where
  "mem_key q = bread 0 (unat (qk_len q)) (qk_rep q)"

definition internal_key :: "QueryKey \<Rightarrow> bytes option" where
  "internal_key q = bread 4 (unat (qk_len q) - 4) (qk_rep q)"

section \<open>InternalKey and ParsedInternalKey\<close>

record InternalKey =
  ik_size :: u32
  ik_rep :: bytes

definition ik_DecodeFrom :: "bytes \<Rightarrow> InternalKey" where
  "ik_DecodeFrom s = \<lparr>ik_size = of_nat (length s), ik_rep = s\<rparr>"

definition ik_Encode :: "InternalKey \<Rightarrow> bytes option" where
  "ik_Encode k = (if ik_size k \<noteq> 0 then bread 0 (unat (ik_size k)) (ik_rep k) else None)"

definition ik_user_key :: "InternalKey \<Rightarrow> bytes option" where
  "ik_user_key k = Option.bind (ik_Encode k) ExtractUserKey"

definition ik_type :: "InternalKey \<Rightarrow> ValueType option" where
  "ik_type k = Option.bind (ik_Encode k) ExtractValueType"

definition ik_sequence :: "InternalKey \<Rightarrow> SequenceNumber option" where
  "ik_sequence k = map_option (drop_bit 8) (DecodeFixed64 (drop (unat (ik_size k) - 8) (ik_rep k)))"

record ParsedInternalKey =
  p_user_key :: bytes
  p_sequence :: SequenceNumber
  p_type :: ValueType

definition parse_InternalKey :: "InternalKey \<Rightarrow> ParsedInternalKey option" where
  "parse_InternalKey k = do {
     u \<leftarrow> ik_user_key k; s \<leftarrow> ik_sequence k; t \<leftarrow> ik_type k;
     Some \<lparr>p_user_key = u, p_sequence = s, p_type = t\<rparr> }"

section \<open>Laws\<close>

text \<open>The trailer the writers build: \<open>(seq << 8) | type\<close>.\<close>

definition pack :: "SequenceNumber \<Rightarrow> ValueType \<Rightarrow> u64" where
  "pack seq t = push_bit 8 seq OR type_code t"

lemma ikey_parts [simp, codec]:
  "ExtractUserKey (u @ EncodeFixed64 t) = Some u"
  "trailer (u @ EncodeFixed64 t) = Some t"
  by (simp_all add: ExtractUserKey_def trailer_def)

lemma ikey_cases:
  assumes "8 \<le> length k"
  obtains u t where "k = u @ EncodeFixed64 t"
proof -
  let ?u = "take (length k - 8) k" and ?d = "drop (length k - 8) k"
  have "length ?d = 8" using assms by simp
  then have "?d = EncodeFixed64 (le_word ?d)"
    by (simp add: EncodeFixed64_def le_bytes_le_word)
  then have "k = ?u @ EncodeFixed64 (le_word ?d)"
    by (metis append_take_drop_id)
  then show thesis by (rule that)
qed

lemma ExtractUserKey_Some_iff:
  "ExtractUserKey k = Some u \<longleftrightarrow> (\<exists>t. k = u @ EncodeFixed64 t)"
  by (metis ExtractUserKey_def ikey_cases ikey_parts(1) option.distinct(1) option.inject)

lemma ff_mask: "(0xff :: u64) = mask 8"
  by (simp add: mask_eq_exp_minus_1)

lemma pack_and_ff: "type_code t \<le> 0xff \<Longrightarrow> pack seq t AND 0xff = type_code t"
  by (simp add: pack_def ff_mask take_bit_or take_bit_push_bit word_le_mask_iff
      flip: take_bit_eq_mask)

lemma drop_bit8_push_bit8_eq: "drop_bit 8 (push_bit 8 (seq :: u64)) = take_bit 56 seq"
  by (rule bit_word_eqI) (simp add: bit_drop_bit_eq bit_push_bit_iff bit_take_bit_iff)

lemma drop_bit8_push_bit8:
  "seq \<le> kMaxSequenceNumber \<Longrightarrow> drop_bit 8 (push_bit 8 seq) = seq"
proof -
  assume "seq \<le> kMaxSequenceNumber"
  then have "seq \<le> mask 56"
    by (simp add: kMaxSequenceNumber_def mask_eq_exp_minus_1)
  then have "take_bit 56 seq = seq"
    by (simp add: word_le_mask_iff)
  then show ?thesis
    by (metis drop_bit8_push_bit8_eq)
qed

lemma pack_shift:
  assumes "seq \<le> kMaxSequenceNumber" "type_code t \<le> 0xff"
  shows "drop_bit 8 (pack seq t) = seq"
proof -
  have "drop_bit 8 (type_code t) = 0"
    using assms(2) by (simp add: ff_mask word_le_mask_iff
        take_bit_eq_self_iff_drop_bit_eq_0)
  then show ?thesis
    using drop_bit8_push_bit8 [OF assms(1)] by (simp add: pack_def drop_bit_or)
qed

lemma to_ValueType_type_code [simp]:
  "to_ValueType 0 = kTypeDeletion"
  "to_ValueType 1 = kTypeValue"
  by (simp_all add: to_ValueType_def)

text \<open>A key that the store builds: user key, sequence number and one of the two value types.\<close>

definition mk_ikey :: "bytes \<Rightarrow> SequenceNumber \<Rightarrow> ValueType \<Rightarrow> bytes" where
  "mk_ikey u seq t = u @ EncodeFixed64 (pack seq t)"

lemma length_mk_ikey [simp, codec]: "length (mk_ikey u seq t) = length u + 8"
  by (simp add: mk_ikey_def)

lemma mk_ikey_parts [simp, codec]:
  "ExtractUserKey (mk_ikey u seq t) = Some u"
  "trailer (mk_ikey u seq t) = Some (pack seq t)"
  by (simp_all add: mk_ikey_def)

lemma mk_ikey_type:
  "t \<in> {kTypeDeletion, kTypeValue} \<Longrightarrow> ExtractValueType (mk_ikey u seq t) = Some t"
  by (auto simp: ExtractValueType_def pack_and_ff)

lemma mk_ikey_sequence:
  "t \<in> {kTypeDeletion, kTypeValue} \<Longrightarrow> seq \<le> kMaxSequenceNumber \<Longrightarrow>
     ExtractSequenceNumber (mk_ikey u seq t) = Some seq"
  by (auto simp: ExtractSequenceNumber_def pack_shift)

text \<open>The closed form of the query key the constructor builds, for every key whose length fits
  the 32-bit size fields.\<close>

lemma unat_of_nat_len: "length (key :: bytes) + 12 < 2 ^ 32 \<Longrightarrow> n \<le> 12 \<Longrightarrow>
    unat (of_nat (length key + n) :: u32) = length key + n"
  by (rule unat_of_nat_u32) simp

lemma mk_QueryKey_eq:
  assumes "length key + 12 < 2 ^ 32"
  shows "mk_QueryKey seq key = Some \<lparr>qk_len = of_nat (length key + 12),
    qk_rep = EncodeFixed32 (of_nat (length key + 8)) @ key @ EncodeFixed64 (push_bit 8 seq)\<rparr>"
proof -
  have len: "unat (of_nat (length key + 12) :: u32) = length key + 12"
    using assms by (rule unat_of_nat_len) simp
  show ?thesis
    unfolding mk_QueryKey_def Let_def len
    by (simp add: bwrite_def)
qed

lemma QueryKey_views:
  assumes "length key + 12 < 2 ^ 32" "mk_QueryKey seq key = Some q"
  shows "qk_user_key q = Some key"
    and "internal_key q = Some (key @ EncodeFixed64 (push_bit 8 seq))"
    and "mem_key q = Some (EncodeFixed32 (of_nat (length key + 8)) @ key @ EncodeFixed64 (push_bit 8 seq))"
    and "qk_sequence q = Some (take_bit 56 seq)"
  using assms unat_of_nat_len [OF assms(1), of 12]
  by (auto simp: mk_QueryKey_eq qk_user_key_def internal_key_def mem_key_def qk_sequence_def
      drop_bit8_push_bit8_eq)

section \<open>Properties\<close>

text \<open>A query key built for a user key and a sequence number gives both back: its user-key
  view is the key, its internal-key view is the key followed by the encoded \<open>seq << 8\<close>, its
  memtable view has the internal key's length in front, and its sequence number is \<open>seq\<close> for
  every sequence number up to \<open>kMaxSequenceNumber\<close>, all for keys whose length fits the 32-bit
  length fields.\<close>

lemma query_key_roundtrip:
  assumes "length key + 12 < 2 ^ 32" "seq \<le> kMaxSequenceNumber"
  shows "\<exists>q. mk_QueryKey seq key = Some q
    \<and> qk_user_key q = Some key
    \<and> internal_key q = Some (mk_ikey key seq kTypeDeletion)
    \<and> mem_key q = Some (EncodeFixed32 (of_nat (length key + 8)) @ mk_ikey key seq kTypeDeletion)
    \<and> qk_sequence q = Some seq"
proof -
  obtain q where q: "mk_QueryKey seq key = Some q"
    using mk_QueryKey_eq [OF assms(1)] by simp
  have "drop_bit 8 (push_bit 8 seq) = seq" using assms(2) by (rule drop_bit8_push_bit8)
  then have "take_bit 56 seq = seq" by (simp only: drop_bit8_push_bit8_eq)
  then show ?thesis
    using q QueryKey_views [OF assms(1) q] by (simp add: mk_ikey_def pack_def)
qed

text \<open>C35. The eight trailing bytes of an internal key carry the sequence number and the value
  type without loss: for the two value types and sequence numbers up to \<open>kMaxSequenceNumber\<close>,
  parsing the stored internal key returns exactly the user key, the sequence number and the type
  it was built from.\<close>

theorem internal_key_roundtrip:
  assumes "t \<in> {kTypeDeletion, kTypeValue}" "seq \<le> kMaxSequenceNumber" "length u + 8 < 2 ^ 32"
  shows "parse_InternalKey (ik_DecodeFrom (mk_ikey u seq t))
    = Some \<lparr>p_user_key = u, p_sequence = seq, p_type = t\<rparr>"
proof -
  let ?k = "ik_DecodeFrom (mk_ikey u seq t)"
  have sz: "unat (ik_size ?k) = length u + 8"
    using assms(3) by (simp add: ik_DecodeFrom_def unat_of_nat_u32 del: of_nat_add)
  then have "ik_size ?k \<noteq> 0" by (metis add_gr_0 less_numeral_extra(3) unat_0 zero_less_numeral)
  then have enc: "ik_Encode ?k = Some (mk_ikey u seq t)"
    using sz by (simp add: ik_Encode_def) (simp add: ik_DecodeFrom_def)
  have "ik_sequence ?k = Some seq"
    using sz pack_shift [OF assms(2)] assms(1)
    by (auto simp: ik_sequence_def) (auto simp: ik_DecodeFrom_def mk_ikey_def)
  with enc assms(1) show ?thesis
    by (simp add: parse_InternalKey_def ik_user_key_def ik_type_def mk_ikey_type)
qed

theorem internal_key_roundtrip_witness:
  "parse_InternalKey (ik_DecodeFrom (mk_ikey [0x6b] 7 kTypeValue))
    = Some \<lparr>p_user_key = [0x6b], p_sequence = 7, p_type = kTypeValue\<rparr>"
  by (rule internal_key_roundtrip) (simp_all add: kMaxSequenceNumber_def)

end
