(* ===== verification/Comparators.thy ===== *)
theory Comparators
  imports Dbformat
begin

text \<open>
  \<^verbatim>\<open>utils/comparator.h\<close> and \<^verbatim>\<open>src/comparator.cpp\<close>: the orders on keys. A comparison returns
  an integer whose sign is the answer; the built-in comparators assert that internal keys have
  eight trailing bytes, so a comparison of malformed keys is \<open>None\<close>. The locale \<open>comparator\<close> is
  the contract the sorted containers rely on: a total preorder on well-formed keys.
\<close>

section \<open>The comparators\<close>

text \<open>\<open>std::string_view::compare\<close>: unsigned bytes, then length. Only the sign is specified.\<close>

fun StrComparator_compare :: "bytes \<Rightarrow> bytes \<Rightarrow> int" where
  "StrComparator_compare [] [] = 0"
| "StrComparator_compare [] (y # ys) = -1"
| "StrComparator_compare (x # xs) [] = 1"
| "StrComparator_compare (x # xs) (y # ys) =
     (if x < y then -1 else if y < x then 1 else StrComparator_compare xs ys)"

definition NumComparator_compare :: "bytes \<Rightarrow> bytes \<Rightarrow> int option" where
  "NumComparator_compare a b =
     (if length a = length b then do {
        l \<leftarrow> DecodeFixed64 a; r \<leftarrow> DecodeFixed64 b;
        Some (of_bool (l > r) - of_bool (l < r)) }
      else None)"

definition extract_user_key :: "bytes \<Rightarrow> bytes option" where
  "extract_user_key k = (if 8 \<le> length k then Some (take (length k - 8) k) else None)"

definition extract_seq_num :: "bytes \<Rightarrow> bytes option" where
  "extract_seq_num k = (if 8 \<le> length k then Some (drop (length k - 8) k) else None)"

definition InternalKeyComparator_compare :: "bytes \<Rightarrow> bytes \<Rightarrow> int option" where
  "InternalKeyComparator_compare a b = do {
     ua \<leftarrow> extract_user_key a; ub \<leftarrow> extract_user_key b;
     let res = StrComparator_compare ua ub;
     if res \<noteq> 0 then Some res
     else do {
       sa \<leftarrow> extract_seq_num a; sb \<leftarrow> extract_seq_num b;
       map_option uminus (NumComparator_compare sa sb) } }"

definition UserKeyComparator_compare :: "bytes \<Rightarrow> bytes \<Rightarrow> int option" where
  "UserKeyComparator_compare a b = do {
     ua \<leftarrow> ExtractUserKey a; ub \<leftarrow> ExtractUserKey b;
     Some (StrComparator_compare ua ub) }"

text \<open>The variant \<open>Comparator\<close>: four built-in comparators or a user-defined one.\<close>

datatype Comparator =
  CInternalKey | CStr | CNum | CUserKey | CAny "bytes \<Rightarrow> bytes \<Rightarrow> int"

fun compare :: "Comparator \<Rightarrow> bytes \<Rightarrow> bytes \<Rightarrow> int option" where
  "compare CInternalKey a b = InternalKeyComparator_compare a b"
| "compare CStr a b = Some (StrComparator_compare a b)"
| "compare CNum a b = NumComparator_compare a b"
| "compare CUserKey a b = UserKeyComparator_compare a b"
| "compare (CAny f) a b = Some (f a b)"

section \<open>Separators\<close>

fun diff_index :: "bytes \<Rightarrow> bytes \<Rightarrow> nat" where
  "diff_index (x # xs) (y # ys) = (if x = y then Suc (diff_index xs ys) else 0)"
| "diff_index xs ys = 0"

text \<open>\<open>diff_byte + 1\<close> is computed on \<open>int\<close>, so it cannot wrap; the final assertion is kept.\<close>

definition find_shortest_separator :: "bytes \<Rightarrow> bytes \<Rightarrow> bytes option" where
  "find_shortest_separator start limit =
     (let d = diff_index start limit in
      if min (length start) (length limit) \<le> d then Some start
      else if start ! d < 0xff \<and> uint (start ! d) + 1 < uint (limit ! d)
      then let r = take d start @ [start ! d + 1]
           in if StrComparator_compare r limit < 0 then Some r else None
      else Some start)"

text \<open>\<open>(*key)[i] != 0xff\<close> compares a \<open>char\<close> promoted to \<open>int\<close> with 255. Whether \<open>char\<close> is
  signed is the platform's choice and a parameter here (it is signed on x86-64 Linux).\<close>

definition promote_char :: "bool \<Rightarrow> u8 \<Rightarrow> int" where
  "promote_char char_signed c = (if char_signed then sint c else uint c)"

fun find_short_successor :: "bool \<Rightarrow> bytes \<Rightarrow> bytes" where
  "find_short_successor sgn_ch [] = []"
| "find_short_successor sgn_ch (c # cs) =
     (if promote_char sgn_ch c \<noteq> 255 then [c + 1]
      else c # find_short_successor sgn_ch cs)"

section \<open>The contract of a comparator\<close>

locale comparator =
  fixes cmp :: "'k \<Rightarrow> 'k \<Rightarrow> int"
    and wfk :: "'k \<Rightarrow> bool"
  assumes cmp_refl: "wfk a \<Longrightarrow> cmp a a = 0"
    and cmp_neg: "wfk a \<Longrightarrow> wfk b \<Longrightarrow> cmp a b < 0 \<longleftrightarrow> 0 < cmp b a"
    and cmp_trans: "wfk a \<Longrightarrow> wfk b \<Longrightarrow> wfk c \<Longrightarrow> cmp a b \<le> 0 \<Longrightarrow> cmp b c \<le> 0 \<Longrightarrow> cmp a c \<le> 0"
begin

lemma cmp_le_iff: "wfk a \<Longrightarrow> wfk b \<Longrightarrow> cmp a b \<le> 0 \<longleftrightarrow> \<not> cmp b a < 0"
  using cmp_neg [of b a] by linarith

lemma cmp_eq_sym: "wfk a \<Longrightarrow> wfk b \<Longrightarrow> cmp a b = 0 \<longleftrightarrow> cmp b a = 0"
  using cmp_neg [of a b] cmp_neg [of b a] by linarith

lemma cmp_total: "wfk a \<Longrightarrow> wfk b \<Longrightarrow> cmp a b \<le> 0 \<or> cmp b a \<le> 0"
  using cmp_neg [of a b] by linarith

lemma cmp_lt_le_trans:
  assumes "wfk a" "wfk b" "wfk c" "cmp a b < 0" "cmp b c \<le> 0"
  shows "cmp a c < 0"
proof (rule ccontr)
  assume "\<not> cmp a c < 0"
  then have "cmp c a \<le> 0" using assms(1,3) cmp_le_iff by blast
  with assms have "cmp b a \<le> 0" using cmp_trans [of b c a] by blast
  with assms show False using cmp_le_iff [of b a] by blast
qed

lemma cmp_le_lt_trans:
  assumes "wfk a" "wfk b" "wfk c" "cmp a b \<le> 0" "cmp b c < 0"
  shows "cmp a c < 0"
proof (rule ccontr)
  assume "\<not> cmp a c < 0"
  then have "cmp c a \<le> 0" using assms(1,3) cmp_le_iff by blast
  with assms have "cmp c b \<le> 0" using cmp_trans [of c a b] by blast
  with assms show False using cmp_le_iff [of c b] by blast
qed

lemma cmp_lt_trans:
  "wfk a \<Longrightarrow> wfk b \<Longrightarrow> wfk c \<Longrightarrow> cmp a b < 0 \<Longrightarrow> cmp b c < 0 \<Longrightarrow> cmp a c < 0"
  by (rule cmp_lt_le_trans [of a b c]) auto

text \<open>The clients: a linear search in a sorted sequence stops at the first key that is not
  before the target, and every key behind it is not before the target either.\<close>

lemma dropWhile_sorted:
  assumes "sorted_wrt (\<lambda>a b. cmp a b < 0) xs" "\<forall>x \<in> set xs. wfk x" "wfk k"
    and "y \<in> set (dropWhile (\<lambda>x. cmp x k < 0) xs)"
  shows "cmp k y \<le> 0"
  using assms
proof (induction xs)
  case Nil
  then show ?case by simp
next
  case (Cons x xs)
  show ?case
  proof (cases "cmp x k < 0")
    case True
    with Cons show ?thesis by simp
  next
    case False
    then have le: "cmp k x \<le> 0" using Cons.prems cmp_le_iff by simp
    with Cons.prems show ?thesis
      using False cmp_le_lt_trans [of k x y] by (auto simp: less_imp_le)
  qed
qed

lemma takeWhile_before:
  "y \<in> set (takeWhile (\<lambda>x. cmp x k < 0) xs) \<Longrightarrow> cmp y k < 0"
  by (metis set_takeWhileD)

end

section \<open>The built-in comparators satisfy it\<close>

lemma Str_refl [simp]: "StrComparator_compare a a = 0"
  by (induction a) auto

lemma Str_eq_0_iff [simp]: "StrComparator_compare a b = 0 \<longleftrightarrow> a = b"
  by (induction a b rule: StrComparator_compare.induct) auto

lemma Str_neg: "StrComparator_compare b a = - StrComparator_compare a b"
  by (induction a b rule: StrComparator_compare.induct) auto

lemma Str_trans:
  "StrComparator_compare a b \<le> 0 \<Longrightarrow> StrComparator_compare b c \<le> 0 \<Longrightarrow> StrComparator_compare a c \<le> 0"
proof (induction a b arbitrary: c rule: StrComparator_compare.induct)
  case (4 x xs y ys)
  then show ?case
    by (cases c) (auto split: if_splits)
next
  case (2 y ys)
  then show ?case by (cases c) auto
qed auto

interpretation str: comparator StrComparator_compare "\<lambda>_. True"
proof unfold_locales
  fix a b :: bytes
  show "StrComparator_compare a b < 0 \<longleftrightarrow> 0 < StrComparator_compare b a"
    using Str_neg [of b a] by linarith
qed (auto dest: Str_trans)

text \<open>The order of internal keys in closed form: user keys ascending, then trailers (sequence
  number and type) descending.\<close>

definition ikey_cmp :: "bytes \<Rightarrow> bytes \<Rightarrow> int" where
  "ikey_cmp a b = the (InternalKeyComparator_compare a b)"

abbreviation wf_ikey :: "bytes \<Rightarrow> bool" where
  "wf_ikey k \<equiv> 8 \<le> length k"

lemma InternalKeyComparator_compare_eq:
  "InternalKeyComparator_compare (u @ EncodeFixed64 s) (v @ EncodeFixed64 t) =
     Some (if u \<noteq> v then StrComparator_compare u v else of_bool (s < t) - of_bool (t < s))"
  by (auto simp: InternalKeyComparator_compare_def extract_user_key_def extract_seq_num_def
      NumComparator_compare_def Let_def)

lemma ikey_cmp_eq:
  "ikey_cmp (u @ EncodeFixed64 s) (v @ EncodeFixed64 t) =
     (if u \<noteq> v then StrComparator_compare u v else of_bool (s < t) - of_bool (t < s))"
  by (simp add: ikey_cmp_def InternalKeyComparator_compare_eq)

lemma InternalKeyComparator_compare_Some:
  "wf_ikey a \<Longrightarrow> wf_ikey b \<Longrightarrow> InternalKeyComparator_compare a b = Some (ikey_cmp a b)"
  by (elim ikey_cases) (simp add: ikey_cmp_eq InternalKeyComparator_compare_eq)

lemma InternalKeyComparator_compare_None_iff:
  "InternalKeyComparator_compare a b = None \<longleftrightarrow> \<not> (wf_ikey a \<and> wf_ikey b)"
proof
  assume "InternalKeyComparator_compare a b = None"
  then show "\<not> (wf_ikey a \<and> wf_ikey b)" using InternalKeyComparator_compare_Some by fastforce
next
  assume "\<not> (wf_ikey a \<and> wf_ikey b)"
  then show "InternalKeyComparator_compare a b = None"
    by (auto simp: InternalKeyComparator_compare_def extract_user_key_def Option.bind_def
        split: option.splits)
qed

lemma ikey_cmp_eq_0_iff: "wf_ikey a \<Longrightarrow> wf_ikey b \<Longrightarrow> ikey_cmp a b = 0 \<longleftrightarrow> a = b"
  by (elim ikey_cases) (auto simp: ikey_cmp_eq)

interpretation ikey: comparator ikey_cmp wf_ikey
proof unfold_locales
  fix a b c :: bytes
  assume wf: "wf_ikey a" "wf_ikey b"
  obtain u s where a: "a = u @ EncodeFixed64 s" using wf(1) by (rule ikey_cases)
  obtain v t where b: "b = v @ EncodeFixed64 t" using wf(2) by (rule ikey_cases)
  show "ikey_cmp a b < 0 \<longleftrightarrow> 0 < ikey_cmp b a"
    using Str_neg [of u v] by (auto simp: a b ikey_cmp_eq)
  assume "wf_ikey c"
  then obtain w r where c: "c = w @ EncodeFixed64 r" by (rule ikey_cases)
  assume le: "ikey_cmp a b \<le> 0" "ikey_cmp b c \<le> 0"
  have "StrComparator_compare u v \<le> 0" "StrComparator_compare v w \<le> 0"
    using le by (auto simp: a b c ikey_cmp_eq split: if_splits)
  then have uw: "StrComparator_compare u w \<le> 0" by (rule Str_trans)
  show "ikey_cmp a c \<le> 0"
  proof (cases "u = w")
    case True
    with le have "u = v" using Str_neg [of u v]
      by (auto simp: a b c ikey_cmp_eq split: if_splits)
    with True le show ?thesis by (auto simp: a b c ikey_cmp_eq split: if_splits)
  next
    case False
    with uw show ?thesis by (simp add: a c ikey_cmp_eq)
  qed
qed (elim ikey_cases, simp add: ikey_cmp_eq)

section \<open>Properties\<close>

text \<open>The reference order: byte strings compare lexicographically on unsigned bytes, a proper prefix
  first.\<close>

lemma Str_less_iff_lexord:
  "StrComparator_compare a b < 0 \<longleftrightarrow> (a, b) \<in> lexord {(x, y). x < y}"
  by (induction a b rule: StrComparator_compare.induct) auto

lemma ikey_cmp_less_iff:
  "ikey_cmp (u @ EncodeFixed64 s) (v @ EncodeFixed64 t) < 0 \<longleftrightarrow>
     (u, v) \<in> lexord {(x, y). x < y} \<or> u = v \<and> t < s"
  using Str_less_iff_lexord [of u v] Str_less_iff_lexord [of u u] by (auto simp: ikey_cmp_eq)

lemma InternalKeyComparator_compare_neg:
  "InternalKeyComparator_compare b a = map_option uminus (InternalKeyComparator_compare a b)"
proof (cases "wf_ikey a \<and> wf_ikey b")
  case True
  then obtain u s v t where "a = u @ EncodeFixed64 s" "b = v @ EncodeFixed64 t"
    by (metis ikey_cases)
  then show ?thesis using Str_neg [of v u] by (simp add: InternalKeyComparator_compare_eq)
next
  case False
  then have "InternalKeyComparator_compare a b = None" "InternalKeyComparator_compare b a = None"
    by (auto simp only: InternalKeyComparator_compare_None_iff)
  then show ?thesis by simp
qed

lemma pack_less:
  assumes "q < q'" "q' \<le> kMaxSequenceNumber" "type_code ty \<le> 0xff" "type_code ty' \<le> 0xff"
  shows "pack q ty < pack q' ty'"
proof (rule ccontr)
  assume "\<not> pack q ty < pack q' ty'"
  then have "unat (pack q' ty') div 2 ^ 8 \<le> unat (pack q ty) div 2 ^ 8"
    by (intro div_le_mono) (simp add: word_less_nat_alt)
  then have "unat (drop_bit 8 (pack q' ty')) \<le> unat (drop_bit 8 (pack q ty))"
    unfolding unat_drop_bit_eq by (simp only: drop_bit_eq_div)
  moreover have "q \<le> kMaxSequenceNumber" using assms(1,2) by simp
  ultimately show False
    using assms by (simp add: pack_shift word_less_nat_alt)
qed

text \<open>C32. The internal-key comparator is a total order on the keys of at least eight bytes, and
  aborts on the others. A key sorts before another exactly when its user key is lexicographically
  smaller on unsigned bytes (a proper prefix first), or the user keys are equal and its trailer is
  the larger one; so the versions of one user key stand newest first. The result is 0 only for
  equal keys, swapping the arguments flips the sign, and the order is transitive.\<close>

theorem internal_key_order:
  "(InternalKeyComparator_compare a b = None \<longleftrightarrow> length a < 8 \<or> length b < 8)
   \<and> (\<exists>r. InternalKeyComparator_compare (u @ EncodeFixed64 s) (v @ EncodeFixed64 t) = Some r
        \<and> (r < 0 \<longleftrightarrow> (u, v) \<in> lexord {(x, y). x < y} \<or> u = v \<and> t < s))
   \<and> (q < q' \<and> q' \<le> kMaxSequenceNumber \<and> {ty, ty'} \<subseteq> {kTypeDeletion, kTypeValue} \<longrightarrow>
        InternalKeyComparator_compare (u @ EncodeFixed64 (pack q' ty')) (u @ EncodeFixed64 (pack q ty))
          = Some (- 1))
   \<and> (InternalKeyComparator_compare a b = Some 0 \<longleftrightarrow> a = b \<and> 8 \<le> length a)
   \<and> InternalKeyComparator_compare b a = map_option uminus (InternalKeyComparator_compare a b)
   \<and> (InternalKeyComparator_compare a b = Some r1 \<and> InternalKeyComparator_compare b c = Some r2
        \<and> r1 \<le> 0 \<and> r2 \<le> 0 \<longrightarrow> (\<exists>r \<le> 0. InternalKeyComparator_compare a c = Some r))"
proof (intro conjI impI)
  show "InternalKeyComparator_compare a b = None \<longleftrightarrow> length a < 8 \<or> length b < 8"
    by (auto simp: InternalKeyComparator_compare_None_iff)
  show "\<exists>r. InternalKeyComparator_compare (u @ EncodeFixed64 s) (v @ EncodeFixed64 t) = Some r
      \<and> (r < 0 \<longleftrightarrow> (u, v) \<in> lexord {(x, y). x < y} \<or> u = v \<and> t < s)"
    by (simp add: InternalKeyComparator_compare_Some ikey_cmp_less_iff)
  show "InternalKeyComparator_compare a b = Some 0 \<longleftrightarrow> a = b \<and> 8 \<le> length a"
    using ikey_cmp_eq_0_iff [of a b] InternalKeyComparator_compare_Some [of a b]
      InternalKeyComparator_compare_None_iff [of a b] by (cases "wf_ikey a \<and> wf_ikey b") auto
  show "InternalKeyComparator_compare b a = map_option uminus (InternalKeyComparator_compare a b)"
    by (rule InternalKeyComparator_compare_neg)
next
  assume "q < q' \<and> q' \<le> kMaxSequenceNumber \<and> {ty, ty'} \<subseteq> {kTypeDeletion, kTypeValue}"
  moreover from this have "type_code ty \<le> 0xff" "type_code ty' \<le> 0xff" by auto
  ultimately show "InternalKeyComparator_compare (u @ EncodeFixed64 (pack q' ty'))
      (u @ EncodeFixed64 (pack q ty)) = Some (- 1)"
    using pack_less [of q q' ty ty'] by (simp add: InternalKeyComparator_compare_eq)
next
  assume le: "InternalKeyComparator_compare a b = Some r1 \<and> InternalKeyComparator_compare b c = Some r2
    \<and> r1 \<le> 0 \<and> r2 \<le> 0"
  then have "wf_ikey a" "wf_ikey b" "wf_ikey c"
    using InternalKeyComparator_compare_None_iff by (metis option.distinct(1))+
  then show "\<exists>r \<le> 0. InternalKeyComparator_compare a c = Some r"
    using le ikey.cmp_trans [of a b c] by (simp add: InternalKeyComparator_compare_Some)
qed

theorem internal_key_order_witness:
  "InternalKeyComparator_compare ([0x61] @ EncodeFixed64 (pack 9 kTypeValue))
      ([0x61] @ EncodeFixed64 (pack 1 kTypeDeletion)) = Some (- 1)
   \<and> (\<exists>r \<le> 0. InternalKeyComparator_compare (EncodeFixed64 3) (EncodeFixed64 1) = Some r)"
proof
  show "InternalKeyComparator_compare ([0x61] @ EncodeFixed64 (pack 9 kTypeValue))
      ([0x61] @ EncodeFixed64 (pack 1 kTypeDeletion)) = Some (- 1)"
    using internal_key_order [of "[]" "[]" "[0x61]" 0 "[]" 0 1 9 kTypeDeletion kTypeValue]
    by (simp add: kMaxSequenceNumber_def)
  have "InternalKeyComparator_compare (EncodeFixed64 3) (EncodeFixed64 2) = Some (- 1)"
    "InternalKeyComparator_compare (EncodeFixed64 2) (EncodeFixed64 1) = Some (- 1)"
    using InternalKeyComparator_compare_eq [of "[]" _ "[]"] by simp_all
  then show "\<exists>r \<le> 0. InternalKeyComparator_compare (EncodeFixed64 3) (EncodeFixed64 1) = Some r"
    using internal_key_order [of "EncodeFixed64 3" "EncodeFixed64 2" "[]" 0 "[]" 0 0 0 kTypeValue
        kTypeValue "- 1" "EncodeFixed64 1" "- 1"] by simp
qed

lemma Str_append_same [simp]:
  "StrComparator_compare (p @ a) (p @ b) = StrComparator_compare a b"
  by (induction p) auto

lemma diff_index_split:
  assumes "d = diff_index a b" "d < min (length a) (length b)"
  shows "take d a = take d b" and "a ! d \<noteq> b ! d"
  using assms
  by (induction a b arbitrary: d rule: diff_index.induct) (auto split: if_splits)

text \<open>Splitting two strings at their first difference.\<close>

lemma diff_index_decomp:
  assumes "diff_index a b < min (length a) (length b)"
  shows "\<exists>p x xs y ys. a = p @ x # xs \<and> b = p @ y # ys \<and> x \<noteq> y \<and> length p = diff_index a b"
proof -
  let ?d = "diff_index a b"
  have "a = take ?d a @ a ! ?d # drop (Suc ?d) a"
    using assms by (simp add: id_take_nth_drop)
  moreover have "b = take ?d a @ b ! ?d # drop (Suc ?d) b"
    using assms diff_index_split(1) [OF refl assms] by (simp add: id_take_nth_drop)
  moreover have "length (take ?d a) = ?d" using assms by simp
  ultimately show ?thesis
    using diff_index_split(2) [OF refl assms] by metis
qed

text \<open>C37. The shortest-separator routine is safe to use for index keys: for \<open>start\<close> strictly before
  \<open>limit\<close> it never fails its assertion, and returns a key that is no longer than \<open>start\<close>, not
  before \<open>start\<close> and strictly before \<open>limit\<close>.\<close>

theorem shortest_separator_between:
  assumes "StrComparator_compare start limit < 0"
  shows "\<exists>r. find_shortest_separator start limit = Some r
    \<and> StrComparator_compare start r \<le> 0 \<and> StrComparator_compare r limit < 0
    \<and> length r \<le> length start"
proof (cases "diff_index start limit < min (length start) (length limit)
    \<and> start ! diff_index start limit < 0xff
    \<and> uint (start ! diff_index start limit) + 1 < uint (limit ! diff_index start limit)")
  case False
  then have "find_shortest_separator start limit = Some start"
    by (auto simp: find_shortest_separator_def Let_def)
  with assms show ?thesis by simp
next
  case True
  let ?d = "diff_index start limit"
  obtain p x xs y ys where s: "start = p @ x # xs" and l: "limit = p @ y # ys"
    and p: "length p = ?d"
    using diff_index_decomp [of start limit] True by blast
  have "start ! length p = x" "limit ! length p = y" "take (length p) start = p"
    by (simp_all add: s l)
  then have sx: "start ! ?d = x" and ly: "limit ! ?d = y" and tk: "take ?d start = p"
    by (simp_all only: p)
  have x: "uint x < 255" "uint x + 1 < uint y"
    using True by (simp_all add: sx ly word_less_def)
  then have ux: "uint (x + 1) = uint x + 1"
    by (simp add: uint_word_ariths)
  then have "x < x + 1" "x + 1 < y"
    using x by (simp_all add: word_less_def)
  then have "StrComparator_compare start (p @ [x + 1]) = -1"
    and "StrComparator_compare (p @ [x + 1]) limit = -1"
    by (simp_all add: s l)
  moreover have "find_shortest_separator start limit =
      (if StrComparator_compare (p @ [x + 1]) limit < 0 then Some (p @ [x + 1]) else None)"
    using True by (simp add: find_shortest_separator_def Let_def sx ly tk min_le_iff_disj not_le)
  ultimately show ?thesis by (simp add: s)
qed

theorem shortest_separator_between_witness:
  "\<exists>r. find_shortest_separator [0x61, 0x62, 0x63] [0x61, 0x70] = Some r
    \<and> StrComparator_compare [0x61, 0x62, 0x63] r \<le> 0 \<and> StrComparator_compare r [0x61, 0x70] < 0
    \<and> length r \<le> length [0x61, 0x62, 0x63 :: u8]"
  by (rule shortest_separator_between) simp

lemma promote_signed_ne_255: "promote_char True c \<noteq> 255"
  using sint_less [of c] by (simp add: promote_char_def)

lemma short_successor_unsigned:
  "StrComparator_compare key (find_short_successor False key) \<le> 0"
proof (induction key)
  case (Cons c cs)
  show ?case
  proof (cases "uint c = 255")
    case True
    with Cons show ?thesis by (simp add: promote_char_def)
  next
    case False
    moreover have "uint c < 256" using uint_bounded [of c] by simp
    ultimately have "uint (c + 1) = uint c + 1"
      by (simp add: uint_word_ariths)
    then have "c < c + 1" by (simp add: word_less_def)
    with False show ?thesis by (simp add: promote_char_def)
  qed
qed simp

text \<open>C38. Where \<open>char\<close> is signed, the guard of \<open>find_short_successor\<close> against the byte \<open>0xff\<close> never
  fires: every non-empty key becomes the single byte one above its first. So for every key that
  starts with \<open>0xff\<close> the byte wraps to 0 and the result sorts before the key it should follow;
  for every other key it follows. Where \<open>char\<close> is unsigned the result never sorts before the
  key.\<close>

theorem short_successor_signedness:
  "find_short_successor True (c # cs) = [c + 1]
   \<and> find_short_successor True (0xff # cs) = [0]
   \<and> (StrComparator_compare (find_short_successor True (c # cs)) (c # cs) < 0 \<longleftrightarrow> c = 0xff)
   \<and> StrComparator_compare key (find_short_successor False key) \<le> 0"
proof -
  have "c + 1 < c \<longleftrightarrow> c = 0xff"
  proof (cases "uint c = 255")
    case True
    then have "c = 0xff" by (simp add: word_uint_eq_iff)
    then show ?thesis by simp
  next
    case False
    moreover have "uint c < 256" using uint_bounded [of c] by simp
    ultimately have "uint (c + 1) = uint c + 1" by (simp add: uint_word_ariths)
    then show ?thesis using False by (auto simp: word_less_def)
  qed
  moreover have "c + 1 \<noteq> c" by simp
  ultimately show ?thesis
    using promote_signed_ne_255 short_successor_unsigned [of key] by auto
qed

end
