(* ===== verification/Status.thy ===== *)
theory Status
  imports Lsmkv_Prelude
begin

text \<open>
  \<^verbatim>\<open>utils/status.h\<close>: the result codes every fallible operation returns. The text message a
  status carries (\<open>state_\<close>) is only ever logged and is left out: a status is its code.
\<close>

datatype Status =
  OK | NotFound | Corruption | NotSupported | InvalidArgument | IOError | BGError | Expired

text \<open>The numeric codes of \<open>enum Code\<close>.\<close>

fun code :: "Status \<Rightarrow> u8" where
  "code OK = 0"
| "code NotFound = 1"
| "code Corruption = 2"
| "code NotSupported = 3"
| "code InvalidArgument = 4"
| "code IOError = 5"
| "code BGError = 6"
| "code Expired = 7"

text \<open>The predicates compare codes, as the class does.\<close>

definition ok :: "Status \<Rightarrow> bool" where
  "ok s \<longleftrightarrow> code s = 0"

definition IsNotFound :: "Status \<Rightarrow> bool" where
  "IsNotFound s \<longleftrightarrow> code s = 1"

definition IsCorruption :: "Status \<Rightarrow> bool" where
  "IsCorruption s \<longleftrightarrow> code s = 2"

definition IsExpired :: "Status \<Rightarrow> bool" where
  "IsExpired s \<longleftrightarrow> code s = 7"

lemma status_predicates [simp]:
  "ok s \<longleftrightarrow> s = OK" "IsNotFound s \<longleftrightarrow> s = NotFound"
  "IsCorruption s \<longleftrightarrow> s = Corruption" "IsExpired s \<longleftrightarrow> s = Expired"
  by (cases s; simp add: ok_def IsNotFound_def IsCorruption_def IsExpired_def)+

lemma code_inj: "code a = code b \<longleftrightarrow> a = b"
  by (cases a; cases b; simp)

end
