(* ===== verification/Block_Format.thy ===== *)
theory Block_Format
  imports Comparators Status
begin

text \<open>
  The byte layouts of \<^verbatim>\<open>src/include/block_format.h\<close> and the block builder of
  \<^verbatim>\<open>src/include/builder.h\<close>: entries of a block, block handles, the table footer, the pointer
  records into the value log and the metadata of a table file. Structures that the code copies
  with \<open>memcpy\<close> have the little-endian layout of the hosts the build targets.
\<close>

section \<open>BlockBuilder and ParserBlock\<close>

text \<open>An entry: key size, value size (32 bits each), key, value.\<close>

definition block_entry :: "bytes \<Rightarrow> bytes \<Rightarrow> bytes" where
  "block_entry key value =
     EncodeFixed32 (of_nat (length key)) @ EncodeFixed32 (of_nat (length value)) @ key @ value"

definition BlockBuilder_Add :: "bytes \<Rightarrow> bytes \<Rightarrow> bytes \<Rightarrow> bytes" where
  "BlockBuilder_Add buffer key value = buffer @ block_entry key value"

text \<open>The parser returns its status, the entry it split off and the rest of the block. The sizes
  are added in 32-bit arithmetic, and a block of one to seven bytes is read past its end.\<close>

definition ParserBlock :: "bytes \<Rightarrow> (Status \<times> bytes \<times> bytes) option" where
  "ParserBlock block =
     (if block = [] then Some (Corruption, [], block)
      else do {
        key_size \<leftarrow> DecodeFixed32 block;
        value_size \<leftarrow> DecodeFixed32 (drop 4 block);
        let n = unat (key_size + value_size + 8);
        if length block < n then Some (Corruption, [], block)
        else Some (OK, take n block, drop n block) })"

definition small_entry :: "bytes \<times> bytes \<Rightarrow> bool" where
  "small_entry e \<longleftrightarrow> length (fst e) + length (snd e) + 8 < 2 ^ 32"

definition block_of :: "(bytes \<times> bytes) list \<Rightarrow> bytes" where
  "block_of es = concat (map (\<lambda>(k, v). block_entry k v) es)"

lemma length_block_entry [simp, codec]: "length (block_entry k v) = length k + length v + 8"
  by (simp add: block_entry_def)

lemma block_entry_not_Nil [simp]: "block_entry k v \<noteq> []"
  by (metis length_block_entry add_gr_0 length_greater_0_conv zero_less_numeral)

lemma block_of_simps [simp]:
  "block_of [] = []"
  "block_of (e # es) = block_entry (fst e) (snd e) @ block_of es"
  "block_of (es @ fs) = block_of es @ block_of fs"
  by (simp_all add: block_of_def split_beta)

lemma block_of_eq_Nil [simp]: "block_of es = [] \<longleftrightarrow> es = []"
  by (cases es) auto

lemma BlockBuilder_Add_block_of: "BlockBuilder_Add (block_of es) k v = block_of (es @ [(k, v)])"
  by (simp add: BlockBuilder_Add_def)

lemma block_entry_decode:
  "small_entry (k, v) \<Longrightarrow> DecodeFixed32 (block_entry k v @ rest) = Some (of_nat (length k))"
  "small_entry (k, v) \<Longrightarrow> DecodeFixed32 (drop 4 (block_entry k v) @ rest) = Some (of_nat (length v))"
  by (simp_all add: block_entry_def)

lemma unat_entry_size:
  "small_entry (k, v) \<Longrightarrow>
     unat (of_nat (length k) + of_nat (length v) + 8 :: u32) = length k + length v + 8"
proof -
  assume "small_entry (k, v)"
  then have "unat (of_nat (length k + length v + 8) :: u32) = length k + length v + 8"
    by (intro unat_of_nat_u32) (simp add: small_entry_def)
  then show ?thesis by simp
qed

lemma unat_key_size: "small_entry (k, v) \<Longrightarrow> unat (of_nat (length k) :: u32) = length k"
  by (rule unat_of_nat_u32) (simp add: small_entry_def)

lemma unat_value_size: "small_entry (k, v) \<Longrightarrow> unat (of_nat (length v) :: u32) = length v"
  by (rule unat_of_nat_u32) (simp add: small_entry_def)

lemma ParserBlock_entry [simp]:
  "small_entry (k, v) \<Longrightarrow> ParserBlock (block_entry k v @ rest) = Some (OK, block_entry k v, rest)"
  by (simp add: ParserBlock_def block_entry_decode unat_entry_size Let_def)

lemma ParserBlock_rest_shorter:
  "ParserBlock b = Some (st, entry, rest) \<Longrightarrow> entry \<noteq> [] \<Longrightarrow> length rest < length b"
  by (auto simp: ParserBlock_def Let_def split: if_splits bind_splits)

section \<open>BlockEntryInfo, Footer and VLogEntryInfo\<close>

record BlockEntryInfo =
  be_offset :: u64
  be_size :: u64

definition be_Encode :: "BlockEntryInfo \<Rightarrow> bytes" where
  "be_Encode h = EncodeFixed64 (be_offset h) @ EncodeFixed64 (be_size h)"

text \<open>\<open>Decode\<close> asserts that at least 16 bytes are there and copies them.\<close>

definition be_Decode :: "bytes \<Rightarrow> BlockEntryInfo option" where
  "be_Decode src = (if 16 \<le> length src then do {
     off \<leftarrow> DecodeFixed64 src; sz \<leftarrow> DecodeFixed64 (drop 8 src);
     Some \<lparr>be_offset = off, be_size = sz\<rparr> } else None)"

lemma length_be_Encode [simp, codec]: "length (be_Encode h) = 16"
  by (simp add: be_Encode_def)

lemma be_Decode_Encode [simp, codec]: "be_Decode (be_Encode h @ rest) = Some h"
  by (simp add: be_Decode_def be_Encode_def)

lemma be_Decode_Encode_end [simp, codec]: "be_Decode (be_Encode h) = Some h"
  using be_Decode_Encode [of h "[]"] by simp

definition kTableMagicNumber :: u64 where
  "kTableMagicNumber = 0xdb4775248b80fb57"

record Footer =
  metaindex_handle :: BlockEntryInfo
  index_handle :: BlockEntryInfo
  model_handle :: BlockEntryInfo

definition kBlockInfoLength :: nat where "kBlockInfoLength = 16 * 3"

definition kEncodedLength :: nat where "kEncodedLength = kBlockInfoLength + 8"

definition Footer_Encode :: "Footer \<Rightarrow> bytes" where
  "Footer_Encode f =
     be_Encode (metaindex_handle f) @ be_Encode (index_handle f) @ be_Encode (model_handle f)
     @ EncodeFixed32 (ucast (kTableMagicNumber AND 0xfffffff))
     @ EncodeFixed32 (ucast (drop_bit 32 kTableMagicNumber))"

definition Footer_Decode :: "bytes \<Rightarrow> (Status \<times> Footer) option" where
  "Footer_Decode input = do {
     m \<leftarrow> be_Decode input;
     i \<leftarrow> be_Decode (drop 16 input);
     l \<leftarrow> be_Decode (drop 32 input);
     let f = \<lparr>metaindex_handle = m, index_handle = i, model_handle = l\<rparr>;
     magic_lo \<leftarrow> DecodeFixed32 (drop 48 input);
     if (ucast magic_lo :: u64) \<noteq> kTableMagicNumber AND 0xfffffff then Some (Corruption, f)
     else do {
       magic_hi \<leftarrow> DecodeFixed32 (drop 52 input);
       if (ucast magic_hi :: u64) \<noteq> drop_bit 32 kTableMagicNumber then Some (Corruption, f)
       else Some (OK, f) } }"

lemma length_Footer_Encode [simp, codec]: "length (Footer_Encode f) = kEncodedLength"
  by (simp add: Footer_Encode_def kEncodedLength_def kBlockInfoLength_def)

lemma Footer_Decode_Encode [simp, codec]: "Footer_Decode (Footer_Encode f @ rest) = Some (OK, f)"
  by (simp add: Footer_Decode_def Footer_Encode_def kTableMagicNumber_def Let_def)

record VLogEntryInfo =
  vi_offset :: u64
  vi_file_no :: u32
  vi_length :: u32

definition vi_zero :: VLogEntryInfo where
  "vi_zero = \<lparr>vi_offset = 0, vi_file_no = 0, vi_length = 0\<rparr>"

definition vi_Encode :: "VLogEntryInfo \<Rightarrow> bytes" where
  "vi_Encode i = EncodeFixed64 (vi_offset i) @ EncodeFixed32 (vi_file_no i) @ EncodeFixed32 (vi_length i)"

text \<open>On a size other than 16 the target is left as it was.\<close>

definition vi_Decode :: "VLogEntryInfo \<Rightarrow> bytes \<Rightarrow> (Status \<times> VLogEntryInfo) option" where
  "vi_Decode old src =
     (if length src \<noteq> 16 then Some (Corruption, old)
      else do {
        off \<leftarrow> DecodeFixed64 src; fno \<leftarrow> DecodeFixed32 (drop 8 src);
        len \<leftarrow> DecodeFixed32 (drop 12 src);
        Some (OK, \<lparr>vi_offset = off, vi_file_no = fno, vi_length = len\<rparr>) })"

lemma length_vi_Encode [simp, codec]: "length (vi_Encode i) = 16"
  by (simp add: vi_Encode_def)

lemma vi_Decode_Encode [simp, codec]: "vi_Decode old (vi_Encode i) = Some (OK, i)"
  by (simp add: vi_Decode_def vi_Encode_def)

lemma vi_Decode_total: "\<exists>st i. vi_Decode old src = Some (st, i)"
proof (cases "length src = 16")
  case True
  then obtain a b c where "DecodeFixed64 src = Some a" "DecodeFixed32 (drop 8 src) = Some b"
    "DecodeFixed32 (drop 12 src) = Some c"
    using DecodeFixed64_None_iff [of src] DecodeFixed32_None_iff [of "drop 8 src"]
      DecodeFixed32_None_iff [of "drop 12 src"] by fastforce
  then show ?thesis by (simp add: vi_Decode_def)
qed (simp add: vi_Decode_def)

section \<open>SSTFileMeta\<close>

record SSTFileMeta =
  file_size :: u64
  file_number :: u64
  fm_level :: u32
  vlog_file_no :: u32
  smallest :: InternalKey
  largest :: InternalKey

definition fm_IsValid :: "SSTFileMeta \<Rightarrow> bool" where
  "fm_IsValid m \<longleftrightarrow> file_size m > 0"

definition fm_InRange_query :: "SSTFileMeta \<Rightarrow> QueryKey \<Rightarrow> bool option" where
  "fm_InRange_query m q = do {
     user_key \<leftarrow> qk_user_key q;
     l \<leftarrow> ik_user_key (largest m);
     if StrComparator_compare user_key l \<le> 0 then do {
       s \<leftarrow> ik_user_key (smallest m);
       Some (StrComparator_compare user_key s \<ge> 0) }
     else Some False }"

definition cmp_Max :: "Comparator \<Rightarrow> bytes \<Rightarrow> bytes \<Rightarrow> bytes option" where
  "cmp_Max cmp a b = map_option (\<lambda>r. if r > 0 then a else b) (compare cmp a b)"

definition cmp_Min :: "Comparator \<Rightarrow> bytes \<Rightarrow> bytes \<Rightarrow> bytes option" where
  "cmp_Min cmp a b = map_option (\<lambda>r. if r < 0 then a else b) (compare cmp a b)"

definition fm_InRange :: "SSTFileMeta \<Rightarrow> InternalKey \<Rightarrow> InternalKey \<Rightarrow> Comparator \<Rightarrow> bool option" where
  "fm_InRange m small large cmp = do {
     s \<leftarrow> ik_Encode (smallest m); s' \<leftarrow> ik_Encode small; lo \<leftarrow> cmp_Max cmp s s';
     l \<leftarrow> ik_Encode (largest m); l' \<leftarrow> ik_Encode large; hi \<leftarrow> cmp_Min cmp l l';
     map_option (\<lambda>r. r \<le> 0) (compare cmp lo hi) }"

text \<open>The bytes \<open>Encode\<close> assembles. (The function returns a view of a local string, so the caller
  holds a dangling reference; the model is the content of that string.)\<close>

definition fm_Encode :: "SSTFileMeta \<Rightarrow> bytes option" where
  "fm_Encode m = do {
     s \<leftarrow> ik_Encode (smallest m); l \<leftarrow> ik_Encode (largest m);
     Some (EncodeFixed32 (ik_size (smallest m)) @ EncodeFixed32 (ik_size (largest m)) @ s @ l
       @ EncodeFixed64 (file_number m) @ EncodeFixed64 (file_size m)
       @ EncodeFixed32 (fm_level m) @ EncodeFixed32 (vlog_file_no m)) }"

text \<open>The size test adds two 32-bit sizes to a 64-bit constant: the sum of the sizes wraps at 32
  bits before it is widened.\<close>

definition fm_Decode :: "SSTFileMeta \<Rightarrow> bytes \<Rightarrow> (Status \<times> SSTFileMeta) option" where
  "fm_Decode old src =
     (if length src < 32 then Some (Corruption, old)
      else do {
        ssz \<leftarrow> DecodeFixed32 src; lsz \<leftarrow> DecodeFixed32 (drop 4 src);
        if length src \<noteq> unat (ssz + lsz) + 32 then Some (Corruption, old)
        else do {
          s \<leftarrow> bread 8 (unat ssz) src;
          l \<leftarrow> bread (8 + unat ssz) (unat lsz) src;
          let buf = drop (8 + unat ssz + unat lsz) src;
          fno \<leftarrow> DecodeFixed64 buf; fsz \<leftarrow> DecodeFixed64 (drop 8 buf);
          lvl \<leftarrow> DecodeFixed32 (drop 16 buf); vno \<leftarrow> DecodeFixed32 (drop 20 buf);
          Some (OK, \<lparr>file_size = fsz, file_number = fno, fm_level = lvl, vlog_file_no = vno,
            smallest = ik_DecodeFrom s, largest = ik_DecodeFrom l\<rparr>) } })"

section \<open>Properties\<close>

text \<open>How the readers take an entry apart (\<open>BlockIterator::key\<close> and \<open>value\<close>): the two sizes, then
  as many bytes of key and of value.\<close>

definition entry_key_value :: "bytes \<Rightarrow> (bytes \<times> bytes) option" where
  "entry_key_value entry = do {
     key_size \<leftarrow> DecodeFixed32 entry;
     value_size \<leftarrow> DecodeFixed32 (drop 4 entry);
     key \<leftarrow> bread 8 (unat key_size) entry;
     value \<leftarrow> bread (8 + unat key_size) (unat value_size) entry;
     Some (key, value) }"

fun parse_all :: "nat \<Rightarrow> bytes \<Rightarrow> (bytes \<times> bytes) list option" where
  "parse_all 0 b = None"
| "parse_all (Suc fuel) b =
     (if b = [] then Some []
      else case ParserBlock b of
        Some (OK, entry, rest) \<Rightarrow> do {
          kv \<leftarrow> entry_key_value entry; kvs \<leftarrow> parse_all fuel rest; Some (kv # kvs) }
      | _ \<Rightarrow> None)"

lemma entry_key_value_block_entry [simp]:
  assumes "small_entry (k, v)"
  shows "entry_key_value (block_entry k v) = Some (k, v)"
proof -
  note dec = block_entry_decode [OF assms, where rest = "[]", simplified]
  have "bread 8 (length k) (block_entry k v) = Some k"
    "bread (8 + length k) (length v) (block_entry k v) = Some v"
    by (simp_all add: block_entry_def bread_def)
  then show ?thesis
    by (simp add: entry_key_value_def dec unat_key_size [OF assms] unat_value_size [OF assms])
qed

text \<open>C33. Blocks round trip: adding any list of entries whose sizes fit in 32 bits to an empty
  block builder, one by one, gives a block from which repeated parsing, with key and value taken
  out of each entry by their stored sizes, returns exactly the keys and values that were added, in
  order, and never reads past the end of the block.\<close>

theorem block_roundtrip:
  assumes "\<forall>e \<in> set es. small_entry e"
  shows "parse_all (Suc (length es)) (foldl (\<lambda>b (k, v). BlockBuilder_Add b k v) [] es) = Some es"
proof -
  have "foldl (\<lambda>b (k, v). BlockBuilder_Add b k v) b es = b @ block_of es" for b
    by (induction es arbitrary: b) (auto simp: BlockBuilder_Add_def split_beta)
  moreover have "parse_all (Suc (length es)) (block_of es) = Some es"
    using assms by (induction es) (auto simp: split_beta)
  ultimately show ?thesis by simp
qed

theorem block_roundtrip_witness:
  "parse_all (Suc (length [([0x61 :: u8], [1, 2 :: u8]), ([0x62], [])]))
     (foldl (\<lambda>b (k, v). BlockBuilder_Add b k v) [] [([0x61], [1, 2]), ([0x62], [])])
    = Some [([0x61], [1, 2]), ([0x62], [])]"
  by (rule block_roundtrip) (simp add: small_entry_def)

text \<open>C36. Footer, block handle and value-log pointer survive encoding and decoding, with their
  fixed sizes 56, 16 and 16; decoding a value-log pointer of any other size reports corruption and
  leaves the target unchanged. The mask on the low half of the magic number \<open>0xdb4775248b80fb57\<close>
  has only seven digits: the footer ends with \<open>0x0b80fb57\<close>, 28 bits of the low word, and the
  decoder accepts exactly that, so it would reject the magic number written in full.\<close>

theorem table_records_roundtrip:
  "Footer_Decode (Footer_Encode f @ rest) = Some (OK, f) \<and> length (Footer_Encode f) = 56
   \<and> drop 48 (Footer_Encode f) = EncodeFixed32 0x0b80fb57 @ EncodeFixed32 0xdb477524
   \<and> Footer_Decode (take 48 (Footer_Encode f) @ EncodeFixed32 lo @ EncodeFixed32 hi @ rest)
       = Some (if lo = 0x0b80fb57 \<and> hi = 0xdb477524 then OK else Corruption, f)
   \<and> be_Decode (be_Encode h @ rest) = Some h \<and> length (be_Encode h) = 16
   \<and> vi_Decode old (vi_Encode i) = Some (OK, i) \<and> length (vi_Encode i) = 16
   \<and> (vi_Decode old src = Some (Corruption, old) \<longleftrightarrow> length src \<noteq> 16)"
proof -
  have "vi_Decode old src = Some (Corruption, old) \<longleftrightarrow> length src \<noteq> 16"
    by (auto simp: vi_Decode_def bind_eq_Some_conv)
  moreover have "(ucast lo :: u64) = 0x0b80fb57 \<longleftrightarrow> lo = 0x0b80fb57"
    "(ucast hi :: u64) = 0xdb477524 \<longleftrightarrow> hi = 0xdb477524"
    by (simp_all add: word_uint_eq_iff uint_up_ucast is_up)
  then have "Footer_Decode (take 48 (Footer_Encode f) @ EncodeFixed32 lo @ EncodeFixed32 hi @ rest)
       = Some (if lo = 0x0b80fb57 \<and> hi = 0xdb477524 then OK else Corruption, f)"
    by (simp add: Footer_Decode_def Footer_Encode_def kTableMagicNumber_def Let_def)
  moreover have "drop 48 (Footer_Encode f) = EncodeFixed32 0x0b80fb57 @ EncodeFixed32 0xdb477524"
    by (simp add: Footer_Encode_def kTableMagicNumber_def)
  ultimately show ?thesis by (simp add: kEncodedLength_def kBlockInfoLength_def)
qed

lemma ik_Encode_DecodeFrom:
  "k \<noteq> [] \<Longrightarrow> length k < 2 ^ 32 \<Longrightarrow> ik_Encode (ik_DecodeFrom k) = Some k"
proof -
  assume k: "k \<noteq> []" "length k < 2 ^ 32"
  then have u: "unat (of_nat (length k) :: u32) = length k" by (intro unat_of_nat_u32) simp
  then have "(of_nat (length k) :: u32) \<noteq> 0" using k(1) by (metis length_0_conv unat_0)
  with u show ?thesis by (simp add: ik_Encode_def ik_DecodeFrom_def)
qed

text \<open>File metadata round trip: decoding the encoding of a metadata record whose two boundary
  keys are non-empty and whose sizes together fit in 32 bits succeeds and returns the record
  unchanged, whatever the decoder's target held before.\<close>

lemma file_meta_roundtrip:
  assumes "smallest m = ik_DecodeFrom s" "largest m = ik_DecodeFrom l"
    and "s \<noteq> []" "l \<noteq> []" "length s + length l < 2 ^ 32"
  shows "\<exists>b. fm_Encode m = Some b \<and> fm_Decode old b = Some (OK, m)"
proof -
  have us: "unat (of_nat (length s) :: u32) = length s"
    and ul: "unat (of_nat (length l) :: u32) = length l"
    using assms(5) by (auto intro!: unat_of_nat_u32)
  have usl: "unat (of_nat (length s) + of_nat (length l) :: u32) = length s + length l"
    using unat_of_nat_u32 [of "length s + length l"] assms(5) by simp
  let ?b = "EncodeFixed32 (of_nat (length s)) @ EncodeFixed32 (of_nat (length l)) @ s @ l
       @ EncodeFixed64 (file_number m) @ EncodeFixed64 (file_size m)
       @ EncodeFixed32 (fm_level m) @ EncodeFixed32 (vlog_file_no m)"
  have enc: "fm_Encode m = Some ?b"
    using assms by (simp add: fm_Encode_def ik_Encode_DecodeFrom)
      (simp add: ik_DecodeFrom_def)
  have dec: "fm_Decode old ?b = Some (OK, m)"
    using assms(1,2) by (simp add: fm_Decode_def us ul usl bread_def Let_def)
  from enc dec show ?thesis by blast
qed

end
