(* ===== verification/Block_Iterator.thy ===== *)
theory Block_Iterator
  imports Block_Format
begin

text \<open>
  \<^verbatim>\<open>utils/iterator.h\<close> and the class \<open>BlockIterator\<close> of \<^verbatim>\<open>src/include/block_format.h\<close>. The
  abstract class \<open>Iterator\<close> is the locale \<open>iterator\<close>: a relation says which entries an iterator
  still has to deliver, and the four operations must agree with it. \<open>BlockIterator\<close> is a window
  \<open>[cur_, end_)\<close> of a block buffer.
\<close>

section \<open>The Iterator interface\<close>

locale iterator =
  fixes valid :: "'it \<Rightarrow> bool"
    and nxt :: "'it \<Rightarrow> 'it option"
    and key :: "'it \<Rightarrow> bytes option"
    and val :: "'it \<Rightarrow> bytes option"
    and delivers :: "'it \<Rightarrow> (bytes \<times> bytes) list \<Rightarrow> bool"
  assumes valid_iff: "delivers it es \<Longrightarrow> valid it \<longleftrightarrow> es \<noteq> []"
    and key_hd: "delivers it ((k, v) # es) \<Longrightarrow> key it = Some k"
    and val_hd: "delivers it ((k, v) # es) \<Longrightarrow> val it = Some v"
    and nxt_tl: "delivers it ((k, v) # es) \<Longrightarrow> \<exists>it'. nxt it = Some it' \<and> delivers it' es"

section \<open>BlockIterator\<close>

record BlockIterator =
  bi_cur :: u32
  bi_end :: u32
  bi_cmp :: Comparator
  bi_buf :: bytes

definition SetInValid :: "BlockIterator \<Rightarrow> BlockIterator" where
  "SetInValid it = it\<lparr>bi_cur := 1, bi_end := 0\<rparr>"

definition bi_valid :: "BlockIterator \<Rightarrow> bool" where
  "bi_valid it \<longleftrightarrow> bi_cur it < bi_end it"

definition bi_reset :: "BlockIterator \<Rightarrow> BlockIterator" where
  "bi_reset it = it\<lparr>bi_cur := 0, bi_end := 0, bi_buf := []\<rparr>"

definition bi_seekToFirst :: "BlockIterator \<Rightarrow> BlockIterator" where
  "bi_seekToFirst it = it\<lparr>bi_cur := 0, bi_end := of_nat (length (bi_buf it))\<rparr>"

text \<open>The constructor that takes over a buffer.\<close>

definition mk_BlockIterator :: "bytes \<Rightarrow> Comparator \<Rightarrow> BlockIterator" where
  "mk_BlockIterator s cmp = bi_seekToFirst \<lparr>bi_cur = 0, bi_end = 0, bi_cmp = cmp, bi_buf = s\<rparr>"

text \<open>The loop of the \<open>seek\<close> functions: parse entry after entry until the comparison of the target
  with the entry's key satisfies \<open>stop\<close>. It ends at a malformed entry (\<open>Bad\<close>), at the entry found
  (its address, as the remaining input) or with the input exhausted.\<close>

datatype 'a search = Bad | Found 'a | Exhausted

function find_entry :: "Comparator \<Rightarrow> (int \<Rightarrow> bool) \<Rightarrow> bytes \<Rightarrow> bytes \<Rightarrow> bytes search option" where
  "find_entry cmp stop target input =
     (if input = [] then Some Exhausted
      else case ParserBlock input of
        None \<Rightarrow> None
      | Some (st, entry, rest) \<Rightarrow>
          if \<not> ok st then Some Bad
          else if entry = [] \<or> length entry < 8 then Some Bad
          else case DecodeFixed32 entry of
            None \<Rightarrow> None
          | Some key_size \<Rightarrow>
              (case bread 8 (unat key_size) input of
                None \<Rightarrow> None
              | Some k \<Rightarrow>
                  (case compare cmp target k of
                    None \<Rightarrow> None
                  | Some r \<Rightarrow> if stop r then Some (Found input)
                              else find_entry cmp stop target rest)))"
  by pat_completeness auto
termination
  by (relation "measure (\<lambda>(cmp, stop, target, input). length input)")
    (auto dest: ParserBlock_rest_shorter)

declare find_entry.simps [simp del]

text \<open>The address of a position, as an offset into the buffer kept in 32 bits.\<close>

definition offset_of :: "bytes \<Rightarrow> bytes \<Rightarrow> u32" where
  "offset_of buf input = of_nat (length buf - length input)"

definition bi_seek :: "BlockIterator \<Rightarrow> bytes \<Rightarrow> BlockIterator option" where
  "bi_seek it target =
     map_option (\<lambda>r. case r of
         Found inp \<Rightarrow> it\<lparr>bi_cur := offset_of (bi_buf it) inp, bi_end := of_nat (length (bi_buf it))\<rparr>
       | _ \<Rightarrow> SetInValid it)
     (find_entry (bi_cmp it) (\<lambda>r. r \<le> 0) target (bi_buf it))"

definition bi_seek2 :: "BlockIterator \<Rightarrow> bytes \<Rightarrow> bytes \<Rightarrow> BlockIterator option" where
  "bi_seek2 it K1 K2 = do {
     let buf = bi_buf it;
     r1 \<leftarrow> find_entry (bi_cmp it) (\<lambda>r. r \<le> 0) K1 buf;
     case r1 of
       Bad \<Rightarrow> Some (SetInValid it)
     | _ \<Rightarrow> do {
         let cur = (case r1 of Found inp \<Rightarrow> offset_of buf inp | _ \<Rightarrow> of_nat (length buf));
         if unat cur = length buf then Some (SetInValid it)
         else do {
           r2 \<leftarrow> find_entry (bi_cmp it) (\<lambda>r. r < 0) K2 (drop (unat cur) buf);
           case r2 of
             Bad \<Rightarrow> Some (SetInValid it)
           | Found inp \<Rightarrow> Some (it\<lparr>bi_cur := cur, bi_end := offset_of buf inp\<rparr>)
           | Exhausted \<Rightarrow> Some (it\<lparr>bi_cur := cur, bi_end := of_nat (length buf)\<rparr>) } } }"

definition bi_next :: "BlockIterator \<Rightarrow> BlockIterator option" where
  "bi_next it =
     (if bi_valid it then do {
        (st, entry, rest) \<leftarrow> ParserBlock (drop (unat (bi_cur it)) (bi_buf it));
        if \<not> ok st then Some (SetInValid it)
        else Some (it\<lparr>bi_cur := bi_cur it + of_nat (length entry)\<rparr>) }
      else None)"

definition bi_AppendNext :: "BlockIterator \<Rightarrow> BlockIterator option" where
  "bi_AppendNext it =
     (if bi_cur it \<le> bi_end it \<and> unat (bi_end it) \<noteq> length (bi_buf it) then do {
        (st, entry, rest) \<leftarrow> ParserBlock (drop (unat (bi_end it)) (bi_buf it));
        if \<not> ok st then Some (SetInValid it)
        else if entry = [] \<or> length entry < 8 then Some (SetInValid it)
        else Some (it\<lparr>bi_end := bi_end it + of_nat (length entry)\<rparr>) }
      else Some it)"

definition bi_key :: "BlockIterator \<Rightarrow> bytes option" where
  "bi_key it = do {
     let cur = unat (bi_cur it);
     n \<leftarrow> DecodeFixed32 (drop cur (bi_buf it));
     bread (cur + 8) (unat n) (bi_buf it) }"

definition bi_value :: "BlockIterator \<Rightarrow> bytes option" where
  "bi_value it = do {
     let cur = unat (bi_cur it);
     n \<leftarrow> DecodeFixed32 (drop cur (bi_buf it));
     m \<leftarrow> DecodeFixed32 (drop (cur + 4) (bi_buf it));
     bread (cur + 8 + unat n) (unat m) (bi_buf it) }"

section \<open>BlockIterator implements Iterator\<close>

text \<open>The window of the iterator is the block of \<open>es\<close>, somewhere inside a buffer whose size fits
  32 bits; or the iterator is invalid and there is nothing left.\<close>

definition window :: "BlockIterator \<Rightarrow> bytes \<Rightarrow> (bytes \<times> bytes) list \<Rightarrow> bytes \<Rightarrow> bool" where
  "window it pre es post \<longleftrightarrow>
     bi_buf it = pre @ block_of es @ post
     \<and> bi_cur it = of_nat (length pre) \<and> bi_end it = of_nat (length pre + length (block_of es))
     \<and> length (bi_buf it) < 2 ^ 32 \<and> (\<forall>e \<in> set es. small_entry e)"

definition bi_delivers :: "BlockIterator \<Rightarrow> (bytes \<times> bytes) list \<Rightarrow> bool" where
  "bi_delivers it es \<longleftrightarrow> es = [] \<and> \<not> bi_valid it \<or> (\<exists>pre post. window it pre es post)"

lemma window_unat:
  assumes "window it pre es post"
  shows "unat (bi_cur it) = length pre" "unat (bi_end it) = length pre + length (block_of es)"
proof -
  have "length pre + length (block_of es) < 2 ^ 32" "length pre < 2 ^ 32"
    using assms by (auto simp: window_def)
  then show "unat (bi_cur it) = length pre" "unat (bi_end it) = length pre + length (block_of es)"
    using assms unat_of_nat_u32 [of "length pre"] unat_of_nat_u32 [of "length pre + length (block_of es)"]
    by (simp_all add: window_def)
qed

lemma window_valid: "window it pre es post \<Longrightarrow> bi_valid it \<longleftrightarrow> es \<noteq> []"
  using window_unat [of it pre es post] by (simp add: bi_valid_def word_less_nat_alt)

lemma SetInValid_delivers [simp]: "bi_delivers (SetInValid it) []" "\<not> bi_valid (SetInValid it)"
  by (simp_all add: bi_delivers_def SetInValid_def bi_valid_def)

lemma window_Cons:
  assumes "window it pre ((k, v) # es) post"
  shows "bi_key it = Some k" "bi_value it = Some v"
    "\<exists>it'. bi_next it = Some it' \<and> window it' (pre @ block_entry k v) es post"
proof -
  have sm: "small_entry (k, v)" and buf: "bi_buf it = pre @ block_entry k v @ block_of es @ post"
    using assms by (auto simp: window_def)
  note u = window_unat [OF assms] unat_key_size [OF sm] unat_value_size [OF sm]
  have d4: "drop (length pre + 4) (bi_buf it) = drop 4 (block_entry k v) @ block_of es @ post"
    using buf by simp
  show "bi_key it = Some k"
    using buf by (simp add: bi_key_def u block_entry_decode [OF sm] Let_def) (simp add: block_entry_def bread_def)
  show "bi_value it = Some v"
    using buf d4 by (simp add: bi_value_def u block_entry_decode [OF sm] Let_def)
      (simp add: block_entry_def bread_def)
  have v: "bi_valid it" using window_valid [OF assms] by simp
  have "drop (unat (bi_cur it)) (bi_buf it) = block_entry k v @ block_of es @ post"
    using buf by (simp add: u)
  then have nx: "bi_next it = Some (it\<lparr>bi_cur := bi_cur it + of_nat (length (block_entry k v))\<rparr>)"
    using v sm by (simp add: bi_next_def)
  have "window (it\<lparr>bi_cur := bi_cur it + of_nat (length (block_entry k v))\<rparr>) (pre @ block_entry k v) es post"
    using assms buf by (auto simp: window_def algebra_simps)
  with nx show "\<exists>it'. bi_next it = Some it' \<and> window it' (pre @ block_entry k v) es post"
    by blast
qed

interpretation block_it: iterator bi_valid bi_next bi_key bi_value bi_delivers
proof unfold_locales
  fix it es
  assume "bi_delivers it es"
  then show "bi_valid it \<longleftrightarrow> es \<noteq> []"
    by (auto simp: bi_delivers_def window_valid)
next
  fix it k v es
  assume "bi_delivers it ((k, v) # es)"
  then obtain pre post where w: "window it pre ((k, v) # es) post"
    by (auto simp: bi_delivers_def)
  show "bi_key it = Some k" "bi_value it = Some v"
    "\<exists>it'. bi_next it = Some it' \<and> bi_delivers it' es"
    using window_Cons [OF w] by (auto simp: bi_delivers_def)
qed

lemma mk_BlockIterator_delivers:
  assumes "length (block_of es) < 2 ^ 32" "\<forall>e \<in> set es. small_entry e"
  shows "bi_delivers (mk_BlockIterator (block_of es) cmp) es"
proof -
  have "window (mk_BlockIterator (block_of es) cmp) [] es []"
    using assms by (simp add: window_def mk_BlockIterator_def bi_seekToFirst_def)
  then show ?thesis unfolding bi_delivers_def by blast
qed

section \<open>Seeking\<close>

text \<open>On a well-formed block, the search loop is a \<open>dropWhile\<close> over the entries.\<close>

lemma find_entry_block:
  assumes "\<forall>e \<in> set es. small_entry e" "\<forall>e \<in> set es. compare cmp target (fst e) = Some (c (fst e))"
  shows "find_entry cmp stop target (block_of es) =
     Some (case dropWhile (\<lambda>e. \<not> stop (c (fst e))) es of [] \<Rightarrow> Exhausted
           | e # fs \<Rightarrow> Found (block_of (e # fs)))"
  using assms
proof (induction es)
  case Nil
  then show ?case by (simp add: find_entry.simps)
next
  case (Cons e es)
  obtain k v where e: "e = (k, v)" by (cases e)
  have sm: "small_entry (k, v)" using Cons.prems e by simp
  have b: "bread 8 (length k) (block_entry k v @ block_of es) = Some k"
    by (simp add: block_entry_def bread_def)
  show ?case
    using Cons sm b
    by (subst find_entry.simps)
      (simp add: e block_entry_decode [OF sm, where rest = "[]", simplified] unat_key_size [OF sm])
qed

lemma dropWhile_suffix: "\<exists>ys. xs = ys @ dropWhile P xs"
  by (metis takeWhile_dropWhile_id)

lemma bi_seek_window:
  assumes "bi_buf it = block_of es" "length (block_of es) < 2 ^ 32" "\<forall>e \<in> set es. small_entry e"
    "\<forall>e \<in> set es. compare (bi_cmp it) target (fst e) = Some (c (fst e))"
  shows "\<exists>it'. bi_seek it target = Some it'
    \<and> bi_delivers it' (dropWhile (\<lambda>e. \<not> c (fst e) \<le> 0) es) \<and> bi_buf it' = bi_buf it"
proof -
  define ds where "ds = dropWhile (\<lambda>e. \<not> c (fst e) \<le> 0) es"
  obtain ys where ys: "es = ys @ ds" unfolding ds_def using dropWhile_suffix by blast
  have fe: "find_entry (bi_cmp it) (\<lambda>r. r \<le> 0) target (bi_buf it) =
      Some (case ds of [] \<Rightarrow> Exhausted | e # fs \<Rightarrow> Found (block_of (e # fs)))"
    unfolding assms(1) ds_def by (rule find_entry_block [OF assms(3,4)])
  have buf: "bi_buf it = block_of ys @ block_of ds"
    by (simp add: assms(1) ys)
  have "\<exists>it'. bi_seek it target = Some it' \<and> bi_delivers it' ds \<and> bi_buf it' = bi_buf it"
  proof (cases ds)
    case Nil
    then have "bi_seek it target = Some (SetInValid it)"
      by (simp add: bi_seek_def fe)
    then show ?thesis by (simp add: Nil) (simp add: SetInValid_def)
  next
    case (Cons e fs)
    let ?it = "it\<lparr>bi_cur := offset_of (bi_buf it) (block_of ds), bi_end := of_nat (length (bi_buf it))\<rparr>"
    have "window ?it (block_of ys) ds []"
      using assms(1,2,3) ys by (auto simp: window_def offset_of_def)
    then have "bi_delivers ?it ds" unfolding bi_delivers_def by blast
    moreover have "bi_seek it target = Some ?it"
      by (simp add: bi_seek_def fe Cons)
    ultimately show ?thesis by auto
  qed
  then show ?thesis by (simp add: ds_def)
qed

lemma bi_seek2_split:
  assumes "bi_buf it = block_of es" "length (block_of es) < 2 ^ 32" "\<forall>e \<in> set es. small_entry e"
    "\<forall>e \<in> set es. compare (bi_cmp it) K1 (fst e) = Some (c1 (fst e))"
    "\<forall>e \<in> set es. compare (bi_cmp it) K2 (fst e) = Some (c2 (fst e))"
  defines "ds \<equiv> dropWhile (\<lambda>e. \<not> c1 (fst e) \<le> 0) es"
  shows "ds = [] \<Longrightarrow> bi_seek2 it K1 K2 = Some (SetInValid it)"
    and "ds \<noteq> [] \<Longrightarrow> \<exists>it'. bi_seek2 it K1 K2 = Some it' \<and>
      window it' (block_of (takeWhile (\<lambda>e. \<not> c1 (fst e) \<le> 0) es)) (takeWhile (\<lambda>e. \<not> c2 (fst e) < 0) ds)
        (block_of (dropWhile (\<lambda>e. \<not> c2 (fst e) < 0) ds)) \<and> bi_buf it' = bi_buf it"
proof -
  define ts where "ts = takeWhile (\<lambda>e. \<not> c2 (fst e) < 0) ds"
  define rs where "rs = dropWhile (\<lambda>e. \<not> c2 (fst e) < 0) ds"
  define ys where "ys = takeWhile (\<lambda>e. \<not> c1 (fst e) \<le> 0) es"
  have ys: "es = ys @ ds" by (simp add: ys_def ds_def)
  have ds: "ds = ts @ rs" by (simp add: ts_def rs_def)
  have f1: "find_entry (bi_cmp it) (\<lambda>r. r \<le> 0) K1 (bi_buf it) =
      Some (case ds of [] \<Rightarrow> Exhausted | e # fs \<Rightarrow> Found (block_of (e # fs)))"
    unfolding assms(1) ds_def by (rule find_entry_block [OF assms(3,4)])
  have f2: "find_entry (bi_cmp it) (\<lambda>r. r < 0) K2 (block_of ds) =
      Some (case rs of [] \<Rightarrow> Exhausted | e # fs \<Rightarrow> Found (block_of (e # fs)))"
    using ys assms(3,5) unfolding rs_def by (intro find_entry_block) auto
  have buf: "bi_buf it = block_of ys @ block_of ds"
    by (simp add: assms(1) ys)
  have lenlt: "length (block_of ys) + length (block_of ds) < 2 ^ 32"
    using assms(1,2) buf by (metis length_append)
  {
    assume "ds = []"
    moreover have "unat (of_nat (length (bi_buf it)) :: u32) = length (bi_buf it)"
      using assms(1,2) by (intro unat_of_nat_u32) simp
    ultimately show "bi_seek2 it K1 K2 = Some (SetInValid it)"
      by (simp add: bi_seek2_def f1 Let_def)
  }
  assume "ds \<noteq> []"
  then obtain e fs where Cons: "ds = e # fs" by (cases ds) auto
  let ?en = "of_nat (length (block_of ys) + length (block_of ts)) :: u32"
  let ?it = "it\<lparr>bi_cur := of_nat (length (block_of ys)), bi_end := ?en\<rparr>"
  have cur: "offset_of (bi_buf it) (block_of ds) = of_nat (length (block_of ys))"
    unfolding offset_of_def buf by simp
  have en: "offset_of (bi_buf it) (block_of rs) = ?en"
    unfolding offset_of_def buf ds by simp
  have en': "rs = [] \<Longrightarrow> of_nat (length (bi_buf it)) = ?en"
    unfolding buf ds by simp
  have ucur: "unat (of_nat (length (block_of ys)) :: u32) = length (block_of ys)"
    using lenlt by (intro unat_of_nat_u32) simp
  have dr: "drop (length (block_of ys)) (bi_buf it) = block_of ds" by (simp add: buf)
  have r1: "(case ds of [] \<Rightarrow> Exhausted | e # fs \<Rightarrow> Found (block_of (e # fs))) = Found (block_of ds)"
    by (simp add: Cons)
  have ne: "length (block_of ys) \<noteq> length (bi_buf it)" using Cons by (simp add: buf)
  have sk: "bi_seek2 it K1 K2 = Some ?it"
    unfolding bi_seek2_def Let_def f1 r1
    using ne en en' by (cases rs) (simp_all add: cur ucur dr f2)
  have "window ?it (block_of ys) ts (block_of rs)"
    using assms(1,2,3) ys ds by (auto simp: window_def)
  with sk show "\<exists>it'. bi_seek2 it K1 K2 = Some it' \<and>
      window it' (block_of (takeWhile (\<lambda>e. \<not> c1 (fst e) \<le> 0) es)) (takeWhile (\<lambda>e. \<not> c2 (fst e) < 0) ds)
        (block_of (dropWhile (\<lambda>e. \<not> c2 (fst e) < 0) ds)) \<and> bi_buf it' = bi_buf it"
    unfolding ys_def ts_def rs_def by (intro exI [of _ ?it]) (simp add: ys_def ts_def)
qed

lemma bi_seek2_window:
  assumes "bi_buf it = block_of es" "length (block_of es) < 2 ^ 32" "\<forall>e \<in> set es. small_entry e"
    "\<forall>e \<in> set es. compare (bi_cmp it) K1 (fst e) = Some (c1 (fst e))"
    "\<forall>e \<in> set es. compare (bi_cmp it) K2 (fst e) = Some (c2 (fst e))"
  shows "\<exists>it'. bi_seek2 it K1 K2 = Some it'
    \<and> bi_delivers it' (takeWhile (\<lambda>e. \<not> c2 (fst e) < 0) (dropWhile (\<lambda>e. \<not> c1 (fst e) \<le> 0) es))
    \<and> bi_buf it' = bi_buf it"
proof (cases "dropWhile (\<lambda>e. \<not> c1 (fst e) \<le> 0) es = []")
  case True
  have "bi_delivers (SetInValid it) (takeWhile (\<lambda>e. \<not> c2 (fst e) < 0) (dropWhile (\<lambda>e. \<not> c1 (fst e) \<le> 0) es))"
    unfolding True by simp
  moreover have "bi_buf (SetInValid it) = bi_buf it" by (simp add: SetInValid_def)
  ultimately show ?thesis using bi_seek2_split(1) [OF assms True] by blast
next
  case False
  then show ?thesis using bi_seek2_split(2) [OF assms False] unfolding bi_delivers_def by blast
qed

lemma bi_AppendNext_window:
  assumes "window it pre es (block_of (e # rs))" "small_entry e"
  shows "\<exists>it'. bi_AppendNext it = Some it' \<and> window it' pre (es @ [e]) (block_of rs)"
proof -
  obtain k v where e: "e = (k, v)" by (cases e)
  note u = window_unat [OF assms(1)]
  have buf: "bi_buf it = (pre @ block_of es) @ block_entry k v @ block_of rs"
    using assms(1) e by (simp add: window_def)
  have "bi_cur it \<le> bi_end it" using u by (simp add: word_le_nat_alt)
  moreover have "unat (bi_end it) \<noteq> length (bi_buf it)" unfolding u buf by simp
  moreover have "drop (unat (bi_end it)) (bi_buf it) = block_entry k v @ block_of rs" unfolding u buf by simp
  ultimately have "bi_AppendNext it = Some (it\<lparr>bi_end := bi_end it + of_nat (length (block_entry k v))\<rparr>)"
    using assms(2) e by (simp add: bi_AppendNext_def)
  moreover have "window (it\<lparr>bi_end := bi_end it + of_nat (length (block_entry k v))\<rparr>) pre (es @ [e]) (block_of rs)"
    using assms e unfolding window_def by (auto simp: algebra_simps)
  ultimately show ?thesis by blast
qed

lemma bi_AppendNext_end: "window it pre es [] \<Longrightarrow> bi_AppendNext it = Some it"
proof -
  assume w: "window it pre es []"
  then have "length (bi_buf it) = length pre + length (block_of es)" by (simp add: window_def)
  then show ?thesis using window_unat(2) [OF w] by (simp add: bi_AppendNext_def)
qed

section \<open>Properties\<close>

text \<open>C14. Seeking in a well-formed block finds the first entry that is not before the target and
  then delivers exactly the rest of the block; seeking a range delivers exactly the entries from
  the first one not before \<open>lo\<close> up to the first one after \<open>hi\<close>. Neither reads outside the block.\<close>

theorem block_seek_correct:
  assumes "bi_buf it = block_of es" "length (block_of es) < 2 ^ 32" "\<forall>e \<in> set es. small_entry e"
    and "\<forall>e \<in> set es. compare (bi_cmp it) lo (fst e) = Some (clo (fst e))"
    and "\<forall>e \<in> set es. compare (bi_cmp it) hi (fst e) = Some (chi (fst e))"
  shows "(\<exists>it'. bi_seek it lo = Some it'
      \<and> bi_delivers it' (dropWhile (\<lambda>e. \<not> clo (fst e) \<le> 0) es))
    \<and> (\<exists>it'. bi_seek2 it lo hi = Some it'
      \<and> bi_delivers it' (takeWhile (\<lambda>e. \<not> chi (fst e) < 0) (dropWhile (\<lambda>e. \<not> clo (fst e) \<le> 0) es)))"
  using bi_seek_window [OF assms(1-4)] bi_seek2_window [OF assms] by blast

theorem block_seek_correct_witness:
  "\<exists>it'. bi_seek (mk_BlockIterator (block_of [([0x61], [1]), ([0x63], [2])]) CStr) [0x62] = Some it'
      \<and> bi_delivers it' [([0x63], [2])]"
proof -
  let ?es = "[([0x61], [1]), ([0x63], [2])] :: (bytes \<times> bytes) list"
  let ?it = "mk_BlockIterator (block_of ?es) CStr"
  have "\<exists>it'. bi_seek ?it [0x62] = Some it'
      \<and> bi_delivers it' (dropWhile (\<lambda>e. \<not> StrComparator_compare [0x62] (fst e) \<le> 0) ?es)"
    by (rule conjunct1 [OF block_seek_correct [where clo = "StrComparator_compare [0x62]" and hi = "[]"
          and chi = "StrComparator_compare []"]])
      (simp_all add: mk_BlockIterator_def bi_seekToFirst_def small_entry_def)
  then show ?thesis by simp
qed

end
