(* ===== verification/Bloom_Filter.thy ===== *)
theory Bloom_Filter
  imports Dbformat
begin

text \<open>
  \<^verbatim>\<open>utils/MurmurHash3.h\<close>, \<^verbatim>\<open>utils/bloomfilter.h\<close> and the class \<open>FilterBlockBuilder\<close> of
  \<^verbatim>\<open>src/include/builder.h\<close>: the 128-bit hash, the filter it fills and the per-table filter
  block. The hash bytes are read back as four 32-bit words of a little-endian host.
\<close>

section \<open>MurmurHash3\<close>

definition rotl64 :: "u64 \<Rightarrow> nat \<Rightarrow> u64" where
  "rotl64 x r = push_bit r x OR drop_bit (64 - r) x"

definition fmix64 :: "u64 \<Rightarrow> u64" where
  "fmix64 k =
     (let k = k XOR drop_bit 33 k; k = k * 0xff51afd7ed558ccd;
          k = k XOR drop_bit 33 k; k = k * 0xc4ceb9fe1a85ec53
      in k XOR drop_bit 33 k)"

definition murmur_c1 :: u64 where "murmur_c1 = 0x87c37b91114253d5"
definition murmur_c2 :: u64 where "murmur_c2 = 0x4cf5ad432745937f"

definition mix_k1 :: "u64 \<Rightarrow> u64" where
  "mix_k1 k1 = rotl64 (k1 * murmur_c1) 31 * murmur_c2"

definition mix_k2 :: "u64 \<Rightarrow> u64" where
  "mix_k2 k2 = rotl64 (k2 * murmur_c2) 33 * murmur_c1"

text \<open>One round of the body: two 64-bit words of the key.\<close>

definition murmur_round :: "u64 \<Rightarrow> u64 \<Rightarrow> u64 \<times> u64 \<Rightarrow> u64 \<times> u64" where
  "murmur_round k1 k2 = (\<lambda>(h1, h2).
     let h1 = h1 XOR mix_k1 k1; h1 = rotl64 h1 27; h1 = h1 + h2; h1 = h1 * 5 + 0x52dce729;
         h2 = h2 XOR mix_k2 k2; h2 = rotl64 h2 31; h2 = h2 + h1; h2 = h2 * 5 + 0x38495ab5
     in (h1, h2))"

primrec murmur_body :: "nat \<Rightarrow> bytes \<Rightarrow> u64 \<times> u64 \<Rightarrow> (u64 \<times> u64) option" where
  "murmur_body 0 data h = Some h"
| "murmur_body (Suc n) data h = do {
     k1 \<leftarrow> DecodeFixed64 data; k2 \<leftarrow> DecodeFixed64 (drop 8 data);
     murmur_body n (drop 16 data) (murmur_round k1 k2 h) }"

text \<open>The tail: the \<open>switch\<close> on \<open>len & 15\<close> falls through from the highest byte down to byte 0.\<close>

definition tail_word :: "bytes \<Rightarrow> nat \<Rightarrow> nat \<Rightarrow> u64" where
  "tail_word tail lo hi =
     foldl (\<lambda>k i. k XOR push_bit (8 * (i - lo)) (ucast (tail ! i))) 0 (rev [lo..<hi])"

definition murmur_tail :: "bytes \<Rightarrow> nat \<Rightarrow> u64 \<times> u64 \<Rightarrow> u64 \<times> u64" where
  "murmur_tail tail r = (\<lambda>(h1, h2).
     (if 1 \<le> r then h1 XOR mix_k1 (tail_word tail 0 (min r 8)) else h1,
      if 9 \<le> r then h2 XOR mix_k2 (tail_word tail 8 r) else h2))"

definition murmur_finish :: "nat \<Rightarrow> u64 \<times> u64 \<Rightarrow> u64 \<times> u64" where
  "murmur_finish len = (\<lambda>(h1, h2).
     let h1 = h1 XOR of_nat len; h2 = h2 XOR of_nat len;
         h1 = h1 + h2; h2 = h2 + h1;
         h1 = fmix64 h1; h2 = fmix64 h2;
         h1 = h1 + h2; h2 = h2 + h1
     in (h1, h2))"

definition MurmurHash3_x64_128 :: "bytes \<Rightarrow> u32 \<Rightarrow> bytes option" where
  "MurmurHash3_x64_128 key seed = do {
     let nblocks = length key div 16;
     h \<leftarrow> murmur_body nblocks key (ucast seed, ucast seed);
     let h' = murmur_finish (length key) (murmur_tail (drop (nblocks * 16) key) (length key mod 16) h);
     Some (EncodeFixed64 (fst h') @ EncodeFixed64 (snd h')) }"

text \<open>\<open>std::array<uint32_t, 4> hash\<close>, filled through a \<open>char *\<close>, with the seed 1.\<close>

definition hash_words :: "bytes \<Rightarrow> u32 list option" where
  "hash_words key = do {
     out \<leftarrow> MurmurHash3_x64_128 key 1;
     a \<leftarrow> DecodeFixed32 out; b \<leftarrow> DecodeFixed32 (drop 4 out);
     c \<leftarrow> DecodeFixed32 (drop 8 out); d \<leftarrow> DecodeFixed32 (drop 12 out);
     Some [a, b, c, d] }"

lemma murmur_body_total: "16 * n \<le> length data \<Longrightarrow> \<exists>h'. murmur_body n data h = Some h'"
proof (induction n arbitrary: data h)
  case (Suc n)
  obtain k1 where "DecodeFixed64 data = Some k1"
    using Suc.prems DecodeFixed64_None_iff [of data] by fastforce
  moreover obtain k2 where "DecodeFixed64 (drop 8 data) = Some k2"
    using Suc.prems DecodeFixed64_None_iff [of "drop 8 data"] by fastforce
  ultimately show ?case using Suc.IH [of "drop 16 data"] Suc.prems by simp
qed simp

lemma MurmurHash3_total: "\<exists>out. MurmurHash3_x64_128 key seed = Some out \<and> length out = 16"
proof -
  obtain h where "murmur_body (length key div 16) key (ucast seed, ucast seed) = Some h"
    using murmur_body_total [of "length key div 16" key "(ucast seed, ucast seed)"] by auto
  then show ?thesis
    by (simp add: MurmurHash3_x64_128_def Let_def split: prod.split)
qed

lemma hash_words_total: "\<exists>hs. hash_words key = Some hs \<and> length hs = 4"
proof -
  obtain out where out: "MurmurHash3_x64_128 key 1 = Some out" "length out = 16"
    using MurmurHash3_total by blast
  then obtain a b c d where "DecodeFixed32 out = Some a" "DecodeFixed32 (drop 4 out) = Some b"
    "DecodeFixed32 (drop 8 out) = Some c" "DecodeFixed32 (drop 12 out) = Some d"
    using DecodeFixed32_None_iff [of out] DecodeFixed32_None_iff [of "drop 4 out"]
      DecodeFixed32_None_iff [of "drop 8 out"] DecodeFixed32_None_iff [of "drop 12 out"]
    by fastforce
  with out show ?thesis by (simp add: hash_words_def)
qed

section \<open>The filter\<close>

definition use_double_k :: bool where "use_double_k = False"

definition bloom_size :: nat where "bloom_size = 8192"

text \<open>The bit positions derived from one hash word: the word, and with \<open>double_k\<close> also the word
  plus its rotation.\<close>

definition probes :: "bool \<Rightarrow> u32 \<Rightarrow> u32 list" where
  "probes double_k h = (if double_k then [h, h + (drop_bit 17 h OR push_bit 15 h)] else [h])"

text \<open>\<open>array[bitpos / 8] |= 1 << (bitpos % 8)\<close>.\<close>

definition set_bit_at :: "nat \<Rightarrow> bytes \<Rightarrow> bytes" where
  "set_bit_at bitpos a = a[bitpos div 8 := a ! (bitpos div 8) OR push_bit (bitpos mod 8) 1]"

definition test_bit_at :: "nat \<Rightarrow> bytes \<Rightarrow> bool" where
  "test_bit_at bitpos a \<longleftrightarrow> a ! (bitpos div 8) AND push_bit (bitpos mod 8) 1 \<noteq> 0"

definition add_hash :: "bool \<Rightarrow> nat \<Rightarrow> u32 \<Rightarrow> bytes \<Rightarrow> bytes" where
  "add_hash double_k filter_size h a = fold (\<lambda>p. set_bit_at (unat p mod filter_size)) (probes double_k h) a"

text \<open>A filter of size 0 would divide by zero.\<close>

primrec add_keys :: "bool \<Rightarrow> nat \<Rightarrow> bytes list \<Rightarrow> bytes \<Rightarrow> bytes option" where
  "add_keys double_k filter_size [] a = Some a"
| "add_keys double_k filter_size (k # ks) a = (if filter_size = 0 then None else do {
     hs \<leftarrow> hash_words k;
     add_keys double_k filter_size ks (fold (add_hash double_k filter_size) hs a) })"

definition CreateFilter :: "bytes list \<Rightarrow> bytes \<Rightarrow> bytes option" where
  "CreateFilter keys dst = add_keys use_double_k (length dst * 8) keys dst"

text \<open>The overload that sizes the filter itself (used by the tests): the target is empty, the keys
  are visited with stride \<open>len\<close>, and two probes are always set.\<close>

definition CreateFilter_sized :: "bytes list \<Rightarrow> nat \<Rightarrow> nat \<Rightarrow> nat \<Rightarrow> bytes option" where
  "CreateFilter_sized keys n len new_bloom_size =
     (if \<forall>i < n. len * i < length keys
      then add_keys True (new_bloom_size * 8) (map (\<lambda>i. keys ! (len * i)) [0..<n])
             (replicate new_bloom_size 0)
      else None)"

definition KeyMayMatch :: "bytes \<Rightarrow> bytes \<Rightarrow> bool option" where
  "KeyMayMatch key bloom_filter =
     (if length bloom_filter < 2 then Some False
      else map_option (list_all (\<lambda>h. list_all (\<lambda>p. test_bit_at (unat p mod (length bloom_filter * 8)) bloom_filter)
             (probes use_double_k h))) (hash_words key))"

section \<open>Filters only grow\<close>

definition covers :: "bytes \<Rightarrow> bytes \<Rightarrow> bool" where
  "covers a b \<longleftrightarrow> length a = length b \<and> (\<forall>p < 8 * length a. test_bit_at p a \<longrightarrow> test_bit_at p b)"

lemma covers_refl [simp]: "covers a a" and covers_trans: "covers a b \<Longrightarrow> covers b c \<Longrightarrow> covers a c"
  by (auto simp: covers_def)

lemma length_set_bit_at [simp]: "length (set_bit_at p a) = length a"
  by (simp add: set_bit_at_def)

lemma test_bit_at_iff: "test_bit_at p a \<longleftrightarrow> bit (a ! (p div 8)) (p mod 8)"
proof -
  have "p mod 8 < LENGTH(8)" by simp
  then show ?thesis
    by (simp add: test_bit_at_def bit_iff_and_push_bit_not_eq_0)
qed

lemma test_set_bit_at:
  assumes "p < 8 * length a"
  shows "test_bit_at q (set_bit_at p a) \<longleftrightarrow> q = p \<or> test_bit_at q a"
proof -
  have "p div 8 < length a" using assms by linarith
  moreover have "q div 8 = p div 8 \<Longrightarrow> q mod 8 = p mod 8 \<Longrightarrow> q = p"
    by (metis mult_div_mod_eq)
  ultimately show ?thesis
    by (auto simp: test_bit_at_iff set_bit_at_def nth_list_update bit_or_iff bit_exp_iff)
qed

lemma probe_in_range: "0 < length a \<Longrightarrow> unat (p :: u32) mod (length a * 8) < 8 * length (a :: bytes)"
  by (simp add: mult.commute)

lemma fold_set_bit_at:
  assumes "0 < length a"
  shows "covers a (fold (\<lambda>p :: u32. set_bit_at (unat p mod (length a * 8))) ps a)
    \<and> (\<forall>p \<in> set ps. test_bit_at (unat p mod (length a * 8))
          (fold (\<lambda>p. set_bit_at (unat p mod (length a * 8))) ps a))"
  using assms
proof (induction ps arbitrary: a)
  case (Cons p ps)
  let ?a = "set_bit_at (unat p mod (length a * 8)) a"
  have r: "unat p mod (length a * 8) < 8 * length a" using Cons.prems by (rule probe_in_range)
  have c: "covers a ?a" using r by (simp add: covers_def test_set_bit_at)
  have t: "test_bit_at (unat p mod (length a * 8)) ?a" using r by (simp add: test_set_bit_at)
  have IH: "covers ?a (fold (\<lambda>p. set_bit_at (unat p mod (length a * 8))) ps ?a)
    \<and> (\<forall>p \<in> set ps. test_bit_at (unat p mod (length a * 8))
          (fold (\<lambda>p. set_bit_at (unat p mod (length a * 8))) ps ?a))"
    using Cons.IH [of ?a] Cons.prems by simp
  with t r have "test_bit_at (unat p mod (length a * 8))
      (fold (\<lambda>p. set_bit_at (unat p mod (length a * 8))) ps ?a)"
    by (simp add: covers_def)
  with IH c show ?case by (auto dest: covers_trans)
qed simp

lemma add_hashes:
  assumes "0 < length a"
  shows "covers a (fold (add_hash d (length a * 8)) hs a)
    \<and> (\<forall>h \<in> set hs. \<forall>p \<in> set (probes d h).
        test_bit_at (unat p mod (length a * 8)) (fold (add_hash d (length a * 8)) hs a))"
  using assms
proof (induction hs arbitrary: a)
  case (Cons h hs)
  let ?a = "add_hash d (length a * 8) h a"
  have h: "covers a ?a" "\<forall>p \<in> set (probes d h). test_bit_at (unat p mod (length a * 8)) ?a"
    using fold_set_bit_at [OF Cons.prems, of "probes d h"] by (simp_all add: add_hash_def)
  have len: "length ?a = length a" using h(1) by (simp add: covers_def)
  have IH: "covers ?a (fold (add_hash d (length a * 8)) hs ?a)
    \<and> (\<forall>h \<in> set hs. \<forall>p \<in> set (probes d h).
        test_bit_at (unat p mod (length a * 8)) (fold (add_hash d (length a * 8)) hs ?a))"
    using Cons.IH [of ?a] Cons.prems len by simp
  have "\<forall>p \<in> set (probes d h). test_bit_at (unat p mod (length a * 8)) (fold (add_hash d (length a * 8)) hs ?a)"
    using IH h(2) len probe_in_range [OF Cons.prems] by (auto simp: covers_def)
  with IH h(1) show ?case by (auto dest: covers_trans)
qed simp

text \<open>What it means that a filter was told about a key.\<close>

definition has_key :: "bytes \<Rightarrow> bytes \<Rightarrow> bool" where
  "has_key a k \<longleftrightarrow> (\<forall>h \<in> set (the (hash_words k)).
     test_bit_at (unat h mod (length a * 8)) a)"

lemma has_key_mono:
  assumes "covers a b" "has_key a k" "0 < length a"
  shows "has_key b k"
  using assms probe_in_range [OF assms(3)] by (auto simp: has_key_def covers_def)

lemma in_probes [simp]: "h \<in> set (probes d h)"
  by (simp add: probes_def)

lemma add_keys_spec:
  assumes "0 < length a"
  shows "\<exists>b. add_keys d (length a * 8) ks a = Some b \<and> covers a b \<and> (\<forall>k \<in> set ks. has_key b k)"
  using assms
proof (induction ks arbitrary: a)
  case (Cons k ks)
  obtain hs where hs: "hash_words k = Some hs" using hash_words_total by blast
  let ?a = "fold (add_hash d (length a * 8)) hs a"
  have a: "covers a ?a" "\<forall>h \<in> set hs. test_bit_at (unat h mod (length a * 8)) ?a"
    using add_hashes [OF Cons.prems, of d hs] in_probes by blast+
  then have len: "length ?a = length a" by (simp add: covers_def)
  with a hs have k: "has_key ?a k" by (simp add: has_key_def)
  obtain b where b: "add_keys d (length ?a * 8) ks ?a = Some b" "covers ?a b" "\<forall>k \<in> set ks. has_key b k"
    using Cons.IH [of ?a] Cons.prems len by auto
  have "has_key b k" using has_key_mono [OF b(2) k] Cons.prems len by simp
  moreover have "add_keys d (length a * 8) (k # ks) a = Some b"
    using b(1) hs Cons.prems len by simp
  moreover have "covers a b" using a(1) b(2) by (rule covers_trans)
  ultimately show ?case using b(3) by auto
qed simp

lemma KeyMayMatch_has_key: "2 \<le> length a \<Longrightarrow> KeyMayMatch k a = Some (has_key a k)"
  using hash_words_total [of k]
  by (auto simp: KeyMayMatch_def has_key_def probes_def use_double_k_def list_all_iff)

section \<open>FilterBlockBuilder\<close>

record FilterBlockBuilder =
  fb_key_buf :: bytes
  fb_keys :: "(u32 \<times> u32) list"
  fb_buffer :: bytes

definition mk_FilterBlockBuilder :: "nat \<Rightarrow> FilterBlockBuilder" where
  "mk_FilterBlockBuilder sz = \<lparr>fb_key_buf = [], fb_keys = [], fb_buffer = replicate sz 0\<rparr>"

definition fb_AddKey :: "FilterBlockBuilder \<Rightarrow> bytes \<Rightarrow> FilterBlockBuilder" where
  "fb_AddKey b key = b\<lparr>fb_key_buf := fb_key_buf b @ key,
     fb_keys := fb_keys b @ [(of_nat (length (fb_key_buf b)), of_nat (length key))]\<rparr>"

text \<open>The recorded keys, read back from the key buffer.\<close>

definition fb_slices :: "FilterBlockBuilder \<Rightarrow> bytes list option" where
  "fb_slices b = those (map (\<lambda>(off, n). bread (unat off) (unat n) (fb_key_buf b)) (fb_keys b))"

definition fb_Flush :: "FilterBlockBuilder \<Rightarrow> FilterBlockBuilder option" where
  "fb_Flush b =
     (if fb_keys b = [] then Some b
      else do {
        keys \<leftarrow> fb_slices b;
        buf \<leftarrow> CreateFilter keys (fb_buffer b);
        Some (b\<lparr>fb_buffer := buf, fb_keys := [], fb_key_buf := []\<rparr>) })"

definition fb_Finish :: "FilterBlockBuilder \<Rightarrow> (FilterBlockBuilder \<times> bytes) option" where
  "fb_Finish b = map_option (\<lambda>b'. (b', fb_buffer b')) (fb_Flush b)"

definition fb_BlockSize :: "FilterBlockBuilder \<Rightarrow> u64" where
  "fb_BlockSize b = of_nat (length (fb_buffer b))"

text \<open>The pending keys of a builder: \<open>ks\<close> were added since the last flush.\<close>

definition fb_pending :: "FilterBlockBuilder \<Rightarrow> bytes list \<Rightarrow> bool" where
  "fb_pending b ks \<longleftrightarrow> fb_key_buf b = concat ks \<and> fb_slices b = Some ks
     \<and> length (fb_keys b) = length ks"

lemma those_snoc: "those (xs @ [x]) = do { ys \<leftarrow> those xs; y \<leftarrow> x; Some (ys @ [y]) }"
proof (induction xs)
  case Nil
  then show ?case by (cases x) auto
next
  case (Cons a xs)
  then show ?case by (cases a; cases "those xs"; cases x) auto
qed

lemma those_append_buf:
  assumes "those (map (\<lambda>(off, n). bread (unat off) (unat n) buf) ps) = Some ks"
  shows "those (map (\<lambda>(off, n). bread (unat off) (unat n) (buf @ ext)) ps) = Some (ks :: bytes list)"
  using assms
proof (induction ps arbitrary: ks)
  case (Cons p ps)
  then show ?case
    by (cases p) (fastforce simp: bread_def split: if_splits option.splits)
qed simp

lemma fb_AddKey_pending:
  assumes "fb_pending b ks" "length (concat (ks @ [k])) < 2 ^ 32"
  shows "fb_pending (fb_AddKey b k) (ks @ [k])"
proof -
  have u: "unat (of_nat (length (concat ks)) :: u32) = length (concat ks)"
    "unat (of_nat (length k) :: u32) = length k"
    using assms(2) by (auto intro!: unat_of_nat_u32)
  have "those (map (\<lambda>(off, n). bread (unat off) (unat n) (concat ks)) (fb_keys b)) = Some ks"
    using assms(1) by (auto simp: fb_pending_def fb_slices_def)
  from those_append_buf [OF this, of k] show ?thesis
    using assms(1) u by (simp add: fb_pending_def fb_slices_def fb_AddKey_def those_snoc)
qed

lemma fb_Flush_spec:
  assumes "fb_pending b ks" "0 < length (fb_buffer b)"
  shows "\<exists>b'. fb_Flush b = Some b' \<and> fb_pending b' [] \<and> covers (fb_buffer b) (fb_buffer b')
    \<and> (\<forall>k \<in> set ks. has_key (fb_buffer b') k)"
proof (cases "fb_keys b = []")
  case True
  then have "ks = []" using assms(1) by (simp add: fb_pending_def)
  with True assms(1) show ?thesis by (simp add: fb_Flush_def)
next
  case False
  have "fb_slices b = Some ks" using assms(1) by (simp add: fb_pending_def)
  moreover obtain buf where "CreateFilter ks (fb_buffer b) = Some buf" "covers (fb_buffer b) buf"
    "\<forall>k \<in> set ks. has_key buf k"
    using add_keys_spec [OF assms(2)] unfolding CreateFilter_def by blast
  ultimately show ?thesis using False
    by (simp add: fb_Flush_def) (simp add: fb_pending_def fb_slices_def)
qed

text \<open>A history of calls on one filter builder.\<close>

datatype filter_op = AddKey bytes | Flush

fun fb_run :: "filter_op list \<Rightarrow> FilterBlockBuilder \<Rightarrow> FilterBlockBuilder option" where
  "fb_run [] b = Some b"
| "fb_run (AddKey k # ops) b = fb_run ops (fb_AddKey b k)"
| "fb_run (Flush # ops) b = Option.bind (fb_Flush b) (fb_run ops)"

fun added_keys :: "filter_op list \<Rightarrow> bytes list" where
  "added_keys [] = []"
| "added_keys (AddKey k # ops) = k # added_keys ops"
| "added_keys (Flush # ops) = added_keys ops"

lemma fb_run_spec:
  assumes "fb_pending b ks" "0 < length (fb_buffer b)"
    and "length (concat (ks @ added_keys ops)) < 2 ^ 32"
    and "\<forall>k \<in> K. has_key (fb_buffer b) k"
  shows "\<exists>b' ks'. fb_run ops b = Some b' \<and> fb_pending b' ks' \<and> length (fb_buffer b') = length (fb_buffer b)
    \<and> (\<forall>k \<in> K \<union> set ks \<union> set (added_keys ops). k \<in> set ks' \<or> has_key (fb_buffer b') k)"
  using assms
proof (induction ops b arbitrary: ks K rule: fb_run.induct)
  case (1 b)
  then show ?case by auto
next
  case (2 k ops b)
  have "fb_pending (fb_AddKey b k) (ks @ [k])"
    using 2(2,4) by (intro fb_AddKey_pending) auto
  then show ?case
    using 2(1) [of "ks @ [k]" K] 2(3-5) by (auto simp: fb_AddKey_def)
next
  case (3 ops b)
  obtain b' where b': "fb_Flush b = Some b'" "fb_pending b' []" "covers (fb_buffer b) (fb_buffer b')"
    "\<forall>k \<in> set ks. has_key (fb_buffer b') k"
    using fb_Flush_spec [OF 3(2,3)] by blast
  have "\<forall>k \<in> K \<union> set ks. has_key (fb_buffer b') k"
    using has_key_mono [OF b'(3)] b'(4) 3(3,5) by auto
  moreover have "length (fb_buffer b') = length (fb_buffer b)"
    using b'(3) by (simp add: covers_def)
  ultimately show ?case
    using 3(1) [OF b'(1), of "[]" "K \<union> set ks"] 3(3,4) b'(1,2) by auto
qed

section \<open>Properties\<close>

text \<open>C31. The table filter has no false negatives: whatever order keys are added and flushed in,
  the finished filter block answers \<open>may match\<close> for every key that was ever added to it, provided
  the block has at least two bytes and the keys together stay below 4 GiB.\<close>

theorem filter_no_false_negatives:
  assumes "2 \<le> sz" "length (concat (added_keys ops)) < 2 ^ 32" "k \<in> set (added_keys ops)"
  shows "\<exists>b b' block. fb_run ops (mk_FilterBlockBuilder sz) = Some b
    \<and> fb_Finish b = Some (b', block) \<and> length block = sz \<and> KeyMayMatch k block = Some True"
proof -
  let ?b0 = "mk_FilterBlockBuilder sz"
  have p0: "fb_pending ?b0 []" "length (fb_buffer ?b0) = sz"
    by (simp_all add: fb_pending_def fb_slices_def mk_FilterBlockBuilder_def)
  obtain b ks' where b: "fb_run ops ?b0 = Some b" "fb_pending b ks'" "length (fb_buffer b) = sz"
    "k \<in> set ks' \<or> has_key (fb_buffer b) k"
    using fb_run_spec [OF p0(1), of ops "{}"] p0(2) assms by auto
  obtain b' where b': "fb_Flush b = Some b'" "covers (fb_buffer b) (fb_buffer b')"
    "\<forall>k \<in> set ks'. has_key (fb_buffer b') k"
    using fb_Flush_spec [OF b(2)] b(3) assms(1) by auto
  have "has_key (fb_buffer b') k"
    using b(3,4) b'(3) has_key_mono [OF b'(2)] assms(1) by auto
  moreover have "length (fb_buffer b') = sz" using b'(2) b(3) by (simp add: covers_def)
  ultimately show ?thesis
    using b(1) b'(1) assms(1) by (simp add: fb_Finish_def KeyMayMatch_has_key)
qed

theorem filter_no_false_negatives_witness:
  "\<exists>b b' block. fb_run [AddKey [0x61], Flush, AddKey [0x62]] (mk_FilterBlockBuilder 8192) = Some b
    \<and> fb_Finish b = Some (b', block) \<and> length block = 8192 \<and> KeyMayMatch [0x61] block = Some True"
  by (rule filter_no_false_negatives) simp_all

end
