(* ===== verification/Arena.thy ===== *)
theory Arena
  imports Lsmkv_Prelude
begin

text \<open>
  \<^verbatim>\<open>utils/arena.h\<close>: the bump allocator behind the memtable. Addresses are natural numbers.
  \<open>new char[n]\<close> belongs to the C++ runtime: the address it returns is an argument \<open>fresh\<close> of the
  operations, used only where the code allocates, and the theorems assume of it what the language
  promises, a block apart from all live blocks. The mutex makes each call atomic.
\<close>

section \<open>Arena\<close>

definition align :: nat where "align = 8"
definition ARENA_BLOCK_SIZE :: nat where "ARENA_BLOCK_SIZE = 4096"

text \<open>\<open>pool\<close> records with each block its size, which the runtime keeps for \<open>delete[]\<close>.\<close>

record Arena =
  waste :: u64
  allocs :: u64
  alloc_ptr :: nat
  alloc_aligned_ptr :: nat
  alloc_bytes_remaining :: nat
  pool :: "(nat \<times> nat) list"

definition mk_Arena :: Arena where
  "mk_Arena = \<lparr>waste = 0, allocs = 0, alloc_ptr = 0, alloc_aligned_ptr = 0,
     alloc_bytes_remaining = 0, pool = []\<rparr>"

definition allocateNewBlock :: "nat \<Rightarrow> nat \<Rightarrow> Arena \<Rightarrow> nat \<times> Arena" where
  "allocateNewBlock fresh bytes a = (fresh, a\<lparr>pool := pool a @ [(fresh, bytes)]\<rparr>)"

definition allocatePtr :: "nat \<Rightarrow> Arena \<Rightarrow> Arena" where
  "allocatePtr fresh a =
     (let (p, a) = allocateNewBlock fresh ARENA_BLOCK_SIZE a; padding = p mod align in
      a\<lparr>alloc_ptr := p,
        alloc_aligned_ptr := p - padding + ARENA_BLOCK_SIZE,
        waste := waste a + of_nat ARENA_BLOCK_SIZE,
        alloc_bytes_remaining := ARENA_BLOCK_SIZE - padding\<rparr>)"

definition allocateFallBack :: "nat \<Rightarrow> nat \<Rightarrow> Arena \<Rightarrow> nat \<times> Arena" where
  "allocateFallBack fresh bytes a =
     (if ARENA_BLOCK_SIZE div 4 < bytes then allocateNewBlock fresh bytes a
      else let a = allocatePtr fresh a in
        (alloc_ptr a, a\<lparr>alloc_ptr := alloc_ptr a + bytes,
                        alloc_bytes_remaining := alloc_bytes_remaining a - bytes\<rparr>))"

definition allocateAlignFallBack :: "nat \<Rightarrow> nat \<Rightarrow> Arena \<Rightarrow> nat \<times> Arena" where
  "allocateAlignFallBack fresh bytes a =
     (if ARENA_BLOCK_SIZE div 4 < bytes then
        let (p, a) = allocateNewBlock fresh (bytes + align) a
        in ((p + align - 1) div align * align, a)
      else let a = allocatePtr fresh a; q = alloc_aligned_ptr a - bytes in
        (q, a\<lparr>alloc_aligned_ptr := q, alloc_bytes_remaining := alloc_bytes_remaining a - bytes\<rparr>))"

text \<open>\<open>None\<close> is the failed assertion of \<open>allocate\<close>.\<close>

definition allocate :: "nat \<Rightarrow> nat \<Rightarrow> Arena \<Rightarrow> (nat \<times> Arena) option" where
  "allocate fresh bytes a0 =
     (let a = a0\<lparr>allocs := allocs a0 + of_nat bytes, waste := waste a0 - of_nat bytes\<rparr> in
      if bytes \<le> alloc_bytes_remaining a then
        let a' = a\<lparr>alloc_ptr := alloc_ptr a + bytes,
                   alloc_bytes_remaining := alloc_bytes_remaining a - bytes\<rparr> in
        if int (alloc_aligned_ptr a') - int (alloc_ptr a') = int (alloc_bytes_remaining a')
        then Some (alloc_ptr a, a') else None
      else Some (allocateFallBack fresh bytes a))"

definition allocateAligned :: "nat \<Rightarrow> nat \<Rightarrow> Arena \<Rightarrow> nat \<times> Arena" where
  "allocateAligned fresh bytes a0 =
     (let a = a0\<lparr>allocs := allocs a0 + of_nat bytes, waste := waste a0 - of_nat bytes\<rparr> in
      if bytes \<le> alloc_bytes_remaining a then
        let q = alloc_aligned_ptr a - bytes in
        (q, a\<lparr>alloc_aligned_ptr := q, alloc_bytes_remaining := alloc_bytes_remaining a - bytes\<rparr>)
      else allocateAlignFallBack fresh bytes a)"

definition getWaste :: "Arena \<Rightarrow> u64" where "getWaste a = allocs a"
definition getUsed :: "Arena \<Rightarrow> u64" where "getUsed a = allocs a"

section \<open>Invariant\<close>

text \<open>Regions are pairs of an address and a length. The invariant speaks of the regions handed out
  so far: they are apart from each other and from the free gap of the current block, and each lies
  in a block of the pool.\<close>

definition region :: "nat \<times> nat \<Rightarrow> nat set" where
  "region r = {fst r..<fst r + snd r}"

definition gap :: "Arena \<Rightarrow> nat set" where
  "gap a = {alloc_ptr a..<alloc_aligned_ptr a}"

definition in_pool :: "Arena \<Rightarrow> nat set \<Rightarrow> bool" where
  "in_pool a S \<longleftrightarrow> S = {} \<or> (\<exists>b \<in> set (pool a). S \<subseteq> region b)"

definition arena_inv :: "(nat \<times> nat) list \<Rightarrow> Arena \<Rightarrow> bool" where
  "arena_inv rs a \<longleftrightarrow>
     alloc_ptr a + alloc_bytes_remaining a = alloc_aligned_ptr a \<and>
     in_pool a (gap a) \<and> (\<forall>r \<in> set rs. in_pool a (region r) \<and> region r \<inter> gap a = {}) \<and>
     sorted_wrt (\<lambda>r s. region r \<inter> region s = {}) rs"

definition fresh_block :: "nat \<Rightarrow> nat \<Rightarrow> Arena \<Rightarrow> bool" where
  "fresh_block fresh n a \<longleftrightarrow> (\<forall>b \<in> set (pool a). region b \<inter> region (fresh, n) = {})"

lemmas arena_defs = region_def gap_def in_pool_def fresh_block_def align_def ARENA_BLOCK_SIZE_def

lemma arena_extend:
  assumes "arena_inv rs a" "set (pool a) \<subseteq> set (pool a')"
    and "alloc_ptr a' + alloc_bytes_remaining a' = alloc_aligned_ptr a'"
    and "in_pool a' (gap a')" "in_pool a' (region r)" "region r \<inter> gap a' = {}"
    and "\<And>s. s \<in> set rs \<Longrightarrow> in_pool a (region s) \<Longrightarrow> region s \<inter> gap a = {} \<Longrightarrow>
      region s \<inter> region r = {} \<and> region s \<inter> gap a' = {}"
  shows "arena_inv (r # rs) a'"
proof -
  have old: "in_pool a (region s)" "region s \<inter> gap a = {}" if "s \<in> set rs" for s
    using assms(1) that by (simp_all add: arena_inv_def)
  have "in_pool a' (region s)" if "s \<in> set rs" for s
    using old(1) [OF that] assms(2) unfolding in_pool_def by blast
  moreover have "region s \<inter> region r = {} \<and> region s \<inter> gap a' = {}" if "s \<in> set rs" for s
    using assms(7) [OF that old [OF that]] .
  ultimately show ?thesis
    using assms(1,3-6) unfolding arena_inv_def by (simp add: Int_commute)
qed

text \<open>A block apart from the pool is apart from everything handed out.\<close>

lemma fresh_apart:
  "fresh_block fresh n a \<Longrightarrow> in_pool a S \<Longrightarrow> T \<subseteq> region (fresh, n) \<Longrightarrow> S \<inter> T = {}"
  by (auto simp: fresh_block_def in_pool_def)

lemma arena_carve:
  assumes "arena_inv rs a" "pool a' = pool a"
    and "alloc_ptr a' + alloc_bytes_remaining a' = alloc_aligned_ptr a'"
    and "gap a' \<subseteq> gap a" "region r \<subseteq> gap a" "region r \<inter> gap a' = {}"
  shows "arena_inv (r # rs) a'"
proof -
  have g: "in_pool a (gap a)" using assms(1) by (simp add: arena_inv_def)
  have "in_pool a' S" if "S \<subseteq> gap a" for S
  proof (cases "gap a = {}")
    case False
    then obtain b where "b \<in> set (pool a)" "gap a \<subseteq> region b" using g by (auto simp: in_pool_def)
    then show ?thesis using that assms(2) order_trans [OF that] unfolding in_pool_def by metis
  qed (use that in \<open>auto simp: in_pool_def\<close>)
  then have "in_pool a' (gap a')" "in_pool a' (region r)" using assms(4,5) by blast+
  moreover have "region s \<inter> region r = {} \<and> region s \<inter> gap a' = {}" if "region s \<inter> gap a = {}" for s
    using that assms(4,5) by blast
  ultimately show ?thesis
    using arena_extend [OF assms(1) _ assms(3) _ _ assms(6)] assms(2) by simp
qed

lemma arena_new_block:
  assumes "arena_inv rs a" "pool a' = pool a @ [(fresh, n)]" "fresh_block fresh n a"
    and "alloc_ptr a' + alloc_bytes_remaining a' = alloc_aligned_ptr a'"
    and "gap a' = gap a \<or> gap a' \<subseteq> region (fresh, n)"
    and "region r \<subseteq> region (fresh, n)" "gap a' = gap a \<or> region r \<inter> gap a' = {}"
  shows "arena_inv (r # rs) a'"
proof (rule arena_extend [OF assms(1)])
  have g: "in_pool a (gap a)" using assms(1) by (simp add: arena_inv_def)
  show "in_pool a' (gap a')" using assms(2,5) g by (auto simp: in_pool_def)
  show "region r \<inter> gap a' = {}" using assms(7) fresh_apart [OF assms(3) g assms(6)] by auto
  show "in_pool a' (region r)" using assms(2,6) by (auto simp: in_pool_def)
  show "region s \<inter> region r = {} \<and> region s \<inter> gap a' = {}"
    if "in_pool a (region s)" "region s \<inter> gap a = {}" for s
    using that assms(5) fresh_apart [OF assms(3) that(1)] assms(6) by blast
qed (use assms in auto)

lemma allocatePtr_simps [simp]:
  "alloc_ptr (allocatePtr f a) = f" "pool (allocatePtr f a) = pool a @ [(f, 4096)]"
  "alloc_aligned_ptr (allocatePtr f a) = f - f mod 8 + 4096"
  "alloc_bytes_remaining (allocatePtr f a) = 4096 - f mod 8"
  by (simp_all add: allocatePtr_def allocateNewBlock_def align_def ARENA_BLOCK_SIZE_def Let_def)

lemma padding: "f mod 8 \<le> (f :: nat)" "f mod 8 < (8 :: nat)" by simp_all

lemma allocate_inv:
  assumes "arena_inv rs a" "fresh_block f (if 1024 < n then n else 4096) a"
  shows "\<exists>p a'. allocate f n a = Some (p, a') \<and> arena_inv ((p, n) # rs) a'"
proof (cases "n \<le> alloc_bytes_remaining a")
  case True
  have "alloc_ptr a + alloc_bytes_remaining a = alloc_aligned_ptr a"
    using assms(1) by (simp add: arena_inv_def)
  with True show ?thesis
    by (auto simp: allocate_def Let_def arena_defs intro!: arena_carve [OF assms(1)])
next
  case False
  show ?thesis
  proof (cases "1024 < n")
    case True
    then show ?thesis
      using False assms by (auto simp: allocate_def Let_def allocateFallBack_def allocateNewBlock_def
          ARENA_BLOCK_SIZE_def gap_def arena_inv_def [of rs a]
          intro!: arena_new_block [OF assms(1), where fresh = f and n = n])
  next
    case small: False
    then show ?thesis
      using False assms padding [of f]
      by (auto simp: allocate_def Let_def allocateFallBack_def ARENA_BLOCK_SIZE_def region_def gap_def
          intro!: arena_new_block [OF assms(1), where fresh = f and n = 4096])
  qed
qed

lemma allocateAligned_inv:
  assumes "arena_inv rs a" "fresh_block f (if 1024 < n then n + 8 else 4096) a"
    and "allocateAligned f n a = (p, a')"
  shows "arena_inv ((p, n) # rs) a'"
proof (cases "n \<le> alloc_bytes_remaining a")
  case True
  have "alloc_ptr a + alloc_bytes_remaining a = alloc_aligned_ptr a"
    using assms(1) by (simp add: arena_inv_def)
  with True assms(3) show ?thesis
    by (auto simp: allocateAligned_def Let_def arena_defs intro!: arena_carve [OF assms(1)])
next
  case False
  show ?thesis
  proof (cases "1024 < n")
    case True
    have "(f + 7) div 8 * 8 + (f + 7) mod 8 = f + 7" by simp
    then have "f \<le> (f + 7) div 8 * 8" "(f + 7) div 8 * 8 \<le> f + 7"
      using padding(2) [of "f + 7"] by linarith+
    with True show ?thesis
      using False assms by (auto simp: allocateAligned_def Let_def allocateAlignFallBack_def
          allocateNewBlock_def ARENA_BLOCK_SIZE_def align_def region_def gap_def arena_inv_def [of rs a]
          intro!: arena_new_block [OF assms(1), where fresh = f and n = "n + 8"])
  next
    case small: False
    then show ?thesis
      using False assms padding [of f]
      by (auto simp: allocateAligned_def Let_def allocateAlignFallBack_def ARENA_BLOCK_SIZE_def
          region_def gap_def intro!: arena_new_block [OF assms(1), where fresh = f and n = 4096])
  qed
qed

text \<open>Aligned requests come from the top of the block, plain ones from the bottom, so plain
  requests never disturb the alignment.\<close>

lemma allocate_keeps_align:
  "allocate f n a = Some (p, a') \<Longrightarrow> 8 dvd alloc_aligned_ptr a \<Longrightarrow> 8 dvd alloc_aligned_ptr a'"
  by (auto simp: allocate_def Let_def allocateFallBack_def allocateNewBlock_def ARENA_BLOCK_SIZE_def
      minus_mod_eq_mult_div intro!: dvd_add split: if_splits)

lemma allocateAligned_aligned:
  "allocateAligned f n a = (p, a') \<Longrightarrow> 8 dvd alloc_aligned_ptr a \<Longrightarrow> 8 dvd n \<Longrightarrow>
     8 dvd p \<and> 8 dvd alloc_aligned_ptr a'"
  by (auto simp: allocateAligned_def Let_def allocateAlignFallBack_def allocateNewBlock_def
      ARENA_BLOCK_SIZE_def align_def minus_mod_eq_mult_div intro!: dvd_diff_nat dvd_add split: if_splits)

section \<open>Sequences of requests\<close>

datatype request = Plain nat | Aligned nat

primrec req_size :: "request \<Rightarrow> nat" where
  "req_size (Plain n) = n" | "req_size (Aligned n) = n"

fun arena_step :: "nat \<Rightarrow> request \<Rightarrow> Arena \<Rightarrow> (nat \<times> Arena) option" where
  "arena_step f (Plain n) a = allocate f n a"
| "arena_step f (Aligned n) a = Some (allocateAligned f n a)"

text \<open>The regions handed out by a run, latest first.\<close>

fun arena_run :: "(nat \<times> request) list \<Rightarrow> (nat \<times> nat) list \<Rightarrow> Arena \<Rightarrow> ((nat \<times> nat) list \<times> Arena) option" where
  "arena_run [] rs a = Some (rs, a)"
| "arena_run ((f, q) # qs) rs a = do {
     (p, a') \<leftarrow> arena_step f q a;
     arena_run qs ((p, req_size q) # rs) a' }"

fun block_request :: "request \<Rightarrow> nat" where
  "block_request (Plain n) = (if 1024 < n then n else 4096)"
| "block_request (Aligned n) = (if 1024 < n then n + 8 else 4096)"

fun runtime_ok :: "(nat \<times> request) list \<Rightarrow> Arena \<Rightarrow> bool" where
  "runtime_ok [] a \<longleftrightarrow> True"
| "runtime_ok ((f, q) # qs) a \<longleftrightarrow> fresh_block f (block_request q) a \<and>
     (case arena_step f q a of None \<Rightarrow> True | Some (p, a') \<Rightarrow> runtime_ok qs a')"

lemma arena_step_inv:
  "arena_inv rs a \<Longrightarrow> fresh_block f (block_request q) a \<Longrightarrow>
     \<exists>p a'. arena_step f q a = Some (p, a') \<and> arena_inv ((p, req_size q) # rs) a'"
  by (cases q; cases "allocateAligned f (req_size q) a")
    (auto simp: allocateAligned_inv dest: allocate_inv split: if_splits)

lemma arena_run_inv:
  "arena_inv rs a \<Longrightarrow> runtime_ok qs a \<Longrightarrow>
     \<exists>rs' a'. arena_run qs rs a = Some (rs', a') \<and> arena_inv rs' a' \<and>
       map snd rs' = rev (map (req_size \<circ> snd) qs) @ map snd rs"
proof (induction qs rs a rule: arena_run.induct)
  case (1 rs a)
  then show ?case by simp
next
  case (2 f q qs rs a)
  then obtain p a' where p: "arena_step f q a = Some (p, a')" "arena_inv ((p, req_size q) # rs) a'"
    using arena_step_inv [of rs a f q] by auto
  with 2 show ?case by fastforce
qed

lemma mk_Arena_inv: "arena_inv [] mk_Arena"
  by (simp add: arena_inv_def mk_Arena_def gap_def in_pool_def)

section \<open>Properties\<close>

text \<open>C24. Memory safety of the arena. For every sequence of plain and aligned requests, with a
  runtime whose new blocks are apart from the live ones, the allocator's assertion never fails and
  the regions handed out have the requested sizes, lie inside blocks the arena owns and are
  pairwise disjoint.\<close>

theorem arena_regions_disjoint:
  assumes "runtime_ok qs mk_Arena"
  shows "\<exists>rs a. arena_run qs [] mk_Arena = Some (rs, a) \<and>
    map snd rs = rev (map (req_size \<circ> snd) qs) \<and>
    (\<forall>r \<in> set rs. region r = {} \<or> (\<exists>b \<in> set (pool a). region r \<subseteq> region b)) \<and>
    sorted_wrt (\<lambda>r s. region r \<inter> region s = {}) rs"
  using arena_run_inv [OF mk_Arena_inv assms] by (auto simp: arena_inv_def in_pool_def)

theorem arena_regions_disjoint_witness:
  "\<exists>rs a. arena_run [(10000, Plain 100), (20003, Aligned 1000), (30000, Aligned 5000)] [] mk_Arena = Some (rs, a) \<and>
    map snd rs = [5000, 1000, 100] \<and> sorted_wrt (\<lambda>r s. region r \<inter> region s = {}) rs"
  using arena_regions_disjoint [of "[(10000, Plain 100), (20003, Aligned 1000), (30000, Aligned 5000)]"]
  by (auto simp: fresh_block_def mk_Arena_def region_def allocate_def allocateFallBack_def
      allocateAligned_def allocateAlignFallBack_def allocateNewBlock_def align_def ARENA_BLOCK_SIZE_def
      Let_def allocatePtr_def)

text \<open>C25. \<open>allocateAligned\<close> returns an eight-byte-aligned address when every aligned request so far
  asked for a multiple of eight bytes, whatever plain requests came in between; after an aligned
  request of three bytes the result is not aligned.\<close>

theorem arena_alignment:
  "(8 dvd alloc_aligned_ptr a \<longrightarrow> 8 dvd n \<longrightarrow>
      8 dvd fst (allocateAligned f n a) \<and> 8 dvd alloc_aligned_ptr (snd (allocateAligned f n a)) \<and>
      (\<forall>p a'. allocate f m a = Some (p, a') \<longrightarrow> 8 dvd alloc_aligned_ptr a')) \<and>
   8 dvd alloc_aligned_ptr mk_Arena \<and>
   \<not> 8 dvd fst (allocateAligned 4096 3 mk_Arena)"
proof -
  have "\<not> 8 dvd fst (allocateAligned 4096 3 mk_Arena)"
    by (simp add: allocateAligned_def mk_Arena_def Let_def allocateAlignFallBack_def ARENA_BLOCK_SIZE_def)
  then show ?thesis
    using allocateAligned_aligned [of f n a] allocate_keeps_align [of f m a]
    by (cases "allocateAligned f n a") (auto simp: mk_Arena_def)
qed

theorem arena_alignment_witness:
  "8 dvd fst (allocateAligned 4099 24 mk_Arena)"
  using arena_alignment [of mk_Arena 24 4099 0] by (simp add: mk_Arena_def)

end
