(* ===== verification/Lru.thy ===== *)
theory Lru
  imports Lsmkv_Prelude "HOL-Library.AList"
begin

text \<open>
  \<^verbatim>\<open>utils/lru.h\<close>: the least-recently-used cache. \<open>lru_list_\<close> is a linked list whose nodes are
  named here by numbers, so that the hash map from keys to list iterators is a map from keys to
  node names; \<open>lru_fresh\<close> names the next node. Keys are copyable values (the caches of the program
  are keyed by integers), so forwarding the key before it is used again changes nothing.
\<close>

section \<open>Lru_Cache\<close>

record ('k, 'v) Lru_Cache =
  lru_cache :: "('k \<times> nat) list"
  lru_list :: "(nat \<times> 'k \<times> 'v) list"
  lru_capacity :: u32
  lru_fresh :: nat

definition mk_Lru_Cache :: "u32 \<Rightarrow> ('k, 'v) Lru_Cache" where
  "mk_Lru_Cache cap = \<lparr>lru_cache = [], lru_list = [], lru_capacity = cap, lru_fresh = 0\<rparr>"

definition lru_Size :: "('k, 'v) Lru_Cache \<Rightarrow> u32" where
  "lru_Size c = of_nat (length (lru_cache c))"

definition erase_node :: "nat \<Rightarrow> (nat \<times> 'a) list \<Rightarrow> (nat \<times> 'a) list" where
  "erase_node n xs = filter (\<lambda>x. fst x \<noteq> n) xs"

definition lru_drop_key :: "'k \<Rightarrow> ('k, 'v) Lru_Cache \<Rightarrow> ('k, 'v) Lru_Cache" where
  "lru_drop_key k c = (case map_of (lru_cache c) k of
      None \<Rightarrow> c
    | Some n \<Rightarrow> c\<lparr>lru_list := erase_node n (lru_list c), lru_cache := AList.delete k (lru_cache c)\<rparr>)"

text \<open>\<open>back()\<close> of an empty list is undefined: a cache of capacity zero cannot be filled.\<close>

definition lru_evict :: "('k, 'v) Lru_Cache \<Rightarrow> ('k, 'v) Lru_Cache option" where
  "lru_evict c =
     (if length (lru_cache c) = unat (lru_capacity c) then
        if lru_list c = [] then None
        else Some (c\<lparr>lru_cache := AList.delete (fst (snd (last (lru_list c)))) (lru_cache c),
                     lru_list := butlast (lru_list c)\<rparr>)
      else Some c)"

definition lru_push_front :: "'k \<Rightarrow> 'v \<Rightarrow> ('k, 'v) Lru_Cache \<Rightarrow> ('k, 'v) Lru_Cache" where
  "lru_push_front k v c =
     c\<lparr>lru_list := (lru_fresh c, k, v) # lru_list c,
       lru_cache := AList.update k (lru_fresh c) (lru_cache c),
       lru_fresh := Suc (lru_fresh c)\<rparr>"

definition lru_Put :: "'k \<Rightarrow> 'v \<Rightarrow> ('k, 'v) Lru_Cache \<Rightarrow> ('k, 'v) Lru_Cache option" where
  "lru_Put k v c = map_option (lru_push_front k v) (lru_evict (lru_drop_key k c))"

text \<open>\<open>Get\<close> returns the value and the cache with the node moved to the front. A map entry whose
  node is not in the list would be a dangling iterator.\<close>

definition lru_Get :: "'k \<Rightarrow> ('k, 'v) Lru_Cache \<Rightarrow> ('v option \<times> ('k, 'v) Lru_Cache) option" where
  "lru_Get k c = (case map_of (lru_cache c) k of
      None \<Rightarrow> Some (None, c)
    | Some n \<Rightarrow> (case map_of (lru_list c) n of
          None \<Rightarrow> None
        | Some (_, v) \<Rightarrow>
            Some (Some v, lru_push_front k v (c\<lparr>lru_list := erase_node n (lru_list c)\<rparr>))))"

section \<open>Invariant and abstraction\<close>

text \<open>The abstract cache is the list of its pairs, most recent first.\<close>

definition lru_abs :: "('k, 'v) Lru_Cache \<Rightarrow> ('k \<times> 'v) list" where
  "lru_abs c = map snd (lru_list c)"

definition linked :: "('k \<times> nat) list \<Rightarrow> (nat \<times> 'k \<times> 'v) list \<Rightarrow> nat \<Rightarrow> bool" where
  "linked ca xs fr \<longleftrightarrow>
     distinct (map fst xs) \<and> distinct (map (fst \<circ> snd) xs) \<and> distinct (map fst ca) \<and>
     (\<forall>k n. map_of ca k = Some n \<longleftrightarrow> (\<exists>v. (n, k, v) \<in> set xs)) \<and> (\<forall>x \<in> set xs. fst x < fr)"

definition lru_inv :: "('k, 'v) Lru_Cache \<Rightarrow> bool" where
  "lru_inv c \<longleftrightarrow> linked (lru_cache c) (lru_list c) (lru_fresh c) \<and> 0 < lru_capacity c \<and>
     length (lru_list c) \<le> unat (lru_capacity c)"

definition put_spec :: "nat \<Rightarrow> 'k \<Rightarrow> 'v \<Rightarrow> ('k \<times> 'v) list \<Rightarrow> ('k \<times> 'v) list" where
  "put_spec cap k v xs = take cap ((k, v) # filter (\<lambda>p. fst p \<noteq> k) xs)"

definition get_spec :: "'k \<Rightarrow> ('k \<times> 'v) list \<Rightarrow> 'v option \<times> ('k \<times> 'v) list" where
  "get_spec k xs = (case map_of xs k of
      None \<Rightarrow> (None, xs)
    | Some v \<Rightarrow> (Some v, (k, v) # filter (\<lambda>p. fst p \<noteq> k) xs))"

lemma linked_length: "linked ca xs fr \<Longrightarrow> length ca = length xs"
proof -
  assume l: "linked ca xs fr"
  then have "k \<in> fst ` set ca \<longleftrightarrow> k \<in> (fst \<circ> snd) ` set xs" for k
    by (force simp: linked_def dom_map_of_conv_image_fst [symmetric] dom_def)
  then have "set (map fst ca) = set (map (fst \<circ> snd) xs)" by auto
  with l show ?thesis
    by (metis linked_def distinct_card length_map)
qed

lemma linked_erase:
  assumes "linked ca xs fr" "map_of ca k = Some n"
  shows "erase_node n xs = filter (\<lambda>x. fst (snd x) \<noteq> k) xs"
proof -
  obtain v where v: "(n, k, v) \<in> set xs" using assms by (auto simp: linked_def)
  have "fst x = n \<longleftrightarrow> fst (snd x) = k" if "x \<in> set xs" for x
  proof -
    have "inj_on fst (set xs)" "inj_on (fst \<circ> snd) (set xs)"
      using assms(1) unfolding linked_def distinct_map by blast+
    then have "fst x = fst (n, k, v) \<longleftrightarrow> x = (n, k, v)" "(fst \<circ> snd) x = (fst \<circ> snd) (n, k, v) \<longleftrightarrow> x = (n, k, v)"
      using v that by (meson inj_on_eq_iff)+
    then show ?thesis by simp
  qed
  then show ?thesis
    unfolding erase_node_def by (intro filter_cong refl) metis
qed

lemma linked_remove:
  "linked ca xs fr \<Longrightarrow> linked (AList.delete k ca) (filter (\<lambda>x. fst (snd x) \<noteq> k) xs) fr"
  by (auto simp: linked_def distinct_map_filter delete_conv' distinct_delete)

lemma linked_push:
  assumes "linked ca xs fr" "k \<notin> (fst \<circ> snd) ` set xs"
  shows "linked (AList.update k fr ca) ((fr, k, v) # xs) (Suc fr)"
proof -
  have "map_of (AList.update k fr ca) j = Some n \<longleftrightarrow> (\<exists>w. (n, j, w) \<in> set ((fr, k, v) # xs))" for j n
  proof (cases "j = k")
    case True
    then have "\<not> (\<exists>w. (n, j, w) \<in> set xs)" using assms(2) by (metis comp_apply fst_conv image_eqI snd_conv)
    with True show ?thesis by (auto simp: update_conv')
  next
    case False
    then show ?thesis using assms(1) by (simp add: update_conv' linked_def)
  qed
  moreover have "fr \<notin> fst ` set xs" using assms(1) by (auto simp: linked_def)
  ultimately show ?thesis
    using assms by (simp add: linked_def distinct_update less_Suc_eq image_iff)
qed

lemma linked_move:
  assumes "linked ca xs fr" "map_of ca k = Some n"
  shows "linked (AList.update k fr ca) ((fr, k, v) # erase_node n xs) (Suc fr)"
proof -
  have u: "map_of (AList.update k fr (AList.delete k ca)) = map_of (AList.update k fr ca)"
    by (auto simp: update_conv' delete_conv')
  have "linked (AList.update k fr (AList.delete k ca)) ((fr, k, v) # erase_node n xs) (Suc fr)"
    unfolding linked_erase [OF assms] by (rule linked_push [OF linked_remove [OF assms(1)]]) auto
  then show ?thesis
    using assms(1) by (simp add: linked_def u distinct_update)
qed

lemma linked_lookup:
  assumes "linked ca xs fr"
  shows "map_of ca k = None \<Longrightarrow> map_of (map snd xs) k = None"
    and "map_of ca k = Some n \<Longrightarrow> \<exists>v. map_of xs n = Some (k, v) \<and> map_of (map snd xs) k = Some v"
proof -
  show "map_of (map snd xs) k = None" if "map_of ca k = None"
  proof -
    have "\<not> (\<exists>n v. (n, k, v) \<in> set xs)"
      using assms that unfolding linked_def by (metis option.distinct(1))
    then show ?thesis by (auto simp: map_of_eq_None_iff)
  qed
next
  assume "map_of ca k = Some n"
  then obtain v where v: "(n, k, v) \<in> set xs" using assms by (auto simp: linked_def)
  then have "(k, v) \<in> set (map snd xs)" by force
  moreover have "distinct (map fst (map snd xs))" using assms by (simp add: linked_def comp_def)
  ultimately show "\<exists>v. map_of xs n = Some (k, v) \<and> map_of (map snd xs) k = Some v"
    using map_of_is_SomeI [of xs n "(k, v)"] map_of_is_SomeI [of "map snd xs" k v] assms v
    by (auto simp: linked_def)
qed

section \<open>The operations refine the abstract cache\<close>

lemma lru_drop_key_correct:
  assumes "lru_inv c"
  shows "lru_inv (lru_drop_key k c)"
    and "lru_abs (lru_drop_key k c) = filter (\<lambda>p. fst p \<noteq> k) (lru_abs c)"
    and "lru_capacity (lru_drop_key k c) = lru_capacity c"
proof -
  have f: "filter (\<lambda>x. fst (snd x) \<noteq> k) (lru_list c) = lru_list c" if "map_of (lru_cache c) k = None"
    using assms that by (force simp: lru_inv_def linked_def filter_id_conv)
  show "lru_inv (lru_drop_key k c)"
    using assms linked_remove [of "lru_cache c" "lru_list c" "lru_fresh c" k]
    by (auto simp: lru_inv_def lru_drop_key_def linked_erase split: option.split
        intro: order_trans [OF length_filter_le])
  show "lru_abs (lru_drop_key k c) = filter (\<lambda>p. fst p \<noteq> k) (lru_abs c)"
    using assms f by (auto simp: lru_inv_def lru_drop_key_def lru_abs_def linked_erase filter_map
        comp_def split: option.split)
  show "lru_capacity (lru_drop_key k c) = lru_capacity c"
    by (simp add: lru_drop_key_def split: option.split)
qed

lemma lru_evict_correct:
  assumes "lru_inv c"
  shows "\<exists>c'. lru_evict c = Some c' \<and> lru_inv c' \<and> lru_capacity c' = lru_capacity c \<and>
    lru_abs c' = take (unat (lru_capacity c) - 1) (lru_abs c) \<and>
    length (lru_list c') < unat (lru_capacity c)"
proof (cases "length (lru_list c) = unat (lru_capacity c)")
  case True
  have cap: "0 < unat (lru_capacity c)" using assms by (simp add: lru_inv_def unat_gt_0 word_gt_0)
  with True obtain ys z where yz: "lru_list c = ys @ [z]"
    by (metis length_greater_0_conv append_butlast_last_id)
  have "fst (snd z) \<notin> (\<lambda>x. fst (snd x)) ` set ys"
    using assms by (simp add: lru_inv_def linked_def yz)
  then have "\<forall>x \<in> set ys. fst (snd x) \<noteq> fst (snd z)" by (metis image_eqI)
  then have "filter (\<lambda>x. fst (snd x) \<noteq> fst (snd z)) (lru_list c) = ys"
    by (simp add: yz)
  then have "linked (AList.delete (fst (snd z)) (lru_cache c)) ys (lru_fresh c)"
    using linked_remove [of "lru_cache c" "lru_list c" "lru_fresh c" "fst (snd z)"] assms
    by (simp add: lru_inv_def)
  then show ?thesis
    using True assms cap linked_length [of "lru_cache c" "lru_list c" "lru_fresh c"]
    by (auto simp: lru_evict_def yz lru_inv_def lru_abs_def)
next
  case False
  then show ?thesis
    using assms linked_length [of "lru_cache c" "lru_list c" "lru_fresh c"]
    by (auto simp: lru_evict_def lru_inv_def lru_abs_def)
qed

lemma lru_Put_correct:
  assumes "lru_inv c"
  shows "\<exists>c'. lru_Put k v c = Some c' \<and> lru_inv c' \<and> lru_capacity c' = lru_capacity c \<and>
    lru_abs c' = put_spec (unat (lru_capacity c)) k v (lru_abs c)"
proof -
  note d = lru_drop_key_correct [OF assms, of k]
  obtain c' where c': "lru_evict (lru_drop_key k c) = Some c'" "lru_inv c'" "lru_capacity c' = lru_capacity c"
    "lru_abs c' = take (unat (lru_capacity c) - 1) (filter (\<lambda>p. fst p \<noteq> k) (lru_abs c))"
    "length (lru_list c') < unat (lru_capacity c)"
    using lru_evict_correct [OF d(1)] d by auto
  have "k \<notin> fst ` set (lru_abs c')"
    unfolding c'(4) by (auto dest: in_set_takeD)
  then have "k \<notin> (fst \<circ> snd) ` set (lru_list c')" by (force simp: lru_abs_def)
  then have "lru_inv (lru_push_front k v c')"
    using c' linked_push [of "lru_cache c'" "lru_list c'" "lru_fresh c'" k v]
    by (auto simp: lru_inv_def lru_push_front_def)
  moreover have "lru_abs (lru_push_front k v c') = put_spec (unat (lru_capacity c)) k v (lru_abs c)"
    using c'(4,5) by (cases "unat (lru_capacity c)") (auto simp: put_spec_def lru_push_front_def lru_abs_def)
  ultimately show ?thesis
    using c' by (simp add: lru_Put_def) (simp add: lru_push_front_def)
qed

lemma lru_Get_correct:
  assumes "lru_inv c"
  shows "\<exists>c'. lru_Get k c = Some (fst (get_spec k (lru_abs c)), c') \<and> lru_inv c' \<and>
    lru_capacity c' = lru_capacity c \<and> lru_abs c' = snd (get_spec k (lru_abs c))"
proof (cases "map_of (lru_cache c) k")
  case None
  then show ?thesis
    using assms linked_lookup(1) [of "lru_cache c" "lru_list c" "lru_fresh c" k]
    by (simp add: lru_Get_def get_spec_def lru_inv_def lru_abs_def)
next
  case (Some n)
  have l: "linked (lru_cache c) (lru_list c) (lru_fresh c)" using assms by (simp add: lru_inv_def)
  obtain v where v: "map_of (lru_list c) n = Some (k, v)" "map_of (lru_abs c) k = Some v"
    using linked_lookup(2) [OF l Some] by (auto simp: lru_abs_def)
  then have "(n, k, v) \<in> set (lru_list c)" by (auto dest: map_of_SomeD)
  then have "length (erase_node n (lru_list c)) < length (lru_list c)"
    unfolding erase_node_def by (intro length_filter_less [of "(n, k, v)"]) auto
  then show ?thesis
    using Some v linked_move [OF l Some, of v] assms
    by (auto simp: lru_Get_def get_spec_def lru_inv_def lru_abs_def lru_push_front_def
        linked_erase [OF l Some] filter_map comp_def)
qed

section \<open>The contract of a bounded cache\<close>

text \<open>What a client may assume: a value just put is found, a miss never invents a value, and
  other keys keep their values unless they were evicted.\<close>

locale bounded_cache =
  fixes put :: "'k \<Rightarrow> 'v \<Rightarrow> 's \<Rightarrow> 's option"
    and get :: "'k \<Rightarrow> 's \<Rightarrow> ('v option \<times> 's) option"
    and inv :: "'s \<Rightarrow> bool"
    and content :: "'s \<Rightarrow> 'k \<rightharpoonup> 'v"
  assumes put_ok: "inv s \<Longrightarrow> \<exists>s'. put k v s = Some s' \<and> inv s' \<and> content s' k = Some v \<and>
      (\<forall>j. j \<noteq> k \<longrightarrow> content s' j = None \<or> content s' j = content s j)"
    and get_ok: "inv s \<Longrightarrow> \<exists>s'. get k s = Some (content s k, s') \<and> inv s' \<and> content s' = content s"
begin

text \<open>The read-through use of a cache: look up, and on a miss load the value and put it.\<close>

definition read_through :: "('k \<Rightarrow> 'v option) \<Rightarrow> 'k \<Rightarrow> 's \<Rightarrow> ('v option \<times> 's) option" where
  "read_through load k s = (case get k s of
      None \<Rightarrow> None
    | Some (Some v, s') \<Rightarrow> Some (Some v, s')
    | Some (None, s') \<Rightarrow> (case load k of
          None \<Rightarrow> Some (None, s')
        | Some v \<Rightarrow> map_option (\<lambda>t. (Some v, t)) (put k v s')))"

definition sound :: "('k \<Rightarrow> 'v option) \<Rightarrow> 's \<Rightarrow> bool" where
  "sound load s \<longleftrightarrow> inv s \<and> (\<forall>k v. content s k = Some v \<longrightarrow> load k = Some v)"

lemma read_through_transparent:
  assumes "sound load s"
  shows "\<exists>s'. read_through load k s = Some (load k, s') \<and> sound load s'"
proof -
  obtain s' where g: "get k s = Some (content s k, s')" "inv s'" "content s' = content s"
    using assms get_ok sound_def by blast
  show ?thesis
  proof (cases "content s k")
    case (Some v)
    then show ?thesis using g assms by (auto simp: read_through_def sound_def)
  next
    case None
    show ?thesis
    proof (cases "load k")
      case None
      with \<open>content s k = None\<close> show ?thesis using g assms by (auto simp: read_through_def sound_def)
    next
      case (Some v)
      obtain t where t: "put k v s' = Some t" "inv t" "content t k = Some v"
        "\<forall>j. j \<noteq> k \<longrightarrow> content t j = None \<or> content t j = content s' j"
        using put_ok [OF g(2)] by blast
      have "load j = Some w" if "content t j = Some w" for j w
        using that t Some g assms by (cases "j = k") (force simp: sound_def)+
      with t show ?thesis
        using \<open>content s k = None\<close> Some g by (auto simp: read_through_def sound_def)
    qed
  qed
qed

end

lemma map_of_filter_ne: "map_of (filter (\<lambda>p. fst p \<noteq> k) xs) j = (if j = k then None else map_of xs j)"
  by (induction xs) auto

lemma map_of_take: "map_of (take n xs) j = None \<or> map_of (take n xs) j = map_of xs j"
proof -
  have "map_of xs j = (map_of (drop n xs) ++ map_of (take n xs)) j"
    by (metis append_take_drop_id map_of_append)
  then show ?thesis
    by (cases "map_of (take n xs) j") (auto simp: map_add_def)
qed

lemma put_spec_lookup:
  assumes "0 < cap"
  shows "map_of (put_spec cap k v xs) k = Some v"
    and "j \<noteq> k \<Longrightarrow> map_of (put_spec cap k v xs) j = None \<or> map_of (put_spec cap k v xs) j = map_of xs j"
  using assms map_of_take [of "cap - 1" "filter (\<lambda>p. fst p \<noteq> k) xs" j]
  by (cases cap; simp add: put_spec_def map_of_filter_ne)+

lemma get_spec_lookup: "map_of (snd (get_spec k xs)) = map_of xs" "fst (get_spec k xs) = map_of xs k"
  by (auto simp: get_spec_def map_of_filter_ne split: option.split)

interpretation lru: bounded_cache lru_Put lru_Get lru_inv "\<lambda>c. map_of (lru_abs c)"
proof unfold_locales
  fix c :: "('k, 'v) Lru_Cache" and k v
  assume i: "lru_inv c"
  then have cap: "0 < unat (lru_capacity c)" by (simp add: lru_inv_def unat_gt_0 word_gt_0)
  show "\<exists>c'. lru_Put k v c = Some c' \<and> lru_inv c' \<and> map_of (lru_abs c') k = Some v \<and>
      (\<forall>j. j \<noteq> k \<longrightarrow> map_of (lru_abs c') j = None \<or> map_of (lru_abs c') j = map_of (lru_abs c) j)"
  proof -
    obtain c' where c': "lru_Put k v c = Some c'" "lru_inv c'"
      "lru_abs c' = put_spec (unat (lru_capacity c)) k v (lru_abs c)"
      using lru_Put_correct [OF i, of k v] by blast
    show ?thesis
      using put_spec_lookup [OF cap, where xs = "lru_abs c" and k = k and v = v] c'(1,2)
      unfolding c'(3) [symmetric] by blast
  qed
  show "\<exists>c'. lru_Get k c = Some (map_of (lru_abs c) k, c') \<and> lru_inv c' \<and>
      map_of (lru_abs c') = map_of (lru_abs c)"
    using lru_Get_correct [OF i, of k] get_spec_lookup [of k "lru_abs c"] by force
qed

lemma mk_Lru_Cache_inv: "0 < cap \<Longrightarrow> lru_inv (mk_Lru_Cache cap)"
  by (simp add: mk_Lru_Cache_def lru_inv_def linked_def)

section \<open>Properties\<close>

text \<open>C22. The cache refines a list of pairs in order of use. From a state satisfying the invariant,
  \<open>Put\<close> puts the pair in front, drops any older pair of the key and, when the cache is full, the
  least recently used pair; \<open>Get\<close> returns the value stored for the key and moves it to the front.
  Neither follows a dangling iterator, both keep the invariant, and the size never exceeds the
  capacity.\<close>

theorem lru_refines:
  assumes "lru_inv c"
  shows "(\<exists>c'. lru_Put k v c = Some c' \<and> lru_inv c' \<and>
            lru_abs c' = put_spec (unat (lru_capacity c)) k v (lru_abs c) \<and>
            lru_Size c' \<le> lru_capacity c) \<and>
         (\<exists>c'. lru_Get k c = Some (fst (get_spec k (lru_abs c)), c') \<and> lru_inv c' \<and>
            lru_abs c' = snd (get_spec k (lru_abs c)) \<and> lru_Size c' \<le> lru_capacity c)"
proof -
  have "lru_Size c' \<le> lru_capacity c" if "lru_inv c'" "lru_capacity c' = lru_capacity c" for c'
  proof -
    have "length (lru_cache c') \<le> unat (lru_capacity c)"
      using that linked_length by (metis lru_inv_def)
    then show ?thesis
      unfolding lru_Size_def word_le_nat_alt unat_of_nat by (rule le_trans [OF mod_less_eq_dividend])
  qed
  then show ?thesis
    using lru_Put_correct [OF assms, of k v] lru_Get_correct [OF assms, of k] by blast
qed

theorem lru_refines_witness:
  "\<exists>c'. lru_Put (3 :: nat) ''x'' (mk_Lru_Cache 2) = Some c' \<and> lru_abs c' = [(3, ''x'')]"
  using lru_refines [OF mk_Lru_Cache_inv, of 2 "3 :: nat" "''x''"]
  by (auto simp: put_spec_def mk_Lru_Cache_def lru_abs_def)

end
