(* ===== verification/Skiplist.thy ===== *)
theory Skiplist
  imports Comparators
begin

text \<open>
  \<^verbatim>\<open>src/include/skiplist.h\<close>. Nodes live in a store and are named by their index, so that a
  pointer is an index and \<open>nullptr\<close> is \<open>None\<close>; the head is node 0. A node keeps one forward pointer
  per level. The comparison is an argument (\<open>None\<close> where it would assert), as is the number the
  random generator draws. The searches are loops over pointers and are \<open>partial_function\<close>s: the
  theorems show that they return. \<open>findHelper\<close> has no caller and is left out.
\<close>

section \<open>Nodes\<close>

definition MAX_LEVEL :: nat where "MAX_LEVEL = 16"

record 'k node =
  nd_key :: 'k
  nd_next :: "nat option list"

record 'k Skiplist =
  sl_nodes :: "'k node list"
  sl_max_level :: nat

definition node_next :: "'k node list \<Rightarrow> nat \<Rightarrow> nat \<Rightarrow> nat option option" where
  "node_next ns p l =
     (if p < length ns \<and> l < length (nd_next (ns ! p)) then Some (nd_next (ns ! p) ! l) else None)"

definition node_setnext :: "'k node list \<Rightarrow> nat \<Rightarrow> nat \<Rightarrow> nat option \<Rightarrow> 'k node list option" where
  "node_setnext ns p l x =
     (if p < length ns \<and> l < length (nd_next (ns ! p))
      then Some (ns[p := (ns ! p)\<lparr>nd_next := (nd_next (ns ! p))[l := x]\<rparr>]) else None)"

definition node_key :: "'k node list \<Rightarrow> nat \<Rightarrow> 'k option" where
  "node_key ns p = (if p < length ns then Some (nd_key (ns ! p)) else None)"

definition KeyIsAfterNode ::
  "('k \<Rightarrow> 'k \<Rightarrow> int option) \<Rightarrow> 'k node list \<Rightarrow> 'k \<Rightarrow> nat option \<Rightarrow> bool option" where
  "KeyIsAfterNode cmp ns k n = (case n of None \<Rightarrow> Some False
     | Some i \<Rightarrow> do { ki \<leftarrow> node_key ns i; c \<leftarrow> cmp ki k; Some (c < 0) })"

definition sl_equal ::
  "('k \<Rightarrow> 'k \<Rightarrow> int option) \<Rightarrow> 'k node list \<Rightarrow> 'k \<Rightarrow> nat option \<Rightarrow> bool option" where
  "sl_equal cmp ns k n = (case n of None \<Rightarrow> Some False
     | Some i \<Rightarrow> do { ki \<leftarrow> node_key ns i; c \<leftarrow> cmp ki k; Some (c = 0) })"

section \<open>Searches\<close>

partial_function (option) findNode_loop ::
  "('k \<Rightarrow> 'k \<Rightarrow> int option) \<Rightarrow> 'k node list \<Rightarrow> 'k \<Rightarrow> nat \<Rightarrow> nat \<Rightarrow> nat option option" where
  "findNode_loop cmp ns k cur level = do {
     nx \<leftarrow> node_next ns cur level;
     after \<leftarrow> KeyIsAfterNode cmp ns k nx;
     if after then (case nx of None \<Rightarrow> None | Some q \<Rightarrow> findNode_loop cmp ns k q level)
     else do {
       eq \<leftarrow> sl_equal cmp ns k nx;
       if eq then Some nx
       else if level = 0 then Some nx
       else findNode_loop cmp ns k cur (level - 1) } }"

definition findNode :: "('k \<Rightarrow> 'k \<Rightarrow> int option) \<Rightarrow> 'k Skiplist \<Rightarrow> 'k \<Rightarrow> nat option option" where
  "findNode cmp s k = findNode_loop cmp (sl_nodes s) k 0 (sl_max_level s - 1)"

text \<open>\<open>prev\<close> is the caller's array of \<open>MAX_LEVEL\<close> pointers; \<open>None\<close> stands for a slot not yet
  written.\<close>

partial_function (option) find_set_prev_loop ::
  "('k \<Rightarrow> 'k \<Rightarrow> int option) \<Rightarrow> 'k node list \<Rightarrow> 'k \<Rightarrow> nat \<Rightarrow> nat \<Rightarrow> nat option list \<Rightarrow>
     (nat option \<times> nat option list) option" where
  "find_set_prev_loop cmp ns k cur level prev = do {
     nx \<leftarrow> node_next ns cur level;
     after \<leftarrow> KeyIsAfterNode cmp ns k nx;
     if after then (case nx of None \<Rightarrow> None | Some q \<Rightarrow> find_set_prev_loop cmp ns k q level prev)
     else if level = 0 then Some (nx, prev[level := Some cur])
     else find_set_prev_loop cmp ns k cur (level - 1) (prev[level := Some cur]) }"

definition find_set_prev ::
  "('k \<Rightarrow> 'k \<Rightarrow> int option) \<Rightarrow> 'k Skiplist \<Rightarrow> 'k \<Rightarrow> (nat option \<times> nat option list) option" where
  "find_set_prev cmp s k =
     find_set_prev_loop cmp (sl_nodes s) k 0 (sl_max_level s - 1) (replicate MAX_LEVEL None)"

section \<open>Insertion\<close>

fun bit_width :: "nat \<Rightarrow> nat" where
  "bit_width n = (if n = 0 then 0 else Suc (bit_width (n div 2)))"

declare bit_width.simps [simp del]

definition random_level :: "u32 \<Rightarrow> nat" where
  "random_level rnd = MAX_LEVEL - bit_width (unat (0x7fff AND rnd))"

definition mk_Skiplist :: "'k \<Rightarrow> 'k Skiplist" where
  "mk_Skiplist k0 = \<lparr>sl_nodes = [\<lparr>nd_key = k0, nd_next = replicate MAX_LEVEL None\<rparr>], sl_max_level = 1\<rparr>"

text \<open>The pointers of a new node are uninitialised memory; every one of them is written by the
  linking loop before it is read, so the value used here does not matter.\<close>

definition createNode :: "'k \<Rightarrow> nat \<Rightarrow> 'k node list \<Rightarrow> nat \<times> 'k node list" where
  "createNode k level ns = (length ns, ns @ [\<lparr>nd_key = k, nd_next = replicate level None\<rparr>])"

fun link_loop :: "nat \<Rightarrow> nat option list \<Rightarrow> nat list \<Rightarrow> 'k node list \<Rightarrow> 'k node list option" where
  "link_loop n prev [] ns = Some ns"
| "link_loop n prev (i # is) ns = do {
     p \<leftarrow> (if i < length prev then prev ! i else None);
     x \<leftarrow> node_next ns p i;
     ns1 \<leftarrow> node_setnext ns n i x;
     ns2 \<leftarrow> node_setnext ns1 p i (Some n);
     link_loop n prev is ns2 }"

definition sl_insert :: "('k \<Rightarrow> 'k \<Rightarrow> int option) \<Rightarrow> u32 \<Rightarrow> 'k \<Rightarrow> 'k Skiplist \<Rightarrow> 'k Skiplist option" where
  "sl_insert cmp rnd k s = do {
     (n, prev) \<leftarrow> find_set_prev cmp s k;
     eq \<leftarrow> sl_equal cmp (sl_nodes s) k n;
     if eq then None
     else do {
       let height = random_level rnd;
       let prev' = (if sl_max_level s < height
                    then take (sl_max_level s) prev @ replicate (height - sl_max_level s) (Some 0) @ drop height prev
                    else prev);
       let max_level = (if sl_max_level s < height then height else sl_max_level s);
       let (m, ns) = createNode k height (sl_nodes s);
       ns' \<leftarrow> link_loop m prev' [0..<height] ns;
       Some \<lparr>sl_nodes = ns', sl_max_level = max_level\<rparr> } }"

definition sl_contains :: "('k \<Rightarrow> 'k \<Rightarrow> int option) \<Rightarrow> 'k Skiplist \<Rightarrow> 'k \<Rightarrow> bool option" where
  "sl_contains cmp s k = do {
     cur \<leftarrow> findNode cmp s k;
     (case cur of None \<Rightarrow> Some False
      | Some i \<Rightarrow> do { ki \<leftarrow> node_key (sl_nodes s) i; Some (ki = k) }) }"

section \<open>Iterator\<close>

record sl_iter =
  it_cur :: "nat option"
  it_end :: "nat option"

definition mk_sl_iter :: sl_iter where "mk_sl_iter = \<lparr>it_cur = None, it_end = None\<rparr>"

definition it_hasNext :: "sl_iter \<Rightarrow> bool" where
  "it_hasNext it \<longleftrightarrow> it_end it \<noteq> it_cur it \<and> it_cur it \<noteq> None"

definition it_key :: "'k Skiplist \<Rightarrow> sl_iter \<Rightarrow> 'k option" where
  "it_key s it = do { c \<leftarrow> it_cur it; node_key (sl_nodes s) c }"

definition it_next :: "'k Skiplist \<Rightarrow> sl_iter \<Rightarrow> sl_iter option" where
  "it_next s it = do { c \<leftarrow> it_cur it; nx \<leftarrow> node_next (sl_nodes s) c 0; Some (it\<lparr>it_cur := nx\<rparr>) }"

definition it_seek :: "('k \<Rightarrow> 'k \<Rightarrow> int option) \<Rightarrow> 'k Skiplist \<Rightarrow> 'k \<Rightarrow> sl_iter \<Rightarrow> sl_iter option" where
  "it_seek cmp s k it = do { c \<leftarrow> findNode cmp s k; Some (it\<lparr>it_cur := c\<rparr>) }"

definition it_seek2 ::
  "('k \<Rightarrow> 'k \<Rightarrow> int option) \<Rightarrow> ('k \<Rightarrow> 'k \<Rightarrow> int option) \<Rightarrow> 'k Skiplist \<Rightarrow> 'k \<Rightarrow> 'k \<Rightarrow> sl_iter \<Rightarrow> sl_iter option" where
  "it_seek2 cmp compare_user_key s k1 k2 it = do {
     c \<leftarrow> findNode cmp s k1;
     e \<leftarrow> findNode cmp s k2;
     e' \<leftarrow> (case e of None \<Rightarrow> Some None
        | Some i \<Rightarrow> do {
            ki \<leftarrow> node_key (sl_nodes s) i; r \<leftarrow> compare_user_key ki k2;
            if r = 0 then node_next (sl_nodes s) i 0 else Some (Some i) });
     Some (it\<lparr>it_cur := c, it_end := e'\<rparr>) }"

definition it_seekToFirst :: "'k Skiplist \<Rightarrow> sl_iter \<Rightarrow> sl_iter option" where
  "it_seekToFirst s it = do { nx \<leftarrow> node_next (sl_nodes s) 0 0; Some (it\<lparr>it_cur := nx\<rparr>) }"

section \<open>Invariant\<close>

abbreviation nkey :: "'k node list \<Rightarrow> nat \<Rightarrow> 'k" where
  "nkey ns i \<equiv> nd_key (ns ! i)"

abbreviation nheight :: "'k node list \<Rightarrow> nat \<Rightarrow> nat" where
  "nheight ns i \<equiv> length (nd_next (ns ! i))"

text \<open>The chain of level \<open>l\<close> from \<open>p\<close> on.\<close>

fun linked_from :: "'k node list \<Rightarrow> nat \<Rightarrow> nat \<Rightarrow> nat list \<Rightarrow> bool" where
  "linked_from ns l p [] \<longleftrightarrow> node_next ns p l = Some None"
| "linked_from ns l p (q # qs) \<longleftrightarrow> node_next ns p l = Some (Some q) \<and> linked_from ns l q qs"

text \<open>\<open>ids\<close> lists the nodes in key order; the chain of every level is the sublist of the nodes that
  reach this level.\<close>

definition sl_rep :: "('k \<Rightarrow> 'k \<Rightarrow> int) \<Rightarrow> ('k \<Rightarrow> bool) \<Rightarrow> 'k Skiplist \<Rightarrow> nat list \<Rightarrow> bool" where
  "sl_rep c wfk s ids \<longleftrightarrow>
     sl_nodes s \<noteq> [] \<and> nheight (sl_nodes s) 0 = 16 \<and> 1 \<le> sl_max_level s \<and> sl_max_level s \<le> 16 \<and>
     distinct ids \<and> 0 \<notin> set ids \<and>
     (\<forall>i \<in> set ids. i < length (sl_nodes s) \<and> wfk (nkey (sl_nodes s) i) \<and>
        1 \<le> nheight (sl_nodes s) i \<and> nheight (sl_nodes s) i \<le> sl_max_level s) \<and>
     sorted_wrt (\<lambda>i j. c (nkey (sl_nodes s) i) (nkey (sl_nodes s) j) < 0) ids \<and>
     (\<forall>l < 16. linked_from (sl_nodes s) l 0 (filter (\<lambda>i. l < nheight (sl_nodes s) i) ids))"

definition sl_holds :: "('k \<Rightarrow> 'k \<Rightarrow> int) \<Rightarrow> ('k \<Rightarrow> bool) \<Rightarrow> 'k Skiplist \<Rightarrow> 'k list \<Rightarrow> bool" where
  "sl_holds c wfk s ks \<longleftrightarrow> (\<exists>ids. sl_rep c wfk s ids \<and> ks = map (nkey (sl_nodes s)) ids)"

lemma linked_from_append:
  "linked_from ns l p (xs @ ys) \<Longrightarrow> linked_from ns l (last (p # xs)) ys"
  by (induction xs arbitrary: p) auto

lemma last_filter: "xs = [] \<or> P (last xs) \<Longrightarrow> last (p # filter P xs) = last (p # xs)"
  by (induction xs rule: rev_induct) auto

lemma last_passed: "last (p # xs @ ys @ [q]) = q"
  by simp

lemma filter_hd_split:
  assumes "filter P suf = q # qs"
  obtains s1 s2 where "suf = s1 @ q # s2" "filter P s1 = []" "P q" "qs = filter P s2"
  using assms by (metis filter_eq_ConsD filter_empty_conv)

section \<open>Writing pointers\<close>

definition same_shape :: "'k node list \<Rightarrow> 'k node list \<Rightarrow> bool" where
  "same_shape ns ns' \<longleftrightarrow> length ns' = length ns \<and>
     (\<forall>p < length ns. nkey ns' p = nkey ns p \<and> nheight ns' p = nheight ns p)"

lemma node_next_ok: "(\<exists>x. node_next ns p l = Some x) \<longleftrightarrow> p < length ns \<and> l < nheight ns p"
  by (simp add: node_next_def)

lemma node_setnext_ok:
  assumes "p < length ns" "l < nheight ns p"
  obtains ns' where "node_setnext ns p l x = Some ns'" "same_shape ns ns'"
    "\<And>q m. node_next ns' q m = (if q = p \<and> m = l then Some x else node_next ns q m)"
proof
  show "node_setnext ns p l x = Some (ns[p := (ns ! p)\<lparr>nd_next := (nd_next (ns ! p))[l := x]\<rparr>])"
    using assms by (simp add: node_setnext_def)
  show "same_shape ns (ns[p := (ns ! p)\<lparr>nd_next := (nd_next (ns ! p))[l := x]\<rparr>])"
    using assms by (auto simp: same_shape_def nth_list_update)
  show "node_next (ns[p := (ns ! p)\<lparr>nd_next := (nd_next (ns ! p))[l := x]\<rparr>]) q m =
      (if q = p \<and> m = l then Some x else node_next ns q m)" for q m
    using assms by (auto simp: node_next_def nth_list_update)
qed

lemma link_loop_correct:
  assumes "distinct is" "n < length ns"
    and "\<forall>i \<in> set is. i < length prev \<and> prev ! i = Some (P i) \<and> P i \<noteq> n \<and> P i < length ns \<and>
      i < nheight ns (P i) \<and> i < nheight ns n"
  shows "\<exists>ns'. link_loop n prev is ns = Some ns' \<and> same_shape ns ns' \<and>
    (\<forall>q l. node_next ns' q l =
       (if l \<in> set is \<and> q = n then node_next ns (P l) l
        else if l \<in> set is \<and> q = P l then Some (Some n) else node_next ns q l))"
  using assms
proof (induction "is" arbitrary: ns)
  case Nil
  then show ?case by (simp add: same_shape_def)
next
  case (Cons i is')
  then have i: "i < length prev" "prev ! i = Some (P i)" "P i \<noteq> n" "P i < length ns"
    "i < nheight ns (P i)" "i < nheight ns n" by auto
  obtain x where x: "node_next ns (P i) i = Some x" using i node_next_ok by metis
  obtain ns1 where n1: "node_setnext ns n i x = Some ns1" "same_shape ns ns1"
    "\<And>q m. node_next ns1 q m = (if q = n \<and> m = i then Some x else node_next ns q m)"
    using node_setnext_ok [OF Cons.prems(2) i(6)] by blast
  have "P i < length ns1" "i < nheight ns1 (P i)" using n1(2) i by (auto simp: same_shape_def)
  then obtain ns2 where n2: "node_setnext ns1 (P i) i (Some n) = Some ns2" "same_shape ns1 ns2"
    "\<And>q m. node_next ns2 q m = (if q = P i \<and> m = i then Some (Some n) else node_next ns1 q m)"
    using node_setnext_ok by blast
  have sh: "same_shape ns ns2" using n1(2) n2(2) by (simp add: same_shape_def)
  have "\<forall>j \<in> set is'. j < length prev \<and> prev ! j = Some (P j) \<and> P j \<noteq> n \<and> P j < length ns2 \<and>
      j < nheight ns2 (P j) \<and> j < nheight ns2 n"
    using Cons.prems sh by (auto simp: same_shape_def)
  then obtain ns' where n': "link_loop n prev is' ns2 = Some ns'" "same_shape ns2 ns'"
    "\<forall>q l. node_next ns' q l = (if l \<in> set is' \<and> q = n then node_next ns2 (P l) l
        else if l \<in> set is' \<and> q = P l then Some (Some n) else node_next ns2 q l)"
    using Cons.IH [of ns2] Cons.prems sh by (auto simp: same_shape_def)
  have "i \<notin> set is'" using Cons.prems by simp
  then have "\<forall>q l. node_next ns' q l = (if l \<in> set (i # is') \<and> q = n then node_next ns (P l) l
        else if l \<in> set (i # is') \<and> q = P l then Some (Some n) else node_next ns q l)"
    using n'(3) n1(3) n2(3) x i(3) by auto
  moreover have "link_loop n prev (i # is') ns = Some ns'" "same_shape ns ns'"
    using i x n1(1) n2(1) n'(1,2) sh by (auto simp: same_shape_def)
  ultimately show ?case by blast
qed

text \<open>A chain only depends on the pointers of its own nodes, and a node is spliced in by
  redirecting the pointer of its predecessor.\<close>

lemma linked_from_cong:
  "linked_from ns l p xs \<Longrightarrow> (\<And>q. q \<in> set (p # xs) \<Longrightarrow> node_next ns' q l = node_next ns q l) \<Longrightarrow>
     linked_from ns' l p xs"
  by (induction xs arbitrary: p) auto

lemma linked_from_splice:
  assumes "linked_from ns l p (xs @ ys)" "distinct (p # xs @ ys)" "n \<notin> set (p # xs @ ys)"
    and "node_next ns' n l = node_next ns (last (p # xs)) l"
    and "node_next ns' (last (p # xs)) l = Some (Some n)"
    and "\<And>q. q \<noteq> n \<Longrightarrow> q \<noteq> last (p # xs) \<Longrightarrow> node_next ns' q l = node_next ns q l"
  shows "linked_from ns' l p (xs @ n # ys)"
  using assms
proof (induction xs arbitrary: p)
  case Nil
  then have "node_next ns' q l = node_next ns q l" if "q \<in> set ys" for q
    using that by (metis append_Nil distinct.simps(2) last_ConsL list.set_intros(2))
  with Nil show ?case
    by (cases ys) (auto intro: linked_from_cong)
next
  case (Cons x xs)
  then have "p \<noteq> last (x # xs)" by (metis Cons_eq_appendI Un_iff distinct.simps(2) last_in_set list.distinct(1) set_append)
  moreover have "last (p # x # xs) = last (x # xs)" by simp
  ultimately show ?case
    using Cons.prems Cons.IH [of x] by auto
qed

section \<open>The searches are correct\<close>

locale skiplist_keys = comparator c wfk for c :: "'k \<Rightarrow> 'k \<Rightarrow> int" and wfk +
  fixes cmp :: "'k \<Rightarrow> 'k \<Rightarrow> int option"
  assumes cmp_eq: "wfk a \<Longrightarrow> wfk b \<Longrightarrow> cmp a b = Some (c a b)"
begin

definition before :: "'k Skiplist \<Rightarrow> 'k \<Rightarrow> nat \<Rightarrow> bool" where
  "before s k i \<longleftrightarrow> c (nkey (sl_nodes s) i) k < 0"

definition first_ge :: "'k Skiplist \<Rightarrow> 'k \<Rightarrow> nat list \<Rightarrow> nat option" where
  "first_ge s k ids = (case dropWhile (before s k) ids of [] \<Rightarrow> None | q # _ \<Rightarrow> Some q)"

text \<open>The position of a search: \<open>cur\<close> is the last of the nodes passed (or the head), all of which
  are before the key.\<close>

definition at :: "'k Skiplist \<Rightarrow> 'k \<Rightarrow> nat list \<Rightarrow> nat list \<Rightarrow> nat \<Rightarrow> bool" where
  "at s k pre suf l \<longleftrightarrow> sl_rep c wfk s (pre @ suf) \<and> wfk k \<and> l < 16 \<and>
     (\<forall>i \<in> set pre. before s k i) \<and> (pre \<noteq> [] \<longrightarrow> l < nheight (sl_nodes s) (last pre))"

lemma at_linked:
  assumes "at s k pre suf l"
  shows "linked_from (sl_nodes s) l (last (0 # pre)) (filter (\<lambda>i. l < nheight (sl_nodes s) i) suf)"
proof -
  have "linked_from (sl_nodes s) l 0
      (filter (\<lambda>i. l < nheight (sl_nodes s) i) pre @ filter (\<lambda>i. l < nheight (sl_nodes s) i) suf)"
    using assms by (simp add: at_def sl_rep_def)
  from linked_from_append [OF this] show ?thesis
    using assms last_filter [of pre "\<lambda>i. l < nheight (sl_nodes s) i" 0] by (auto simp: at_def)
qed

lemma rep_tests:
  assumes "sl_rep c wfk s ids" "wfk k" "q \<in> set ids"
  shows "KeyIsAfterNode cmp (sl_nodes s) k (Some q) = Some (before s k q)"
    and "sl_equal cmp (sl_nodes s) k (Some q) = Some (c (nkey (sl_nodes s) q) k = 0)"
  using assms by (auto simp: KeyIsAfterNode_def sl_equal_def node_key_def cmp_eq sl_rep_def before_def)

lemma rep_sorted:
  assumes "sl_rep c wfk s (xs @ q # ys)" "i \<in> set xs" "wfk k" "c (nkey (sl_nodes s) q) k \<le> 0"
  shows "before s k i"
  using assms cmp_lt_le_trans [of "nkey (sl_nodes s) i" "nkey (sl_nodes s) q" k]
  by (auto simp: sl_rep_def sorted_wrt_append before_def)

lemma at_forward:
  assumes "at s k pre suf l" "filter (\<lambda>i. l < nheight (sl_nodes s) i) suf = q # qs" "before s k q"
  obtains s1 s2 where "suf = s1 @ q # s2" "at s k (pre @ s1 @ [q]) s2 l"
proof -
  obtain s1 s2 where s: "suf = s1 @ q # s2" "l < nheight (sl_nodes s) q"
    using assms(2) by (rule filter_hd_split)
  have "before s k i" if "i \<in> set (pre @ s1)" for i
    using rep_sorted [of s "pre @ s1" q s2 i k] that assms(1,3) s(1) by (auto simp: at_def before_def)
  then have "at s k (pre @ s1 @ [q]) s2 l"
    using assms s by (auto simp: at_def)
  with s(1) that show thesis by blast
qed

lemma at_down: "at s k pre suf (Suc l) \<Longrightarrow> at s k pre suf l"
  by (auto simp: at_def)

text \<open>Where a search stops: at level 0 the next node is the first one not before the key, and a
  node equal to the key is that node at any level.\<close>

lemma at_stop_equal:
  assumes "at s k pre suf l" "filter (\<lambda>i. l < nheight (sl_nodes s) i) suf = q # qs"
    and "c (nkey (sl_nodes s) q) k = 0"
  shows "first_ge s k (pre @ suf) = Some q"
proof -
  obtain s1 s2 where s: "suf = s1 @ q # s2" using assms(2) by (rule filter_hd_split)
  have "\<forall>i \<in> set (pre @ s1). before s k i"
    using rep_sorted [of s "pre @ s1" q s2 _ k] assms(1,3) s by (auto simp: at_def)
  moreover have "\<not> before s k q" using assms(3) by (simp add: before_def)
  ultimately show ?thesis
    by (simp add: first_ge_def s dropWhile_append2 [of "pre @ s1", simplified])
qed

lemma at_zero: "at s k pre suf 0 \<Longrightarrow> filter (\<lambda>i. 0 < nheight (sl_nodes s) i) suf = suf"
proof -
  assume a: "at s k pre suf 0"
  have "0 < nheight (sl_nodes s) i" if "i \<in> set suf" for i
  proof -
    have "1 \<le> nheight (sl_nodes s) i" using a that unfolding at_def sl_rep_def by simp
    then show ?thesis by linarith
  qed
  then show ?thesis unfolding filter_id_conv by blast
qed

lemma at_stop_zero:
  assumes "at s k pre suf 0" "suf = [] \<or> \<not> before s k (hd suf)"
  shows "first_ge s k (pre @ suf) = (case suf of [] \<Rightarrow> None | q # _ \<Rightarrow> Some q)"
    and "takeWhile (before s k) (pre @ suf) = pre"
proof -
  have p: "\<forall>i \<in> set pre. before s k i" using assms(1) by (simp add: at_def)
  then have "dropWhile (before s k) (pre @ suf) = dropWhile (before s k) suf"
    "takeWhile (before s k) (pre @ suf) = pre @ takeWhile (before s k) suf"
    by (simp_all add: dropWhile_append2 takeWhile_append2)
  moreover have "dropWhile (before s k) suf = suf" "takeWhile (before s k) suf = []"
    using assms(2) by (cases suf; simp)+
  ultimately show "first_ge s k (pre @ suf) = (case suf of [] \<Rightarrow> None | q # _ \<Rightarrow> Some q)"
    "takeWhile (before s k) (pre @ suf) = pre"
    by (simp_all add: first_ge_def)
qed

lemma at_cases:
  assumes "at s k pre suf l"
  obtains (none) "filter (\<lambda>i. l < nheight (sl_nodes s) i) suf = []"
      "node_next (sl_nodes s) (last (0 # pre)) l = Some None"
      "KeyIsAfterNode cmp (sl_nodes s) k None = Some False" "sl_equal cmp (sl_nodes s) k None = Some False"
  | (some) q qs where "filter (\<lambda>i. l < nheight (sl_nodes s) i) suf = q # qs"
      "node_next (sl_nodes s) (last (0 # pre)) l = Some (Some q)"
      "KeyIsAfterNode cmp (sl_nodes s) k (Some q) = Some (before s k q)"
      "sl_equal cmp (sl_nodes s) k (Some q) = Some (c (nkey (sl_nodes s) q) k = 0)"
proof (cases "filter (\<lambda>i. l < nheight (sl_nodes s) i) suf")
  case Nil
  then show thesis
    using none at_linked [OF assms] by (simp add: KeyIsAfterNode_def sl_equal_def)
next
  case (Cons q qs)
  then have "q \<in> set suf" by (metis filter_is_subset list.set_intros(1) subsetD)
  then have "KeyIsAfterNode cmp (sl_nodes s) k (Some q) = Some (before s k q)"
    "sl_equal cmp (sl_nodes s) k (Some q) = Some (c (nkey (sl_nodes s) q) k = 0)"
    using rep_tests [of s "pre @ suf" k q] assms by (simp_all add: at_def)
  then show thesis
    using some [OF Cons] at_linked [OF assms] Cons by simp
qed

lemma findNode_loop_correct:
  "at s k pre suf l \<Longrightarrow>
     findNode_loop cmp (sl_nodes s) k (last (0 # pre)) l = Some (first_ge s k (pre @ suf))"
proof (induction "l + length suf" arbitrary: l pre suf rule: less_induct)
  case less
  note step = findNode_loop.simps [of cmp "sl_nodes s" k "last (0 # pre)" l]
  have down: "findNode_loop cmp (sl_nodes s) k (last (0 # pre)) (l - 1) = Some (first_ge s k (pre @ suf))"
    if "0 < l"
    using less.hyps [of "l - 1" suf pre] at_down [of s k pre suf "l - 1"] less.prems that by simp
  from less.prems show ?case
  proof (cases rule: at_cases)
    case none
    then show ?thesis
      using down at_stop_zero(1) [of s k pre suf] at_zero [of s k pre suf] less.prems
      unfolding step by (cases "l = 0") (auto simp del: last.simps)
  next
    case (some q qs)
    show ?thesis
    proof (cases "before s k q")
      case True
      obtain s1 s2 where s: "suf = s1 @ q # s2" "at s k (pre @ s1 @ [q]) s2 l"
        using at_forward [OF less.prems some(1) True] .
      then show ?thesis
        using less.hyps [of l s2 "pre @ s1 @ [q]"] some True
        unfolding step by (simp add: last_passed del: last.simps)
    next
      case False
      then show ?thesis
        using some down at_stop_equal [OF less.prems some(1)] at_zero [of s k pre suf]
          at_stop_zero(1) [of s k pre suf] less.prems
        unfolding step by (cases "l = 0") (auto simp del: last.simps)
    qed
  qed
qed

lemma rep_at_start:
  assumes "sl_rep c wfk s ids" "wfk k"
  shows "at s k [] ids (sl_max_level s - 1)"
  using assms by (auto simp: at_def sl_rep_def)

lemma findNode_correct:
  assumes "sl_rep c wfk s ids" "wfk k"
  shows "findNode cmp s k = Some (first_ge s k ids)"
  using findNode_loop_correct [OF rep_at_start [OF assms]] by (simp add: findNode_def)

text \<open>The predecessors recorded by \<open>find_set_prev\<close>: on every level the last node before the key.\<close>

definition pred_at :: "'k Skiplist \<Rightarrow> 'k \<Rightarrow> nat list \<Rightarrow> nat \<Rightarrow> nat" where
  "pred_at s k ids l = last (0 # filter (\<lambda>i. l < nheight (sl_nodes s) i) (takeWhile (before s k) ids))"

lemma at_pred:
  assumes "at s k pre suf l"
    and "\<forall>q qs. filter (\<lambda>i. l < nheight (sl_nodes s) i) suf = q # qs \<longrightarrow> \<not> before s k q"
  shows "pred_at s k (pre @ suf) l = last (0 # pre)"
proof -
  have "filter (\<lambda>i. l < nheight (sl_nodes s) i) (takeWhile (before s k) suf) = []"
  proof (rule ccontr)
    assume "filter (\<lambda>i. l < nheight (sl_nodes s) i) (takeWhile (before s k) suf) \<noteq> []"
    then obtain q qs where q: "filter (\<lambda>i. l < nheight (sl_nodes s) i) (takeWhile (before s k) suf) = q # qs"
      by (meson neq_Nil_conv)
    then have "before s k q" by (metis filter_hd_split in_set_conv_decomp set_takeWhileD)
    moreover have "\<exists>qs. filter (\<lambda>i. l < nheight (sl_nodes s) i) suf = q # qs"
      using q by (metis append_Cons filter_append takeWhile_dropWhile_id)
    ultimately show False using assms(2) by blast
  qed
  moreover have "takeWhile (before s k) (pre @ suf) = pre @ takeWhile (before s k) suf"
    using assms(1) by (simp add: at_def takeWhile_append2)
  ultimately show ?thesis
    using assms(1) last_filter [of pre "\<lambda>i. l < nheight (sl_nodes s) i" 0]
    by (auto simp: pred_at_def at_def)
qed

lemma find_set_prev_loop_correct:
  "at s k pre suf l \<Longrightarrow> length prev = 16 \<Longrightarrow>
     \<exists>prev'. find_set_prev_loop cmp (sl_nodes s) k (last (0 # pre)) l prev
         = Some (first_ge s k (pre @ suf), prev') \<and> length prev' = 16 \<and>
       (\<forall>j. prev' ! j = (if j \<le> l then Some (pred_at s k (pre @ suf) j) else prev ! j))"
proof (induction "l + length suf" arbitrary: l pre suf prev rule: less_induct)
  case less
  note step = find_set_prev_loop.simps [of cmp "sl_nodes s" k "last (0 # pre)" l prev]
  have l16: "l < 16" using less.prems by (simp add: at_def)
  have stop: ?case
    if nx: "node_next (sl_nodes s) (last (0 # pre)) l = Some nx"
      "KeyIsAfterNode cmp (sl_nodes s) k nx = Some False"
      and notb: "\<forall>q qs. filter (\<lambda>i. l < nheight (sl_nodes s) i) suf = q # qs \<longrightarrow> nx = Some q \<and> \<not> before s k q"
      and nxN: "filter (\<lambda>i. l < nheight (sl_nodes s) i) suf = [] \<longrightarrow> nx = None" for nx
  proof -
    have p: "pred_at s k (pre @ suf) l = last (0 # pre)" using at_pred [OF less.prems(1)] notb by blast
    show ?thesis
    proof (cases "l = 0")
      case True
      then have "filter (\<lambda>i. l < nheight (sl_nodes s) i) suf = suf" using at_zero less.prems by blast
      then have "first_ge s k (pre @ suf) = nx"
        using at_stop_zero(1) [of s k pre suf] less.prems(1) notb nxN True by (cases suf) auto
      then show ?thesis using True nx p less.prems(2) unfolding step by (auto simp: nth_list_update simp del: last.simps)
    next
      case False
      then obtain prev' where "find_set_prev_loop cmp (sl_nodes s) k (last (0 # pre)) (l - 1) (prev[l := Some (last (0 # pre))])
         = Some (first_ge s k (pre @ suf), prev')" "length prev' = 16"
         "\<forall>j. prev' ! j = (if j \<le> l - 1 then Some (pred_at s k (pre @ suf) j) else prev[l := Some (last (0 # pre))] ! j)"
        using less.hyps [of "l - 1" suf pre "prev[l := Some (last (0 # pre))]"]
          at_down [of s k pre suf "l - 1"] less.prems by auto
      then show ?thesis
        using False nx p less.prems(2) l16 unfolding step by (auto simp: nth_list_update le_less simp del: last.simps)
    qed
  qed
  from less.prems(1) show ?case
  proof (cases rule: at_cases)
    case none
    show ?thesis by (rule stop [of None]) (use none in auto)
  next
    case (some q qs)
    show ?thesis
    proof (cases "before s k q")
      case True
      obtain s1 s2 where s: "suf = s1 @ q # s2" "at s k (pre @ s1 @ [q]) s2 l"
        using at_forward [OF less.prems(1) some(1) True] .
      have eq: "(pre @ s1 @ [q]) @ s2 = pre @ suf" by (simp add: s)
      have "l + length s2 < l + length suf" by (simp add: s)
      note ih = less.hyps [OF this s(2) less.prems(2), unfolded eq last_passed]
      have "find_set_prev_loop cmp (sl_nodes s) k (last (0 # pre)) l prev
          = find_set_prev_loop cmp (sl_nodes s) k q l prev"
        unfolding step by (simp add: some(2,3) True del: last.simps)
      then show ?thesis using ih by (simp only:)
    next
      case False
      show ?thesis by (rule stop [of "Some q"]) (use some False in auto)
    qed
  qed
qed

lemma find_set_prev_correct:
  assumes "sl_rep c wfk s ids" "wfk k"
  shows "\<exists>prev. find_set_prev cmp s k = Some (first_ge s k ids, prev) \<and> length prev = 16 \<and>
    (\<forall>j < sl_max_level s. prev ! j = Some (pred_at s k ids j))"
  using find_set_prev_loop_correct [OF rep_at_start [OF assms], of "replicate 16 None"] assms(1)
  by (auto simp: find_set_prev_def MAX_LEVEL_def sl_rep_def)

end

section \<open>Insertion is correct\<close>

lemma bit_width_le: "n < 2 ^ k \<Longrightarrow> bit_width n \<le> k"
proof (induction k arbitrary: n)
  case (Suc k)
  then have "n div 2 < 2 ^ k" by auto
  then show ?case using Suc.IH [of "n div 2"] by (simp add: bit_width.simps [of n])
qed (simp add: bit_width.simps)

lemma random_level_bounds: "1 \<le> random_level r" "random_level r \<le> 16"
proof -
  have "unat (0x7fff AND r) \<le> unat (0x7fff :: u32)"
    by (metis word_and_le2 word_le_nat_alt)
  then have "bit_width (unat (0x7fff AND r)) \<le> 15"
    by (intro bit_width_le) simp
  then show "1 \<le> random_level r" "random_level r \<le> 16"
    by (simp_all add: random_level_def MAX_LEVEL_def)
qed

context skiplist_keys
begin

lemma rep_not_equal:
  assumes "sl_rep c wfk s ids" "wfk k" "\<forall>i \<in> set ids. c (nkey (sl_nodes s) i) k \<noteq> 0"
  shows "sl_equal cmp (sl_nodes s) k (first_ge s k ids) = Some False"
proof (cases "dropWhile (before s k) ids")
  case Nil
  show ?thesis by (simp only: first_ge_def Nil list.case) (simp add: sl_equal_def)
next
  case (Cons q qs)
  then have "q \<in> set ids" by (metis list.set_intros(1) set_dropWhileD)
  then show ?thesis using Cons assms rep_tests(2) [OF assms(1,2)] by (simp add: first_ge_def)
qed

text \<open>The new node's predecessors on all its levels.\<close>

lemma rep_pred:
  assumes "sl_rep c wfk s ids" "l < 16"
  shows "pred_at s k ids l < length (sl_nodes s)" "l < nheight (sl_nodes s) (pred_at s k ids l)"
    "sl_max_level s \<le> l \<Longrightarrow> pred_at s k ids l = 0"
proof -
  define xs where "xs = filter (\<lambda>i. l < nheight (sl_nodes s) i) (takeWhile (before s k) ids)"
  have xs: "\<forall>i \<in> set xs. i \<in> set ids \<and> l < nheight (sl_nodes s) i"
    by (auto simp: xs_def dest: set_takeWhileD)
  have "last (0 # xs) = 0 \<or> last (0 # xs) \<in> set xs" by (cases xs rule: rev_cases) auto
  then show "pred_at s k ids l < length (sl_nodes s)" "l < nheight (sl_nodes s) (pred_at s k ids l)"
    using assms xs unfolding pred_at_def xs_def [symmetric] by (auto simp: sl_rep_def)
  assume "sl_max_level s \<le> l"
  then have "xs = []" using xs assms(1) by (cases xs) (force simp: sl_rep_def)+
  then show "pred_at s k ids l = 0" by (simp add: pred_at_def xs_def [symmetric])
qed

lemma sl_insert_nodes:
  assumes "sl_rep c wfk s ids" "wfk k" "\<forall>i \<in> set ids. c (nkey (sl_nodes s) i) k \<noteq> 0"
    and h: "h = random_level r" and n: "n = length (sl_nodes s)"
    and ns: "ns = sl_nodes s @ [\<lparr>nd_key = k, nd_next = replicate h None\<rparr>]"
  shows "\<exists>ns'. sl_insert cmp r k s = Some \<lparr>sl_nodes = ns', sl_max_level = max (sl_max_level s) h\<rparr> \<and>
    same_shape ns ns' \<and>
    (\<forall>q l. node_next ns' q l =
       (if l < h \<and> q = n then node_next ns (pred_at s k ids l) l
        else if l < h \<and> q = pred_at s k ids l then Some (Some n) else node_next ns q l))"
proof -
  obtain prev where prev: "find_set_prev cmp s k = Some (first_ge s k ids, prev)" "length prev = 16"
    "\<forall>j < sl_max_level s. prev ! j = Some (pred_at s k ids j)"
    using find_set_prev_correct [OF assms(1,2)] by blast
  define prev' where "prev' = (if sl_max_level s < h
      then take (sl_max_level s) prev @ replicate (h - sl_max_level s) (Some 0) @ drop h prev else prev)"
  have h16: "1 \<le> h" "h \<le> 16" using random_level_bounds h by auto
  have m16: "sl_max_level s \<le> 16" using assms(1) by (simp add: sl_rep_def)
  have prev'_l: "l < length prev' \<and> prev' ! l = Some (pred_at s k ids l)" if "l < h" for l
    using that prev(2,3) h16 m16 rep_pred(3) [OF assms(1), of l k]
    by (auto simp: prev'_def nth_append)
  have p: "pred_at s k ids l \<noteq> n \<and> pred_at s k ids l < length ns \<and>
      l < nheight ns (pred_at s k ids l) \<and> l < nheight ns n" if "l < h" for l
    using rep_pred(1,2) [OF assms(1), of l k] that h16 by (auto simp: ns n nth_append)
  obtain ns' where ns': "link_loop n prev' [0..<h] ns = Some ns'" "same_shape ns ns'"
    "\<forall>q l. node_next ns' q l =
       (if l \<in> set [0..<h] \<and> q = n then node_next ns (pred_at s k ids l) l
        else if l \<in> set [0..<h] \<and> q = pred_at s k ids l then Some (Some n) else node_next ns q l)"
    using link_loop_correct [of "[0..<h]" n ns prev' "pred_at s k ids"] prev'_l p
    by (auto simp: ns n)
  have "sl_insert cmp r k s = Some \<lparr>sl_nodes = ns', sl_max_level = max (sl_max_level s) h\<rparr>"
    using prev(1) rep_not_equal [OF assms(1-3)] ns'(1)
    by (simp add: sl_insert_def Let_def h [symmetric] createNode_def n [symmetric] ns [symmetric]
        prev'_def [symmetric] max_def)
  with ns'(2,3) show ?thesis by auto
qed

lemma sl_insert_correct:
  assumes rep: "sl_rep c wfk s ids" and k: "wfk k" and ne: "\<forall>i \<in> set ids. c (nkey (sl_nodes s) i) k \<noteq> 0"
    and n: "n = length (sl_nodes s)"
  shows "\<exists>s'. sl_insert cmp r k s = Some s' \<and>
    sl_rep c wfk s' (takeWhile (before s k) ids @ n # dropWhile (before s k) ids) \<and>
    nkey (sl_nodes s') n = k \<and> (\<forall>i < n. nkey (sl_nodes s') i = nkey (sl_nodes s) i)"
proof -
  define h where "h = random_level r"
  define ns where "ns = sl_nodes s @ [\<lparr>nd_key = k, nd_next = replicate h None\<rparr>]"
  define xs ys where "xs = takeWhile (before s k) ids" and "ys = dropWhile (before s k) ids"
  obtain ns' where ns': "sl_insert cmp r k s = Some \<lparr>sl_nodes = ns', sl_max_level = max (sl_max_level s) h\<rparr>"
    "same_shape ns ns'" "\<forall>q l. node_next ns' q l =
       (if l < h \<and> q = n then node_next ns (pred_at s k ids l) l
        else if l < h \<and> q = pred_at s k ids l then Some (Some n) else node_next ns q l)"
    using sl_insert_nodes [OF rep k ne h_def n ns_def] by blast
  have ids: "ids = xs @ ys" by (simp add: xs_def ys_def)
  have ids_lt: "\<forall>i \<in> set ids. i < n" "0 < n" "0 \<notin> set ids" "distinct ids"
    using rep by (auto simp: sl_rep_def n)
  have len: "length ns' = Suc n" and new: "nkey ns' n = k" "nheight ns' n = h"
    and old: "\<And>i. i < n \<Longrightarrow> nkey ns' i = nkey (sl_nodes s) i \<and> nheight ns' i = nheight (sl_nodes s) i"
    using ns'(2) by (auto simp: same_shape_def ns_def n nth_append)
  have nn: "node_next ns q l = node_next (sl_nodes s) q l" if "q \<noteq> n" for q l
    using that by (auto simp: node_next_def ns_def n nth_append)
  have h: "1 \<le> h" "h \<le> 16" using random_level_bounds by (auto simp: h_def)
  define F where "F = (\<lambda>l. filter (\<lambda>i. l < nheight (sl_nodes s) i))"
  have F: "filter (\<lambda>i. l < nheight ns' i) zs = F l zs" if "set zs \<subseteq> set ids" for l zs
    unfolding F_def using that old ids_lt(1) by (intro filter_cong refl) (metis subsetD)
  have linked: "linked_from ns' l 0 (filter (\<lambda>i. l < nheight ns' i) (xs @ n # ys))" if l: "l < 16" for l
  proof (cases "l < h")
    case True
    have base: "linked_from (sl_nodes s) l 0 (F l xs @ F l ys)"
      using rep l by (simp add: sl_rep_def ids F_def)
    have d: "distinct (0 # F l xs @ F l ys)" "n \<notin> set (0 # F l xs @ F l ys)"
      using ids_lt by (auto simp: ids F_def)
    have pl: "pred_at s k ids l = last (0 # F l xs)" by (simp add: pred_at_def F_def xs_def)
    have "linked_from ns' l 0 (F l xs @ n # F l ys)"
      by (rule linked_from_splice [OF base d]) (use ns'(3) True pl nn rep_pred(1) [OF rep l, of k] n in auto)
    then show ?thesis using F [of xs l] F [of ys l] True new by (auto simp: ids)
  next
    case False
    have "linked_from (sl_nodes s) l 0 (F l ids)" using rep l by (simp add: sl_rep_def F_def)
    then have "linked_from ns' l 0 (F l ids)"
      by (rule linked_from_cong) (use ns'(3) False nn ids_lt in \<open>auto simp: F_def\<close>)
    then show ?thesis using F [of ids l] False new by (simp add: ids)
  qed
  have ys_after: "c k (nkey (sl_nodes s) j) < 0" if "j \<in> set ys" for j
  proof -
    have "nkey (sl_nodes s) j \<in> set (dropWhile (\<lambda>x. c x k < 0) (map (nkey (sl_nodes s)) ids))"
      using that by (simp add: dropWhile_map ys_def before_def [abs_def] comp_def)
    moreover have "sorted_wrt (\<lambda>a b. c a b < 0) (map (nkey (sl_nodes s)) ids)"
      "\<forall>x \<in> set (map (nkey (sl_nodes s)) ids). wfk x"
      using rep by (auto simp: sl_rep_def sorted_wrt_map)
    ultimately have "c k (nkey (sl_nodes s) j) \<le> 0" using dropWhile_sorted k by blast
    moreover have "c (nkey (sl_nodes s) j) k \<noteq> 0" "wfk (nkey (sl_nodes s) j)"
      using ne rep that by (auto simp: ids sl_rep_def)
    ultimately show ?thesis using cmp_eq_sym k by fastforce
  qed
  have "sorted_wrt (\<lambda>i j. c (nkey ns' i) (nkey ns' j) < 0) (xs @ n # ys)"
  proof -
    have "sorted_wrt (\<lambda>i j. c (nkey (sl_nodes s) i) (nkey (sl_nodes s) j) < 0) (xs @ ys)"
      using rep by (simp add: sl_rep_def ids)
    moreover have "c (nkey (sl_nodes s) i) k < 0" if "i \<in> set xs" for i
      using that by (auto simp: xs_def before_def dest: set_takeWhileD)
    moreover have "nkey ns' i = nkey (sl_nodes s) i" if "i \<in> set (xs @ ys)" for i
      using that old ids_lt(1) by (simp add: ids)
    ultimately show ?thesis
      using ys_after new
      by (auto simp: sorted_wrt_append elim!: sorted_wrt_mono_rel [rotated])
  qed
  moreover have "i < length ns' \<and> wfk (nkey ns' i) \<and> 1 \<le> nheight ns' i \<and>
      nheight ns' i \<le> max (sl_max_level s) h" if "i \<in> set (xs @ n # ys)" for i
  proof (cases "i = n")
    case False
    then have i: "i \<in> set ids" using that by (auto simp: ids)
    then have "i < n" using ids_lt(1) by blast
    then show ?thesis using rep i old [of i] len by (auto simp: sl_rep_def)
  qed (use len new k h in auto)
  moreover have "nheight ns' 0 = 16" "1 \<le> sl_max_level s" "sl_max_level s \<le> 16"
    using rep old [of 0] ids_lt(2) by (auto simp: sl_rep_def)
  moreover have "distinct (xs @ n # ys)" "0 \<notin> set (xs @ n # ys)" "ns' \<noteq> []"
    using ids_lt len by (auto simp: ids)
  ultimately have "sl_rep c wfk \<lparr>sl_nodes = ns', sl_max_level = max (sl_max_level s) h\<rparr> (xs @ n # ys)"
    using linked h unfolding sl_rep_def by (simp only: Skiplist.select_convs) auto
  then show ?thesis
    using ns'(1) new old by (auto simp: xs_def ys_def)
qed

lemma map_before:
  "map (nkey (sl_nodes s)) (takeWhile (before s k) ids) = takeWhile (\<lambda>x. c x k < 0) (map (nkey (sl_nodes s)) ids)"
  "map (nkey (sl_nodes s)) (dropWhile (before s k) ids) = dropWhile (\<lambda>x. c x k < 0) (map (nkey (sl_nodes s)) ids)"
  by (simp_all add: takeWhile_map dropWhile_map before_def [abs_def] comp_def)

text \<open>Insertion refines insertion into a sorted list.\<close>

lemma holds_insert:
  assumes "sl_holds c wfk s ks" "wfk k" "\<forall>x \<in> set ks. c x k \<noteq> 0"
  shows "\<exists>s'. sl_insert cmp r k s = Some s' \<and>
    sl_holds c wfk s' (takeWhile (\<lambda>x. c x k < 0) ks @ k # dropWhile (\<lambda>x. c x k < 0) ks)"
proof -
  obtain ids where ids: "sl_rep c wfk s ids" "ks = map (nkey (sl_nodes s)) ids"
    using assms(1) by (auto simp: sl_holds_def)
  define n where "n = length (sl_nodes s)"
  define xs ys where "xs = takeWhile (before s k) ids" and "ys = dropWhile (before s k) ids"
  obtain s' where s': "sl_insert cmp r k s = Some s'" "sl_rep c wfk s' (xs @ n # ys)"
    "nkey (sl_nodes s') n = k" "\<forall>i < n. nkey (sl_nodes s') i = nkey (sl_nodes s) i"
    using sl_insert_correct [OF ids(1) assms(2) _ n_def, of r] assms(3) ids(2) by (auto simp: xs_def ys_def)
  have "\<forall>i \<in> set ids. i < n" using ids(1) by (simp add: sl_rep_def n_def)
  then have "\<forall>i \<in> set (xs @ ys). i < n" by (simp add: xs_def ys_def)
  then have "map (nkey (sl_nodes s')) (xs @ n # ys) = map (nkey (sl_nodes s)) xs @ k # map (nkey (sl_nodes s)) ys"
    using s'(3,4) by simp
  then show ?thesis
    using s'(1,2) unfolding sl_holds_def ids(2) xs_def ys_def map_before by metis
qed

lemma holds_insert_duplicate:
  assumes "sl_holds c wfk s ks" "wfk k" "x \<in> set ks" "c x k = 0"
  shows "sl_insert cmp r k s = None"
proof -
  obtain ids where ids: "sl_rep c wfk s ids" "ks = map (nkey (sl_nodes s)) ids"
    using assms(1) by (auto simp: sl_holds_def)
  then obtain q where q: "q \<in> set ids" "c (nkey (sl_nodes s) q) k = 0" using assms by auto
  then obtain xs ys where xy: "ids = xs @ q # ys" by (meson split_list)
  have "\<forall>i \<in> set xs. before s k i" using rep_sorted [of s xs q ys _ k] ids(1) xy assms(2) q by auto
  moreover have "\<not> before s k q" using q by (simp add: before_def)
  ultimately have "first_ge s k ids = Some q" by (simp add: first_ge_def xy dropWhile_append2)
  then show ?thesis
    using find_set_prev_correct [OF ids(1) assms(2)] rep_tests(2) [OF ids(1) assms(2) q(1)] q(2)
    by (auto simp: sl_insert_def)
qed

lemma holds_mk: "sl_holds c wfk (mk_Skiplist k0) []"
  by (auto simp: sl_holds_def sl_rep_def mk_Skiplist_def MAX_LEVEL_def node_next_def)

lemma holds_sorted: "sl_holds c wfk s ks \<Longrightarrow> sorted_wrt (\<lambda>a b. c a b < 0) ks \<and> (\<forall>k \<in> set ks. wfk k)"
  by (auto simp: sl_holds_def sl_rep_def sorted_wrt_map)

section \<open>The iterator is correct\<close>

definition first :: "nat list \<Rightarrow> nat option" where
  "first xs = (case xs of [] \<Rightarrow> None | x # _ \<Rightarrow> Some x)"

text \<open>The nodes still to deliver are \<open>mid\<close>; the iterator stops in front of \<open>suf\<close>.\<close>

definition it_delivers :: "'k Skiplist \<Rightarrow> sl_iter \<Rightarrow> 'k list \<Rightarrow> bool" where
  "it_delivers s it ks \<longleftrightarrow> (\<exists>pre mid suf. sl_rep c wfk s (pre @ mid @ suf) \<and>
     ks = map (nkey (sl_nodes s)) mid \<and> it_cur it = first (mid @ suf) \<and> it_end it = first suf)"

lemma rep_level0:
  assumes "sl_rep c wfk s ids"
  shows "linked_from (sl_nodes s) 0 0 ids"
proof -
  have "\<forall>i \<in> set ids. 1 \<le> nheight (sl_nodes s) i"
    and l: "\<forall>l < 16. linked_from (sl_nodes s) l 0 (filter (\<lambda>i. l < nheight (sl_nodes s) i) ids)"
    using assms unfolding sl_rep_def by blast+
  then have "filter (\<lambda>i. 0 < nheight (sl_nodes s) i) ids = ids"
    unfolding filter_id_conv by (metis less_numeral_extra(1) less_le_trans)
  moreover have "linked_from (sl_nodes s) 0 0 (filter (\<lambda>i. 0 < nheight (sl_nodes s) i) ids)"
    using l [rule_format, of 0] by simp
  ultimately show ?thesis by (simp only:)
qed

lemma rep_next:
  assumes "sl_rep c wfk s (pre @ q # suf)"
  shows "node_next (sl_nodes s) q 0 = Some (first suf)"
proof -
  have "linked_from (sl_nodes s) 0 0 ((pre @ [q]) @ suf)" using rep_level0 [OF assms] by simp
  from linked_from_append [OF this] show ?thesis
    by (cases suf) (auto simp: first_def)
qed

lemma rep_first: "sl_rep c wfk s ids \<Longrightarrow> node_next (sl_nodes s) 0 0 = Some (first ids)"
  by (drule rep_level0) (cases ids; simp add: first_def)

lemma it_delivers_valid: "it_delivers s it ks \<Longrightarrow> it_hasNext it \<longleftrightarrow> ks \<noteq> []"
proof -
  assume "it_delivers s it ks"
  then obtain pre mid suf where m: "sl_rep c wfk s (pre @ mid @ suf)"
    "ks = map (nkey (sl_nodes s)) mid" "it_cur it = first (mid @ suf)" "it_end it = first suf"
    by (auto simp: it_delivers_def)
  have "distinct (mid @ suf)" using m(1) by (simp add: sl_rep_def)
  then show ?thesis
    using m(2-4) by (cases mid; cases suf) (auto simp: it_hasNext_def first_def)
qed

lemma it_delivers_step:
  assumes "it_delivers s it (k # ks)"
  shows "it_key s it = Some k" "\<exists>it'. it_next s it = Some it' \<and> it_delivers s it' ks"
proof -
  obtain pre q mid suf where m: "sl_rep c wfk s (pre @ q # mid @ suf)" "k = nkey (sl_nodes s) q"
    "ks = map (nkey (sl_nodes s)) mid" "it_cur it = Some q" "it_end it = first suf"
    using assms by (auto simp: it_delivers_def first_def)
  show "it_key s it = Some k" using m by (simp add: it_key_def node_key_def sl_rep_def)
  have "sl_rep c wfk s ((pre @ [q]) @ mid @ suf)" using m(1) by simp
  then show "\<exists>it'. it_next s it = Some it' \<and> it_delivers s it' ks"
    using m rep_next [OF m(1)] unfolding it_delivers_def it_next_def by fastforce
qed

lemma first_ge_first: "first_ge s k ids = first (dropWhile (before s k) ids)"
  by (simp add: first_ge_def first_def)

lemma it_seekToFirst_delivers:
  assumes "sl_holds c wfk s ks"
  shows "\<exists>it. it_seekToFirst s mk_sl_iter = Some it \<and> it_delivers s it ks"
proof -
  obtain ids where ids: "sl_rep c wfk s ids" "ks = map (nkey (sl_nodes s)) ids"
    using assms by (auto simp: sl_holds_def)
  have "it_delivers s (mk_sl_iter\<lparr>it_cur := first ids\<rparr>) ks"
    unfolding it_delivers_def using ids
    by (intro exI [of _ "[]"] exI [of _ ids]) (simp add: mk_sl_iter_def first_def)
  then show ?thesis by (simp add: it_seekToFirst_def rep_first [OF ids(1)])
qed

lemma it_seek_delivers:
  assumes "sl_holds c wfk s ks" "wfk k"
  shows "\<exists>it. it_seek cmp s k mk_sl_iter = Some it \<and> it_delivers s it (dropWhile (\<lambda>x. c x k < 0) ks)"
proof -
  obtain ids where ids: "sl_rep c wfk s ids" "ks = map (nkey (sl_nodes s)) ids"
    using assms by (auto simp: sl_holds_def)
  have "it_delivers s (mk_sl_iter\<lparr>it_cur := first_ge s k ids\<rparr>) (dropWhile (\<lambda>x. c x k < 0) ks)"
    unfolding it_delivers_def first_ge_first ids(2) map_before(2) [symmetric]
    by (rule exI [of _ "takeWhile (before s k) ids"], rule exI [of _ "dropWhile (before s k) ids"],
        rule exI [of _ "[]"]) (use ids(1) in \<open>simp add: mk_sl_iter_def first_def\<close>)
  then show ?thesis by (simp add: it_seek_def findNode_correct [OF ids(1) assms(2)])
qed

text \<open>A range stops after the first node not before \<open>k2\<close> if it carries the user key of \<open>k2\<close>, and
  in front of it otherwise. The user-key comparison is the second argument \<open>ucmp\<close>.\<close>

definition upto :: "('k \<Rightarrow> 'k \<Rightarrow> int) \<Rightarrow> 'k \<Rightarrow> 'k list \<Rightarrow> 'k list" where
  "upto u k2 ks = takeWhile (\<lambda>x. c x k2 < 0) ks @
     (case dropWhile (\<lambda>x. c x k2 < 0) ks of [] \<Rightarrow> [] | x # _ \<Rightarrow> if u x k2 = 0 then [x] else [])"

lemma dropWhile_prefix:
  assumes "\<And>x. x \<in> set xs \<Longrightarrow> P x \<Longrightarrow> Q x"
  obtains ms where "takeWhile Q xs = takeWhile P xs @ ms" "dropWhile P xs = ms @ dropWhile Q xs"
  using assms
proof (induction xs arbitrary: thesis)
  case (Cons x xs)
  show ?case
  proof (cases "P x")
    case True
    obtain ms where "takeWhile Q xs = takeWhile P xs @ ms" "dropWhile P xs = ms @ dropWhile Q xs"
      using Cons.IH Cons.prems(2) by (metis list.set_intros(2))
    then show ?thesis using Cons.prems True by (intro Cons.prems(1) [of ms]) auto
  next
    case False
    then show ?thesis using Cons.prems(1) [of "takeWhile Q (x # xs)"] by simp
  qed
qed simp

lemma dropWhile_takeWhile_append:
  "dropWhile P xs = zs @ ws \<Longrightarrow> dropWhile P (takeWhile P xs @ zs) = zs"
  by (induction xs) (auto split: if_splits simp: Cons_eq_append_conv)

lemma rep_node_key:
  assumes "sl_rep c wfk s ids" "i \<in> set ids"
  shows "node_key (sl_nodes s) i = Some (nkey (sl_nodes s) i)" "wfk (nkey (sl_nodes s) i)"
  using assms by (auto simp: node_key_def sl_rep_def)

lemma it_seek2_delivers:
  assumes "sl_holds c wfk s ks" "wfk k1" "wfk k2" "c k1 k2 \<le> 0"
    and u: "\<And>a b. wfk a \<Longrightarrow> wfk b \<Longrightarrow> ucmp a b = Some (u a b)"
  shows "\<exists>it. it_seek2 cmp ucmp s k1 k2 mk_sl_iter = Some it \<and>
    it_delivers s it (dropWhile (\<lambda>x. c x k1 < 0) (upto u k2 ks))"
proof -
  obtain ids where ids: "sl_rep c wfk s ids" "ks = map (nkey (sl_nodes s)) ids"
    using assms by (auto simp: sl_holds_def)
  have pq: "before s k1 x \<Longrightarrow> before s k2 x" if "x \<in> set ids" for x
    using ids(1) that assms(2-4) cmp_lt_le_trans [of "nkey (sl_nodes s) x" k1 k2]
    by (simp add: sl_rep_def before_def)
  define T where "T = takeWhile (before s k1) ids"
  define D where "D = dropWhile (before s k2) ids"
  obtain ms where ms: "takeWhile (before s k2) ids = T @ ms" "dropWhile (before s k1) ids = ms @ D"
    using dropWhile_prefix [of ids "before s k1" "before s k2"] pq unfolding T_def D_def by blast
  have idsTmD: "ids = T @ ms @ D" using ms(2) T_def by (metis takeWhile_dropWhile_id)
  define ex where "ex = (case D of [] \<Rightarrow> [] | x # _ \<Rightarrow> if u (nkey (sl_nodes s) x) k2 = 0 then [x] else [])"
  define suf where "suf = drop (length ex) D"
  have D: "D = ex @ suf" by (cases D) (auto simp: ex_def suf_def)
  have up: "upto u k2 ks = map (nkey (sl_nodes s)) (T @ ms @ ex)"
    unfolding upto_def ids(2) map_before [symmetric] ms(1) D_def [symmetric]
    by (cases D) (auto simp: ex_def)
  have "dropWhile (\<lambda>x. c x k1 < 0) (upto u k2 ks) = map (nkey (sl_nodes s)) (ms @ ex)"
    unfolding up map_before(2) [symmetric]
    using dropWhile_takeWhile_append [of "before s k1" ids "ms @ ex" suf] ms(2) D by (simp add: T_def)
  moreover have "it_seek2 cmp ucmp s k1 k2 mk_sl_iter = Some \<lparr>it_cur = first (ms @ D), it_end = first suf\<rparr>"
  proof (cases D)
    case Nil
    then show ?thesis
      using findNode_correct [OF ids(1) assms(2)] findNode_correct [OF ids(1) assms(3)] D
      by (simp add: it_seek2_def first_ge_first ms(2) D_def [symmetric] mk_sl_iter_def)
        (simp add: first_def)
  next
    case (Cons x xs)
    then have x: "x \<in> set ids" by (simp add: idsTmD)
    have nx: "node_next (sl_nodes s) x 0 = Some (first xs)"
      using rep_next [of s "T @ ms" x xs] ids(1) idsTmD Cons by simp
    have f1: "findNode cmp s k1 = Some (first (ms @ D))"
      using findNode_correct [OF ids(1) assms(2)] by (simp only: first_ge_first ms(2))
    have f2: "findNode cmp s k2 = Some (Some x)"
      using findNode_correct [OF ids(1) assms(3)] Cons
      by (simp only: first_ge_first D_def [symmetric] first_def list.case)
    note ku = rep_node_key(1) [OF ids(1) x] u [OF rep_node_key(2) [OF ids(1) x] assms(3)]
    show ?thesis
    proof (cases "u (nkey (sl_nodes s) x) k2 = 0")
      case True
      then have "suf = xs" by (simp add: suf_def ex_def Cons)
      moreover have "ucmp (nkey (sl_nodes s) x) k2 = Some 0" using ku(2) True by simp
      ultimately show ?thesis by (simp add: it_seek2_def f1 f2 ku(1) nx mk_sl_iter_def)
    next
      case False
      then have "suf = x # xs" by (simp add: suf_def ex_def Cons)
      then show ?thesis by (simp add: it_seek2_def f1 f2 ku nx False mk_sl_iter_def first_def)
    qed
  qed
  moreover have "it_delivers s \<lparr>it_cur = first (ms @ D), it_end = first suf\<rparr> (map (nkey (sl_nodes s)) (ms @ ex))"
    unfolding it_delivers_def
    by (rule exI [of _ T], rule exI [of _ "ms @ ex"], rule exI [of _ suf]) (use ids(1) idsTmD D in simp)
  ultimately show ?thesis by simp
qed

end

end
