(* ===== verification/Memtable.thy ===== *)
theory Memtable
  imports Skiplist Arena Block_Iterator
begin

text \<open>
  \<^verbatim>\<open>src/include/memtable.h\<close> and \<^verbatim>\<open>src/memtable.cpp\<close>: the memtable stores one byte buffer per
  write (size of the internal key, internal key, pointer into the value log) in a skip list ordered
  by internal key. The buffers are the skip list's keys.
\<close>

section \<open>Buffers and their order\<close>

definition GetValueFromMemKey :: "bytes \<Rightarrow> bytes option" where
  "GetValueFromMemKey key = do {
     sz \<leftarrow> DecodeFixed32 key;
     if unat sz + 4 \<le> length key then bread (unat sz + 4) (length key - unat sz - 4) key else None }"

definition GetKeyFromMemKey :: "bytes \<Rightarrow> bytes option" where
  "GetKeyFromMemKey key = do { sz \<leftarrow> DecodeFixed32 key; bread 4 (unat sz) key }"

definition MemKeyComporator_compare :: "bytes \<Rightarrow> bytes \<Rightarrow> int option" where
  "MemKeyComporator_compare a b = do {
     ka \<leftarrow> GetKeyFromMemKey a; kb \<leftarrow> GetKeyFromMemKey b;
     InternalKeyComparator_compare ka kb }"

definition compare_user_key :: "bytes \<Rightarrow> bytes \<Rightarrow> int option" where
  "compare_user_key a b = do {
     ka \<leftarrow> GetKeyFromMemKey a; kb \<leftarrow> GetKeyFromMemKey b;
     ua \<leftarrow> ExtractUserKey ka; ub \<leftarrow> ExtractUserKey kb;
     Some (StrComparator_compare ua ub) }"

section \<open>MemTable\<close>

record MemTable =
  mt_size :: u32
  mt_arena :: Arena
  mt_table :: "bytes Skiplist"

text \<open>What one \<open>put\<close> takes from its surroundings: the blocks the runtime would return for the
  buffer and for the skip-list node, the bytes of the fresh buffer (not initialised by the code)
  and the number drawn for the height.\<close>

record put_env =
  pe_block :: nat
  pe_node_block :: nat
  pe_junk :: "nat \<Rightarrow> u8"
  pe_rnd :: u32

text \<open>A node is a slice (16 bytes) and one pointer, plus a pointer per further level.\<close>

definition node_bytes :: "nat \<Rightarrow> nat" where
  "node_bytes level = 24 + 8 * (level - 1)"

definition mk_MemTable :: "nat \<Rightarrow> MemTable" where
  "mk_MemTable block = \<lparr>mt_size = 0, mt_arena = snd (allocateAligned block (node_bytes MAX_LEVEL) mk_Arena),
     mt_table = mk_Skiplist []\<rparr>"

definition mt_put :: "put_env \<Rightarrow> u64 \<Rightarrow> bytes \<Rightarrow> bytes \<Rightarrow> MemTable \<Rightarrow> (Status \<times> MemTable) option" where
  "mt_put env seq key val m = do {
     let vsz = length val;
     let sz = 16 + 8 + length key + 4;
     let type = to_ValueType (seq AND 0xff);
     if (type = kTypeValue \<and> vsz \<noteq> 16) \<or> (type = kTypeDeletion \<and> val \<noteq> []) then None
     else do {
       (p, arena) \<leftarrow> allocate (pe_block env) sz (mt_arena m);
       let buf0 = map (pe_junk env) [0..<sz];
       buf1 \<leftarrow> bwrite 0 (EncodeFixed32 (of_nat (length key + 8))) buf0;
       buf2 \<leftarrow> bwrite 4 key buf1;
       buf3 \<leftarrow> bwrite (4 + length key) (EncodeFixed64 seq) buf2;
       buf4 \<leftarrow> bwrite (12 + length key) val buf3;
       table \<leftarrow> sl_insert MemKeyComporator_compare (pe_rnd env) buf4 (mt_table m);
       Some (OK, \<lparr>mt_size = mt_size m + 1,
         mt_arena = snd (allocateAligned (pe_node_block env) (node_bytes (random_level (pe_rnd env))) arena),
         mt_table = table\<rparr>) } }"

text \<open>\<open>get\<close> returns whether the search ended here, and leaves the result and the status as they
  were unless it did.\<close>

definition mt_get ::
  "MemTable \<Rightarrow> QueryKey \<Rightarrow> VLogEntryInfo \<Rightarrow> Status \<Rightarrow> (bool \<times> VLogEntryInfo \<times> Status) option" where
  "mt_get m qkey res s = do {
     mk \<leftarrow> mem_key qkey;
     iter \<leftarrow> it_seek MemKeyComporator_compare (mt_table m) mk mk_sl_iter;
     if it_hasNext iter then do {
       key \<leftarrow> it_key (mt_table m) iter;
       ik \<leftarrow> GetKeyFromMemKey key;
       uk \<leftarrow> ExtractUserKey ik;
       quk \<leftarrow> qk_user_key qkey;
       if uk = quk then do {
         qik \<leftarrow> internal_key qkey;
         sq \<leftarrow> ExtractSequenceNumber ik;
         qsq \<leftarrow> ExtractSequenceNumber qik;
         if sq > qsq then Some (False, res, s)
         else do {
           t \<leftarrow> ExtractValueType ik;
           (case t of
              kTypeValue \<Rightarrow> do {
                v \<leftarrow> GetValueFromMemKey key;
                (st, res') \<leftarrow> vi_Decode res v;
                Some (True, res', st) }
            | kTypeDeletion \<Rightarrow> Some (True, res, NotFound)
            | kTypeOther _ \<Rightarrow> Some (False, res, s)) } }
       else Some (False, res, s) }
     else Some (False, res, s) }"

definition mt_memoryUsage :: "MemTable \<Rightarrow> u32" where
  "mt_memoryUsage m = ucast (getUsed (mt_arena m))"

definition mt_contains :: "MemTable \<Rightarrow> bytes \<Rightarrow> bool option" where
  "mt_contains m key = sl_contains MemKeyComporator_compare (mt_table m) key"

section \<open>MemTableIterator\<close>

type_synonym mt_iter = "bytes Skiplist \<times> sl_iter"

definition mti_new :: "MemTable \<Rightarrow> mt_iter" where "mti_new m = (mt_table m, mk_sl_iter)"
definition mti_valid :: "mt_iter \<Rightarrow> bool" where "mti_valid it = it_hasNext (snd it)"
definition mti_seek :: "bytes \<Rightarrow> mt_iter \<Rightarrow> mt_iter option" where
  "mti_seek k it = map_option (Pair (fst it)) (it_seek MemKeyComporator_compare (fst it) k (snd it))"
definition mti_seek2 :: "bytes \<Rightarrow> bytes \<Rightarrow> mt_iter \<Rightarrow> mt_iter option" where
  "mti_seek2 k1 k2 it = map_option (Pair (fst it))
     (it_seek2 MemKeyComporator_compare compare_user_key (fst it) k1 k2 (snd it))"
definition mti_seekToFirst :: "mt_iter \<Rightarrow> mt_iter option" where
  "mti_seekToFirst it = map_option (Pair (fst it)) (it_seekToFirst (fst it) (snd it))"
definition mti_next :: "mt_iter \<Rightarrow> mt_iter option" where
  "mti_next it = map_option (Pair (fst it)) (it_next (fst it) (snd it))"
definition mti_key :: "mt_iter \<Rightarrow> bytes option" where
  "mti_key it = do { k \<leftarrow> it_key (fst it) (snd it); GetKeyFromMemKey k }"
definition mti_value :: "mt_iter \<Rightarrow> bytes option" where
  "mti_value it = do { k \<leftarrow> it_key (fst it) (snd it); GetValueFromMemKey k }"

section \<open>Well-formed buffers\<close>

text \<open>A buffer for internal key \<open>ik\<close> and value \<open>v\<close>; the query key has the same form without a
  value.\<close>

definition mem_buf :: "bytes \<Rightarrow> bytes \<Rightarrow> bytes" where
  "mem_buf ik v = EncodeFixed32 (of_nat (length ik)) @ ik @ v"

definition wf_mem :: "bytes \<Rightarrow> bool" where
  "wf_mem b \<longleftrightarrow> (\<exists>ik v. b = mem_buf ik v \<and> wf_ikey ik \<and> length ik < 2 ^ 32)"

definition ikey_of :: "bytes \<Rightarrow> bytes" where
  "ikey_of b = the (GetKeyFromMemKey b)"

definition mem_cmp :: "bytes \<Rightarrow> bytes \<Rightarrow> int" where
  "mem_cmp a b = ikey_cmp (ikey_of a) (ikey_of b)"

lemma GetKeyFromMemKey_buf [simp]: "length ik < 2 ^ 32 \<Longrightarrow> GetKeyFromMemKey (mem_buf ik v) = Some ik"
  using unat_of_nat_u32 [of "length ik"] by (simp add: GetKeyFromMemKey_def mem_buf_def)

lemma GetValueFromMemKey_buf [simp]: "length ik < 2 ^ 32 \<Longrightarrow> GetValueFromMemKey (mem_buf ik v) = Some v"
  using unat_of_nat_u32 [of "length ik"] by (simp add: GetValueFromMemKey_def mem_buf_def)

lemma ikey_of_buf [simp]: "length ik < 2 ^ 32 \<Longrightarrow> ikey_of (mem_buf ik v) = ik"
  by (simp add: ikey_of_def)

lemma wf_mem_ikey: "wf_mem b \<Longrightarrow> GetKeyFromMemKey b = Some (ikey_of b) \<and> wf_ikey (ikey_of b)"
  by (auto simp: wf_mem_def)

lemma wf_mem_buf [simp]: "wf_ikey ik \<Longrightarrow> length ik < 2 ^ 32 \<Longrightarrow> wf_mem (mem_buf ik v)"
  by (auto simp: wf_mem_def)

interpretation mem: skiplist_keys mem_cmp wf_mem MemKeyComporator_compare
proof unfold_locales
  fix a b c :: bytes
  assume wf: "wf_mem a" "wf_mem b"
  then show "mem_cmp a b < 0 \<longleftrightarrow> 0 < mem_cmp b a"
    by (simp add: mem_cmp_def wf_mem_ikey ikey.cmp_neg)
  show "MemKeyComporator_compare a b = Some (mem_cmp a b)"
    using wf by (simp add: MemKeyComporator_compare_def wf_mem_ikey mem_cmp_def InternalKeyComparator_compare_Some)
  assume "wf_mem c" "mem_cmp a b \<le> 0" "mem_cmp b c \<le> 0"
  then show "mem_cmp a c \<le> 0"
    using wf ikey.cmp_trans [of "ikey_of a" "ikey_of b" "ikey_of c"] by (simp add: mem_cmp_def wf_mem_ikey)
qed (simp add: mem_cmp_def wf_mem_ikey ikey.cmp_refl)

section \<open>The abstract table\<close>

text \<open>An entry is a user key, a trailer (sequence number and type) and 16 bytes of value; the table
  holds the entries in the order of their internal keys.\<close>

type_synonym entry = "bytes \<times> u64 \<times> bytes"

definition e_ikey :: "entry \<Rightarrow> bytes" where
  "e_ikey e = fst e @ EncodeFixed64 (fst (snd e))"

definition e_buf :: "entry \<Rightarrow> bytes" where
  "e_buf e = mem_buf (e_ikey e) (snd (snd e))"

definition e_ok :: "entry \<Rightarrow> bool" where
  "e_ok e \<longleftrightarrow> length (fst e) + 8 < 2 ^ 32 \<and> length (snd (snd e)) = 16"

definition mt_holds :: "MemTable \<Rightarrow> entry list \<Rightarrow> bool" where
  "mt_holds m es \<longleftrightarrow> sl_holds mem_cmp wf_mem (mt_table m) (map e_buf es) \<and> (\<forall>e \<in> set es. e_ok e) \<and>
     (\<exists>rs. arena_inv rs (mt_arena m))"

text \<open>The order of entries: user keys ascending, trailers descending.\<close>

definition e_lt :: "entry \<Rightarrow> entry \<Rightarrow> bool" where
  "e_lt a b \<longleftrightarrow> StrComparator_compare (fst a) (fst b) < 0 \<or> fst a = fst b \<and> fst (snd b) < fst (snd a)"

lemma e_ikey_simps [simp]: "length (e_ikey e) = length (fst e) + 8"
  by (simp add: e_ikey_def)

lemma e_ikey_parts: "ExtractUserKey (e_ikey e) = Some (fst e)" "trailer (e_ikey e) = Some (fst (snd e))"
  by (simp_all add: e_ikey_def)

lemma e_buf_key: "e_ok e \<Longrightarrow> GetKeyFromMemKey (e_buf e) = Some (e_ikey e)"
  "e_ok e \<Longrightarrow> GetValueFromMemKey (e_buf e) = Some (snd (snd e))" "e_ok e \<Longrightarrow> wf_mem (e_buf e)"
  by (simp_all add: e_buf_def e_ok_def)

lemma ikey_cmp_e_lt: "ikey_cmp (e_ikey a) (e_ikey b) < 0 \<longleftrightarrow> e_lt a b"
  using Str_eq_0_iff [of "fst a" "fst b"] by (auto simp: e_ikey_def ikey_cmp_eq e_lt_def)

lemma mem_cmp_e_lt:
  assumes "length (fst a) + 8 < 2 ^ 32" "length (fst b) + 8 < 2 ^ 32"
  shows "mem_cmp (mem_buf (e_ikey a) v) (mem_buf (e_ikey b) w) < 0 \<longleftrightarrow> e_lt a b"
    "mem_cmp (mem_buf (e_ikey a) v) (mem_buf (e_ikey b) w) = 0 \<longleftrightarrow> fst a = fst b \<and> fst (snd a) = fst (snd b)"
proof -
  have i: "ikey_of (mem_buf (e_ikey a) v) = e_ikey a" "ikey_of (mem_buf (e_ikey b) w) = e_ikey b"
    using assms by (auto intro!: ikey_of_buf)
  show "mem_cmp (mem_buf (e_ikey a) v) (mem_buf (e_ikey b) w) < 0 \<longleftrightarrow> e_lt a b"
    by (simp only: mem_cmp_def i ikey_cmp_e_lt)
  show "mem_cmp (mem_buf (e_ikey a) v) (mem_buf (e_ikey b) w) = 0 \<longleftrightarrow> fst a = fst b \<and> fst (snd a) = fst (snd b)"
    by (simp only: mem_cmp_def i) (simp add: ikey_cmp_eq_0_iff, simp add: e_ikey_def)
qed

lemma mt_holds_sorted: "mt_holds m es \<Longrightarrow> sorted_wrt e_lt es"
proof -
  assume "mt_holds m es"
  then have "sorted_wrt (\<lambda>a b. mem_cmp (e_buf a) (e_buf b) < 0) es" "\<forall>e \<in> set es. e_ok e"
    using mem.holds_sorted [of "mt_table m" "map e_buf es"] by (auto simp: mt_holds_def sorted_wrt_map)
  then show ?thesis
    using sorted_wrt_mono_rel [of es "\<lambda>a b. mem_cmp (e_buf a) (e_buf b) < 0" e_lt]
    by (simp add: e_buf_def mem_cmp_e_lt e_ok_def)
qed

lemma e_lt_dropWhile:
  assumes "\<forall>e \<in> set es. e_ok e" "length (fst q) + 8 < 2 ^ 32"
  shows "takeWhile (\<lambda>b. mem_cmp b (mem_buf (e_ikey q) v) < 0) (map e_buf es) = map e_buf (takeWhile (\<lambda>e. e_lt e q) es)"
    "dropWhile (\<lambda>b. mem_cmp b (mem_buf (e_ikey q) v) < 0) (map e_buf es) = map e_buf (dropWhile (\<lambda>e. e_lt e q) es)"
  using assms by (induction es) (auto simp: e_buf_def mem_cmp_e_lt e_ok_def)

section \<open>Writes\<close>

text \<open>The runtime assumption of a \<open>put\<close>: new blocks are apart from the live ones.\<close>

definition env_ok :: "put_env \<Rightarrow> bytes \<Rightarrow> MemTable \<Rightarrow> bool" where
  "env_ok env key m \<longleftrightarrow>
     fresh_block (pe_block env) (if 1024 < length key + 28 then length key + 28 else 4096) (mt_arena m) \<and>
     (\<forall>p a. allocate (pe_block env) (length key + 28) (mt_arena m) = Some (p, a) \<longrightarrow>
        fresh_block (pe_node_block env) 4096 a)"

text \<open>What a \<open>put\<close> stores: the pointer of a value, or for a deletion whatever the fresh buffer
  contained.\<close>

definition put_entry :: "put_env \<Rightarrow> u64 \<Rightarrow> bytes \<Rightarrow> bytes \<Rightarrow> entry" where
  "put_entry env seq key val =
     (key, seq, if val = [] then map (pe_junk env) [length key + 12..<length key + 28] else val)"

lemma upt_split: "a \<le> b \<Longrightarrow> b \<le> c \<Longrightarrow> [a..<c] = [a..<b] @ [b..<c]"
  using upt_add_eq_append [of a b "c - b"] by simp

lemma mt_put_buf:
  assumes "val = [] \<or> length val = 16"
  shows "do { buf1 \<leftarrow> bwrite 0 (EncodeFixed32 (of_nat (length key + 8))) (map f [0..<length key + 28]);
       buf2 \<leftarrow> bwrite 4 key buf1;
       buf3 \<leftarrow> bwrite (4 + length key) (EncodeFixed64 seq) buf2;
       bwrite (12 + length key) val buf3 }
     = Some (EncodeFixed32 (of_nat (length key + 8)) @ key @ EncodeFixed64 seq @
         (if val = [] then map f [length key + 12..<length key + 28] else val))"
proof -
  define t where "t = map f [length key + 12..<length key + 28]"
  obtain f1 f2 f3 where f: "map f [0..<length key + 28] = f1 @ f2 @ f3 @ t"
    and l: "length f1 = 4" "length f2 = length key" "length f3 = 8"
  proof
    define n where "n = length key"
    have "[0..<n + 28] = [0..<4] @ [4..<n + 28]" by (rule upt_split) simp_all
    also have "[4..<n + 28] = [4..<n + 4] @ [n + 4..<n + 28]" by (rule upt_split) simp_all
    also have "[n + 4..<n + 28] = [n + 4..<n + 12] @ [n + 12..<n + 28]" by (rule upt_split) simp_all
    finally show "map f [0..<length key + 28] = map f [0..<4] @ map f [4..<n + 4] @ map f [n + 4..<n + 12] @ t"
      unfolding t_def n_def by (simp only: map_append)
    show "length (map f [0..<4]) = 4" "length (map f [4..<n + 4]) = length key"
      "length (map f [n + 4..<n + 12]) = 8" by (simp_all add: n_def)
  qed
  have "length t = 16" by (simp add: t_def)
  with l show ?thesis
    using assms unfolding f t_def [symmetric] by (auto simp: bwrite_def)
qed

lemma random_node_size: "node_bytes (random_level r) \<le> 1024"
  using random_level_bounds [of r] by (simp add: node_bytes_def)

lemma mt_put_correct:
  assumes "mt_holds m es" "env_ok env key m" "length key + 28 < 2 ^ 32"
    and "val = [] \<or> length val = 16"
    and "to_ValueType (seq AND 0xff) = kTypeValue \<longrightarrow> val \<noteq> []"
    and "to_ValueType (seq AND 0xff) = kTypeDeletion \<longrightarrow> val = []"
    and "\<forall>e \<in> set es. fst e = key \<longrightarrow> fst (snd e) \<noteq> seq"
  defines "e \<equiv> put_entry env seq key val"
  shows "\<exists>m'. mt_put env seq key val m = Some (OK, m') \<and> mt_size m' = mt_size m + 1 \<and>
    mt_holds m' (takeWhile (\<lambda>x. e_lt x e) es @ e # dropWhile (\<lambda>x. e_lt x e) es)"
proof -
  have h: "sl_holds mem_cmp wf_mem (mt_table m) (map e_buf es)" "\<forall>e \<in> set es. e_ok e"
    using assms(1) by (auto simp: mt_holds_def)
  obtain rs where rs: "arena_inv rs (mt_arena m)" using assms(1) by (auto simp: mt_holds_def)
  obtain p a where a: "allocate (pe_block env) (length key + 28) (mt_arena m) = Some (p, a)"
    "arena_inv ((p, length key + 28) # rs) a"
    using allocate_inv [OF rs, of "pe_block env" "length key + 28"] assms(2) by (auto simp: env_ok_def)
  have "fresh_block (pe_node_block env) 4096 a" using assms(2) a(1) by (auto simp: env_ok_def)
  then have node: "\<exists>rs. arena_inv rs (snd (allocateAligned (pe_node_block env) (node_bytes (random_level (pe_rnd env))) a))"
    using allocateAligned_inv [OF a(2), of "pe_node_block env" "node_bytes (random_level (pe_rnd env))"]
      random_node_size [of "pe_rnd env"]
    by (cases "allocateAligned (pe_node_block env) (node_bytes (random_level (pe_rnd env))) a") auto
  have eok: "e_ok e" using assms(3,4) by (auto simp: e_def put_entry_def e_ok_def)
  have buf: "e_buf e = EncodeFixed32 (of_nat (length key + 8)) @ key @ EncodeFixed64 seq @
         (if val = [] then map (pe_junk env) [length key + 12..<length key + 28] else val)"
    by (simp add: e_def put_entry_def e_buf_def mem_buf_def e_ikey_def)
  have "mem_cmp x (e_buf e) \<noteq> 0" if x: "x \<in> set (map e_buf es)" for x
  proof -
    obtain y where y: "y \<in> set es" "x = e_buf y" using x by auto
    have "\<not> (fst y = fst e \<and> fst (snd y) = fst (snd e))"
      using assms(7) y(1) by (auto simp: e_def put_entry_def)
    then show ?thesis
      using mem_cmp_e_lt(2) [of y e "snd (snd y)" "snd (snd e)"] h(2) y eok by (simp add: e_buf_def e_ok_def)
  qed
  then obtain t where t: "sl_insert MemKeyComporator_compare (pe_rnd env) (e_buf e) (mt_table m) = Some t"
    "sl_holds mem_cmp wf_mem t (map e_buf (takeWhile (\<lambda>x. e_lt x e) es @ e # dropWhile (\<lambda>x. e_lt x e) es))"
    using mem.holds_insert [OF h(1), of "e_buf e" "pe_rnd env"] e_buf_key(3) [OF eok]
      e_lt_dropWhile [OF h(2), of e "snd (snd e)"] eok
    by (auto simp: e_buf_def e_ok_def)
  obtain b1 b2 b3 where b: "bwrite 0 (EncodeFixed32 (of_nat (length key + 8))) (map (pe_junk env) [0..<length key + 28]) = Some b1"
      "bwrite 4 key b1 = Some b2" "bwrite (4 + length key) (EncodeFixed64 seq) b2 = Some b3"
      "bwrite (12 + length key) val b3 = Some (e_buf e)"
    using mt_put_buf [OF assms(4), of key "pe_junk env" seq] unfolding buf [symmetric]
    by (auto simp: bind_eq_Some_conv)
  have sz: "16 + 8 + length key + 4 = length key + 28" by simp
  have chk: "((to_ValueType (seq AND 0xff) = kTypeValue \<and> length val \<noteq> 16) \<or>
      (to_ValueType (seq AND 0xff) = kTypeDeletion \<and> val \<noteq> [])) = False"
    using assms(4-6) by blast
  have put: "mt_put env seq key val m = Some (OK, \<lparr>mt_size = mt_size m + 1,
      mt_arena = snd (allocateAligned (pe_node_block env) (node_bytes (random_level (pe_rnd env))) a), mt_table = t\<rparr>)"
    unfolding mt_put_def Let_def sz chk by (simp only: if_False a(1) b t(1) bind.bind_lunit prod.case)
  have "\<forall>x \<in> set (takeWhile (\<lambda>x. e_lt x e) es @ e # dropWhile (\<lambda>x. e_lt x e) es). e_ok x"
    using h(2) eok by (auto dest: set_takeWhileD set_dropWhileD)
  then show ?thesis
    using put t(2) node by (auto simp: mt_holds_def)
qed

section \<open>Reads\<close>

text \<open>The entry a search for user key \<open>u\<close> at sequence number \<open>seq\<close> ends at.\<close>

definition mt_lookup :: "entry list \<Rightarrow> bytes \<Rightarrow> u64 \<Rightarrow> entry option" where
  "mt_lookup es u seq = (case dropWhile (\<lambda>e. e_lt e (u, push_bit 8 seq, [])) es of
      [] \<Rightarrow> None | e # _ \<Rightarrow> if fst e = u then Some e else None)"

definition get_result :: "entry option \<Rightarrow> VLogEntryInfo \<Rightarrow> Status \<Rightarrow> (bool \<times> VLogEntryInfo \<times> Status) option" where
  "get_result r res s = (case r of None \<Rightarrow> Some (False, res, s)
     | Some e \<Rightarrow> (case to_ValueType (fst (snd e) AND 0xff) of
         kTypeValue \<Rightarrow> do { (st, i) \<leftarrow> vi_Decode res (snd (snd e)); Some (True, i, st) }
       | kTypeDeletion \<Rightarrow> Some (True, res, NotFound)
       | kTypeOther _ \<Rightarrow> Some (False, res, s)))"

lemma e_lt_trans: "e_lt a b \<Longrightarrow> e_lt b c \<Longrightarrow> e_lt a c"
  using str.cmp_lt_trans [of "fst a" "fst b" "fst c"] by (auto simp: e_lt_def)

lemma not_e_lt_key: "\<not> e_lt e (u, T, v) \<Longrightarrow> fst e = u \<Longrightarrow> fst (snd e) \<le> T"
  by (auto simp: e_lt_def)

text \<open>It is the newest version of the key that is visible at that sequence number.\<close>

lemma mt_lookup_Some:
  assumes "sorted_wrt e_lt es" "mt_lookup es u seq = Some e"
  shows "e \<in> set es" "fst e = u" "fst (snd e) \<le> push_bit 8 seq"
    "\<And>x. x \<in> set es \<Longrightarrow> fst x = u \<Longrightarrow> fst (snd x) \<le> push_bit 8 seq \<Longrightarrow> fst (snd x) \<le> fst (snd e)"
proof -
  define q where "q = (u, push_bit 8 seq, [] :: bytes)"
  obtain ds where d: "dropWhile (\<lambda>e. e_lt e q) es = e # ds" "fst e = u"
    using assms(2) by (auto simp: mt_lookup_def q_def split: list.splits if_splits)
  define xs where "xs = takeWhile (\<lambda>e. e_lt e q) es"
  have es: "es = xs @ e # ds" using d(1) by (metis takeWhile_dropWhile_id xs_def)
  show "e \<in> set es" "fst e = u" using d es by auto
  have "\<not> e_lt e q" using d(1) by (metis dropWhile_eq_Cons_conv)
  then show "fst (snd e) \<le> push_bit 8 seq" using d(2) not_e_lt_key by (simp add: q_def)
  show "fst (snd x) \<le> fst (snd e)" if x: "x \<in> set es" "fst x = u" "fst (snd x) \<le> push_bit 8 seq" for x
  proof -
    have "\<not> e_lt x q" using x by (auto simp: e_lt_def q_def)
    then have "x \<notin> set xs" by (auto simp: xs_def dest: set_takeWhileD)
    then have "x = e \<or> e_lt e x" using x(1) assms(1) by (auto simp: es sorted_wrt_append)
    then show ?thesis using x(2) d(2) by (auto simp: e_lt_def)
  qed
qed

lemma mt_lookup_None:
  assumes "sorted_wrt e_lt es" "mt_lookup es u seq = None"
  shows "\<not> (\<exists>x \<in> set es. fst x = u \<and> fst (snd x) \<le> push_bit 8 seq)"
proof
  define q where "q = (u, push_bit 8 seq, [] :: bytes)"
  assume "\<exists>x \<in> set es. fst x = u \<and> fst (snd x) \<le> push_bit 8 seq"
  then obtain x where x: "x \<in> set es" "fst x = u" "fst (snd x) \<le> push_bit 8 seq" by blast
  then have nx: "\<not> e_lt x q" by (auto simp: e_lt_def q_def)
  define xs ds where "xs = takeWhile (\<lambda>e. e_lt e q) es" and "ds = dropWhile (\<lambda>e. e_lt e q) es"
  have es: "es = xs @ ds" by (simp add: xs_def ds_def)
  have "x \<notin> set xs" using nx unfolding xs_def by (metis set_takeWhileD)
  then have xd: "x \<in> set ds" using x(1) by (simp add: es)
  then obtain e es' where e: "ds = e # es'" by (cases ds) auto
  have "\<not> e_lt e q" using e unfolding ds_def dropWhile_eq_Cons_conv by blast
  moreover have "x = e \<or> e_lt e x" using xd assms(1) by (auto simp: es e sorted_wrt_append)
  moreover have "fst e \<noteq> u" using assms(2) e by (auto simp: mt_lookup_def q_def [symmetric] ds_def [symmetric])
  ultimately show False
    using x(2) by (auto simp: e_lt_def q_def)
qed

lemma drop_bit_mono: "a \<le> b \<Longrightarrow> drop_bit n a \<le> drop_bit n (b :: u64)"
  using div_le_mono [of "unat a" "unat b" "2 ^ n"]
  by (simp only: word_le_nat_alt unat_drop_bit_eq) (simp only: drop_bit_eq_div)

lemma mt_get_correct:
  assumes "mt_holds m es" "length u + 12 < 2 ^ 32" "mk_QueryKey seq u = Some q"
  shows "mt_get m q res s = get_result (mt_lookup es u seq) res s"
proof -
  define qe where "qe = (u, push_bit 8 seq, [] :: bytes)"
  note v = QueryKey_views [OF assms(2,3)]
  have mk: "mem_key q = Some (mem_buf (e_ikey qe) [])" by (simp add: v mem_buf_def e_ikey_def qe_def)
  have h: "sl_holds mem_cmp wf_mem (mt_table m) (map e_buf es)" and ok: "\<forall>e \<in> set es. e_ok e"
    using assms(1) by (auto simp: mt_holds_def)
  have lq: "length (fst qe) + 8 < 2 ^ 32" using assms(2) by (simp add: qe_def)
  then have "wf_mem (mem_buf (e_ikey qe) [])" by (intro wf_mem_buf) simp_all
  from mem.it_seek_delivers [OF h this] obtain it where
    it: "it_seek MemKeyComporator_compare (mt_table m) (mem_buf (e_ikey qe) []) mk_sl_iter = Some it"
    "mem.it_delivers (mt_table m) it (map e_buf (dropWhile (\<lambda>e. e_lt e qe) es))"
    using e_lt_dropWhile(2) [OF ok lq] by auto
  show ?thesis
  proof (cases "dropWhile (\<lambda>e. e_lt e qe) es")
    case Nil
    then have "\<not> it_hasNext it" using mem.it_delivers_valid [OF it(2)] by simp
    then show ?thesis
      using Nil by (simp only: mt_get_def mk it bind.bind_lunit if_False mt_lookup_def qe_def [symmetric]
          list.case get_result_def option.case) 
  next
    case (Cons e ds)
    have eo: "e_ok e" using ok Cons by (metis list.set_intros(1) set_dropWhileD)
    have k: "it_hasNext it" "it_key (mt_table m) it = Some (e_buf e)"
      using mem.it_delivers_valid [OF it(2)] mem.it_delivers_step(1) [of "mt_table m" it] it(2) Cons by auto
    have "\<not> e_lt e qe" using Cons by (metis dropWhile_eq_Cons_conv)
    then have "drop_bit 8 (fst (snd e)) \<le> drop_bit 8 (push_bit 8 seq)" if "fst e = u"
      using not_e_lt_key [of e u "push_bit 8 seq" "[]"] that unfolding qe_def
      by (intro drop_bit_mono) simp_all
    then show ?thesis
      using Cons k eo
      by (auto simp: mt_get_def mk it e_buf_key v e_ikey_parts ExtractSequenceNumber_def ExtractValueType_def
          mt_lookup_def qe_def [symmetric] get_result_def not_less split: ValueType.splits option.splits)
  qed
qed

section \<open>The iterator\<close>

definition mti_delivers :: "mt_iter \<Rightarrow> (bytes \<times> bytes) list \<Rightarrow> bool" where
  "mti_delivers it kvs \<longleftrightarrow> (\<exists>es. mem.it_delivers (fst it) (snd it) (map e_buf es) \<and>
     (\<forall>e \<in> set es. e_ok e) \<and> kvs = map (\<lambda>e. (e_ikey e, snd (snd e))) es)"

interpretation mem_it: iterator mti_valid mti_next mti_key mti_value mti_delivers
proof unfold_locales
  fix it kvs
  assume "mti_delivers it kvs"
  then show "mti_valid it \<longleftrightarrow> kvs \<noteq> []"
    by (auto simp: mti_delivers_def mti_valid_def mem.it_delivers_valid)
next
  fix it k v kvs
  assume "mti_delivers it ((k, v) # kvs)"
  then obtain e es where e: "mem.it_delivers (fst it) (snd it) (e_buf e # map e_buf es)"
    "e_ok e" "\<forall>e \<in> set es. e_ok e" "k = e_ikey e" "v = snd (snd e)"
    "kvs = map (\<lambda>e. (e_ikey e, snd (snd e))) es"
    by (auto simp: mti_delivers_def Cons_eq_map_conv)
  note step = mem.it_delivers_step [OF e(1)]
  show "mti_key it = Some k" "mti_value it = Some v"
    using step(1) e by (simp_all add: mti_key_def mti_value_def e_buf_key)
  show "\<exists>it'. mti_next it = Some it' \<and> mti_delivers it' kvs"
    using step(2) e by (auto simp: mti_next_def mti_delivers_def)
qed

lemma mti_seekToFirst_delivers:
  assumes "mt_holds m es"
  shows "\<exists>it. mti_seekToFirst (mti_new m) = Some it \<and>
    mti_delivers it (map (\<lambda>e. (e_ikey e, snd (snd e))) es)"
proof -
  have h: "sl_holds mem_cmp wf_mem (mt_table m) (map e_buf es)" "\<forall>e \<in> set es. e_ok e"
    using assms by (auto simp: mt_holds_def)
  obtain it where "it_seekToFirst (mt_table m) mk_sl_iter = Some it"
    "mem.it_delivers (mt_table m) it (map e_buf es)"
    using mem.it_seekToFirst_delivers [OF h(1)] by blast
  then show ?thesis using h(2) by (auto simp: mti_seekToFirst_def mti_new_def mti_delivers_def)
qed

section \<open>Histories of writes\<close>

type_synonym mt_op = "put_env \<times> u64 \<times> bytes \<times> bytes"

fun op_entry :: "mt_op \<Rightarrow> entry" where
  "op_entry (env, seq, key, val) = put_entry env seq key val"

text \<open>A well-formed write: a value with its 16-byte pointer or a deletion with none, and a key that
  fits the size fields.\<close>

fun op_ok :: "mt_op \<Rightarrow> bool" where
  "op_ok (env, seq, key, val) \<longleftrightarrow> length key + 28 < 2 ^ 32 \<and>
     (to_ValueType (seq AND 0xff) = kTypeValue \<and> length val = 16 \<or>
      to_ValueType (seq AND 0xff) = kTypeDeletion \<and> val = [])"

fun mt_run :: "mt_op list \<Rightarrow> MemTable \<Rightarrow> MemTable option" where
  "mt_run [] m = Some m"
| "mt_run ((env, seq, key, val) # ops) m = do {
     (st, m') \<leftarrow> mt_put env seq key val m;
     if ok st then mt_run ops m' else None }"

fun envs_ok :: "mt_op list \<Rightarrow> MemTable \<Rightarrow> bool" where
  "envs_ok [] m \<longleftrightarrow> True"
| "envs_ok ((env, seq, key, val) # ops) m \<longleftrightarrow> env_ok env key m \<and>
     (case mt_put env seq key val m of None \<Rightarrow> True | Some (st, m') \<Rightarrow> envs_ok ops m')"

definition op_seq :: "mt_op \<Rightarrow> u64" where "op_seq x = fst (snd x)"

lemma op_entry_seq [simp]: "fst (snd (op_entry x)) = op_seq x"
  by (cases x) (simp add: put_entry_def op_seq_def)

lemma mt_run_correct:
  "mt_holds m es \<Longrightarrow> envs_ok ops m \<Longrightarrow> \<forall>x \<in> set ops. op_ok x \<Longrightarrow>
   sorted_wrt (<) (map op_seq ops) \<Longrightarrow> \<forall>e \<in> set es. \<forall>x \<in> set ops. fst (snd e) < op_seq x \<Longrightarrow>
     \<exists>m' es'. mt_run ops m = Some m' \<and> mt_holds m' es' \<and> set es' = set es \<union> op_entry ` set ops"
proof (induction ops arbitrary: m es)
  case Nil
  then show ?case by auto
next
  case (Cons x ops)
  obtain env seq key val where x: "x = (env, seq, key, val)" by (cases x)
  define e where "e = put_entry env seq key val"
  have es: "fst e = key" "fst (snd e) = seq" by (simp_all add: e_def put_entry_def)
  have o: "op_ok (env, seq, key, val)" using Cons.prems(3) x by simp
  have "\<exists>m'. mt_put env seq key val m = Some (OK, m') \<and> mt_size m' = mt_size m + 1 \<and>
    mt_holds m' (takeWhile (\<lambda>x. e_lt x e) es @ e # dropWhile (\<lambda>x. e_lt x e) es)"
    unfolding e_def using o Cons.prems(2,5)
    by (intro mt_put_correct [OF Cons.prems(1)]) (auto simp: x op_seq_def)
  then obtain m1 where m1: "mt_put env seq key val m = Some (OK, m1)"
    "mt_holds m1 (takeWhile (\<lambda>x. e_lt x e) es @ e # dropWhile (\<lambda>x. e_lt x e) es)" by blast
  define es1 where "es1 = takeWhile (\<lambda>x. e_lt x e) es @ e # dropWhile (\<lambda>x. e_lt x e) es"
  have s1: "set es1 = insert e (set es)"
    unfolding es1_def by (metis Un_insert_right list.simps(15) set_append takeWhile_dropWhile_id)
  have "\<forall>z \<in> set es1. \<forall>y \<in> set ops. fst (snd z) < op_seq y"
    using Cons.prems(4,5) by (auto simp: s1 es x op_seq_def)
  then obtain m' es' where "mt_run ops m1 = Some m'" "mt_holds m' es'" "set es' = set es1 \<union> op_entry ` set ops"
    using Cons.IH [OF m1(2) [folded es1_def]] Cons.prems(2-4) m1(1) x by auto
  moreover have "op_entry x = e" by (simp add: x e_def)
  ultimately show ?case using m1(1) s1 by (auto simp: x ok_def)
qed

lemma mk_MemTable_holds: "mt_holds (mk_MemTable block) []"
proof -
  obtain p a where "allocateAligned block (node_bytes MAX_LEVEL) mk_Arena = (p, a)"
    by (cases "allocateAligned block (node_bytes MAX_LEVEL) mk_Arena")
  moreover have "fresh_block block (if 1024 < node_bytes MAX_LEVEL then node_bytes MAX_LEVEL + 8 else 4096) mk_Arena"
    by (simp add: fresh_block_def mk_Arena_def)
  ultimately have "arena_inv [(p, node_bytes MAX_LEVEL)] a"
    using allocateAligned_inv [OF mk_Arena_inv] by blast
  then show ?thesis
    using mem.holds_mk [of "[]"] \<open>allocateAligned _ _ _ = _\<close> by (auto simp: mt_holds_def mk_MemTable_def)
qed

text \<open>The last write to a key, as an entry.\<close>

definition last_write :: "mt_op list \<Rightarrow> bytes \<Rightarrow> entry option" where
  "last_write ops u = (case filter (\<lambda>e. fst e = u) (map op_entry ops) of [] \<Rightarrow> None | es \<Rightarrow> Some (last es))"

lemma last_write_lookup:
  assumes "sorted_wrt e_lt es" "set es = op_entry ` set ops" "sorted_wrt (<) (map op_seq ops)"
    and "\<forall>x \<in> set ops. op_seq x \<le> push_bit 8 seq"
  shows "mt_lookup es u seq = last_write ops u"
proof (cases "filter (\<lambda>e. fst e = u) (map op_entry ops)" rule: rev_cases)
  case Nil
  then have "\<not> (\<exists>e \<in> set es. fst e = u)" using assms(2) by (auto simp: filter_empty_conv)
  then have "mt_lookup es u seq = None" using mt_lookup_Some(1,2) [OF assms(1)] by (metis not_None_eq)
  then show ?thesis by (simp only: last_write_def Nil list.case)
next
  case (snoc ys y)
  define F where "F = filter (\<lambda>e. fst e = u) (map op_entry ops)"
  have F: "F = ys @ [y]" "set F = {e \<in> set es. fst e = u}"
    using snoc F_def set_filter [of "\<lambda>e. fst e = u" "map op_entry ops"] unfolding assms(2) set_map
    by blast+
  have "y \<in> set F" using F(1) by simp
  then have y: "y \<in> set es" "fst y = u" "fst (snd y) \<le> push_bit 8 seq"
    using F(2) assms(2,4) op_entry_seq by (fastforce simp del: op_entry.simps)+
  then obtain e where e: "mt_lookup es u seq = Some e" using mt_lookup_None [OF assms(1)] by fastforce
  have ye: "fst (snd y) \<le> fst (snd e)" using mt_lookup_Some(4) [OF assms(1) e y] .
  have "sorted_wrt (\<lambda>a b. fst (snd a) < fst (snd b)) F"
    unfolding F_def using assms(3) by (intro sorted_wrt_filter) (simp add: sorted_wrt_map)
  then have "\<forall>z \<in> set ys. fst (snd z) < fst (snd y)" by (simp add: F(1) sorted_wrt_append)
  moreover have "e \<in> set F" using mt_lookup_Some(1,2) [OF assms(1) e] F(2) by simp
  ultimately have "e = y" using ye F(1) by auto
  then show ?thesis
    using e snoc by (cases ys) (simp_all add: last_write_def)
qed

section \<open>Properties\<close>

text \<open>C8. Last write wins in the memtable. After any history of well-formed writes with increasing
  trailers (sequence number and type) and a runtime whose blocks do not overlap, every write
  succeeded, no assertion failed and no loop ran forever; and a query at a sequence number at or
  above all of them finds, for each key, exactly the last write to it: its pointer for a value,
  \<open>NotFound\<close> for a deletion, and nothing for a key never written.\<close>

theorem memtable_last_write_wins:
  assumes "\<forall>x \<in> set ops. op_ok x" "envs_ok ops (mk_MemTable block)"
    and "sorted_wrt (<) (map op_seq ops)" "\<forall>x \<in> set ops. op_seq x \<le> push_bit 8 seq"
    and "length u + 12 < 2 ^ 32"
  shows "\<exists>m q. mt_run ops (mk_MemTable block) = Some m \<and> mk_QueryKey seq u = Some q \<and>
    mt_get m q res s = get_result (last_write ops u) res s"
proof -
  obtain m es where m: "mt_run ops (mk_MemTable block) = Some m" "mt_holds m es" "set es = op_entry ` set ops"
    using mt_run_correct [OF mk_MemTable_holds assms(2,1,3)] by auto
  obtain q where q: "mk_QueryKey seq u = Some q" using mk_QueryKey_eq [OF assms(5)] by blast
  show ?thesis
    using m(1) q mt_get_correct [OF m(2) assms(5) q] last_write_lookup [OF mt_holds_sorted [OF m(2)] m(3) assms(3,4)]
    by simp
qed

text \<open>A memtable read returns the newest visible version: the entry found has the queried user
  key and the largest trailer not above \<open>seq << 8\<close>, and nothing is found only if there is no such
  entry.\<close>

lemma memtable_get_newest:
  assumes "mt_holds m es" "length u + 12 < 2 ^ 32" "mk_QueryKey seq u = Some q"
  shows "\<exists>r. mt_get m q res s = get_result r res s \<and>
    (case r of None \<Rightarrow> \<not> (\<exists>x \<in> set es. fst x = u \<and> fst (snd x) \<le> push_bit 8 seq)
     | Some e \<Rightarrow> e \<in> set es \<and> fst e = u \<and> fst (snd e) \<le> push_bit 8 seq \<and>
         (\<forall>x \<in> set es. fst x = u \<longrightarrow> fst (snd x) \<le> push_bit 8 seq \<longrightarrow> fst (snd x) \<le> fst (snd e)))"
proof -
  note so = mt_holds_sorted [OF assms(1)]
  show ?thesis
    using mt_get_correct [OF assms] mt_lookup_None [OF so] mt_lookup_Some [OF so]
    by (intro exI [of _ "mt_lookup es u seq"]) (auto split: option.split)
qed

text \<open>C13. A write inserts exactly one entry at its place in the internal-key order and the iterator
  then delivers all entries in that order: user keys ascending, versions of a key newest first.\<close>

theorem memtable_put_iterate:
  assumes "mt_holds m es" "env_ok env key m" "op_ok (env, seq, key, val)"
    and "\<forall>e \<in> set es. fst e = key \<longrightarrow> fst (snd e) \<noteq> seq"
  shows "\<exists>m' it es'. mt_put env seq key val m = Some (OK, m') \<and> mt_size m' = mt_size m + 1 \<and>
    mt_holds m' es' \<and> sorted_wrt e_lt es' \<and> set es' = insert (put_entry env seq key val) (set es) \<and>
    mti_seekToFirst (mti_new m') = Some it \<and> mti_delivers it (map (\<lambda>e. (e_ikey e, snd (snd e))) es')"
proof -
  define e where "e = put_entry env seq key val"
  define es' where "es' = takeWhile (\<lambda>x. e_lt x e) es @ e # dropWhile (\<lambda>x. e_lt x e) es"
  obtain m' where m': "mt_put env seq key val m = Some (OK, m')" "mt_size m' = mt_size m + 1" "mt_holds m' es'"
  proof -
    have "length key + 28 < 2 ^ 32" "val = [] \<or> length val = 16"
      "to_ValueType (seq AND 0xff) = kTypeValue \<longrightarrow> val \<noteq> []"
      "to_ValueType (seq AND 0xff) = kTypeDeletion \<longrightarrow> val = []"
      using assms(3) by auto
    then show thesis using mt_put_correct [OF assms(1,2) _ _ _ _ assms(4)] that
      unfolding es'_def e_def by blast
  qed
  have "set es' = insert e (set es)"
    unfolding es'_def by (metis Un_insert_right list.simps(15) set_append takeWhile_dropWhile_id)
  then show ?thesis
    using m' mt_holds_sorted [OF m'(3)] mti_seekToFirst_delivers [OF m'(3)] unfolding e_def by blast
qed

text \<open>A concrete write: key \<open>[7]\<close>, sequence number 1, a zero pointer.\<close>

definition sample_env :: put_env where
  "sample_env = \<lparr>pe_block = 20000, pe_node_block = 40000, pe_junk = (\<lambda>_. 0), pe_rnd = 5\<rparr>"

lemma sample_env_ok: "env_ok sample_env [7] (mk_MemTable 8000)"
  by (simp add: env_ok_def mk_MemTable_def allocate_def allocateAligned_def allocateAlignFallBack_def
      mk_Arena_def Let_def node_bytes_def MAX_LEVEL_def ARENA_BLOCK_SIZE_def fresh_block_def region_def
      sample_env_def)

lemma sample_op_ok: "op_ok (sample_env, 0x101, [7], replicate 16 0)"
  by (simp add: to_ValueType_def)

theorem memtable_last_write_wins_witness:
  "\<exists>m q. mt_run [(sample_env, 0x101, [7], replicate 16 0)] (mk_MemTable 8000) = Some m \<and>
     mk_QueryKey 2 [7] = Some q \<and> mt_get m q vi_zero NotFound = Some (True, vi_zero, OK)"
proof -
  have "envs_ok [(sample_env, 0x101, [7], replicate 16 0)] (mk_MemTable 8000)"
    using sample_env_ok by (simp split: option.split)
  moreover have "last_write [(sample_env, 0x101, [7], replicate 16 0)] [7] = Some ([7], 0x101, vi_Encode vi_zero)"
    by (simp add: last_write_def put_entry_def vi_Encode_def vi_zero_def EncodeFixed64_def EncodeFixed32_def
        le_bytes_def eval_nat_numeral)
  ultimately show ?thesis
    using memtable_last_write_wins [of "[(sample_env, 0x101, [7], replicate 16 0)]" 8000 2 "[7]" vi_zero NotFound]
      sample_op_ok
    by (simp add: op_seq_def get_result_def to_ValueType_def del: op_ok.simps)
qed

theorem memtable_put_iterate_witness:
  "\<exists>m' it. mt_put sample_env 0x101 [7] (replicate 16 0) (mk_MemTable 8000) = Some (OK, m') \<and>
     mti_seekToFirst (mti_new m') = Some it \<and> mti_valid it"
proof -
  obtain m' it es' where r: "mt_put sample_env 0x101 [7] (replicate 16 0) (mk_MemTable 8000) = Some (OK, m')"
    "set es' = insert (put_entry sample_env 0x101 [7] (replicate 16 0)) (set [])"
    "mti_seekToFirst (mti_new m') = Some it" "mti_delivers it (map (\<lambda>e. (e_ikey e, snd (snd e))) es')"
    using memtable_put_iterate [OF mk_MemTable_holds sample_env_ok sample_op_ok] by auto
  have "es' \<noteq> []" using r(2) by auto
  then have "mti_valid it" using mem_it.valid_iff [OF r(4)] by simp
  with r show ?thesis by blast
qed

end
