(* ===== verification/Ring_Buffer.thy ===== *)
theory Ring_Buffer
  imports Lsmkv_Prelude
begin

text \<open>
  \<^verbatim>\<open>utils/ring_buffer.h\<close>: a byte ring whose two 32-bit counters run freely and wrap around.
  The template parameter \<open>N\<close> is an argument; the buffer has \<open>N\<close> bytes.
\<close>

section \<open>RingBuffer\<close>

record RingBuffer =
  rb_head :: u32
  rb_tail :: u32
  rb_buffer :: bytes

definition rb_Mask :: "u32 \<Rightarrow> u32 \<Rightarrow> u32" where
  "rb_Mask N n = (if N AND (N - 1) = 0 then n AND (N - 1) else n mod N)"

definition rb_Size :: "RingBuffer \<Rightarrow> u32" where
  "rb_Size r = rb_tail r - rb_head r"

text \<open>The size of the slice is truncated to 32 bits before it is compared with the free space;
  fewer than eleven bytes of space or of data are refused.\<close>

definition rb_Append :: "u32 \<Rightarrow> bytes \<Rightarrow> RingBuffer \<Rightarrow> (u32 \<times> RingBuffer) option" where
  "rb_Append N s r =
     (let write_size = min (of_nat (length s)) (N - rb_Size r) in
      if write_size \<le> 10 then Some (0, r)
      else let copy_size = min write_size (N - rb_Mask N (rb_tail r)) in do {
        b \<leftarrow> bwrite (unat (rb_Mask N (rb_tail r))) (take (unat copy_size) s) (rb_buffer r);
        let r1 = r\<lparr>rb_tail := rb_tail r + copy_size, rb_buffer := b\<rparr>;
        if copy_size < write_size then do {
          let remaining_size = write_size - copy_size;
          b2 \<leftarrow> bwrite 0 (take (unat remaining_size) (drop (unat copy_size) s)) (rb_buffer r1);
          Some (write_size, r1\<lparr>rb_tail := rb_tail r1 + remaining_size, rb_buffer := b2\<rparr>) }
        else Some (write_size, r1) })"

definition rb_Free :: "u32 \<Rightarrow> RingBuffer \<Rightarrow> RingBuffer" where
  "rb_Free n r = r\<lparr>rb_head := rb_head r + n\<rparr>"

section \<open>The bytes held\<close>

text \<open>The counters are positions in the stream of all bytes ever written; position \<open>p\<close> lives in
  slot \<open>p mod N\<close>. For a power of two the wrap-around of the counters keeps the slots aligned.\<close>

definition rb_contents :: "u32 \<Rightarrow> RingBuffer \<Rightarrow> bytes" where
  "rb_contents N r =
     map (\<lambda>i. rb_buffer r ! ((unat (rb_head r) + i) mod unat N)) [0..<unat (rb_Size r)]"

definition rb_inv :: "nat \<Rightarrow> u32 \<Rightarrow> RingBuffer \<Rightarrow> bool" where
  "rb_inv e N r \<longleftrightarrow> e < 32 \<and> N = 2 ^ e \<and> length (rb_buffer r) = unat N \<and> rb_Size r \<le> N"

lemma rb_Mask_mod:
  assumes "e < 32" "N = 2 ^ e"
  shows "rb_Mask N n = take_bit e n" "unat (rb_Mask N n) = unat n mod 2 ^ e"
    "unat N = 2 ^ e"
proof -
  have m: "N - 1 = mask e" using assms by (simp add: mask_eq_decr_exp)
  have "N AND mask e = 0"
    by (rule bit_word_eqI) (auto simp: assms bit_and_iff bit_mask_iff bit_exp_iff)
  then show t: "rb_Mask N n = take_bit e n" by (simp add: rb_Mask_def m take_bit_eq_mask)
  show "unat (rb_Mask N n) = unat n mod 2 ^ e"
    unfolding t by (metis unsigned_take_bit_eq take_bit_eq_mod)
  have "(2::nat) ^ e < 2 ^ 32" using assms(1) by (rule power_strict_increasing) simp
  then show "unat N = 2 ^ e"
    unfolding assms(2) using unat_of_nat_small [of "2 ^ e", where 'a = 32] by simp
qed

text \<open>Writing \<open>w\<close> bytes from slot \<open>p\<close> on, in one or two pieces, fills the slots behind \<open>p\<close>
  cyclically and no others.\<close>

lemma nth_bwrite:
  assumes "bwrite off d b = Some b'" "q < length b"
  shows "b' ! q = (if off \<le> q \<and> q < off + length d then d ! (q - off) else b ! q)"
  using assms by (auto simp: bwrite_def nth_append split: if_splits)

lemma ring_write:
  assumes len: "length b = M" and p: "p < M" and w: "w \<le> M" "w \<le> length s"
    and c: "c = min w (M - p)"
    and b1: "bwrite p (take c s) b = Some b1"
    and b2: "bwrite 0 (take (w - c) (drop c s)) b1 = Some b2"
    and j: "j < M"
  shows "b2 ! ((p + j) mod M) = (if j < w then s ! j else b ! ((p + j) mod M))"
proof -
  have l1: "length b1 = M" using length_bwrite [OF b1] len by simp
  define q where "q = (p + j) mod M"
  have q: "q < M" using p by (simp add: q_def)
  have l: "length (take c s) = c" "length (take (w - c) (drop c s)) = w - c" using c w by auto
  note n1 = nth_bwrite [OF b1, of q, unfolded l] and n2 = nth_bwrite [OF b2, of q, unfolded l]
  show ?thesis
  proof (cases "p + j < M")
    case True
    then have qj: "q = p + j" by (simp add: q_def)
    have "\<not> q < w - c" using qj c True w by auto
    then show ?thesis using n1 n2 q qj len l1 True c by (auto simp: q_def [symmetric])
  next
    case False
    then have qj: "q = p + j - M" using j p by (simp add: q_def mod_if)
    then have "q < p" using j False p by linarith
    moreover have "q < w - c \<longleftrightarrow> j < w" using qj c False j p w by (auto simp: min_def)
    moreover have "drop c s ! q = s ! j" if "j < w"
      using that qj c False j p w by (auto simp: min_def)
    ultimately show ?thesis using n1 n2 q len l1 by (auto simp: q_def [symmetric])
  qed
qed

lemma bwrite_defined: "off + length d \<le> length b \<Longrightarrow> \<exists>b'. bwrite off d b = Some b'"
  by (simp add: bwrite_def)

lemma bwrite_Nil [simp]: "off \<le> length b \<Longrightarrow> bwrite off [] b = Some b"
  by (simp add: bwrite_def)

lemma unat_min: "unat (min a b) = min (unat a) (unat (b :: 'a::len word))"
  by (simp add: min_def word_le_nat_alt)

lemma rb_Append_raw:
  assumes "rb_inv e N r" "length s < 2 ^ 32" "10 < w"
    and w: "w = min (length s) (unat N - unat (rb_Size r))"
    and p: "p = unat (rb_tail r) mod unat N" and c: "c = min w (unat N - p)"
  shows "\<exists>b1 b2. bwrite p (take c s) (rb_buffer r) = Some b1 \<and>
    bwrite 0 (take (w - c) (drop c s)) b1 = Some b2 \<and>
    rb_Append N s r = Some (of_nat w, r\<lparr>rb_tail := rb_tail r + of_nat w, rb_buffer := b2\<rparr>)"
proof -
  have inv: "e < 32" "N = 2 ^ e" "length (rb_buffer r) = unat N" "rb_Size r \<le> N"
    using assms(1) by (auto simp: rb_inv_def)
  note m = rb_Mask_mod [OF inv(1,2)]
  define ws where "ws = min (of_nat (length s)) (N - rb_Size r)"
  have ws: "unat ws = w"
    using assms(2) inv(4) by (simp add: ws_def w unat_min unat_sub unat_of_nat_u32)
  have p_lt: "p < unat N" by (simp add: p m(3))
  have mask: "unat (rb_Mask N (rb_tail r)) = p" by (simp only: m(2,3) p)
  define cs where "cs = min ws (N - rb_Mask N (rb_tail r))"
  have "rb_Mask N (rb_tail r) \<le> N" using p_lt by (simp add: word_le_nat_alt mask)
  then have cs: "unat cs = c" by (simp add: cs_def unat_min ws c unat_sub mask)
  have cw: "c \<le> w" by (simp add: c)
  have rem: "unat (ws - cs) = w - c" using cs ws cw by (simp add: unat_sub word_le_nat_alt)
  have big: "\<not> ws \<le> 10" using assms(3) ws by (simp add: word_le_nat_alt)
  have lt: "cs < ws \<longleftrightarrow> c < w" by (simp add: word_less_nat_alt cs ws)
  have wN: "w \<le> unat N" "w \<le> length s" by (auto simp: w)
  obtain b1 where b1: "bwrite p (take c s) (rb_buffer r) = Some b1"
  proof -
    have "p + length (take c s) \<le> length (rb_buffer r)" using inv(3) p_lt unfolding c by auto
    then show thesis using bwrite_defined that by blast
  qed
  obtain b2 where b2: "bwrite 0 (take (w - c) (drop c s)) b1 = Some b2"
  proof -
    have "0 + length (take (w - c) (drop c s)) \<le> length b1"
      using length_bwrite [OF b1] inv(3) wN(1) le_trans [OF diff_le_self wN(1)] by simp
    then show thesis using bwrite_defined that by blast
  qed
  have ofw: "of_nat w = ws" using ws by auto
  have tl: "rb_tail r + cs + (ws - cs) = rb_tail r + ws" by simp
  have "rb_Append N s r = Some (ws, r\<lparr>rb_tail := rb_tail r + ws, rb_buffer := b2\<rparr>)"
  proof (cases "c < w")
    case True
    then show ?thesis
      using b2 unfolding rb_Append_def Let_def ws_def [symmetric] cs_def [symmetric]
      by (simp add: mask cs rem big lt b1 tl)
  next
    case False
    then have "c = w" "cs = ws" "b2 = b1"
      using cw cs ws b2 by (auto simp: word_unat_eq_iff)
    then show ?thesis
      using lt unfolding rb_Append_def Let_def ws_def [symmetric] cs_def [symmetric]
      using b1 ws by (simp add: mask big)
  qed
  then show ?thesis unfolding ofw using b1 b2 by blast
qed

lemma rb_tail_slot:
  assumes "rb_inv e N r"
  shows "unat (rb_tail r) mod unat N = (unat (rb_head r) + unat (rb_Size r)) mod unat N"
proof -
  have e: "e < 32" "unat N = 2 ^ e" using assms rb_Mask_mod(3) by (auto simp: rb_inv_def)
  have "rb_tail r = rb_head r + rb_Size r" by (simp add: rb_Size_def)
  then have "unat (rb_tail r) = (unat (rb_head r) + unat (rb_Size r)) mod 2 ^ 32"
    by (simp add: unat_word_ariths)
  moreover have "(2 :: nat) ^ e dvd 2 ^ 32" using e(1) by (intro le_imp_power_dvd) simp
  ultimately show ?thesis
    by (simp only: e(2) mod_mod_cancel)
qed

lemma rb_Append_correct:
  assumes "rb_inv e N r" "length s < 2 ^ 32"
    and w: "w = min (length s) (unat N - unat (rb_Size r))" and big: "10 < w"
  shows "\<exists>r'. rb_Append N s r = Some (of_nat w, r') \<and> rb_inv e N r' \<and>
    rb_contents N r' = rb_contents N r @ take w s"
proof -
  define M h z where "M = unat N" and "h = unat (rb_head r)" and "z = unat (rb_Size r)"
  define p where "p = unat (rb_tail r) mod M"
  define c where "c = min w (M - p)"
  obtain b1 b2 where b: "bwrite p (take c s) (rb_buffer r) = Some b1"
      "bwrite 0 (take (w - c) (drop c s)) b1 = Some b2"
      "rb_Append N s r = Some (of_nat w, r\<lparr>rb_tail := rb_tail r + of_nat w, rb_buffer := b2\<rparr>)"
    using rb_Append_raw [OF assms(1,2) big w refl refl] by (auto simp: p_def c_def M_def)
  have M: "0 < M" "length (rb_buffer r) = M" "z \<le> M" "M = 2 ^ e"
    using assms(1) rb_Mask_mod(3) [of e N] by (auto simp: rb_inv_def M_def z_def word_le_nat_alt)
  have p: "p = (h + z) mod M" using rb_tail_slot [OF assms(1)] by (simp add: p_def M_def h_def z_def)
  have w': "w \<le> M" "w \<le> length s" "z + w \<le> M" using w M(3) by (auto simp: M_def z_def)
  have rw: "b2 ! ((p + j) mod M) = (if j < w then s ! j else rb_buffer r ! ((p + j) mod M))"
    if "j < M" for j
    using M(1,2) w' by (intro ring_write [OF _ _ _ _ c_def b(1,2) that]) (auto simp: p_def)
  define r' where "r' = r\<lparr>rb_tail := rb_tail r + of_nat w, rb_buffer := b2\<rparr>"
  have "w < 2 ^ 32" using w' assms(2) by simp
  then have "unat (rb_Size r + of_nat w) = z + w"
    using w'(3) M_def unsigned_less [of N, where 'a = nat] unat_of_nat_u32 [of w]
    by (simp add: unat_word_ariths z_def)
  then have z': "unat (rb_Size r') = z + w" by (simp add: r'_def rb_Size_def algebra_simps)
  have new: "b2 ! ((h + (z + j)) mod M) = s ! j" if "j < w" for j
    using rw [of j] that w' by (simp add: p mod_add_left_eq add.assoc)
  have old: "b2 ! ((h + i) mod M) = rb_buffer r ! ((h + i) mod M)" if "i < z" for i
  proof -
    have "(p + (M - z + i)) mod M = (h + i + M) mod M"
    proof -
      have "(p + (M - z + i)) mod M = (h + z + (M - z + i)) mod M" unfolding p by (rule mod_add_left_eq)
      moreover have "h + z + (M - z + i) = h + i + M" using M(3) by simp
      ultimately show ?thesis by (simp only:)
    qed
    then have e: "(p + (M - z + i)) mod M = (h + i) mod M" by simp
    have "M - z + i < M" "\<not> M - z + i < w" using that M(3) w'(3) by linarith+
    then show ?thesis using rw [of "M - z + i"] unfolding e by simp
  qed
  have "rb_contents N r' = rb_contents N r @ take w s"
  proof (rule nth_equalityI)
    show "length (rb_contents N r') = length (rb_contents N r @ take w s)"
      using z' w' by (simp add: rb_contents_def z_def)
  next
    fix i assume "i < length (rb_contents N r')"
    then have i: "i < z + w" using z' by (simp add: rb_contents_def)
    have "rb_contents N r' ! i = b2 ! ((h + i) mod M)"
      using i z' by (simp add: rb_contents_def r'_def M_def h_def)
    also have "\<dots> = (rb_contents N r @ take w s) ! i"
      using old [of i] new [of "i - z"] i
      by (cases "i < z") (simp_all add: rb_contents_def nth_append M_def h_def z_def)
    finally show "rb_contents N r' ! i = (rb_contents N r @ take w s) ! i" .
  qed
  moreover have "rb_inv e N r'"
    using assms(1) z' w'(3) length_bwrite [OF b(1)] length_bwrite [OF b(2)]
    by (simp add: rb_inv_def word_le_nat_alt M_def) (simp add: r'_def)
  ultimately show ?thesis using b(3) r'_def by blast
qed

lemma rb_Free_correct:
  assumes "rb_inv e N r" "n \<le> rb_Size r"
  shows "rb_inv e N (rb_Free n r)" "rb_contents N (rb_Free n r) = drop (unat n) (rb_contents N r)"
proof -
  have n: "unat n \<le> unat (rb_Size r)" using assms(2) by (simp add: word_le_nat_alt)
  have "rb_Size (rb_Free n r) = rb_Size r - n" by (simp add: rb_Size_def rb_Free_def)
  then have sz: "unat (rb_Size (rb_Free n r)) = unat (rb_Size r) - unat n"
    using assms(2) by (simp add: unat_sub)
  then show "rb_inv e N (rb_Free n r)"
    using assms unfolding rb_inv_def word_le_nat_alt by (auto simp: rb_Free_def)
  have e: "e < 32" "unat N = 2 ^ e" using assms rb_Mask_mod(3) by (auto simp: rb_inv_def)
  have hd: "unat (rb_head r + n) mod 2 ^ e = (unat (rb_head r) + unat n) mod 2 ^ e"
  proof -
    have "(2 :: nat) ^ e dvd 2 ^ 32" using e(1) by (intro le_imp_power_dvd) simp
    moreover have "unat (rb_head r + n) = (unat (rb_head r) + unat n) mod 2 ^ 32"
      by (simp add: unat_word_ariths)
    ultimately show ?thesis by (simp only: mod_mod_cancel)
  qed
  have "(unat (rb_head r + n) + i) mod 2 ^ e = (unat (rb_head r) + (unat n + i)) mod 2 ^ e" for i
    using mod_add_cong [OF hd refl, of i] by (simp only: add.assoc)
  then show "rb_contents N (rb_Free n r) = drop (unat n) (rb_contents N r)"
    unfolding rb_contents_def sz
    using n by (intro nth_equalityI) (simp_all add: rb_Free_def e less_diff_conv add.commute [of "unat n"])
qed

section \<open>Properties\<close>

text \<open>C23. The ring is a bounded byte queue. For a capacity that is a power of two and a slice
  below 4 GiB, \<open>Append\<close> accepts the first \<open>min (length s) (free space)\<close> bytes when these are more
  than ten and adds exactly them behind the bytes held, and otherwise accepts nothing; it never
  writes outside the buffer, whatever the counters, even across their wrap-around. \<open>Free\<close>
  removes the oldest bytes.\<close>

theorem ring_buffer_queue:
  assumes "rb_inv e N r" "length s < 2 ^ 32" "n \<le> rb_Size r"
  shows "(let w = min (length s) (unat N - unat (rb_Size r));
              w' = (if w \<le> 10 then 0 else w) in
          \<exists>r'. rb_Append N s r = Some (of_nat w', r') \<and> rb_inv e N r' \<and>
            rb_contents N r' = rb_contents N r @ take w' s) \<and>
         rb_inv e N (rb_Free n r) \<and>
         rb_contents N (rb_Free n r) = drop (unat n) (rb_contents N r)"
proof -
  define w where "w = min (length s) (unat N - unat (rb_Size r))"
  have "rb_Append N s r = Some (0, r)" if "w \<le> 10"
  proof -
    have "rb_Size r \<le> N" using assms(1) unfolding rb_inv_def by blast
    then have "unat (N - rb_Size r) = unat N - unat (rb_Size r)" by (rule unat_sub)
    moreover have "unat (of_nat (length s) :: u32) = length s"
      using assms(2) by (intro unat_of_nat_u32) simp
    ultimately have "unat (min (of_nat (length s)) (N - rb_Size r)) = w"
      by (simp only: w_def unat_min)
    then have "min (of_nat (length s)) (N - rb_Size r) \<le> 10" using that by (simp add: word_le_nat_alt)
    then show ?thesis by (simp add: rb_Append_def)
  qed
  then show ?thesis
    using rb_Append_correct [OF assms(1,2) w_def] rb_Free_correct [OF assms(1,3)] assms(1)
    by (simp add: w_def [symmetric] Let_def)
qed

theorem ring_buffer_queue_witness:
  "\<exists>r'. rb_Append 16 (replicate 11 7) \<lparr>rb_head = 0xfffffffe, rb_tail = 0xffffffff, rb_buffer = replicate 16 1\<rparr>
      = Some (11, r') \<and> rb_contents 16 r' = 1 # replicate 11 7"
  using ring_buffer_queue [of 4 16
      "\<lparr>rb_head = 0xfffffffe, rb_tail = 0xffffffff, rb_buffer = replicate 16 1\<rparr>" "replicate 11 7" 0]
  by (auto simp: rb_inv_def rb_Size_def Let_def rb_contents_def [of _ "RingBuffer.make _ _ _"]
      rb_contents_def [of _ "\<lparr>rb_head = _, rb_tail = _, rb_buffer = _\<rparr>"])

end
