(* ===== verification/Writable_File.thy ===== *)
theory Writable_File
  imports Lsmkv_Prelude Status
begin

text \<open>
  The writable files of \<^verbatim>\<open>src/include/file.h\<close>. A file descriptor is the bytes written through it so
  far, the bytes known to be on stable storage, and the answers the operating system will give:
  one per \<open>write\<close> call (a count, an interruption or a failure; when the list is used up every
  write succeeds in full), one per \<open>fdatasync\<close> and one for \<open>close\<close>. The locale \<open>writable_file\<close> is the
  abstract class the table builder relies on.
\<close>

section \<open>The operating system\<close>

datatype write_result = Wrote nat | Interrupted | Failed

record os_fd =
  fd_data :: bytes
  fd_durable :: bytes
  fd_writes :: "write_result list"
  fd_syncs :: "bool list"
  fd_close_ok :: bool

function WriteUnbuffered :: "bytes \<Rightarrow> os_fd \<Rightarrow> Status \<times> os_fd" where
  "WriteUnbuffered data fd =
     (if data = [] then (OK, fd)
      else (case fd_writes fd of
          [] \<Rightarrow> (OK, fd\<lparr>fd_data := fd_data fd @ data\<rparr>)
        | Interrupted # rs \<Rightarrow> WriteUnbuffered data (fd\<lparr>fd_writes := rs\<rparr>)
        | Failed # rs \<Rightarrow> (IOError, fd\<lparr>fd_writes := rs\<rparr>)
        | Wrote n # rs \<Rightarrow>
            WriteUnbuffered (drop n data) (fd\<lparr>fd_data := fd_data fd @ take n data, fd_writes := rs\<rparr>)))"
  by pat_completeness auto
termination
  by (relation "measure (\<lambda>(data, fd). length (fd_writes fd))") auto

declare WriteUnbuffered.simps [simp del]

definition SyncFd :: "os_fd \<Rightarrow> Status \<times> os_fd" where
  "SyncFd fd = (case fd_syncs fd of
      [] \<Rightarrow> (OK, fd\<lparr>fd_durable := fd_data fd\<rparr>)
    | b # bs \<Rightarrow> if b then (OK, fd\<lparr>fd_durable := fd_data fd, fd_syncs := bs\<rparr>) else (IOError, fd\<lparr>fd_syncs := bs\<rparr>))"

text \<open>A write loop that reports success has written exactly the data, however often it was
  interrupted or cut short; one that reports an error has written a prefix.\<close>

lemma WriteUnbuffered_ok:
  "WriteUnbuffered data fd = (OK, fd') \<Longrightarrow>
     fd_data fd' = fd_data fd @ data \<and> fd_durable fd' = fd_durable fd \<and> fd_close_ok fd' = fd_close_ok fd"
proof (induction data fd rule: WriteUnbuffered.induct)
  case (1 data fd)
  from "1.prems" show ?case
    using 1 by (subst (asm) WriteUnbuffered.simps)
      (fastforce split: if_splits list.splits write_result.splits)
qed

lemma WriteUnbuffered_prefix:
  "WriteUnbuffered data fd = (st, fd') \<Longrightarrow> \<exists>zs. fd_data fd' @ zs = fd_data fd @ data"
proof (induction data fd rule: WriteUnbuffered.induct)
  case (1 data fd)
  from "1.prems" show ?case
    using 1(1,2) by (subst (asm) WriteUnbuffered.simps)
      (fastforce split: if_splits list.splits write_result.splits)
qed

section \<open>PosixWritableFile\<close>

definition kWritableFileBufferSize :: nat where "kWritableFileBufferSize = 65536"

text \<open>The buffer is the list of its first \<open>pos\<close> bytes.\<close>

record PosixWritableFile =
  pf_buf :: bytes
  pf_fd :: os_fd
  pf_is_open :: bool

definition pf_FlushBuffer :: "PosixWritableFile \<Rightarrow> Status \<times> PosixWritableFile" where
  "pf_FlushBuffer f = (let (st, fd) = WriteUnbuffered (pf_buf f) (pf_fd f) in (st, f\<lparr>pf_buf := [], pf_fd := fd\<rparr>))"

definition pf_Append :: "bytes \<Rightarrow> PosixWritableFile \<Rightarrow> Status \<times> PosixWritableFile" where
  "pf_Append data f =
     (let copy_size = min (length data) (kWritableFileBufferSize - length (pf_buf f));
          f1 = f\<lparr>pf_buf := pf_buf f @ take copy_size data\<rparr>;
          rest = drop copy_size data in
      if rest = [] then (OK, f1)
      else let (st, f2) = pf_FlushBuffer f1 in
        if \<not> ok st then (st, f2)
        else if length rest < kWritableFileBufferSize then (OK, f2\<lparr>pf_buf := rest\<rparr>)
        else let (st', fd) = WriteUnbuffered rest (pf_fd f2) in (st', f2\<lparr>pf_fd := fd\<rparr>))"

definition pf_Close :: "PosixWritableFile \<Rightarrow> Status \<times> PosixWritableFile" where
  "pf_Close f = (let (st, f1) = pf_FlushBuffer f in
     (if \<not> fd_close_ok (pf_fd f1) \<and> ok st then IOError else st, f1\<lparr>pf_is_open := False\<rparr>))"

definition pf_Flush :: "PosixWritableFile \<Rightarrow> Status \<times> PosixWritableFile" where
  "pf_Flush f = pf_FlushBuffer f"

definition pf_Sync :: "PosixWritableFile \<Rightarrow> Status \<times> PosixWritableFile" where
  "pf_Sync f = (let (st, f1) = pf_FlushBuffer f in
     if \<not> ok st then (st, f1)
     else let (st', fd) = SyncFd (pf_fd f1) in (st', f1\<lparr>pf_fd := fd\<rparr>))"

text \<open>\<open>WriteToBuffer\<close> reserves room in the buffer and returns its position; the bytes reserved are
  whatever the buffer held, here an argument.\<close>

definition pf_WriteToBuffer :: "(nat \<Rightarrow> u8) \<Rightarrow> nat \<Rightarrow> PosixWritableFile \<Rightarrow> nat \<times> PosixWritableFile" where
  "pf_WriteToBuffer junk n f =
     (let f1 = (if kWritableFileBufferSize - length (pf_buf f) < n then snd (pf_FlushBuffer f) else f)
      in (length (pf_buf f1), f1\<lparr>pf_buf := pf_buf f1 @ map junk [0..<n]\<rparr>))"

section \<open>WritableNoBufFile\<close>

record WritableNoBufFile =
  nf_fd :: os_fd
  nf_is_open :: bool

definition nf_Append :: "bytes \<Rightarrow> WritableNoBufFile \<Rightarrow> Status \<times> WritableNoBufFile" where
  "nf_Append data f = (let (st, fd) = WriteUnbuffered data (nf_fd f) in (st, f\<lparr>nf_fd := fd\<rparr>))"

definition nf_Flush :: "WritableNoBufFile \<Rightarrow> Status \<times> WritableNoBufFile" where
  "nf_Flush f = (OK, f)"

definition nf_Sync :: "WritableNoBufFile \<Rightarrow> Status \<times> WritableNoBufFile" where
  "nf_Sync f = (let (st, fd) = SyncFd (nf_fd f) in (st, f\<lparr>nf_fd := fd\<rparr>))"

definition nf_Close :: "WritableNoBufFile \<Rightarrow> Status \<times> WritableNoBufFile" where
  "nf_Close f = (OK, f\<lparr>nf_is_open := False\<rparr>)"

section \<open>The contract of WritableFile\<close>

text \<open>What a client needs to know while it writes: an append that reports success adds the bytes at
  the end. An implementation may promise this only for files in a certain condition and for
  appends of certain sizes.\<close>

locale append_file =
  fixes append :: "bytes \<Rightarrow> 'f \<Rightarrow> Status \<times> 'f"
    and flush :: "'f \<Rightarrow> Status \<times> 'f"
    and contents :: "'f \<Rightarrow> bytes"
    and okf :: "'f \<Rightarrow> bool"
    and small :: "nat \<Rightarrow> bool"
  assumes append_contents: "okf f \<Longrightarrow> small (length d) \<Longrightarrow> append d f = (OK, f') \<Longrightarrow> contents f' = contents f @ d \<and> okf f'"
    and flush_contents: "okf f \<Longrightarrow> flush f = (OK, f') \<Longrightarrow> contents f' = contents f \<and> okf f'"
    and small_mono: "m \<le> n \<Longrightarrow> small n \<Longrightarrow> small m"
    and small_page: "small 8192"

text \<open>The full contract, without conditions, and with what has reached the operating system and
  stable storage.\<close>

locale writable_file =
  fixes append :: "bytes \<Rightarrow> 'f \<Rightarrow> Status \<times> 'f"
    and flush :: "'f \<Rightarrow> Status \<times> 'f"
    and sync :: "'f \<Rightarrow> Status \<times> 'f"
    and close :: "'f \<Rightarrow> Status \<times> 'f"
    and contents :: "'f \<Rightarrow> bytes"
    and on_disk :: "'f \<Rightarrow> bytes"
    and durable :: "'f \<Rightarrow> bytes"
  assumes append_ok: "append d f = (OK, f') \<Longrightarrow> contents f' = contents f @ d"
    and flush_ok: "flush f = (OK, f') \<Longrightarrow> contents f' = contents f \<and> on_disk f' = contents f"
    and sync_ok: "sync f = (OK, f') \<Longrightarrow> contents f' = contents f \<and> durable f' = contents f"
    and close_ok: "close f = (OK, f') \<Longrightarrow> contents f' = contents f \<and> on_disk f' = contents f"
begin

text \<open>The clients append pieces one after the other and stop at the first error.\<close>

fun append_all :: "bytes list \<Rightarrow> 'f \<Rightarrow> Status \<times> 'f" where
  "append_all [] f = (OK, f)"
| "append_all (d # ds) f = (let (st, f1) = append d f in if ok st then append_all ds f1 else (st, f1))"

lemma append_all_ok:
  "append_all ds f = (OK, f') \<Longrightarrow> contents f' = contents f @ concat ds"
proof (induction ds arbitrary: f)
  case (Cons d ds)
  obtain st f1 where a: "append d f = (st, f1)" by (cases "append d f")
  with Cons.prems have "st = OK" by (auto simp: ok_def split: if_splits)
  with a Cons show ?case by (auto simp: ok_def dest: append_ok)
qed simp

lemma append_all_sync_close:
  assumes "append_all ds f = (OK, f1)" "sync f1 = (OK, f2)" "close f2 = (OK, f3)"
  shows "durable f2 = contents f @ concat ds \<and> on_disk f3 = contents f @ concat ds"
  using append_all_ok [OF assms(1)] sync_ok [OF assms(2)] close_ok [OF assms(3)] by simp

end

sublocale writable_file \<subseteq> plain: append_file append flush contents "\<lambda>_. True" "\<lambda>_. True"
  by unfold_locales (auto dest: append_ok flush_ok)

definition pf_contents :: "PosixWritableFile \<Rightarrow> bytes" where
  "pf_contents f = fd_data (pf_fd f) @ pf_buf f"

lemma pf_FlushBuffer_ok:
  "pf_FlushBuffer f = (OK, f') \<Longrightarrow> fd_data (pf_fd f') = pf_contents f \<and> pf_buf f' = []"
  by (auto simp: pf_FlushBuffer_def pf_contents_def dest: WriteUnbuffered_ok split: prod.splits)

lemma SyncFd_ok: "SyncFd fd = (OK, fd') \<Longrightarrow> fd_data fd' = fd_data fd \<and> fd_durable fd' = fd_data fd"
  by (auto simp: SyncFd_def split: list.splits if_splits)

lemma pf_Append_ok: "pf_Append d f = (OK, f') \<Longrightarrow> pf_contents f' = pf_contents f @ d"
  by (auto simp: pf_Append_def Let_def ok_def pf_contents_def split: if_splits prod.splits
      dest!: pf_FlushBuffer_ok WriteUnbuffered_ok)

lemma pf_FlushBuffer_prefix:
  "pf_FlushBuffer f = (st, f') \<Longrightarrow> \<exists>zs. fd_data (pf_fd f') @ zs = pf_contents f"
  by (auto simp: pf_FlushBuffer_def pf_contents_def dest: WriteUnbuffered_prefix split: prod.splits)

lemma pf_Append_prefix:
  assumes "pf_Append d f = (st, f')"
  shows "\<exists>zs. fd_data (pf_fd f') @ zs = pf_contents f @ d"
proof -
  define c where "c = min (length d) (kWritableFileBufferSize - length (pf_buf f))"
  define f1 where "f1 = f\<lparr>pf_buf := pf_buf f @ take c d\<rparr>"
  have c1: "pf_contents f @ d = pf_contents f1 @ drop c d"
    by (simp add: pf_contents_def f1_def)
  obtain st2 f2 where f2: "pf_FlushBuffer f1 = (st2, f2)" by (cases "pf_FlushBuffer f1")
  obtain st3 fd where fd: "WriteUnbuffered (drop c d) (pf_fd f2) = (st3, fd)"
    by (cases "WriteUnbuffered (drop c d) (pf_fd f2)")
  have "f' = f1 \<or> fd_data (pf_fd f') = fd_data (pf_fd f2) \<or> st2 = OK \<and> pf_fd f' = fd"
    using assms f2 fd unfolding pf_Append_def Let_def c_def [symmetric] f1_def [symmetric]
    by (auto simp: ok_def split: if_splits)
  then show ?thesis
  proof (elim disjE conjE)
    assume "f' = f1"
    then show ?thesis unfolding c1 by (simp add: pf_contents_def)
  next
    assume "fd_data (pf_fd f') = fd_data (pf_fd f2)"
    then show ?thesis unfolding c1 using pf_FlushBuffer_prefix [OF f2] by (metis append.assoc)
  next
    assume "st2 = OK" "pf_fd f' = fd"
    then show ?thesis unfolding c1 using pf_FlushBuffer_ok [of f1 f2] f2 WriteUnbuffered_prefix [OF fd] by simp
  qed
qed

interpretation posix: writable_file pf_Append pf_Flush pf_Sync pf_Close pf_contents
  "\<lambda>f. fd_data (pf_fd f)" "\<lambda>f. fd_durable (pf_fd f)"
proof unfold_locales
  fix f f' :: PosixWritableFile and d
  show "pf_Append d f = (OK, f') \<Longrightarrow> pf_contents f' = pf_contents f @ d" by (rule pf_Append_ok)
  show "pf_Flush f = (OK, f') \<Longrightarrow> pf_contents f' = pf_contents f \<and> fd_data (pf_fd f') = pf_contents f"
    by (auto simp: pf_Flush_def pf_contents_def dest!: pf_FlushBuffer_ok)
  show "pf_Sync f = (OK, f') \<Longrightarrow> pf_contents f' = pf_contents f \<and> fd_durable (pf_fd f') = pf_contents f"
    by (auto simp: pf_Sync_def pf_contents_def Let_def ok_def split: prod.splits if_splits
        dest!: pf_FlushBuffer_ok SyncFd_ok)
  show "pf_Close f = (OK, f') \<Longrightarrow> pf_contents f' = pf_contents f \<and> fd_data (pf_fd f') = pf_contents f"
    by (auto simp: pf_Close_def pf_contents_def Let_def ok_def split: prod.splits if_splits
        dest!: pf_FlushBuffer_ok)
qed

interpretation nobuf: writable_file nf_Append nf_Flush nf_Sync nf_Close "\<lambda>f. fd_data (nf_fd f)"
  "\<lambda>f. fd_data (nf_fd f)" "\<lambda>f. fd_durable (nf_fd f)"
  by unfold_locales
    (auto simp: nf_Append_def nf_Flush_def nf_Sync_def nf_Close_def split: prod.splits
      dest: WriteUnbuffered_ok SyncFd_ok)

section \<open>Properties\<close>

text \<open>C21. The buffered file writes every byte once and in order, whatever the operating system does.
  Appending keeps the buffer within its 64 KiB; if it reports success the contents (written plus
  buffered) grow by exactly the data, and after a successful sync, flush or close all of it is on
  stable storage or written. If it reports an error, what reached the file is still a prefix of the
  old contents followed by the data.\<close>

theorem posix_append_contents:
  assumes "length (pf_buf f) \<le> kWritableFileBufferSize" "pf_Append d f = (st, f1)"
  shows "length (pf_buf f1) \<le> kWritableFileBufferSize \<and>
    (\<exists>zs. fd_data (pf_fd f1) @ zs = pf_contents f @ d) \<and>
    (st = OK \<longrightarrow> pf_contents f1 = pf_contents f @ d \<and>
      (\<forall>f2. pf_Sync f1 = (OK, f2) \<longrightarrow> fd_durable (pf_fd f2) = pf_contents f @ d) \<and>
      (\<forall>f2. pf_Flush f1 = (OK, f2) \<longrightarrow> fd_data (pf_fd f2) = pf_contents f @ d) \<and>
      (\<forall>f2. pf_Close f1 = (OK, f2) \<longrightarrow> fd_data (pf_fd f2) = pf_contents f @ d))"
proof -
  have "length (pf_buf f1) \<le> kWritableFileBufferSize"
    using assms by (auto simp: pf_Append_def pf_FlushBuffer_def Let_def split: if_splits prod.splits)
  moreover have "\<exists>zs. fd_data (pf_fd f1) @ zs = pf_contents f @ d"
    using assms(2) by (rule pf_Append_prefix)
  moreover have "pf_contents f1 = pf_contents f @ d" if "st = OK"
    using posix.append_ok assms(2) that by blast
  ultimately show ?thesis
    using posix.sync_ok posix.flush_ok posix.close_ok by metis
qed

theorem posix_append_contents_witness:
  "\<exists>f1. pf_Append [1, 2, 3] \<lparr>pf_buf = [], pf_fd = \<lparr>fd_data = [], fd_durable = [],
       fd_writes = [Interrupted, Wrote 2], fd_syncs = [], fd_close_ok = True\<rparr>, pf_is_open = True\<rparr> = (OK, f1) \<and>
     pf_contents f1 = [1, 2, 3]"
proof -
  define f where "f = \<lparr>pf_buf = [], pf_fd = \<lparr>fd_data = [], fd_durable = [],
       fd_writes = [Interrupted, Wrote 2], fd_syncs = [], fd_close_ok = True\<rparr>, pf_is_open = True\<rparr>"
  have a: "pf_Append [1, 2, 3] f = (OK, f\<lparr>pf_buf := [1, 2, 3]\<rparr>)"
    by (simp add: pf_Append_def f_def kWritableFileBufferSize_def Let_def)
  have "length (pf_buf f) \<le> kWritableFileBufferSize" by (simp add: f_def)
  from posix_append_contents [OF this a] a show ?thesis by (simp add: f_def pf_contents_def)
qed

end
