(* ===== verification/Version.thy ===== *)
theory Version
  imports Lsmkv_Prelude
begin

text \<open>
  \<^verbatim>\<open>src/include/option.h\<close>, \<^verbatim>\<open>utils/filename.h\<close> and \<^verbatim>\<open>src/include/version.h\<close>: the constants of
  the store, the names of its files and the counters of a running store. The redo-log file that
  \<open>Version\<close> opens and its executor are not part of the counters and are left out.
\<close>

section \<open>Option\<close>

definition sst_footer_size_ik :: nat where "sst_footer_size_ik = 32"
definition sst_file_size :: nat where "sst_file_size = 32 * 1024"
definition bloom_size_opt :: nat where "bloom_size_opt = 8192"
definition mem_max_size :: nat where "mem_max_size = sst_file_size - bloom_size_opt - sst_footer_size_ik"
definition kL0_CompactionTrigger :: nat where "kL0_CompactionTrigger = 4"
definition kCompactionVLogLevel :: nat where "kCompactionVLogLevel = 3"
definition kBlockTrailerSize :: nat where "kBlockTrailerSize = 4"
definition kMaxVLogSize :: nat where "kMaxVLogSize = 128 * 1024 * 1024"
definition block_size :: nat where "block_size = 4096 * 4"

section \<open>File names\<close>

text \<open>\<open>std::format("{:06}", n)\<close>: decimal digits, padded with zeros to six places.\<close>

fun digits :: "nat \<Rightarrow> string" where
  "digits n = (if n < 10 then [char_of (48 + n)] else digits (n div 10) @ [char_of (48 + n mod 10)])"

declare digits.simps [simp del]

definition pad6 :: "string \<Rightarrow> string" where
  "pad6 s = replicate (6 - length s) (CHR ''0'') @ s"

definition MakeFileName :: "string \<Rightarrow> u64 \<Rightarrow> string \<Rightarrow> string" where
  "MakeFileName dbname number suffix = dbname @ ''/'' @ pad6 (digits (unat number)) @ ''.'' @ suffix"

definition SSTFileName :: "string \<Rightarrow> u64 \<Rightarrow> string" where
  "SSTFileName dbname number = MakeFileName dbname number ''sst''"

definition VLogFileName :: "string \<Rightarrow> u64 \<Rightarrow> string" where
  "VLogFileName dbname number = MakeFileName dbname number ''vlog''"

definition LogFileName :: "string \<Rightarrow> u64 \<Rightarrow> string" where
  "LogFileName dbname number = MakeFileName dbname number ''log''"

definition VersionFileName :: "string \<Rightarrow> string" where
  "VersionFileName dbname = dbname @ ''/'' @ ''.current''"

definition LevelDirName :: "string \<Rightarrow> u64 \<Rightarrow> string" where
  "LevelDirName dbname number = dbname @ ''/'' @ ''level-'' @ digits (unat number)"

definition SSTFilePath :: "string \<Rightarrow> u64 \<Rightarrow> u64 \<Rightarrow> string" where
  "SSTFilePath dbname level number = SSTFileName (LevelDirName dbname level) number"

text \<open>\<open>DBDirName\<close> finds the last slash; its assertion that none follows can not fail.\<close>

definition DBDirName :: "string \<Rightarrow> string" where
  "DBDirName filename =
     (if CHR ''/'' \<in> set filename
      then rev (tl (dropWhile (\<lambda>c. c \<noteq> CHR ''/'') (rev filename))) else ''.'')"

section \<open>Version\<close>

record Version =
  fileno :: u64
  max_level :: u64
  last_sequence :: u64
  last_live_sequence :: u64
  last_vlog_file_no :: u64

definition mk_Version :: Version where
  "mk_Version = \<lparr>fileno = 0, max_level = 7, last_sequence = 0, last_live_sequence = 0, last_vlog_file_no = 0\<rparr>"

definition v_reset :: "Version \<Rightarrow> Version" where
  "v_reset v = v\<lparr>fileno := 0, last_vlog_file_no := 0, max_level := 7, last_sequence := 0\<rparr>"

definition NewVLogFileNumber :: "Version \<Rightarrow> u64 \<times> Version" where
  "NewVLogFileNumber v = (last_vlog_file_no v, v\<lparr>last_vlog_file_no := last_vlog_file_no v + 1\<rparr>)"

definition NewSSTFileNumber :: "Version \<Rightarrow> u64" where
  "NewSSTFileNumber v = fileno v"

definition ReuseSSTFileNumber :: "u64 \<Rightarrow> Version \<Rightarrow> Version" where
  "ReuseSSTFileNumber file_no v = (if fileno v + 1 = file_no then v\<lparr>fileno := file_no\<rparr> else v)"

definition ReuseVLogFileNumber :: "u64 \<Rightarrow> Version \<Rightarrow> Version" where
  "ReuseVLogFileNumber file_no v =
     (if file_no + 1 = last_vlog_file_no v then v\<lparr>last_vlog_file_no := file_no\<rparr> else v)"

definition SetSSTFileNumber :: "u64 \<Rightarrow> Version \<Rightarrow> Version" where
  "SetSSTFileNumber file_no v = v\<lparr>fileno := file_no\<rparr>"

definition SetVLogFileNumber :: "u64 \<Rightarrow> Version \<Rightarrow> Version" where
  "SetVLogFileNumber file_no v = v\<lparr>last_vlog_file_no := file_no\<rparr>"

text \<open>\<open>None\<close>: the assertion that sequence numbers grow.\<close>

definition SetLastSequence :: "u64 \<Rightarrow> Version \<Rightarrow> Version option" where
  "SetLastSequence seq v = (if last_sequence v < seq then Some (v\<lparr>last_sequence := seq\<rparr>) else None)"

definition SetLastLivingSequence :: "u64 \<Rightarrow> Version \<Rightarrow> Version" where
  "SetLastLivingSequence seq v = v\<lparr>last_live_sequence := seq\<rparr>"

section \<open>Distinct files have distinct names\<close>

lemma digits_not_Nil [simp]: "digits n \<noteq> []"
  by (subst digits.simps) simp

lemma digits_value_digits: "foldl (\<lambda>a c. 10 * a + (of_char c - 48)) 0 (digits n) = n"
proof (induction n rule: digits.induct)
  case (1 n)
  have "(of_char (char_of (48 + k :: nat)) :: nat) - 48 = k" if "k < 10" for k
    using that by (simp add: of_char_of take_bit_eq_mod)
  with 1 show ?case by (subst digits.simps) auto
qed

lemma pad6_value: "foldl (\<lambda>a c. 10 * a + (of_char c - 48)) (0 :: nat) (pad6 s) =
    foldl (\<lambda>a c. 10 * a + (of_char c - 48)) 0 s"
proof -
  have "foldl (\<lambda>a c. 10 * a + (of_char c - 48)) (0 :: nat) (replicate m (CHR ''0'')) = 0" for m
    by (induction m) simp_all
  then show ?thesis by (simp add: pad6_def)
qed

lemma pad6_digits_inj: "pad6 (digits a) = pad6 (digits b) \<longleftrightarrow> a = b"
  by (metis digits_value_digits pad6_value)

lemma digits_no_dot: "CHR ''.'' \<notin> set (pad6 (digits n))" 
proof -
  have "CHR ''.'' \<notin> set (digits n)"
  proof (induction n rule: digits.induct)
    case (1 n)
    have "(char_of (48 + k :: nat) :: char) \<noteq> CHR ''.''" if "k < 10" for k
      using that by (auto simp: char_of_eq_iff of_char_of take_bit_eq_mod)
    then have d: "CHR ''.'' \<noteq> char_of (48 + k :: nat)" if "k < 10" for k using that by metis
    show ?case
      using 1 d [of n] d [of "n mod 10"] by (subst digits.simps) simp
  qed
  then show ?thesis by (simp add: pad6_def)
qed

lemma append_eq_sep:
  "x \<notin> set as \<Longrightarrow> x \<notin> set bs \<Longrightarrow> as @ x # s = bs @ x # t \<longleftrightarrow> as = bs \<and> s = t"
proof (induction as arbitrary: bs)
  case Nil
  then show ?case by (cases bs) auto
next
  case (Cons a as)
  then show ?case by (cases bs) auto
qed

text \<open>C26. File names do not collide: in one directory, table files, value-log files and log files
  of different numbers, and files of different kinds, have different names; numbers above 999999
  included, where the name grows beyond six digits.\<close>

theorem file_names_distinct:
  "(MakeFileName db n s = MakeFileName db m t \<longleftrightarrow> n = m \<and> s = t) \<and>
   SSTFileName db n \<noteq> VLogFileName db m \<and> SSTFileName db n \<noteq> LogFileName db m \<and>
   VLogFileName db n \<noteq> LogFileName db m"
proof -
  have "MakeFileName db n s = MakeFileName db m t \<longleftrightarrow> n = m \<and> s = t" for n m s t
    using append_eq_sep [OF digits_no_dot digits_no_dot, of "unat n" s "unat m" t]
    by (auto simp: MakeFileName_def pad6_digits_inj word_unat_eq_iff)
  then show ?thesis by (simp add: SSTFileName_def VLogFileName_def LogFileName_def)
qed

end
