(* ===== verification/Table_Builder.thy ===== *)
theory Table_Builder
  imports Block_Format Bloom_Filter Writable_File Version
begin

text \<open>
  \<^verbatim>\<open>src/include/builder.h\<close> and \<^verbatim>\<open>src/table_builder.cpp\<close>: the writer of table files. The virtual
  methods of the file it writes to, and CRC-32C (a third-party library), are the fields of the
  environment \<open>tb_env\<close>. The learned-index trainer is created only when keys have a fixed length of
  eight bytes, which the options exclude, so it is left out; the model handle of the footer stays
  zero.
\<close>

section \<open>TableBuilder\<close>

record 'f tb_env =
  te_append :: "bytes \<Rightarrow> 'f \<Rightarrow> Status \<times> 'f"
  te_flush :: "'f \<Rightarrow> Status \<times> 'f"
  te_sync :: "'f \<Rightarrow> Status \<times> 'f"
  te_crc :: "bytes \<Rightarrow> u32"

record 'f TableBuilder =
  tb_file :: 'f
  tb_need_next_index_entry :: bool
  tb_index_block :: bytes
  tb_data_block :: bytes
  tb_data_block_entry :: BlockEntryInfo
  tb_num_entries :: nat
  tb_status :: Status
  tb_closed :: bool
  tb_offset :: u64
  tb_last_key :: bytes
  tb_filter_block :: "FilterBlockBuilder option"

definition be_zero :: BlockEntryInfo where "be_zero = \<lparr>be_offset = 0, be_size = 0\<rparr>"

definition mk_TableBuilder :: "'f \<Rightarrow> bool \<Rightarrow> 'f TableBuilder" where
  "mk_TableBuilder file open_filter =
     \<lparr>tb_file = file, tb_need_next_index_entry = False, tb_index_block = [], tb_data_block = [],
      tb_data_block_entry = be_zero, tb_num_entries = 0, tb_status = OK, tb_closed = False,
      tb_offset = 0, tb_last_key = [],
      tb_filter_block = (if open_filter then Some (mk_FilterBlockBuilder bloom_size_opt) else None)\<rparr>"

definition tb_WriteRawBlock ::
  "'f tb_env \<Rightarrow> bytes \<Rightarrow> 'f TableBuilder \<Rightarrow> BlockEntryInfo \<times> 'f TableBuilder" where
  "tb_WriteRawBlock env raw b =
     (let handle = \<lparr>be_offset = tb_offset b, be_size = of_nat (length raw)\<rparr>;
          (st, f) = te_append env raw (tb_file b);
          b1 = b\<lparr>tb_file := f, tb_status := st\<rparr> in
      if ok st then
        let (st2, f2) = te_append env (EncodeFixed32 (te_crc env raw)) f;
            b2 = b1\<lparr>tb_file := f2, tb_status := st2\<rparr> in
        (handle, if ok st2 then b2\<lparr>tb_offset := tb_offset b2 + of_nat (length raw) + of_nat kBlockTrailerSize\<rparr> else b2)
      else (handle, b1))"

text \<open>\<open>WriteBlock\<close> for the data block and for the index block: an empty block is not written and
  its handle stays as it was.\<close>

definition tb_WriteDataBlock :: "'f tb_env \<Rightarrow> 'f TableBuilder \<Rightarrow> 'f TableBuilder" where
  "tb_WriteDataBlock env b =
     (if tb_data_block b = [] then b
      else let (h, b1) = tb_WriteRawBlock env (tb_data_block b) b in
        b1\<lparr>tb_data_block_entry := h, tb_data_block := []\<rparr>)"

definition tb_WriteIndexBlock ::
  "'f tb_env \<Rightarrow> BlockEntryInfo \<Rightarrow> 'f TableBuilder \<Rightarrow> BlockEntryInfo \<times> 'f TableBuilder" where
  "tb_WriteIndexBlock env h0 b =
     (if tb_index_block b = [] then (h0, b)
      else let (h, b1) = tb_WriteRawBlock env (tb_index_block b) b in (h, b1\<lparr>tb_index_block := []\<rparr>))"

definition tb_add_index :: "'f TableBuilder \<Rightarrow> 'f TableBuilder" where
  "tb_add_index b =
     (if tb_need_next_index_entry b
      then b\<lparr>tb_index_block := BlockBuilder_Add (tb_index_block b) (tb_last_key b) (be_Encode (tb_data_block_entry b)),
             tb_need_next_index_entry := False\<rparr>
      else b)"

definition tb_add_filter :: "bytes \<Rightarrow> 'f TableBuilder \<Rightarrow> 'f TableBuilder option" where
  "tb_add_filter key b = (case tb_filter_block b of
      None \<Rightarrow> Some b
    | Some fb \<Rightarrow> do { u \<leftarrow> ExtractUserKey key; Some (b\<lparr>tb_filter_block := Some (fb_AddKey fb u)\<rparr>) })"

definition tb_Flush :: "'f tb_env \<Rightarrow> bool \<Rightarrow> 'f TableBuilder \<Rightarrow> 'f TableBuilder option" where
  "tb_Flush env next_index_entry b =
     (if \<not> ok (tb_status b) then Some b
      else do {
        fb \<leftarrow> (case tb_filter_block b of None \<Rightarrow> Some None | Some fb \<Rightarrow> map_option Some (fb_Flush fb));
        let b1 = b\<lparr>tb_filter_block := fb\<rparr>;
        if tb_data_block b1 = [] then Some b1
        else do {
          let b2 = tb_WriteDataBlock env b1;
          if ok (tb_status b2) then do {
            let (st, f) = te_flush env (tb_file b2);
            Some (b2\<lparr>tb_need_next_index_entry := next_index_entry, tb_file := f, tb_status := st\<rparr>) }
          else Some b2 } })"

text \<open>\<open>Add(key, value)\<close>, used for tables.\<close>

definition tb_Add :: "'f tb_env \<Rightarrow> bytes \<Rightarrow> bytes \<Rightarrow> 'f TableBuilder \<Rightarrow> 'f TableBuilder option" where
  "tb_Add env key val b =
     (if tb_closed b then None
      else if \<not> ok (tb_status b) then Some b
      else do {
        let b1 = (tb_add_index b)\<lparr>tb_last_key := key\<rparr>;
        b2 \<leftarrow> tb_add_filter key b1;
        let b3 = b2\<lparr>tb_num_entries := tb_num_entries b2 + 1,
                    tb_data_block := BlockBuilder_Add (tb_data_block b2) key val\<rparr>;
        if block_size \<le> length (tb_data_block b3) then tb_Flush env True b3 else Some b3 })"

text \<open>\<open>Add(key, value, info)\<close>, used for the value log: it reports where the entry goes.\<close>

definition tb_Add_info ::
  "'f tb_env \<Rightarrow> bytes \<Rightarrow> bytes \<Rightarrow> VLogEntryInfo \<Rightarrow> 'f TableBuilder \<Rightarrow> (VLogEntryInfo \<times> 'f TableBuilder) option" where
  "tb_Add_info env key val info b =
     (if tb_closed b then None
      else if \<not> ok (tb_status b) then Some (info, b)
      else do {
        b2 \<leftarrow> tb_add_filter key (tb_add_index b);
        let info' = info\<lparr>vi_offset := tb_offset b2 + of_nat (length (tb_data_block b2)),
                         vi_length := of_nat (length val + length key + 8)\<rparr>;
        let b3 = b2\<lparr>tb_num_entries := tb_num_entries b2 + 1,
                    tb_data_block := BlockBuilder_Add (tb_data_block b2) key val\<rparr>;
        if block_size \<le> length (tb_data_block b3)
        then map_option (Pair info') (tb_Flush env True (b3\<lparr>tb_last_key := key\<rparr>))
        else Some (info', b3) })"

definition tb_SetLastKey :: "bytes \<Rightarrow> 'f TableBuilder \<Rightarrow> 'f TableBuilder" where
  "tb_SetLastKey key b = b\<lparr>tb_last_key := key\<rparr>"

definition tb_Sync :: "'f tb_env \<Rightarrow> 'f TableBuilder \<Rightarrow> 'f TableBuilder" where
  "tb_Sync env b = (let (st, f) = te_sync env (tb_file b) in b\<lparr>tb_file := f, tb_status := st\<rparr>)"

definition tb_write_filter :: "'f tb_env \<Rightarrow> 'f TableBuilder \<Rightarrow> (BlockEntryInfo \<times> 'f TableBuilder) option" where
  "tb_write_filter env b = (case tb_filter_block b of
      None \<Rightarrow> Some (be_zero, b)
    | Some fb \<Rightarrow>
        if ok (tb_status b) then do {
          (fb', block) \<leftarrow> fb_Finish fb;
          Some (tb_WriteRawBlock env block (b\<lparr>tb_filter_block := Some fb'\<rparr>)) }
        else Some (be_zero, b))"

definition tb_write_index :: "'f tb_env \<Rightarrow> 'f TableBuilder \<Rightarrow> BlockEntryInfo \<times> 'f TableBuilder" where
  "tb_write_index env b =
     (if ok (tb_status b) then tb_WriteIndexBlock env be_zero (tb_add_index b) else (be_zero, b))"

definition tb_write_footer :: "'f tb_env \<Rightarrow> BlockEntryInfo \<Rightarrow> BlockEntryInfo \<Rightarrow> 'f TableBuilder \<Rightarrow> 'f TableBuilder" where
  "tb_write_footer env filter_h index_h b =
     (if ok (tb_status b) then
        let enc = Footer_Encode \<lparr>metaindex_handle = filter_h, index_handle = index_h, model_handle = be_zero\<rparr>;
            (st, f) = te_append env enc (tb_file b);
            b1 = b\<lparr>tb_file := f, tb_status := st\<rparr> in
        if ok st then b1\<lparr>tb_offset := tb_offset b1 + of_nat (length enc)\<rparr> else b1
      else b)"

definition tb_Finish :: "'f tb_env \<Rightarrow> 'f TableBuilder \<Rightarrow> (Status \<times> 'f TableBuilder) option" where
  "tb_Finish env b = do {
     b1 \<leftarrow> tb_Flush env True (b\<lparr>tb_closed := True\<rparr>);
     (filter_h, b2) \<leftarrow> tb_write_filter env b1;
     let (index_h, b3) = tb_write_index env b2;
     let b4 = tb_write_footer env filter_h index_h b3;
     Some (tb_status b4, b4) }"

definition tb_FileSize :: "'f TableBuilder \<Rightarrow> u64" where "tb_FileSize b = tb_offset b"

definition tb_ApproximateFileSize :: "'f TableBuilder \<Rightarrow> u64" where
  "tb_ApproximateFileSize b = tb_offset b + of_nat (length (tb_index_block b)) + of_nat (length (tb_data_block b)) +
     of_nat kBlockTrailerSize + (case tb_filter_block b of None \<Rightarrow> 0 | Some fb \<Rightarrow> fb_BlockSize fb)"

text \<open>The loop of \<open>BuildTable\<close>.\<close>

fun tb_Add_all :: "'f tb_env \<Rightarrow> (bytes \<times> bytes) list \<Rightarrow> 'f TableBuilder \<Rightarrow> 'f TableBuilder option" where
  "tb_Add_all env [] b = Some b"
| "tb_Add_all env ((k, v) # es) b = do { b1 \<leftarrow> tb_Add env k v b; tb_Add_all env es b1 }"

section \<open>Table images\<close>

text \<open>A block on disk is followed by its checksum. The index has one entry per data block: the last
  key of the block and its handle.\<close>

definition seal :: "(bytes \<Rightarrow> u32) \<Rightarrow> bytes \<Rightarrow> bytes" where
  "seal crc raw = raw @ EncodeFixed32 (crc raw)"

definition sealed :: "(bytes \<Rightarrow> u32) \<Rightarrow> (bytes \<times> bytes) list list \<Rightarrow> bytes" where
  "sealed crc bs = concat (map (\<lambda>b. seal crc (block_of b)) bs)"

fun index_entries :: "nat \<Rightarrow> (bytes \<times> bytes) list list \<Rightarrow> (bytes \<times> bytes) list" where
  "index_entries off [] = []"
| "index_entries off (b # bs) =
     (fst (last b), be_Encode \<lparr>be_offset = of_nat off, be_size = of_nat (length (block_of b))\<rparr>)
       # index_entries (off + length (block_of b) + 4) bs"

definition table_image :: "(bytes \<Rightarrow> u32) \<Rightarrow> (bytes \<times> bytes) list list \<Rightarrow> bytes \<Rightarrow> bytes" where
  "table_image crc bs fl =
     (let idx = block_of (index_entries 0 bs); off1 = length (sealed crc bs); off2 = off1 + length fl + 4 in
      sealed crc bs @ seal crc fl @ seal crc idx @
      Footer_Encode \<lparr>metaindex_handle = \<lparr>be_offset = of_nat off1, be_size = of_nat (length fl)\<rparr>,
        index_handle = \<lparr>be_offset = of_nat off2, be_size = of_nat (length idx)\<rparr>, model_handle = be_zero\<rparr>)"

lemma length_seal [simp]: "length (seal crc raw) = length raw + 4"
  by (simp add: seal_def)

lemma sealed_simps [simp]:
  "sealed crc [] = []" "sealed crc (bs @ cs) = sealed crc bs @ sealed crc cs"
  "sealed crc (b # bs) = seal crc (block_of b) @ sealed crc bs"
  by (simp_all add: sealed_def)

lemma index_entries_snoc:
  "index_entries off (bs @ [b]) = index_entries off bs @
     [(fst (last b), be_Encode \<lparr>be_offset = of_nat (off + length (sealed crc bs)), be_size = of_nat (length (block_of b))\<rparr>)]"
  by (induction bs arbitrary: off) (simp_all add: algebra_simps)


section \<open>What a builder has written\<close>

text \<open>The builder over any file that keeps the contract \<open>writable_file\<close>. \<open>tb_rep b blocks cur\<close>: the
  builder has reported no error, has written \<open>blocks\<close>, and collects the entries \<open>cur\<close>. The index
  entry of the last block is added only when the next entry arrives.\<close>

definition user :: "bytes \<Rightarrow> bytes" where
  "user k = take (length k - 8) k"

lemma ExtractUserKey_user: "8 \<le> length k \<Longrightarrow> ExtractUserKey k = Some (user k)"
  by (simp add: ExtractUserKey_def user_def)

definition filter_rep :: "FilterBlockBuilder \<Rightarrow> bytes set \<Rightarrow> bytes list \<Rightarrow> bool" where
  "filter_rep fb done cur \<longleftrightarrow> fb_pending fb cur \<and> length (fb_buffer fb) = bloom_size_opt \<and>
     (\<forall>k \<in> done. has_key (fb_buffer fb) k)"

lemma filter_rep_Flush:
  assumes "filter_rep fb done cur"
  shows "\<exists>fb'. fb_Flush fb = Some fb' \<and> filter_rep fb' (done \<union> set cur) []"
proof -
  have l: "0 < length (fb_buffer fb)" using assms by (simp add: filter_rep_def bloom_size_opt_def)
  obtain fb' where fb': "fb_Flush fb = Some fb'" "fb_pending fb' []" "covers (fb_buffer fb) (fb_buffer fb')"
      "\<forall>k \<in> set cur. has_key (fb_buffer fb') k"
    using fb_Flush_spec [OF _ l, of cur] assms unfolding filter_rep_def by blast
  moreover have "\<forall>k \<in> done. has_key (fb_buffer fb') k"
    using assms has_key_mono [OF fb'(3) _ l] by (auto simp: filter_rep_def)
  moreover have "length (fb_buffer fb') = bloom_size_opt"
    using fb'(3) assms by (simp add: covers_def filter_rep_def)
  ultimately show ?thesis by (auto simp: filter_rep_def)
qed

lemma filter_rep_AddKey:
  assumes "filter_rep fb done cur" "length (concat (cur @ [k])) < 2 ^ 32"
  shows "filter_rep (fb_AddKey fb k) done (cur @ [k])"
  using assms fb_AddKey_pending [of fb cur k] by (simp add: filter_rep_def fb_AddKey_def)

definition index_rep :: "(bytes \<Rightarrow> u32) \<Rightarrow> 'f TableBuilder \<Rightarrow> (bytes \<times> bytes) list list \<Rightarrow> bool" where
  "index_rep crc b blocks \<longleftrightarrow>
     (if tb_need_next_index_entry b then
        blocks \<noteq> [] \<and> tb_index_block b = block_of (index_entries 0 (butlast blocks)) \<and>
        tb_last_key b = fst (last (last blocks)) \<and>
        tb_data_block_entry b = \<lparr>be_offset = of_nat (length (sealed crc (butlast blocks))),
          be_size = of_nat (length (block_of (last blocks)))\<rparr>
      else tb_index_block b = block_of (index_entries 0 blocks))"

lemma tb_add_index_rep:
  assumes "index_rep crc b blocks"
  shows "index_rep crc (tb_add_index b) blocks \<and> \<not> tb_need_next_index_entry (tb_add_index b) \<and>
    tb_index_block (tb_add_index b) = block_of (index_entries 0 blocks)"
proof (cases "tb_need_next_index_entry b")
  case True
  then obtain bs l where bl: "blocks = bs @ [l]"
    using assms by (auto simp: index_rep_def) (metis append_butlast_last_id)
  show ?thesis
    using True assms bl index_entries_snoc [of 0 bs l crc]
    by (simp add: index_rep_def tb_add_index_def BlockBuilder_Add_block_of)
qed (use assms in \<open>simp add: index_rep_def tb_add_index_def\<close>)

lemma tb_add_index_simps [simp]:
  "tb_file (tb_add_index b) = tb_file b" "tb_data_block (tb_add_index b) = tb_data_block b"
  "tb_status (tb_add_index b) = tb_status b" "tb_closed (tb_add_index b) = tb_closed b"
  "tb_offset (tb_add_index b) = tb_offset b" "tb_filter_block (tb_add_index b) = tb_filter_block b"
  by (simp_all add: tb_add_index_def)

lemma length_index_block:
  "\<forall>l \<in> set bs. l \<noteq> [] \<Longrightarrow> length (block_of (index_entries off bs)) \<le> (\<Sum>e\<leftarrow>concat bs. length (fst e) + 24)"
proof (induction bs arbitrary: off)
  case (Cons l bs)
  have "length (fst (last l)) + 24 \<le> (\<Sum>e\<leftarrow>l. length (fst e) + 24)"
    using Cons.prems by (intro member_le_sum_list) auto
  with Cons.IH [of "off + length (block_of l) + 4"] Cons.prems show ?case by (simp add: add.commute)
qed simp

locale table_file = append_file append flush contents okf small
  for append :: "bytes \<Rightarrow> 'f \<Rightarrow> Status \<times> 'f" and flush and contents and okf and small +
  fixes sync :: "'f \<Rightarrow> Status \<times> 'f" and crc :: "bytes \<Rightarrow> u32"
begin

text \<open>Blocks and the index stay within the size the file accepts.\<close>

definition room :: "(bytes \<times> bytes) list \<Rightarrow> bool" where
  "room es \<longleftrightarrow> small (length (block_of es)) \<and> small (\<Sum>e\<leftarrow>es. length (fst e) + 24)"

lemma room_part: "room (xs @ ys @ zs) \<Longrightarrow> room ys"
  using small_mono [of "length (block_of ys)" "length (block_of (xs @ ys @ zs))"]
    small_mono [of "\<Sum>e\<leftarrow>ys. length (fst e) + 24" "\<Sum>e\<leftarrow>xs @ ys @ zs. length (fst e) + 24"] by (simp add: room_def)

lemma room_left: "room (xs @ ys) \<Longrightarrow> room xs"
  using room_part [of "[]" xs ys] by simp

lemma small_crc: "small (length (EncodeFixed32 x))" "small bloom_size_opt" "small (length (Footer_Encode ft))"
  by (auto intro!: small_mono [OF _ small_page] simp: bloom_size_opt_def kEncodedLength_def kBlockInfoLength_def)

definition env :: "'f tb_env" where
  "env = \<lparr>te_append = append, te_flush = flush, te_sync = sync, te_crc = crc\<rparr>"

definition tb_rep :: "'f TableBuilder \<Rightarrow> (bytes \<times> bytes) list list \<Rightarrow> (bytes \<times> bytes) list \<Rightarrow> bool" where
  "tb_rep b blocks cur \<longleftrightarrow>
     okf (tb_file b) \<and> contents (tb_file b) = sealed crc blocks \<and> tb_offset b = of_nat (length (sealed crc blocks)) \<and>
     tb_data_block b = block_of cur \<and> (\<forall>l \<in> set blocks. l \<noteq> []) \<and> index_rep crc b blocks \<and>
     (cur = [] \<longrightarrow> tb_need_next_index_entry b \<or> blocks = []) \<and>
     (cur \<noteq> [] \<longrightarrow> tb_last_key b = fst (last cur) \<and> \<not> tb_need_next_index_entry b) \<and>
     (\<exists>fb. tb_filter_block b = Some fb \<and>
       filter_rep fb (set (map (user \<circ> fst) (concat blocks))) (map (user \<circ> fst) cur))"

lemma tb_WriteRawBlock_ok:
  assumes "tb_WriteRawBlock env raw b = (h, b')" "tb_status b' = OK" "okf (tb_file b)" "small (length raw)"
  shows "contents (tb_file b') = contents (tb_file b) @ seal crc raw" "okf (tb_file b')"
    "b' = b\<lparr>tb_file := tb_file b', tb_status := OK, tb_offset := tb_offset b + of_nat (length raw) + 4\<rparr>"
    "h = \<lparr>be_offset = tb_offset b, be_size = of_nat (length raw)\<rparr>"
proof -
  obtain st f where a1: "append raw (tb_file b) = (st, f)" by (cases "append raw (tb_file b)")
  obtain st2 f2 where a2: "append (EncodeFixed32 (crc raw)) f = (st2, f2)"
    by (cases "append (EncodeFixed32 (crc raw)) f")
  have "st = OK" "st2 = OK"
    using assms a1 a2 by (auto simp: tb_WriteRawBlock_def env_def Let_def split: if_splits)
  with assms a1 a2 append_contents [of "tb_file b" raw f] append_contents [of f "EncodeFixed32 (crc raw)" f2] small_crc(1)
  show "contents (tb_file b') = contents (tb_file b) @ seal crc raw" "okf (tb_file b')"
    "b' = b\<lparr>tb_file := tb_file b', tb_status := OK, tb_offset := tb_offset b + of_nat (length raw) + 4\<rparr>"
    "h = \<lparr>be_offset = tb_offset b, be_size = of_nat (length raw)\<rparr>"
    by (auto simp: tb_WriteRawBlock_def env_def Let_def seal_def kBlockTrailerSize_def)
qed

lemma tb_Flush_rep:
  assumes "tb_rep b blocks cur" "tb_status b = OK" "room (concat blocks @ cur)"
  shows "\<exists>b'. tb_Flush env True b = Some b' \<and> tb_closed b' = tb_closed b \<and>
    (tb_status b' = OK \<longrightarrow> (\<exists>blocks'. tb_rep b' blocks' [] \<and> concat blocks' = concat blocks @ cur))"
proof -
  obtain fb where fb: "tb_filter_block b = Some fb"
      "filter_rep fb (set (map (user \<circ> fst) (concat blocks))) (map (user \<circ> fst) cur)"
    using assms(1) by (auto simp: tb_rep_def)
  obtain fb' where fb': "fb_Flush fb = Some fb'"
      "filter_rep fb' (set (map (user \<circ> fst) (concat blocks)) \<union> set (map (user \<circ> fst) cur)) []"
    using filter_rep_Flush [OF fb(2)] by blast
  define b1 where "b1 = b\<lparr>tb_filter_block := Some fb'\<rparr>"
  show ?thesis
  proof (cases "cur = []")
    case True
    then have "tb_rep b1 blocks []"
      using assms(1) fb'(2) by (simp add: tb_rep_def b1_def index_rep_def)
    with True assms fb fb' show ?thesis
      by (intro exI [of _ b1]) (auto simp: tb_Flush_def tb_rep_def b1_def)
  next
    case False
    obtain h b2 where w: "tb_WriteRawBlock env (tb_data_block b1) b1 = (h, b2)"
      by (cases "tb_WriteRawBlock env (tb_data_block b1) b1")
    define b3 where "b3 = b2\<lparr>tb_data_block_entry := h, tb_data_block := []\<rparr>"
    obtain st f where fl: "flush (tb_file b3) = (st, f)" by (cases "flush (tb_file b3)")
    define b4 where "b4 = (if tb_status b3 = OK then b3\<lparr>tb_need_next_index_entry := True, tb_file := f, tb_status := st\<rparr> else b3)"
    have db: "tb_data_block b1 = block_of cur" "block_of cur \<noteq> []" "tb_status b1 = OK"
      using assms False by (simp_all add: tb_rep_def b1_def)
    have db0: "tb_data_block b = block_of cur" using assms by (simp add: tb_rep_def)
    have r: "tb_Flush env True b = Some b4"
      using assms fb fb' db w fl db0
      by (simp add: tb_Flush_def Let_def tb_WriteDataBlock_def b1_def [symmetric] b3_def [symmetric] env_def b4_def)
    have cl: "tb_closed b4 = tb_closed b"
      using w by (auto simp: b4_def b3_def b1_def tb_WriteRawBlock_def Let_def split: prod.splits if_splits)
    have "tb_rep b4 (blocks @ [cur]) []" if ok4: "tb_status b4 = OK"
    proof -
      have ok2: "tb_status b2 = OK" and st: "st = OK" using ok4 by (auto simp: b4_def b3_def split: if_splits)
      have okb: "okf (tb_file b1)" "small (length (tb_data_block b1))"
        using assms(1,3) room_part [of "concat blocks" cur "[]"] db by (simp_all add: tb_rep_def b1_def room_def)
      note W = tb_WriteRawBlock_ok [OF w ok2 okb]
      have c: "contents f = sealed crc (blocks @ [cur]) \<and> okf f"
        using flush_contents [of "tb_file b3" f] fl st W(1,2) assms(1) db
        by (simp add: b3_def tb_rep_def b1_def)
      have e: "b4 = b1\<lparr>tb_file := f, tb_status := OK, tb_offset := tb_offset b + of_nat (length (block_of cur)) + 4,
          tb_data_block_entry := h, tb_data_block := [], tb_need_next_index_entry := True\<rparr>"
        using ok2 st db by (subst b4_def, subst b3_def, subst W(3)) (simp add: b3_def b1_def)
      have h: "h = \<lparr>be_offset = tb_offset b, be_size = of_nat (length (block_of cur))\<rparr>"
        using W(4) db by (simp add: b1_def)
      show ?thesis
        using assms(1) fb'(2) c False unfolding e h
        by (auto simp: tb_rep_def b1_def index_rep_def Un_commute algebra_simps)
    qed
    with r cl show ?thesis by (intro exI [of _ b4]) (auto intro!: exI [of _ "blocks @ [cur]"])
  qed
qed

lemma tb_Add_rep:
  assumes "tb_rep b blocks cur" "tb_status b = OK" "\<not> tb_closed b" "8 \<le> length k"
    "length (concat (map fst (concat blocks @ cur @ [(k, v)]))) < 2 ^ 32" "room (concat blocks @ cur @ [(k, v)])"
  shows "\<exists>b'. tb_Add env k v b = Some b' \<and> \<not> tb_closed b' \<and>
    (tb_status b' = OK \<longrightarrow> (\<exists>blocks' cur'. tb_rep b' blocks' cur' \<and> concat blocks' @ cur' = concat blocks @ cur @ [(k, v)]))"
proof -
  obtain fb where fb: "tb_filter_block b = Some fb"
      "filter_rep fb (set (map (user \<circ> fst) (concat blocks))) (map (user \<circ> fst) cur)"
    using assms(1) by (auto simp: tb_rep_def)
  have ul: "length (user k) \<le> length k" for k by (simp add: user_def)
  have "length (concat (map (user \<circ> fst) es)) \<le> length (concat (map fst es))" for es :: "(bytes \<times> bytes) list"
    by (induction es) (auto intro: add_mono ul)
  from this [of "cur @ [(k, v)]"] have len: "length (concat (map (user \<circ> fst) cur @ [user k])) < 2 ^ 32"
    using assms(5) by (auto simp: length_concat)
  define b3 where "b3 = (tb_add_index b)\<lparr>tb_last_key := k, tb_filter_block := Some (fb_AddKey fb (user k)),
     tb_num_entries := tb_num_entries (tb_add_index b) + 1, tb_data_block := block_of (cur @ [(k, v)])\<rparr>"
  have rep: "tb_rep b3 blocks (cur @ [(k, v)])"
    using assms(1) tb_add_index_rep [of crc b blocks] filter_rep_AddKey [OF fb(2) len]
    by (auto simp: tb_rep_def b3_def index_rep_def)
  have ok3: "tb_status b3 = OK" "\<not> tb_closed b3" using assms(2,3) by (simp_all add: b3_def)
  have r: "tb_Add env k v b = (if block_size \<le> length (tb_data_block b3) then tb_Flush env True b3 else Some b3)"
    using assms fb by (simp add: tb_Add_def Let_def tb_add_filter_def ExtractUserKey_user tb_rep_def b3_def
        BlockBuilder_Add_block_of)
  show ?thesis
  proof (cases "block_size \<le> length (tb_data_block b3)")
    case True
    then show ?thesis using tb_Flush_rep [OF rep ok3(1) assms(6)] r ok3(2) by fastforce
  next
    case False
    then show ?thesis using rep r ok3 by (intro exI [of _ b3]) auto
  qed
qed

lemma tb_Add_stuck: "tb_status b \<noteq> OK \<Longrightarrow> \<not> tb_closed b \<Longrightarrow> tb_Add_all env es b = Some b"
  by (induction es) (auto simp: tb_Add_def)

lemma tb_Add_all_rep:
  assumes "tb_rep b blocks cur" "tb_status b = OK" "\<not> tb_closed b" "\<forall>e \<in> set es. 8 \<le> length (fst e)"
    "length (concat (map fst (concat blocks @ cur @ es))) < 2 ^ 32" "room (concat blocks @ cur @ es)"
  shows "\<exists>b'. tb_Add_all env es b = Some b' \<and> \<not> tb_closed b' \<and>
    (tb_status b' = OK \<longrightarrow> (\<exists>blocks' cur'. tb_rep b' blocks' cur' \<and> concat blocks' @ cur' = concat blocks @ cur @ es))"
  using assms
proof (induction es arbitrary: b blocks cur)
  case (Cons e es)
  obtain k v where e: "e = (k, v)" by (cases e)
  obtain b1 where b1: "tb_Add env k v b = Some b1" "\<not> tb_closed b1"
      "tb_status b1 = OK \<longrightarrow> (\<exists>blocks' cur'. tb_rep b1 blocks' cur' \<and> concat blocks' @ cur' = concat blocks @ cur @ [(k, v)])"
    using tb_Add_rep [OF Cons.prems(1-3), of k v] Cons.prems(4,5) e room_left [of "concat blocks @ cur @ [e]" es] Cons.prems(6)
    by auto
  show ?case
  proof (cases "tb_status b1 = OK")
    case True
    then obtain bs c where rep: "tb_rep b1 bs c" and cat: "concat bs @ c = concat blocks @ cur @ [(k, v)]"
      using b1(3) by blast
    have eq: "concat bs @ c @ es = concat blocks @ cur @ e # es" using cat e by (metis append.assoc append_Cons append_Nil)
    have "length (concat (map fst (concat bs @ c @ es))) < 2 ^ 32" unfolding eq by (rule Cons.prems(5))
    moreover have "room (concat bs @ c @ es)" unfolding eq by (rule Cons.prems(6))
    ultimately show ?thesis using Cons.IH [OF rep True b1(2)] Cons.prems(4) eq b1(1) e by auto
  next
    case False
    then show ?thesis using tb_Add_stuck [OF False b1(2), of es] b1 e by auto
  qed
qed auto

lemma tb_Finish_rep:
  assumes "tb_rep b blocks cur" "tb_status b = OK" "concat blocks @ cur \<noteq> []" "room (concat blocks @ cur)"
  shows "\<exists>st b'. tb_Finish env b = Some (st, b') \<and> (st = OK \<longrightarrow>
    (\<exists>bs fl. concat bs = concat blocks @ cur \<and> (\<forall>l \<in> set bs. l \<noteq> []) \<and>
      contents (tb_file b') = table_image crc bs fl \<and> tb_offset b' = of_nat (length (table_image crc bs fl)) \<and>
      length fl = bloom_size_opt \<and> (\<forall>e \<in> set (concat bs). has_key fl (user (fst e)))))"
proof -
  define b0 where "b0 = b\<lparr>tb_closed := True\<rparr>"
  have "tb_rep b0 blocks cur" "tb_status b0 = OK" using assms by (simp_all add: b0_def tb_rep_def index_rep_def)
  then obtain b1 where b1: "tb_Flush env True b0 = Some b1"
      "tb_status b1 = OK \<longrightarrow> (\<exists>bs. tb_rep b1 bs [] \<and> concat bs = concat blocks @ cur)"
    using tb_Flush_rep assms(4) by blast
  show ?thesis
  proof (cases "tb_status b1 = OK")
    case False
    then show ?thesis using b1(1)
      by (auto simp: tb_Finish_def b0_def [symmetric] tb_write_filter_def tb_write_index_def tb_write_footer_def
          split: option.splits)
  next
    case True
    then obtain bs where bs: "tb_rep b1 bs []" "concat bs = concat blocks @ cur" using b1(2) by blast
    then obtain fb where fb: "tb_filter_block b1 = Some fb" "filter_rep fb (set (map (user \<circ> fst) (concat bs))) []"
      by (auto simp: tb_rep_def)
    then obtain fb' where fb': "fb_Flush fb = Some fb'" "filter_rep fb' (set (map (user \<circ> fst) (concat bs))) []"
      using filter_rep_Flush by fastforce
    obtain fh b2 where w2: "tb_WriteRawBlock env (fb_buffer fb') (b1\<lparr>tb_filter_block := Some fb'\<rparr>) = (fh, b2)"
      by (cases "tb_WriteRawBlock env (fb_buffer fb') (b1\<lparr>tb_filter_block := Some fb'\<rparr>)")
    have wf: "tb_write_filter env b1 = Some (fh, b2)"
      using fb(1) fb'(1) w2 True by (simp add: tb_write_filter_def fb_Finish_def)
    obtain ih b3 where wi: "tb_write_index env b2 = (ih, b3)" by (cases "tb_write_index env b2")
    define b4 where "b4 = tb_write_footer env fh ih b3"
    have r: "tb_Finish env b = Some (tb_status b4, b4)"
      using b1(1) wf wi by (simp add: tb_Finish_def b0_def [symmetric] b4_def Let_def)
    have "contents (tb_file b4) = table_image crc bs (fb_buffer fb') \<and>
        tb_offset b4 = of_nat (length (table_image crc bs (fb_buffer fb')))" if ok4: "tb_status b4 = OK"
    proof -
      have ok3: "tb_status b3 = OK"
        using ok4 by (auto simp: b4_def tb_write_footer_def Let_def split: if_splits prod.splits)
      have ok2: "tb_status b2 = OK"
        using ok3 wi by (auto simp: tb_write_index_def split: if_splits)
      have k1: "okf (tb_file (b1\<lparr>tb_filter_block := Some fb'\<rparr>))" "small (length (fb_buffer fb'))"
        using bs(1) fb'(2) small_crc(2) by (simp_all add: tb_rep_def filter_rep_def)
      note W2 = tb_WriteRawBlock_ok [OF w2 ok2 k1]
      have ne: "bs \<noteq> []" using bs(2) assms(3) by auto
      have ir: "index_rep crc b2 bs"
        using bs(1) by (subst W2(3)) (simp add: tb_rep_def index_rep_def)
      let ?b = "tb_add_index b2"
      have ib: "tb_index_block ?b = block_of (index_entries 0 bs)" using tb_add_index_rep [OF ir] by simp
      have ine: "block_of (index_entries 0 bs) \<noteq> []" using ne by (cases bs) auto
      obtain b3' where w3: "tb_WriteRawBlock env (block_of (index_entries 0 bs)) ?b = (ih, b3')"
          and b3: "b3 = b3'\<lparr>tb_index_block := []\<rparr>"
        using wi ok2 ib ine by (auto simp: tb_write_index_def tb_WriteIndexBlock_def split: prod.splits)
      have ok3': "tb_status b3' = OK" using ok3 b3 by simp
      have k2: "okf (tb_file ?b)" "small (length (block_of (index_entries 0 bs)))"
        using W2(2) assms(4) bs small_mono [OF length_index_block [of bs 0]] by (simp_all add: tb_rep_def room_def)
      note W3 = tb_WriteRawBlock_ok [OF w3 ok3' k2]
      let ?F = "Footer_Encode \<lparr>metaindex_handle = fh, index_handle = ih, model_handle = be_zero\<rparr>"
      obtain st f where ap: "append ?F (tb_file b3) = (st, f)" by (cases "append ?F (tb_file b3)")
      have st: "st = OK" "tb_file b4 = f"
        using ok4 ok3 ap by (auto simp: b4_def tb_write_footer_def Let_def env_def split: if_splits)
      have c1: "contents (tb_file b1) = sealed crc bs" and o1: "tb_offset b1 = of_nat (length (sealed crc bs))"
        using bs(1) by (simp_all add: tb_rep_def)
      have o2: "tb_offset b2 = of_nat (length (sealed crc bs) + length (fb_buffer fb') + 4)"
        using o1 by (subst W2(3)) simp
      have "contents (tb_file b4) = sealed crc bs @ seal crc (fb_buffer fb') @ seal crc (block_of (index_entries 0 bs)) @ ?F"
        using append_contents [of "tb_file b3" ?F f] ap st W3(1,2) b3 W2(1) c1 small_crc(3) by simp
      moreover have "fh = \<lparr>be_offset = of_nat (length (sealed crc bs)), be_size = of_nat (length (fb_buffer fb'))\<rparr>"
        using W2(4) o1 by simp
      moreover have "ih = \<lparr>be_offset = of_nat (length (sealed crc bs) + length (fb_buffer fb') + 4),
          be_size = of_nat (length (block_of (index_entries 0 bs)))\<rparr>"
        using W3(4) o2 by simp
      moreover have "tb_offset b4 = tb_offset b3 + of_nat (length ?F)"
        using ok4 ok3 ap st by (auto simp: b4_def tb_write_footer_def Let_def env_def)
      moreover have "tb_offset b3 = of_nat (length (sealed crc bs) + length (fb_buffer fb') + 4 + length (block_of (index_entries 0 bs)) + 4)"
        using o2 by (simp only: b3, subst W3(3)) simp
      ultimately show ?thesis by (simp add: table_image_def Let_def)
    qed
    moreover have "\<forall>e \<in> set (concat bs). has_key (fb_buffer fb') (user (fst e))"
      "length (fb_buffer fb') = bloom_size_opt"
      using fb'(2) by (auto simp: filter_rep_def)
    moreover have "\<forall>l \<in> set bs. l \<noteq> []" using bs(1) by (simp add: tb_rep_def)
    ultimately show ?thesis using r bs(2) by blast
  qed
qed

lemma tb_rep_new: "okf f0 \<Longrightarrow> contents f0 = [] \<Longrightarrow> tb_rep (mk_TableBuilder f0 True) [] []"
  by (simp add: tb_rep_def mk_TableBuilder_def index_rep_def filter_rep_def mk_FilterBlockBuilder_def
      fb_pending_def fb_slices_def)

definition tb_build :: "(bytes \<times> bytes) list \<Rightarrow> 'f \<Rightarrow> (Status \<times> 'f TableBuilder) option" where
  "tb_build es f0 = Option.bind (tb_Add_all env es (mk_TableBuilder f0 True)) (tb_Finish env)"

theorem tb_build_image:
  assumes "okf f0" "contents f0 = []" "es \<noteq> []" "\<forall>e \<in> set es. 8 \<le> length (fst e)"
    "length (concat (map fst es)) < 2 ^ 32" "room es"
  shows "\<exists>st b. tb_build es f0 = Some (st, b) \<and> (st = OK \<longrightarrow>
    (\<exists>bs fl. concat bs = es \<and> (\<forall>l \<in> set bs. l \<noteq> []) \<and>
      contents (tb_file b) = table_image crc bs fl \<and> tb_offset b = of_nat (length (table_image crc bs fl)) \<and>
      length fl = bloom_size_opt \<and> (\<forall>e \<in> set es. has_key fl (user (fst e)))))"
proof -
  have n: "tb_status (mk_TableBuilder f0 True) = OK" "\<not> tb_closed (mk_TableBuilder f0 True)"
    by (simp_all add: mk_TableBuilder_def)
  obtain b where b: "tb_Add_all env es (mk_TableBuilder f0 True) = Some b" "\<not> tb_closed b"
      "tb_status b = OK \<longrightarrow> (\<exists>bs c. tb_rep b bs c \<and> concat bs @ c = es)"
    using tb_Add_all_rep [OF tb_rep_new [OF assms(1,2)] n assms(4)] assms(5,6) by auto
  show ?thesis
  proof (cases "tb_status b = OK")
    case True
    then obtain bs c where "tb_rep b bs c" "concat bs @ c = es" using b(3) by blast
    note rep = this
    have "concat bs @ c \<noteq> []" "room (concat bs @ c)" using rep(2) assms(3,6) by simp_all
    from tb_Finish_rep [OF rep(1) True this] obtain st b' where fin: "tb_Finish env b = Some (st, b')"
      "st = OK \<longrightarrow> (\<exists>bs fl. concat bs = es \<and> (\<forall>l \<in> set bs. l \<noteq> []) \<and>
        contents (tb_file b') = table_image crc bs fl \<and> tb_offset b' = of_nat (length (table_image crc bs fl)) \<and>
        length fl = bloom_size_opt \<and> (\<forall>e \<in> set (concat bs). has_key fl (user (fst e))))"
      unfolding rep(2) by blast
    have "tb_build es f0 = Some (st, b')" using b(1) fin(1) by (simp add: tb_build_def)
    with fin(2) show ?thesis by blast
  next
    case False
    then have "tb_Finish env b = Some (tb_status b, b\<lparr>tb_closed := True\<rparr>)"
      by (simp add: tb_Finish_def tb_Flush_def tb_write_filter_def tb_write_index_def tb_write_footer_def
          split: option.splits)
    then show ?thesis using b(1) False by (simp add: tb_build_def)
  qed
qed

end

text \<open>A file that reports no error lets the build succeed.\<close>

locale reliable_table_file = table_file +
  assumes okf_append: "okf f \<Longrightarrow> small (length d) \<Longrightarrow> \<exists>f'. append d f = (OK, f')"
    and okf_flush: "okf f \<Longrightarrow> \<exists>f'. flush f = (OK, f')"
begin

definition fine :: "'a TableBuilder \<Rightarrow> bool" where
  "fine b \<longleftrightarrow> okf (tb_file b) \<and> tb_status b = OK"

lemma append_fine: "okf f \<Longrightarrow> small (length d) \<Longrightarrow> \<exists>f'. append d f = (OK, f') \<and> okf f'"
  using okf_append append_contents by metis

lemma flush_fine: "okf f \<Longrightarrow> \<exists>f'. flush f = (OK, f') \<and> okf f'"
  using okf_flush flush_contents by metis

lemma fine_WriteRawBlock:
  assumes "fine b" "small (length raw)"
  shows "fine (snd (tb_WriteRawBlock env raw b))"
proof -
  obtain f1 where f1: "append raw (tb_file b) = (OK, f1)" "okf f1" using assms append_fine by (auto simp: fine_def)
  obtain f2 where f2: "append (EncodeFixed32 (crc raw)) f1 = (OK, f2)" "okf f2"
    using f1(2) small_crc(1) append_fine by blast
  show ?thesis using assms(1) f1 f2 by (simp add: fine_def tb_WriteRawBlock_def Let_def env_def)
qed

lemma fine_simps [simp]:
  "fine (b\<lparr>tb_filter_block := x\<rparr>) = fine b" "fine (b\<lparr>tb_last_key := k\<rparr>) = fine b"
  "fine (b\<lparr>tb_num_entries := n\<rparr>) = fine b" "fine (b\<lparr>tb_data_block := d\<rparr>) = fine b"
  "fine (b\<lparr>tb_data_block_entry := h\<rparr>) = fine b" "fine (b\<lparr>tb_index_block := d\<rparr>) = fine b"
  "fine (b\<lparr>tb_closed := c\<rparr>) = fine b" "fine (tb_add_index b) = fine b"
  by (simp_all add: fine_def tb_add_index_def)

lemma fine_WriteDataBlock: "fine b \<Longrightarrow> small (length (tb_data_block b)) \<Longrightarrow> fine (tb_WriteDataBlock env b)"
  using fine_WriteRawBlock [of b "tb_data_block b"]
  by (auto simp: tb_WriteDataBlock_def split: prod.splits)

lemma fine_Flush:
  assumes "fine b" "tb_Flush env n b = Some b'" "small (length (tb_data_block b))"
  shows "fine b'"
proof -
  obtain fb where fb: "(case tb_filter_block b of None \<Rightarrow> Some None | Some fb \<Rightarrow> map_option Some (fb_Flush fb)) = Some fb"
    using assms by (auto simp: tb_Flush_def fine_def split: bind_splits)
  define b2 where "b2 = tb_WriteDataBlock env (b\<lparr>tb_filter_block := fb\<rparr>)"
  have b2: "fine b2" unfolding b2_def using assms(1,3) by (intro fine_WriteDataBlock) simp_all
  then obtain f' where f': "flush (tb_file b2) = (OK, f')" "okf f'"
    using flush_fine by (auto simp: fine_def)
  have "b' = b\<lparr>tb_filter_block := fb\<rparr> \<or> b' = b2\<lparr>tb_need_next_index_entry := n, tb_file := f', tb_status := OK\<rparr>"
    using assms fb b2 f' by (auto simp: tb_Flush_def fine_def Let_def b2_def env_def split: if_splits)
  then show ?thesis using assms(1) f' by (auto simp: fine_def)
qed

lemma fine_Add:
  assumes b: "fine b" and a: "tb_Add env k v b = Some b'" and s: "small (length (BlockBuilder_Add (tb_data_block b) k v))"
  shows "fine b'"
proof -
  obtain b2 where b2: "tb_add_filter k ((tb_add_index b)\<lparr>tb_last_key := k\<rparr>) = Some b2" "b' = b \<or>
     b' = b2\<lparr>tb_num_entries := tb_num_entries b2 + 1, tb_data_block := BlockBuilder_Add (tb_data_block b2) k v\<rparr> \<or>
     tb_Flush env True (b2\<lparr>tb_num_entries := tb_num_entries b2 + 1, tb_data_block := BlockBuilder_Add (tb_data_block b2) k v\<rparr>) = Some b'"
    using a b by (auto simp: tb_Add_def Let_def fine_def split: if_splits bind_splits)
  have "fine b2" "tb_data_block b2 = tb_data_block b"
    using b2(1) b by (auto simp: tb_add_filter_def split: option.splits bind_splits)
  moreover have "fine b'" if "tb_Flush env True (b2\<lparr>tb_num_entries := tb_num_entries b2 + 1,
       tb_data_block := BlockBuilder_Add (tb_data_block b2) k v\<rparr>) = Some b'"
    by (rule fine_Flush [OF _ that]) (use calculation s in simp_all)
  ultimately show "fine b'" using b2(2) b by auto
qed

lemma fine_Add_all:
  assumes "tb_rep b blocks cur" "fine b" "\<not> tb_closed b" "\<forall>e \<in> set es. 8 \<le> length (fst e)"
    "length (concat (map fst (concat blocks @ cur @ es))) < 2 ^ 32" "room (concat blocks @ cur @ es)" "tb_Add_all env es b = Some b'"
  shows "fine b'"
  using assms
proof (induction es arbitrary: b blocks cur)
  case (Cons e es)
  obtain k v where e: "e = (k, v)" by (cases e)
  have rm: "room (concat blocks @ cur @ [(k, v)])" using room_left [of "concat blocks @ cur @ [e]" es] Cons.prems(6) e by simp
  have okb: "tb_status b = OK" using Cons.prems(2) by (simp add: fine_def)
  obtain b1 where b1: "tb_Add env k v b = Some b1" "\<not> tb_closed b1"
      "tb_status b1 = OK \<longrightarrow> (\<exists>blocks' cur'. tb_rep b1 blocks' cur' \<and> concat blocks' @ cur' = concat blocks @ cur @ [(k, v)])"
    using tb_Add_rep [OF Cons.prems(1) okb Cons.prems(3), of k v] Cons.prems(4,5) e rm by auto
  have "small (length (BlockBuilder_Add (tb_data_block b) k v))"
    using room_part [of "concat blocks" "cur @ [(k, v)]" "[]"] rm Cons.prems(1)
    by (simp add: tb_rep_def BlockBuilder_Add_block_of room_def)
  then have f1: "fine b1" using fine_Add [OF Cons.prems(2) b1(1)] by blast
  then obtain bs c where rep: "tb_rep b1 bs c" and cat: "concat bs @ c = concat blocks @ cur @ [(k, v)]"
    using b1(3) by (auto simp: fine_def)
  have eq: "concat bs @ c @ es = concat blocks @ cur @ e # es" using cat e by (metis append.assoc append_Cons append_Nil)
  have "length (concat (map fst (concat bs @ c @ es))) < 2 ^ 32" "room (concat bs @ c @ es)"
    unfolding eq by (rule Cons.prems(5), rule Cons.prems(6))
  then show ?case using Cons.IH [OF rep f1 b1(2)] Cons.prems(4,7) b1(1) e by auto
qed simp

lemma fine_Finish:
  assumes "tb_rep b blocks cur" "fine b" "room (concat blocks @ cur)" "tb_Finish env b = Some (st, b')"
  shows "st = OK \<and> fine b'"
proof -
  define b0 where "b0 = b\<lparr>tb_closed := True\<rparr>"
  have rep0: "tb_rep b0 blocks cur" "fine b0" using assms by (simp_all add: b0_def tb_rep_def index_rep_def)
  have sm: "small (length (tb_data_block b0))"
    using room_part [of "concat blocks" cur "[]"] assms(3) rep0(1) by (simp add: tb_rep_def room_def)
  obtain b1 fh b2 where b1: "tb_Flush env True b0 = Some b1" "tb_write_filter env b1 = Some (fh, b2)"
    and r: "b' = tb_write_footer env fh (fst (tb_write_index env b2)) (snd (tb_write_index env b2))" "st = tb_status b'"
    using assms(4) by (auto simp: tb_Finish_def b0_def Let_def split: bind_splits prod.splits)
  have f1: "fine b1" by (rule fine_Flush [OF rep0(2) b1(1) sm])
  then obtain bs where bs: "tb_rep b1 bs []" "concat bs = concat blocks @ cur"
    using tb_Flush_rep [OF rep0(1) _ assms(3)] b1(1) rep0(2) by (auto simp: fine_def)
  then obtain fb where fb: "tb_filter_block b1 = Some fb" "filter_rep fb (set (map (user \<circ> fst) (concat bs))) []"
    by (auto simp: tb_rep_def)
  obtain fb' where fb': "fb_Flush fb = Some fb'" "length (fb_buffer fb') = bloom_size_opt"
    using filter_rep_Flush [OF fb(2)] by (auto simp: filter_rep_def)
  have w: "tb_WriteRawBlock env (fb_buffer fb') (b1\<lparr>tb_filter_block := Some fb'\<rparr>) = (fh, b2)"
    using b1(2) fb(1) fb'(1) f1 by (simp add: tb_write_filter_def fb_Finish_def fine_def)
  have f2: "fine b2"
    using fine_WriteRawBlock [of "b1\<lparr>tb_filter_block := Some fb'\<rparr>" "fb_buffer fb'"] w f1 fb'(2) small_crc(2) by simp
  have "index_rep crc b2 bs"
  proof -
    have k: "tb_status b2 = OK" "okf (tb_file (b1\<lparr>tb_filter_block := Some fb'\<rparr>))" "small (length (fb_buffer fb'))"
      using f1 f2 fb'(2) small_crc(2) by (simp_all add: fine_def)
    show ?thesis using bs(1) by (subst tb_WriteRawBlock_ok(3) [OF w k]) (simp add: tb_rep_def index_rep_def)
  qed
  then have "small (length (tb_index_block (tb_add_index b2)))"
    using tb_add_index_rep [of crc b2 bs] assms(3) bs small_mono [OF length_index_block [of bs 0]] by (simp add: tb_rep_def room_def)
  then have f3: "fine (snd (tb_write_index env b2))"
    using fine_WriteRawBlock [of "tb_add_index b2" "tb_index_block (tb_add_index b2)"] f2
    by (auto simp: tb_write_index_def tb_WriteIndexBlock_def split: prod.splits)
  then show ?thesis
    unfolding r tb_write_footer_def
    using append_fine [of "tb_file (snd (tb_write_index env b2))"
        "Footer_Encode \<lparr>metaindex_handle = fh, index_handle = fst (tb_write_index env b2), model_handle = be_zero\<rparr>"] small_crc(3)
    by (auto simp: fine_def env_def Let_def)
qed

lemma tb_build_ok:
  assumes "okf f0" "contents f0 = []" "\<forall>e \<in> set es. 8 \<le> length (fst e)"
    "length (concat (map fst es)) < 2 ^ 32" "room es" "tb_build es f0 = Some (st, b)"
  shows "st = OK \<and> fine b"
proof -
  let ?b0 = "mk_TableBuilder f0 True"
  have b0: "fine ?b0" "\<not> tb_closed ?b0" "tb_status ?b0 = OK" using assms(1) by (simp_all add: fine_def mk_TableBuilder_def)
  obtain b1 where b1: "tb_Add_all env es ?b0 = Some b1" "tb_Finish env b1 = Some (st, b)"
    using assms(6) by (auto simp: tb_build_def split: bind_splits)
  have f1: "fine b1" using fine_Add_all [OF tb_rep_new [OF assms(1,2)] b0(1,2) assms(3) _ _ b1(1)] assms(4,5) by simp
  then obtain bs c where "tb_rep b1 bs c" "concat bs @ c = es"
    using tb_Add_all_rep [OF tb_rep_new [OF assms(1,2)] b0(3,2) assms(3)] assms(4,5) b1(1) by (auto simp: fine_def)
  then show ?thesis using fine_Finish [OF _ f1 _ b1(2)] assms(5) by auto
qed

end

text \<open>A file on which a flush that reports success has handed everything to the operating system.\<close>

locale disk_table_file = writable_file append flush sync close contents on_disk durable +
  table_file append flush contents "\<lambda>_. True" "\<lambda>_. True" sync crc
  for append :: "bytes \<Rightarrow> 'f \<Rightarrow> Status \<times> 'f" and flush and sync and close and contents and on_disk and durable and crc

definition posix_env :: "(bytes \<Rightarrow> u32) \<Rightarrow> PosixWritableFile tb_env" where
  "posix_env crc = \<lparr>te_append = pf_Append, te_flush = pf_Flush, te_sync = pf_Sync, te_crc = crc\<rparr>"

definition pf_good :: "PosixWritableFile \<Rightarrow> bool" where
  "pf_good f \<longleftrightarrow> fd_writes (pf_fd f) = []"

lemma WriteUnbuffered_good: "fd_writes fd = [] \<Longrightarrow> WriteUnbuffered d fd = (OK, fd\<lparr>fd_data := fd_data fd @ d\<rparr>)"
  by (subst WriteUnbuffered.simps) simp

lemma pf_good_ops:
  "pf_good f \<Longrightarrow> \<exists>f'. pf_Append d f = (OK, f') \<and> pf_good f'" "pf_good f \<Longrightarrow> \<exists>f'. pf_Flush f = (OK, f') \<and> pf_good f'"
  by (auto simp: pf_good_def pf_Append_def pf_Flush_def pf_FlushBuffer_def WriteUnbuffered_good Let_def)

interpretation ptable: disk_table_file pf_Append pf_Flush pf_Sync pf_Close pf_contents
  "\<lambda>f. fd_data (pf_fd f)" "\<lambda>f. fd_durable (pf_fd f)" crc for crc
  by unfold_locales

interpretation pgood: reliable_table_file pf_Append pf_Flush pf_contents pf_good "\<lambda>_. True" pf_Sync crc for crc
proof unfold_locales
  fix f f' :: PosixWritableFile and d
  show "pf_good f \<Longrightarrow> True \<Longrightarrow> pf_Append d f = (OK, f') \<Longrightarrow> pf_contents f' = pf_contents f @ d \<and> pf_good f'"
    using pf_good_ops(1) [of f d] posix.append_ok by auto
  show "pf_good f \<Longrightarrow> pf_Flush f = (OK, f') \<Longrightarrow> pf_contents f' = pf_contents f \<and> pf_good f'"
    using pf_good_ops(2) [of f] posix.flush_ok by auto
qed (use pf_good_ops in blast)+

lemma ptable_env: "ptable.env crc = posix_env crc"
  by (simp add: ptable.env_def posix_env_def)

end
