(* ===== verification/Sst_Reader.thy ===== *)
theory Sst_Reader
  imports Table_Builder
begin

text \<open>
  \<^verbatim>\<open>src/include/reader.h\<close>, \<^verbatim>\<open>src/reader.cpp\<close> and the readable files of
  \<^verbatim>\<open>src/include/file.h\<close>: looking a key up in table files. A readable file is its bytes together
  with the answers the operating system will give to \<open>lseek\<close> and \<open>read\<close> (a limit on the bytes
  returned, an interruption or a failure; when the list is used up every call succeeds in full).
\<close>

section \<open>SequentialFile\<close>

datatype read_result = Upto nat | RInterrupted | RFailed

record SequentialFile =
  sq_data :: bytes
  sq_pos :: nat
  sq_reads :: "read_result list"
  sq_seeks :: "bool list"

text \<open>The loop retries interrupted reads. On an error the result slice is left alone, which is the
  value \<open>None\<close> of the second component.\<close>

function sq_Read :: "nat \<Rightarrow> SequentialFile \<Rightarrow> Status \<times> bytes option \<times> SequentialFile" where
  "sq_Read n f = (case sq_reads f of
       [] \<Rightarrow> let d = take n (drop (sq_pos f) (sq_data f)) in (OK, Some d, f\<lparr>sq_pos := sq_pos f + length d\<rparr>)
     | Upto m # rs \<Rightarrow> let d = take (min n m) (drop (sq_pos f) (sq_data f)) in
         (OK, Some d, f\<lparr>sq_pos := sq_pos f + length d, sq_reads := rs\<rparr>)
     | RInterrupted # rs \<Rightarrow> sq_Read n (f\<lparr>sq_reads := rs\<rparr>)
     | RFailed # rs \<Rightarrow> (IOError, None, f\<lparr>sq_reads := rs\<rparr>))"
  by pat_completeness auto
termination
  by (relation "measure (\<lambda>(n, f). length (sq_reads f))") auto

declare sq_Read.simps [simp del]

text \<open>\<open>lseek64\<close> takes a signed offset and refuses a negative one.\<close>

definition sq_MoveTo :: "u64 \<Rightarrow> SequentialFile \<Rightarrow> Status \<times> SequentialFile" where
  "sq_MoveTo n f = (case sq_seeks f of
       [] \<Rightarrow> if sint n < 0 then (IOError, f) else (OK, f\<lparr>sq_pos := unat n\<rparr>)
     | b # bs \<Rightarrow> if b \<and> 0 \<le> sint n then (OK, f\<lparr>sq_pos := unat n, sq_seeks := bs\<rparr>) else (IOError, f\<lparr>sq_seeks := bs\<rparr>))"

definition sq_Skip :: "u64 \<Rightarrow> SequentialFile \<Rightarrow> bool \<times> SequentialFile" where
  "sq_Skip n f = (case sq_seeks f of
       [] \<Rightarrow> if int (sq_pos f) + sint n < 0 then (False, f)
              else (True, f\<lparr>sq_pos := nat (int (sq_pos f) + sint n)\<rparr>)
     | b # bs \<Rightarrow> if b \<and> 0 \<le> int (sq_pos f) + sint n
         then (True, f\<lparr>sq_pos := nat (int (sq_pos f) + sint n), sq_seeks := bs\<rparr>) else (False, f\<lparr>sq_seeks := bs\<rparr>))"

section \<open>Searching blocks\<close>

function FilterInIndex :: "bytes \<Rightarrow> bytes \<Rightarrow> BlockEntryInfo \<Rightarrow> (Status \<times> BlockEntryInfo) option" where
  "FilterInIndex input target info =
     (if input = [] then Some (NotFound, info)
      else case ParserBlock input of
        None \<Rightarrow> None
      | Some (st, entry, rest) \<Rightarrow>
          if \<not> ok st then Some (st, info)
          else if entry = [] \<or> length entry < 8 then Some (Corruption, info)
          else case DecodeFixed32 entry of
            None \<Rightarrow> None
          | Some key_size \<Rightarrow>
              (case bread 8 (unat key_size) entry of
                None \<Rightarrow> None
              | Some k \<Rightarrow>
                  (case compare CInternalKey target k of
                    None \<Rightarrow> None
                  | Some r \<Rightarrow> if r \<le> 0 then map_option (Pair OK) (be_Decode (drop (unat key_size + 8) entry))
                              else FilterInIndex rest target info)))"
  by pat_completeness auto
termination
  by (relation "measure (\<lambda>(input, k, info). length input)") (auto dest: ParserBlock_rest_shorter)

declare FilterInIndex.simps [simp del]

text \<open>A deletion entry returns the status of the parser, which is OK, and leaves the pointer
  record as it was.\<close>

definition FindInEntry :: "bytes \<Rightarrow> bytes \<Rightarrow> bytes \<Rightarrow> VLogEntryInfo \<Rightarrow> (Status \<times> VLogEntryInfo) option" where
  "FindInEntry block_internal_key v target info = do {
     seq \<leftarrow> ExtractSequenceNumber block_internal_key;
     query_seq \<leftarrow> ExtractSequenceNumber target;
     value_type \<leftarrow> ExtractValueType block_internal_key;
     if seq \<le> query_seq then
       (if value_type = kTypeValue then vi_Decode info v else Some (OK, info))
     else Some (NotFound, info) }"

function FindInBlock :: "bytes \<Rightarrow> bytes \<Rightarrow> VLogEntryInfo \<Rightarrow> (Status \<times> VLogEntryInfo) option" where
  "FindInBlock input target info =
     (if input = [] then Some (NotFound, info)
      else case ParserBlock input of
        None \<Rightarrow> None
      | Some (st, entry, rest) \<Rightarrow>
          if \<not> ok st then Some (st, info)
          else if entry = [] \<or> length entry < 8 then Some (Corruption, info)
          else case DecodeFixed32 entry of
            None \<Rightarrow> None
          | Some key_size \<Rightarrow>
              (case bread 8 (unat key_size) entry of
                None \<Rightarrow> None
              | Some k \<Rightarrow>
                  (case UserKeyComparator_compare target k of
                    None \<Rightarrow> None
                  | Some ret \<Rightarrow>
                      if ret < 0 then Some (NotFound, info)
                      else if ret = 0 then FindInEntry k (drop (unat key_size + 8) entry) target info
                      else FindInBlock rest target info)))"
  by pat_completeness auto
termination
  by (relation "measure (\<lambda>(input, k, info). length input)") (auto dest: ParserBlock_rest_shorter)

declare FindInBlock.simps [simp del]

section \<open>SSTReader\<close>

text \<open>\<open>ReadOne\<close> seeks and reads four times. It checks the status of the seeks; the status of the
  reads of the footer, the filter, the index and the block is dropped and the stale slice is used
  instead, which points into a buffer that has been resized: undefined, so \<open>None\<close>. The search by
  the learned model (floating point, never written by the builder) is the argument \<open>model\<close>.\<close>

definition fetch :: "BlockEntryInfo \<Rightarrow> SequentialFile \<Rightarrow> (Status \<times> bytes \<times> SequentialFile) option" where
  "fetch h f = (let (st, f1) = sq_MoveTo (be_offset h) f in
     if \<not> ok st then Some (st, [], f1)
     else case sq_Read (unat (be_size h)) f1 of
       (_, None, _) \<Rightarrow> None
     | (_, Some d, f2) \<Rightarrow> Some (OK, d, f2))"

definition ReadByModel ::
  "(bytes \<Rightarrow> bytes \<Rightarrow> Status \<times> BlockEntryInfo) \<Rightarrow> BlockEntryInfo \<Rightarrow> bytes \<Rightarrow> VLogEntryInfo \<Rightarrow> SequentialFile
   \<Rightarrow> (Status \<times> VLogEntryInfo) option" where
  "ReadByModel model h target info f =
     (let (st, f1) = sq_MoveTo (be_offset h) f in
      if \<not> ok st then Some (st, info)
      else case sq_Read (unat (be_size h)) f1 of
        (st1, None, f2) \<Rightarrow> Some (st1, info)
      | (st1, Some input, f2) \<Rightarrow>
          let (st2, loc) = model input target in
          if \<not> ok st2 then Some (st2, info)
          else let (st3, f3) = sq_MoveTo (be_offset loc) f2 in
            if \<not> ok st3 then Some (st3, info)
            else case sq_Read (unat (be_size loc)) f3 of
              (st4, None, _) \<Rightarrow> Some (st4, info)
            | (st4, Some input, _) \<Rightarrow> FindInBlock input target info)"

definition ReadByIndex :: "BlockEntryInfo \<Rightarrow> bytes \<Rightarrow> VLogEntryInfo \<Rightarrow> SequentialFile \<Rightarrow> (Status \<times> VLogEntryInfo) option" where
  "ReadByIndex h target info f = do {
     (st, input, f1) \<leftarrow> fetch h f;
     if \<not> ok st then Some (st, info)
     else do {
       (st, b_info) \<leftarrow> FilterInIndex input target \<lparr>be_offset = 0, be_size = 0\<rparr>;
       if \<not> ok st then Some (st, info)
       else do {
         (st, input, f2) \<leftarrow> fetch b_info f1;
         if \<not> ok st then Some (st, info)
         else FindInBlock input target info } } }"

definition ReadOne ::
  "(bytes \<Rightarrow> bytes \<Rightarrow> Status \<times> BlockEntryInfo) \<Rightarrow> (u64 \<Rightarrow> SequentialFile option) \<Rightarrow> SSTFileMeta \<Rightarrow> bytes \<Rightarrow> VLogEntryInfo
   \<Rightarrow> (Status \<times> VLogEntryInfo) option" where
  "ReadOne model open_file meta target info =
     (case open_file (file_number meta) of
       None \<Rightarrow> Some (IOError, info)
     | Some f \<Rightarrow> do {
         (st, input, f1) \<leftarrow> fetch \<lparr>be_offset = file_size meta - of_nat kEncodedLength, be_size = of_nat kEncodedLength\<rparr> f;
         if \<not> ok st then Some (st, info)
         else do {
           (st, footer) \<leftarrow> Footer_Decode input;
           if \<not> ok st then Some (st, info)
           else do {
             (st, input, f2) \<leftarrow> fetch (metaindex_handle footer) f1;
             if \<not> ok st then Some (st, info)
             else do {
               u \<leftarrow> ExtractUserKey target;
               may \<leftarrow> KeyMayMatch u input;
               if \<not> may then Some (NotFound, info)
               else if be_size (model_handle footer) \<noteq> 0 then ReadByModel model (model_handle footer) target info f2
               else ReadByIndex (index_handle footer) target info f2 } } } })"

section \<open>Batches\<close>

text \<open>With several files each is searched by a coroutine over one io_uring ring. The tasks share no
  data, so the order in which their reads complete does not matter and each has its own list of
  answers: submission refused, completion with a number of bytes, completion with an error. The
  last one never resumes the coroutine and the loop of \<open>ReadAsyncBatch\<close> waits forever: \<open>None\<close>.
  A completion reads into a buffer that was resized before and may be filled only in part.\<close>

datatype ring_result = SubmitFailed | Completed nat | CompletionError

record async_file =
  af_data :: bytes
  af_ring :: "ring_result list"

definition resize_buf :: "nat \<Rightarrow> bytes \<Rightarrow> bytes" where
  "resize_buf n buf = take n buf @ replicate (n - length buf) 0"

definition async_read :: "BlockEntryInfo \<Rightarrow> bytes \<Rightarrow> async_file \<Rightarrow> (Status \<times> bytes \<times> async_file) option" where
  "async_read h buf f =
     (let n = unat (be_size h); avail = take n (drop (unat (be_offset h)) (af_data f)) in
      case af_ring f of
        [] \<Rightarrow> Some (OK, avail @ drop (length avail) buf, f)
      | SubmitFailed # rs \<Rightarrow> Some (IOError, buf, f\<lparr>af_ring := rs\<rparr>)
      | Completed m # rs \<Rightarrow> let d = take m avail in Some (OK, d @ drop (length d) buf, f\<lparr>af_ring := rs\<rparr>)
      | CompletionError # rs \<Rightarrow> None)"

definition Async_ReadOne ::
  "(u64 \<Rightarrow> async_file option) \<Rightarrow> SSTFileMeta \<Rightarrow> bytes \<Rightarrow> (Status \<times> VLogEntryInfo) option" where
  "Async_ReadOne open_file meta target =
     (case open_file (file_number meta) of
       None \<Rightarrow> Some (IOError, vi_zero)
     | Some f \<Rightarrow> do {
         (st, buf, f1) \<leftarrow> async_read \<lparr>be_offset = file_size meta - of_nat kEncodedLength, be_size = of_nat kEncodedLength\<rparr>
           (resize_buf kEncodedLength []) f;
         if \<not> ok st then Some (st, vi_zero)
         else do {
           (st, footer) \<leftarrow> Footer_Decode buf;
           if \<not> ok st then Some (st, vi_zero)
           else do {
             (st, buf, f2) \<leftarrow> async_read (metaindex_handle footer) (resize_buf (unat (be_size (metaindex_handle footer))) buf) f1;
             if \<not> ok st then Some (st, vi_zero)
             else do {
               u \<leftarrow> ExtractUserKey target;
               may \<leftarrow> KeyMayMatch u buf;
               if \<not> may then Some (NotFound, vi_zero)
               else do {
                 (st, buf, f3) \<leftarrow> async_read (index_handle footer) (resize_buf (unat (be_size (index_handle footer))) buf) f2;
                 if \<not> ok st then Some (st, vi_zero)
                 else do {
                   (st, b_info) \<leftarrow> FilterInIndex buf target be_zero;
                   if \<not> ok st then Some (st, vi_zero)
                   else do {
                     (st, buf, f4) \<leftarrow> async_read b_info (resize_buf (unat (be_size b_info)) buf) f3;
                     if \<not> ok st then Some (st, vi_zero)
                     else FindInBlock buf target vi_zero } } } } } } })"

fun pick_outcome :: "(Status \<times> VLogEntryInfo) list \<Rightarrow> VLogEntryInfo \<Rightarrow> Status \<times> VLogEntryInfo" where
  "pick_outcome [] info = (NotFound, info)"
| "pick_outcome ((st, v) # rs) info =
     (if ok st then (OK, v) else if \<not> IsNotFound st then (st, info) else pick_outcome rs info)"

definition ReadAsyncBatch ::
  "(u64 \<Rightarrow> async_file option) \<Rightarrow> SSTFileMeta list \<Rightarrow> bytes \<Rightarrow> VLogEntryInfo \<Rightarrow> (Status \<times> VLogEntryInfo) option" where
  "ReadAsyncBatch open_async metas target info =
     map_option (\<lambda>rs. pick_outcome rs info) (those (map (\<lambda>m. Async_ReadOne open_async m target) metas))"

definition ReadBatch ::
  "(bytes \<Rightarrow> bytes \<Rightarrow> Status \<times> BlockEntryInfo) \<Rightarrow> (u64 \<Rightarrow> SequentialFile option) \<Rightarrow> (u64 \<Rightarrow> async_file option)
   \<Rightarrow> SSTFileMeta list \<Rightarrow> bytes \<Rightarrow> VLogEntryInfo \<Rightarrow> (Status \<times> VLogEntryInfo) option" where
  "ReadBatch model open_file open_async metas target info =
     (if length metas = 1 then ReadOne model open_file (hd metas) target info
      else ReadAsyncBatch open_async metas target info)"

section \<open>Searching well-formed blocks\<close>

lemma entry_parts:
  assumes "small_entry (k, v)"
  shows "DecodeFixed32 (block_entry k v) = Some (of_nat (length k))"
    "bread 8 (length k) (block_entry k v) = Some k" "drop (length k + 8) (block_entry k v) = v"
    "unat (of_nat (length k) :: u32) = length k"
  using assms block_entry_decode(1) [OF assms, of "[]"] unat_key_size [OF assms]
  by (simp_all add: block_entry_def)

lemma FilterInIndex_block:
  assumes "\<forall>e \<in> set es. small_entry e \<and> wf_ikey (fst e)" "wf_ikey q"
  shows "FilterInIndex (block_of es) q info = (case find (\<lambda>e. ikey_cmp q (fst e) \<le> 0) es of
     None \<Rightarrow> Some (NotFound, info) | Some e \<Rightarrow> map_option (Pair OK) (be_Decode (snd e)))"
  using assms
proof (induction es)
  case (Cons e es)
  obtain k v where e: "e = (k, v)" by (cases e)
  then have sm: "small_entry (k, v)" and wf: "wf_ikey k" using Cons.prems by auto
  show ?case
    by (subst FilterInIndex.simps)
      (use Cons sm wf e in \<open>simp add: entry_parts InternalKeyComparator_compare_Some\<close>)
qed (subst FilterInIndex.simps, simp)

lemma UserKey_compare: "wf_ikey a \<Longrightarrow> wf_ikey b \<Longrightarrow>
  UserKeyComparator_compare a b = Some (StrComparator_compare (user a) (user b))"
  by (simp add: UserKeyComparator_compare_def ExtractUserKey_user)

lemma FindInBlock_block:
  assumes "\<forall>e \<in> set es. small_entry e \<and> wf_ikey (fst e)" "wf_ikey q"
  shows "FindInBlock (block_of es) q info =
    (case find (\<lambda>e. StrComparator_compare (user q) (user (fst e)) \<le> 0) es of
       None \<Rightarrow> Some (NotFound, info)
     | Some e \<Rightarrow> if user (fst e) = user q then FindInEntry (fst e) (snd e) q info else Some (NotFound, info))"
  using assms
proof (induction es)
  case (Cons e es)
  obtain k v where e: "e = (k, v)" by (cases e)
  then have sm: "small_entry (k, v)" and wf: "wf_ikey k" using Cons.prems by auto
  show ?case
    by (subst FindInBlock.simps)
      (use Cons sm wf e in \<open>auto simp: entry_parts UserKey_compare\<close>)
qed (subst FindInBlock.simps, simp)

section \<open>Finding the block\<close>

text \<open>A predicate that stays true along the entries holds for the last entry of exactly the block in
  which it first becomes true, and of the blocks behind it.\<close>

lemma find_first:
  assumes "find P xs = Some x"
  obtains pre post where "xs = pre @ x # post" "P x" "\<forall>y \<in> set pre. \<not> P y"
  using assms by (auto simp: find_Some_iff) (metis id_take_nth_drop in_set_conv_nth length_take min_less_iff_conj nth_take)

lemma find_append: "find P (xs @ ys) = (case find P xs of None \<Rightarrow> find P ys | Some x \<Rightarrow> Some x)"
  by (induction xs) auto

lemma find_concat_None:
  assumes "\<forall>b \<in> set bs. b \<noteq> [] \<and> \<not> Q (last b)" "sorted_wrt (\<lambda>x y. Q x \<longrightarrow> Q y) (concat bs)"
  shows "find Q (concat bs) = None"
  using assms
proof (induction bs)
  case (Cons b bs)
  have "\<not> Q x" if "x \<in> set b" for x
  proof (cases "x = last b")
    case False
    have b: "b = butlast b @ [last b]" using Cons.prems(1) by simp
    have "set b = insert (last b) (set (butlast b))" by (subst b) simp
    with that False have "x \<in> set (butlast b)" by blast
    moreover have "sorted_wrt (\<lambda>x y. Q x \<longrightarrow> Q y) (butlast b @ [last b])"
      using Cons.prems(2) b by (simp add: sorted_wrt_append)
    ultimately have "Q x \<longrightarrow> Q (last b)" unfolding sorted_wrt_append by auto
    then show ?thesis using Cons.prems(1) by simp
  qed (use Cons.prems(1) in simp)
  then show ?case using Cons by (auto simp: find_None_iff sorted_wrt_append)
qed simp

lemma find_concat_Some:
  assumes "\<forall>b \<in> set pre. b \<noteq> [] \<and> \<not> Q (last b)" "b \<noteq> []" "Q (last b)"
    "sorted_wrt (\<lambda>x y. Q x \<longrightarrow> Q y) (concat (pre @ b # post))"
  shows "find Q (concat (pre @ b # post)) = find Q b"
proof -
  have "find Q (concat pre) = None"
    using assms by (intro find_concat_None) (auto simp: sorted_wrt_append)
  then have "find Q (concat pre @ xs) = find Q xs" for xs
    by (simp add: find_append)
  moreover have "find Q b \<noteq> None" using assms(2,3) last_in_set by (auto simp: find_None_iff)
  ultimately show ?thesis by (auto simp: find_append split: option.splits)
qed

lemma find_index_entries:
  assumes "find (\<lambda>b. P (fst (last b))) bs = Some b"
  shows "\<exists>pre post. bs = pre @ b # post \<and> (\<forall>c \<in> set pre. \<not> P (fst (last c))) \<and> P (fst (last b)) \<and>
    find (\<lambda>e. P (fst e)) (index_entries off bs) = Some (fst (last b),
      be_Encode \<lparr>be_offset = of_nat (off + length (sealed crc pre)), be_size = of_nat (length (block_of b))\<rparr>)"
  using assms
proof (induction bs arbitrary: off)
  case (Cons c bs)
  show ?case
  proof (cases "P (fst (last c))")
    case True
    with Cons.prems have "c = b" by simp
    with True show ?thesis by (intro exI [of _ "[]"] exI [of _ bs]) simp
  next
    case False
    with Cons.prems have "find (\<lambda>b. P (fst (last b))) bs = Some b" by simp
    from Cons.IH [OF this, of "off + length (block_of c) + 4"] obtain pre post where
      "bs = pre @ b # post" "\<forall>c \<in> set pre. \<not> P (fst (last c))" "P (fst (last b))"
      "find (\<lambda>e. P (fst e)) (index_entries (off + length (block_of c) + 4) bs) = Some (fst (last b),
        be_Encode \<lparr>be_offset = of_nat (off + length (block_of c) + 4 + length (sealed crc pre)), be_size = of_nat (length (block_of b))\<rparr>)"
      by blast
    then show ?thesis using False
      by (intro exI [of _ "c # pre"] exI [of _ post]) (simp add: algebra_simps)
  qed
qed simp

lemma find_index_entries_None:
  "find (\<lambda>b. P (fst (last b))) bs = None \<Longrightarrow> find (\<lambda>e. P (fst e)) (index_entries off bs) = None"
  by (induction bs arbitrary: off) (auto split: if_splits)

section \<open>Order of user keys\<close>

lemma user_append [simp]: "user (u @ EncodeFixed64 t) = u"
  by (simp add: user_def)

lemma ikey_user_le: "wf_ikey a \<Longrightarrow> wf_ikey b \<Longrightarrow> ikey_cmp a b \<le> 0 \<Longrightarrow> StrComparator_compare (user a) (user b) \<le> 0"
  by (elim ikey_cases) (auto simp: ikey_cmp_eq split: if_splits)

lemma user_less_ikey: "wf_ikey a \<Longrightarrow> wf_ikey b \<Longrightarrow> StrComparator_compare (user a) (user b) < 0 \<Longrightarrow> ikey_cmp a b < 0"
  by (elim ikey_cases) (auto simp: ikey_cmp_eq split: if_splits)

text \<open>The entries of a table: well-formed keys in the order of the internal-key comparator.\<close>

definition table_entries :: "(bytes \<times> bytes) list \<Rightarrow> bool" where
  "table_entries es \<longleftrightarrow> sorted_wrt (\<lambda>a b. ikey_cmp (fst a) (fst b) < 0) es \<and>
     (\<forall>e \<in> set es. small_entry e \<and> wf_ikey (fst e))"

text \<open>What a lookup is expected to return: the first entry of the user key, which is its newest
  version.\<close>

definition table_lookup :: "(bytes \<times> bytes) list \<Rightarrow> bytes \<Rightarrow> (bytes \<times> bytes) option" where
  "table_lookup es u = find (\<lambda>e. user (fst e) = u) es"

lemma table_lookup_in: "table_lookup es u = Some e \<Longrightarrow> e \<in> set es"
  by (auto simp: table_lookup_def elim: find_first)

definition entry_result :: "VLogEntryInfo \<Rightarrow> bytes \<times> bytes \<Rightarrow> (Status \<times> VLogEntryInfo) option" where
  "entry_result info e = (if ExtractValueType (fst e) = Some kTypeValue then vi_Decode info (snd e) else Some (OK, info))"

definition lookup_result :: "VLogEntryInfo \<Rightarrow> (bytes \<times> bytes) option \<Rightarrow> (Status \<times> VLogEntryInfo) option" where
  "lookup_result info r = (case r of None \<Rightarrow> Some (NotFound, info) | Some e \<Rightarrow> entry_result info e)"

text \<open>No version of the queried key is newer than the query.\<close>

definition covers_versions :: "bytes \<Rightarrow> (bytes \<times> bytes) list \<Rightarrow> bool" where
  "covers_versions q es \<longleftrightarrow> (\<forall>e \<in> set es. user (fst e) = user q \<longrightarrow> ikey_cmp q (fst e) \<le> 0)"

lemma FindInEntry_result:
  assumes "wf_ikey k" "wf_ikey q" "user k = user q" "ikey_cmp q k \<le> 0"
  shows "FindInEntry k v q info = entry_result info (k, v)"
proof -
  obtain u s where k: "k = u @ EncodeFixed64 s" using assms(1) by (rule ikey_cases)
  obtain w t where q: "q = w @ EncodeFixed64 t" using assms(2) by (rule ikey_cases)
  have uw: "u = w" using assms(3) k q by simp
  have "s \<le> t" using assms(4) unfolding k q uw ikey_cmp_eq by (auto split: if_splits)
  then have "drop_bit 8 s \<le> drop_bit 8 t"
    by (simp add: word_le_nat_alt drop_bit_eq_div unat_div div_le_mono)
  then show ?thesis
    by (simp add: k q FindInEntry_def entry_result_def ExtractSequenceNumber_def ExtractValueType_def)
qed

lemma query_le_iff:
  assumes "wf_ikey q" "wf_ikey (fst e)" "user (fst e) = user q \<longrightarrow> ikey_cmp q (fst e) \<le> 0"
  shows "StrComparator_compare (user q) (user (fst e)) \<le> 0 \<longleftrightarrow> ikey_cmp q (fst e) \<le> 0"
  using assms ikey_user_le user_less_ikey by (smt (verit) Str_eq_0_iff)

lemma table_lookup_find:
  assumes "table_entries es" "wf_ikey q"
  shows "table_lookup es (user q) =
    (case find (\<lambda>e. StrComparator_compare (user q) (user (fst e)) \<le> 0) es of
       None \<Rightarrow> None | Some e \<Rightarrow> if user (fst e) = user q then Some e else None)"
  using assms
proof (induction es)
  case (Cons e es)
  have IH: "table_lookup es (user q) =
    (case find (\<lambda>e. StrComparator_compare (user q) (user (fst e)) \<le> 0) es of
       None \<Rightarrow> None | Some e \<Rightarrow> if user (fst e) = user q then Some e else None)"
    using Cons by (simp add: table_entries_def)
  have "table_lookup es (user q) = None" if lt: "StrComparator_compare (user q) (user (fst e)) < 0"
    unfolding table_lookup_def find_None_iff
  proof (clarify)
    fix a b assume ab: "(a, b) \<in> set es" "user (fst (a, b)) = user q"
    have "ikey_cmp (fst e) a \<le> 0" "wf_ikey (fst e)" "wf_ikey a"
      using Cons.prems(1) ab(1) by (force simp: table_entries_def)+
    then have "StrComparator_compare (user (fst e)) (user a) \<le> 0" by (rule ikey_user_le [rotated 2])
    then show False using lt ab(2) Str_neg [of "user (fst e)" "user q"] by simp
  qed
  moreover have "StrComparator_compare (user q) (user (fst e)) < 0"
    if "StrComparator_compare (user q) (user (fst e)) \<le> 0" "user (fst e) \<noteq> user q"
    using that by (auto simp: order_le_less)
  ultimately show ?case using IH by (auto simp: table_lookup_def)
qed (simp add: table_lookup_def)

text \<open>The search in the index followed by the search in one block finds the first entry of the
  user key.\<close>

lemma index_then_block:
  assumes "table_entries (concat bs)" "\<forall>b \<in> set bs. b \<noteq> []" "wf_ikey q" "covers_versions q (concat bs)"
  shows "case find (\<lambda>b. ikey_cmp q (fst (last b)) \<le> 0) bs of
      None \<Rightarrow> table_lookup (concat bs) (user q) = None
    | Some b \<Rightarrow> FindInBlock (block_of b) q info = lookup_result info (table_lookup (concat bs) (user q))"
proof -
  let ?Q = "\<lambda>e. ikey_cmp q (fst e) \<le> 0" and ?P = "\<lambda>e. StrComparator_compare (user q) (user (fst e)) \<le> 0"
  have PQ: "?P e \<longleftrightarrow> ?Q e" if "e \<in> set (concat bs)" for e
    using query_le_iff [OF assms(3), of e] assms(1,4) that
    by (auto simp: table_entries_def covers_versions_def)
  have "sorted_wrt (\<lambda>x y. ?Q x \<longrightarrow> ?Q y) (concat bs)"
  proof (rule sorted_wrt_mono_rel [of _ "\<lambda>a b. ikey_cmp (fst a) (fst b) < 0"])
    fix x y assume "x \<in> set (concat bs)" "y \<in> set (concat bs)" "ikey_cmp (fst x) (fst y) < 0"
    then show "?Q x \<longrightarrow> ?Q y"
      using assms(1,3) ikey.cmp_trans [of q "fst x" "fst y"] by (auto simp: table_entries_def)
  qed (use assms(1) in \<open>simp add: table_entries_def\<close>)
  note mono = this
  have fPQ: "find ?P xs = find ?Q xs" if "set xs \<subseteq> set (concat bs)" for xs
    using that PQ by (induction xs) auto
  show ?thesis
  proof (cases "find (\<lambda>b. ?Q (last b)) bs")
    case None
    then have "find ?Q (concat bs) = None"
      using assms(2) mono by (intro find_concat_None) (auto simp: find_None_iff)
    then show ?thesis using None fPQ [of "concat bs"] by (simp add: table_lookup_find [OF assms(1,3)])
  next
    case (Some b)
    then obtain pre post where bs: "bs = pre @ b # post" "?Q (last b)" "\<forall>c \<in> set pre. \<not> ?Q (last c)"
      by (rule find_first)
    then have "find ?Q (concat bs) = find ?Q b"
      using assms(2) mono unfolding bs(1) by (intro find_concat_Some) auto
    moreover have sub: "set b \<subseteq> set (concat bs)" using bs(1) by auto
    ultimately have "find ?P (concat bs) = find ?P b" using fPQ [of b] fPQ [of "concat bs"] by simp
    then have L: "table_lookup (concat bs) (user q) =
        (case find ?P b of None \<Rightarrow> None | Some e \<Rightarrow> if user (fst e) = user q then Some e else None)"
      by (simp add: table_lookup_find [OF assms(1,3)])
    have ent: "\<forall>e \<in> set b. small_entry e \<and> wf_ikey (fst e)"
      using assms(1) sub by (auto simp: table_entries_def)
    have "FindInEntry (fst e) (snd e) q info = entry_result info e" if "find ?P b = Some e" "user (fst e) = user q" for e
    proof -
      have "e \<in> set b" using that(1) by (metis find_first in_set_conv_decomp)
      then have "wf_ikey (fst e)" "ikey_cmp q (fst e) \<le> 0"
        using ent assms(4) that(2) sub by (auto simp: covers_versions_def)
      then show ?thesis using FindInEntry_result [OF _ assms(3) that(2), of "snd e" info] by simp
    qed
    then show ?thesis
      using Some by (auto simp: FindInBlock_block [OF ent assms(3)] L lookup_result_def split: option.splits)
  qed
qed

section \<open>Slices of a table file\<close>

definition slice_of :: "BlockEntryInfo \<Rightarrow> bytes \<Rightarrow> bytes" where
  "slice_of h d = take (unat (be_size h)) (drop (unat (be_offset h)) d)"

definition image_footer :: "(bytes \<Rightarrow> u32) \<Rightarrow> (bytes \<times> bytes) list list \<Rightarrow> bytes \<Rightarrow> Footer" where
  "image_footer crc bs fl = \<lparr>metaindex_handle = \<lparr>be_offset = of_nat (length (sealed crc bs)), be_size = of_nat (length fl)\<rparr>,
     index_handle = \<lparr>be_offset = of_nat (length (sealed crc bs) + length fl + 4), be_size = of_nat (length (block_of (index_entries 0 bs)))\<rparr>,
     model_handle = be_zero\<rparr>"

lemma table_image_eq:
  "table_image crc bs fl = sealed crc bs @ seal crc fl @ seal crc (block_of (index_entries 0 bs)) @ Footer_Encode (image_footer crc bs fl)"
  by (simp add: table_image_def image_footer_def Let_def)

lemma slice_mid:
  assumes "length (xs @ ys @ zs) < 2 ^ 64" "h = \<lparr>be_offset = of_nat (length xs), be_size = of_nat (length ys)\<rparr>"
  shows "slice_of h (xs @ ys @ zs) = ys"
proof -
  have "unat (of_nat (length xs) :: u64) = length xs" "unat (of_nat (length ys) :: u64) = length ys"
    using assms(1) by (auto intro!: unat_of_nat_u64)
  then show ?thesis by (simp add: slice_of_def assms(2))
qed

lemma table_slices:
  assumes "length (table_image crc bs fl) < 2 ^ 63"
  shows "slice_of \<lparr>be_offset = of_nat (length (table_image crc bs fl)) - of_nat kEncodedLength, be_size = of_nat kEncodedLength\<rparr>
      (table_image crc bs fl) = Footer_Encode (image_footer crc bs fl)"
    "slice_of (metaindex_handle (image_footer crc bs fl)) (table_image crc bs fl) = fl"
    "slice_of (index_handle (image_footer crc bs fl)) (table_image crc bs fl) = block_of (index_entries 0 bs)"
    "bs = pre @ b # post \<Longrightarrow> slice_of \<lparr>be_offset = of_nat (length (sealed crc pre)), be_size = of_nat (length (block_of b))\<rparr>
      (table_image crc bs fl) = block_of b"
proof -
  let ?I = "block_of (index_entries 0 bs)" and ?F = "Footer_Encode (image_footer crc bs fl)"
  have D: "length (table_image crc bs fl) < 2 ^ 64" using assms by simp
  show "slice_of \<lparr>be_offset = of_nat (length (table_image crc bs fl)) - of_nat kEncodedLength, be_size = of_nat kEncodedLength\<rparr>
      (table_image crc bs fl) = ?F"
    using slice_mid [of "sealed crc bs @ seal crc fl @ seal crc ?I" ?F "[]"] D
    by (simp add: table_image_eq)
  show "slice_of (metaindex_handle (image_footer crc bs fl)) (table_image crc bs fl) = fl"
    using slice_mid [of "sealed crc bs" fl "EncodeFixed32 (crc fl) @ seal crc ?I @ ?F"] D
    by (simp add: table_image_eq seal_def image_footer_def)
  show "slice_of (index_handle (image_footer crc bs fl)) (table_image crc bs fl) = ?I"
    using slice_mid [of "sealed crc bs @ seal crc fl" ?I "EncodeFixed32 (crc ?I) @ ?F"] D
    by (simp add: table_image_eq seal_def image_footer_def algebra_simps)
  show "slice_of \<lparr>be_offset = of_nat (length (sealed crc pre)), be_size = of_nat (length (block_of b))\<rparr>
      (table_image crc bs fl) = block_of b" if "bs = pre @ b # post"
    using slice_mid [of "sealed crc pre" "block_of b" "EncodeFixed32 (crc (block_of b)) @ sealed crc post @ seal crc fl @ seal crc ?I @ ?F"] D that
    by (simp add: table_image_eq seal_def [of crc "block_of b"])
qed

section \<open>Reading a table\<close>

text \<open>\<open>serves f d\<close>: the file holds the bytes \<open>d\<close> and the operating system answers in full.\<close>

definition serves :: "SequentialFile \<Rightarrow> bytes \<Rightarrow> bool" where
  "serves f d \<longleftrightarrow> sq_data f = d \<and> sq_reads f = [] \<and> sq_seeks f = []"

definition in_file :: "BlockEntryInfo \<Rightarrow> bytes \<Rightarrow> bool" where
  "in_file h d \<longleftrightarrow> unat (be_offset h) + unat (be_size h) \<le> length d"

lemma sint_nonneg: "unat (w :: u64) < 2 ^ 63 \<Longrightarrow> 0 \<le> sint w"
proof -
  assume "unat w < 2 ^ 63"
  then have "uint w < 2 ^ 63" by (metis uint_nat of_nat_less_iff of_nat_numeral of_nat_power)
  then have "signed_take_bit 63 (uint w) = uint w" 
    using unsigned_greater_eq [of w] by (auto simp: signed_take_bit_int_eq_self_iff intro: order_trans [of _ 0])
  then show ?thesis by (simp add: sint_uint)
qed

lemma fetch_serves:
  assumes "serves f d" "in_file h d" "length d < 2 ^ 63"
  shows "\<exists>f'. fetch h f = Some (OK, slice_of h d, f') \<and> serves f' d"
proof -
  have "0 \<le> sint (be_offset h)" using assms by (intro sint_nonneg) (simp add: in_file_def)
  then show ?thesis
    using assms(1) by (simp add: fetch_def sq_MoveTo_def serves_def sq_Read.simps slice_of_def)
qed

lemma image_handles_in_file:
  assumes "length (table_image crc bs fl) < 2 ^ 63"
  shows "in_file \<lparr>be_offset = of_nat (length (table_image crc bs fl)) - of_nat kEncodedLength, be_size = of_nat kEncodedLength\<rparr>
      (table_image crc bs fl)"
    "in_file (metaindex_handle (image_footer crc bs fl)) (table_image crc bs fl)"
    "in_file (index_handle (image_footer crc bs fl)) (table_image crc bs fl)"
    "bs = pre @ b # post \<Longrightarrow> in_file \<lparr>be_offset = of_nat (length (sealed crc pre)), be_size = of_nat (length (block_of b))\<rparr>
      (table_image crc bs fl)"
proof -
  have w: "in_file \<lparr>be_offset = of_nat m, be_size = of_nat n\<rparr> d" if "m + n \<le> length d" "length d < 2 ^ 63" for m n d
  proof -
    have "unat (of_nat m :: u64) = m" "unat (of_nat n :: u64) = n"
      using that by (auto intro!: unat_of_nat_u64)
    then show ?thesis using that by (simp add: in_file_def)
  qed
  let ?D = "table_image crc bs fl"
  have "of_nat (length ?D) - of_nat kEncodedLength = (of_nat (length ?D - kEncodedLength) :: u64)"
    by (simp add: table_image_eq)
  moreover have "kEncodedLength \<le> length ?D" by (simp add: table_image_eq)
  ultimately show "in_file \<lparr>be_offset = of_nat (length ?D) - of_nat kEncodedLength, be_size = of_nat kEncodedLength\<rparr> ?D"
    using w [of "length ?D - kEncodedLength" kEncodedLength ?D] assms by simp
  show "in_file (metaindex_handle (image_footer crc bs fl)) ?D"
    using w [of "length (sealed crc bs)" "length fl" ?D] assms by (simp add: image_footer_def table_image_eq)
  show "in_file (index_handle (image_footer crc bs fl)) ?D"
    using w [of "length (sealed crc bs) + length fl + 4" "length (block_of (index_entries 0 bs))" ?D] assms
    by (simp add: image_footer_def table_image_eq)
  show "in_file \<lparr>be_offset = of_nat (length (sealed crc pre)), be_size = of_nat (length (block_of b))\<rparr> ?D"
    if "bs = pre @ b # post"
    using w [of "length (sealed crc pre)" "length (block_of b)" ?D] assms that by (simp add: table_image_eq)
qed

text \<open>A stored table: its image, the order of its entries and a filter that knows all its keys.\<close>

definition stored_table :: "(bytes \<Rightarrow> u32) \<Rightarrow> (bytes \<times> bytes) list list \<Rightarrow> bytes \<Rightarrow> bool" where
  "stored_table crc bs fl \<longleftrightarrow> table_entries (concat bs) \<and> (\<forall>b \<in> set bs. b \<noteq> []) \<and> 2 \<le> length fl \<and>
     (\<forall>e \<in> set (concat bs). has_key fl (user (fst e)) \<and> length (fst e) + 24 < 2 ^ 32) \<and> length (table_image crc bs fl) < 2 ^ 63"

lemma stored_index_ok:
  assumes "stored_table crc bs fl"
  shows "\<forall>e \<in> set (index_entries off bs). small_entry e \<and> wf_ikey (fst e)"
proof -
  have "\<forall>b \<in> set bs. length (fst (last b)) + 24 < 2 ^ 32 \<and> wf_ikey (fst (last b))"
    using assms by (auto simp: stored_table_def table_entries_def)
  then show ?thesis
    by (induction bs arbitrary: off) (simp_all add: small_entry_def)
qed

lemma stored_filter:
  assumes "stored_table crc bs fl" "wf_ikey q" "KeyMayMatch (user q) fl = Some False"
  shows "table_lookup (concat bs) (user q) = None"
proof -
  have "2 \<le> length fl" and "\<forall>e \<in> set (concat bs). has_key fl (user (fst e))"
    using assms(1) unfolding stored_table_def by blast+
  moreover have "\<not> has_key fl (user q)" using assms(3) calculation(1) by (simp add: KeyMayMatch_has_key)
  ultimately show ?thesis unfolding table_lookup_def find_None_iff by metis
qed

lemma stored_lookup:
  assumes "stored_table crc bs fl" "wf_ikey q" "covers_versions q (concat bs)"
  defines "D \<equiv> table_image crc bs fl"
  shows "(\<exists>h. FilterInIndex (block_of (index_entries 0 bs)) q info = Some (OK, h) \<and> in_file h D \<and>
      FindInBlock (slice_of h D) q i2 = lookup_result i2 (table_lookup (concat bs) (user q))) \<or>
    FilterInIndex (block_of (index_entries 0 bs)) q info = Some (NotFound, info) \<and>
      table_lookup (concat bs) (user q) = None"
proof -
  have st: "table_entries (concat bs)" "\<forall>b \<in> set bs. b \<noteq> []" "length D < 2 ^ 63"
    using assms(1) by (auto simp: stored_table_def D_def)
  note ib = index_then_block [OF st(1,2) assms(2,3), of i2]
  note fi = FilterInIndex_block [OF stored_index_ok [OF assms(1)] assms(2), of 0 info]
  show ?thesis
  proof (cases "find (\<lambda>b. ikey_cmp q (fst (last b)) \<le> 0) bs")
    case None
    then show ?thesis using ib fi find_index_entries_None [of "\<lambda>k. ikey_cmp q k \<le> 0" bs 0] by simp
  next
    case (Some b)
    from find_index_entries [of "\<lambda>k. ikey_cmp q k \<le> 0", OF Some, of 0 crc] obtain pre post where
      bs: "bs = pre @ b # post" and
      fe: "find (\<lambda>e. ikey_cmp q (fst e) \<le> 0) (index_entries 0 bs) = Some (fst (last b),
        be_Encode \<lparr>be_offset = of_nat (length (sealed crc pre)), be_size = of_nat (length (block_of b))\<rparr>)"
      by auto
    let ?h = "\<lparr>be_offset = of_nat (length (sealed crc pre)), be_size = of_nat (length (block_of b))\<rparr> :: BlockEntryInfo"
    have "FilterInIndex (block_of (index_entries 0 bs)) q info = Some (OK, ?h)" using fi fe by simp
    moreover have "in_file ?h D" "slice_of ?h D = block_of b"
      using image_handles_in_file(4) table_slices(4) st(3) bs unfolding D_def by blast+
    moreover have "FindInBlock (block_of b) q i2 = lookup_result i2 (table_lookup (concat bs) (user q))"
      using ib Some by simp
    ultimately show ?thesis by metis
  qed
qed

lemma ReadOne_stored:
  assumes "stored_table crc bs fl" "wf_ikey q" "covers_versions q (concat bs)"
    and "open_file (file_number meta) = Some f" "serves f (table_image crc bs fl)"
    and "file_size meta = of_nat (length (table_image crc bs fl))"
  shows "ReadOne model open_file meta q info = lookup_result info (table_lookup (concat bs) (user q))"
proof -
  let ?D = "table_image crc bs fl"
  have len: "length ?D < 2 ^ 63" "2 \<le> length fl" using assms(1) by (auto simp: stored_table_def)
  note sl = table_slices [OF len(1)] and hf = image_handles_in_file [OF len(1)]
  obtain f1 where f1: "fetch \<lparr>be_offset = file_size meta - of_nat kEncodedLength, be_size = of_nat kEncodedLength\<rparr> f =
      Some (OK, Footer_Encode (image_footer crc bs fl), f1)" "serves f1 ?D"
    using fetch_serves [OF assms(5) hf(1) len(1)] sl(1) assms(6) by auto
  obtain f2 where f2: "fetch (metaindex_handle (image_footer crc bs fl)) f1 = Some (OK, fl, f2)" "serves f2 ?D"
    using fetch_serves [OF f1(2) hf(2) len(1)] sl(2) by auto
  obtain f3 where f3: "fetch (index_handle (image_footer crc bs fl)) f2 = Some (OK, block_of (index_entries 0 bs), f3)" "serves f3 ?D"
    using fetch_serves [OF f2(2) hf(3) len(1)] sl(3) by auto
  have dec: "Footer_Decode (Footer_Encode (image_footer crc bs fl)) = Some (OK, image_footer crc bs fl)"
    using Footer_Decode_Encode [of _ "[]"] by simp
  have mh: "be_size (model_handle (image_footer crc bs fl)) = 0" by (simp add: image_footer_def be_zero_def)
  have step: "ReadOne model open_file meta q info =
     (if has_key fl (user q) then ReadByIndex (index_handle (image_footer crc bs fl)) q info f2 else Some (NotFound, info))"
    unfolding ReadOne_def using f1(1) f2(1) assms(2,4) dec mh len(2)
    by (simp add: ExtractUserKey_user KeyMayMatch_has_key del: of_nat_numeral)
  show ?thesis
  proof (cases "has_key fl (user q)")
    case False
    then show ?thesis
      using step stored_filter [OF assms(1,2)] len(2) by (simp add: KeyMayMatch_has_key lookup_result_def)
  next
    case True
    let ?z = "\<lparr>be_offset = 0, be_size = 0\<rparr> :: BlockEntryInfo"
    from stored_lookup [OF assms(1-3), of ?z info] show ?thesis
    proof (elim disjE exE conjE)
      fix h assume h: "FilterInIndex (block_of (index_entries 0 bs)) q ?z = Some (OK, h)" "in_file h ?D"
        "FindInBlock (slice_of h ?D) q info = lookup_result info (table_lookup (concat bs) (user q))"
      obtain f4 where "fetch h f3 = Some (OK, slice_of h ?D, f4)" using fetch_serves [OF f3(2) h(2) len(1)] by blast
      then show ?thesis using step True f3(1) h by (simp add: ReadByIndex_def)
    next
      assume "FilterInIndex (block_of (index_entries 0 bs)) q ?z = Some (NotFound, ?z)"
        "table_lookup (concat bs) (user q) = None"
      then show ?thesis using step True f3(1) by (simp add: ReadByIndex_def lookup_result_def)
    qed
  qed
qed

definition aserves :: "async_file \<Rightarrow> bytes \<Rightarrow> bool" where
  "aserves f d \<longleftrightarrow> af_data f = d \<and> af_ring f = []"

lemma async_read_serves:
  assumes "aserves f d" "in_file h d" "length buf = unat (be_size h)"
  shows "async_read h buf f = Some (OK, slice_of h d, f)"
proof -
  have "length (slice_of h d) = unat (be_size h)" using assms(2) by (simp add: slice_of_def in_file_def)
  then show ?thesis using assms by (simp add: async_read_def in_file_def aserves_def slice_of_def [symmetric] Let_def)
qed

lemma length_resize_buf [simp]: "length (resize_buf n buf) = n"
  by (simp add: resize_buf_def)

lemma Async_ReadOne_stored:
  assumes "stored_table crc bs fl" "wf_ikey q" "covers_versions q (concat bs)"
    and "open_file (file_number meta) = Some f" "aserves f (table_image crc bs fl)"
    and "file_size meta = of_nat (length (table_image crc bs fl))"
  shows "Async_ReadOne open_file meta q = lookup_result vi_zero (table_lookup (concat bs) (user q))"
proof -
  let ?D = "table_image crc bs fl" and ?F = "image_footer crc bs fl"
  have len: "length ?D < 2 ^ 63" "2 \<le> length fl" using assms(1) by (auto simp: stored_table_def)
  note sl = table_slices [OF len(1)] and hf = image_handles_in_file [OF len(1)]
  have sz: "unat (of_nat kEncodedLength :: u64) = kEncodedLength"
    by (simp add: kEncodedLength_def kBlockInfoLength_def)
  have f1: "async_read \<lparr>be_offset = file_size meta - of_nat kEncodedLength, be_size = of_nat kEncodedLength\<rparr>
      (resize_buf kEncodedLength []) f = Some (OK, Footer_Encode ?F, f)"
    using async_read_serves [OF assms(5) hf(1)] sl(1) assms(6) sz by simp
  have rd: "async_read h (resize_buf (unat (be_size h)) buf) f = Some (OK, slice_of h ?D, f)" if "in_file h ?D" for h buf
    using async_read_serves [OF assms(5) that] by simp
  have dec: "Footer_Decode (Footer_Encode ?F) = Some (OK, ?F)"
    using Footer_Decode_Encode [of _ "[]"] by simp
  show ?thesis
  proof (cases "has_key fl (user q)")
    case False
    then have "Async_ReadOne open_file meta q = Some (NotFound, vi_zero)"
      unfolding Async_ReadOne_def using f1 rd [OF hf(2)] sl(2) assms(2,4) dec len(2)
      by (simp add: ExtractUserKey_user KeyMayMatch_has_key del: of_nat_numeral)
    then show ?thesis
      using stored_filter [OF assms(1,2)] False len(2) by (simp add: KeyMayMatch_has_key lookup_result_def)
  next
    case True
    from stored_lookup [OF assms(1-3), of be_zero vi_zero] show ?thesis
    proof (elim disjE exE conjE)
      fix h assume h: "FilterInIndex (block_of (index_entries 0 bs)) q be_zero = Some (OK, h)" "in_file h ?D"
        "FindInBlock (slice_of h ?D) q vi_zero = lookup_result vi_zero (table_lookup (concat bs) (user q))"
      then show ?thesis
        unfolding Async_ReadOne_def using True f1 rd [OF hf(2)] rd [OF hf(3)] rd [OF h(2)] sl(2,3) assms(2,4) dec len(2)
        by (simp add: ExtractUserKey_user KeyMayMatch_has_key del: of_nat_numeral)
    next
      assume "FilterInIndex (block_of (index_entries 0 bs)) q be_zero = Some (NotFound, be_zero)"
        "table_lookup (concat bs) (user q) = None"
      then show ?thesis
        unfolding Async_ReadOne_def using True f1 rd [OF hf(2)] rd [OF hf(3)] sl(2,3) assms(2,4) dec len(2)
        by (simp add: ExtractUserKey_user KeyMayMatch_has_key lookup_result_def del: of_nat_numeral)
    qed
  qed
qed

lemma pick_outcome_first:
  assumes "length rs = length ls" "\<forall>i < length rs. lookup_result vi_zero (ls ! i) = Some (rs ! i)"
    "\<forall>l \<in> set ls. \<forall>e. l = Some e \<longrightarrow> ExtractValueType (fst e) = Some kTypeValue \<longrightarrow> length (snd e) = 16"
  shows "pick_outcome rs info = (case find (\<lambda>l. l \<noteq> None) ls of
      Some (Some e) \<Rightarrow> (OK, snd (the (entry_result vi_zero e))) | _ \<Rightarrow> (NotFound, info))"
  using assms
proof (induction rs ls rule: list_induct2')
  case (4 r rs l ls)
  have IH: "pick_outcome rs info = (case find (\<lambda>l. l \<noteq> None) ls of
      Some (Some e) \<Rightarrow> (OK, snd (the (entry_result vi_zero e))) | _ \<Rightarrow> (NotFound, info))"
    using 4 by (auto simp: nth_Cons) (metis Suc_less_eq nat.case(2))
  have l: "lookup_result vi_zero l = Some r" using 4(3) by fastforce
  obtain st v where r: "r = (st, v)" by (cases r)
  show ?case
  proof (cases l)
    case None
    then show ?thesis using IH l r by (auto simp: lookup_result_def)
  next
    case (Some e)
    then have "ExtractValueType (fst e) = Some kTypeValue \<longrightarrow> length (snd e) = 16" using 4(4) by (cases e) auto
    then have "st = OK"
      using l r Some by (auto simp: lookup_result_def entry_result_def vi_Decode_def split: if_splits bind_splits)
    then show ?thesis using Some l r by (simp add: lookup_result_def)
  qed
qed auto

lemma ReadAsyncBatch_stored:
  assumes "wf_ikey q" "length metas = length tables"
    and "\<forall>i < length metas. stored_table crc (fst (tables ! i)) (snd (tables ! i)) \<and>
      covers_versions q (concat (fst (tables ! i))) \<and>
      (\<exists>f. open_file (file_number (metas ! i)) = Some f \<and> aserves f (table_image crc (fst (tables ! i)) (snd (tables ! i)))) \<and>
      file_size (metas ! i) = of_nat (length (table_image crc (fst (tables ! i)) (snd (tables ! i)))) \<and>
      (\<forall>e \<in> set (concat (fst (tables ! i))). length (snd e) = 16)"
  shows "ReadAsyncBatch open_file metas q info =
    Some (case find (\<lambda>l. l \<noteq> None) (map (\<lambda>t. table_lookup (concat (fst t)) (user q)) tables) of
      Some (Some e) \<Rightarrow> (OK, snd (the (entry_result vi_zero e))) | _ \<Rightarrow> (NotFound, info))"
proof -
  let ?ls = "map (\<lambda>t. table_lookup (concat (fst t)) (user q)) tables"
  have one: "Async_ReadOne open_file (metas ! i) q = lookup_result vi_zero (?ls ! i)" if "i < length metas" for i
    using Async_ReadOne_stored [of crc "fst (tables ! i)" "snd (tables ! i)" q open_file "metas ! i"] assms that by auto
  have v16: "length (snd e) = 16" if "?ls ! i = Some e" "i < length metas" for i e
  proof -
    have "e \<in> set (concat (fst (tables ! i)))" using that assms(2) by (intro table_lookup_in [where u = "user q"]) simp
    then show ?thesis using assms(3) that(2) by blast
  qed
  have "\<exists>r. lookup_result vi_zero (?ls ! i) = Some r" for i
    using vi_Decode_total by (auto simp: lookup_result_def entry_result_def split: option.splits)
  then obtain R where R: "\<And>i. lookup_result vi_zero (?ls ! i) = Some (R i)" by metis
  let ?rs = "map R [0..<length metas]"
  have "those (map (\<lambda>m. Async_ReadOne open_file m q) metas) = Some ?rs"
  proof -
    have "map (\<lambda>m. Async_ReadOne open_file m q) metas = map Some ?rs"
      using one R by (intro nth_equalityI) auto
    moreover have "those (map Some xs) = Some xs" for xs :: "(Status \<times> VLogEntryInfo) list" by (induction xs) auto
    ultimately show ?thesis by metis
  qed
  moreover have "pick_outcome ?rs info = (case find (\<lambda>l. l \<noteq> None) ?ls of
      Some (Some e) \<Rightarrow> (OK, snd (the (entry_result vi_zero e))) | _ \<Rightarrow> (NotFound, info))"
  proof (rule pick_outcome_first)
    show "length ?rs = length ?ls" using assms(2) by simp
    show "\<forall>i < length ?rs. lookup_result vi_zero (?ls ! i) = Some (?rs ! i)" using R by simp
    show "\<forall>l \<in> set ?ls. \<forall>e. l = Some e \<longrightarrow> ExtractValueType (fst e) = Some kTypeValue \<longrightarrow> length (snd e) = 16"
    proof (intro ballI allI impI)
      fix l e assume "l \<in> set ?ls" "l = Some e"
      then obtain i where "i < length ?ls" "?ls ! i = Some e" unfolding in_set_conv_nth by blast
      then show "length (snd e) = 16" using v16 assms(2) by simp
    qed
  qed
  ultimately show ?thesis by (simp add: ReadAsyncBatch_def)
qed

section \<open>Properties\<close>

text \<open>C6. What \<open>BuildTable\<close> writes, \<open>ReadOne\<close> finds. Take entries in the order of the internal-key
  comparator, add them all to a builder on an empty buffered file and finish. The builder always
  returns; if the operating system never fails it returns OK; and whenever it returns OK the file
  can be searched: for every query that no version of its user key is newer than, the reader
  returns the pointer of the newest version, leaves the pointer alone when that version is a
  deletion, and answers not-found exactly when the key is not in the table, through the filter, the
  index and one data block.\<close>

theorem table_build_read:
  assumes "pf_contents f0 = []" "es \<noteq> []" "table_entries es"
    and "\<forall>e \<in> set es. length (fst e) + 24 < 2 ^ 32" "length (concat (map fst es)) < 2 ^ 32"
  shows "\<exists>st b. Option.bind (tb_Add_all (posix_env crc) es (mk_TableBuilder f0 True)) (tb_Finish (posix_env crc)) = Some (st, b) \<and>
    (pf_good f0 \<longrightarrow> st = OK) \<and>
    (st = OK \<and> length (pf_contents (tb_file b)) < 2 ^ 63 \<longrightarrow>
      (\<forall>model open_file meta f q info.
        open_file (file_number meta) = Some f \<and> serves f (pf_contents (tb_file b)) \<and>
        file_size meta = of_nat (length (pf_contents (tb_file b))) \<and> wf_ikey q \<and> covers_versions q es \<longrightarrow>
        ReadOne model open_file meta q info = lookup_result info (table_lookup es (user q))))"
proof -
  have "\<forall>e \<in> set es. 8 \<le> length (fst e)" using assms(3) by (auto simp: table_entries_def)
  note k = this
  have "ptable.room es" by (simp add: ptable.room_def)
  from ptable.tb_build_image [OF TrueI assms(1,2) k assms(5) this] obtain st b where
    b: "ptable.tb_build crc es f0 = Some (st, b)" and
    im: "st = OK \<longrightarrow> (\<exists>bs fl. concat bs = es \<and> (\<forall>l \<in> set bs. l \<noteq> []) \<and>
      pf_contents (tb_file b) = table_image crc bs fl \<and> tb_offset b = of_nat (length (table_image crc bs fl)) \<and>
      length fl = bloom_size_opt \<and> (\<forall>e \<in> set es. has_key fl (user (fst e))))" by blast
  have "ReadOne model open_file meta q info = lookup_result info (table_lookup es (user q))"
    if "st = OK" "length (pf_contents (tb_file b)) < 2 ^ 63" "open_file (file_number meta) = Some f"
      "serves f (pf_contents (tb_file b))" "file_size meta = of_nat (length (pf_contents (tb_file b)))"
      "wf_ikey q" "covers_versions q es" for model open_file meta f q info
  proof -
    from im that(1) obtain bs fl where bs: "concat bs = es" "\<forall>l \<in> set bs. l \<noteq> []"
      "pf_contents (tb_file b) = table_image crc bs fl" "length fl = bloom_size_opt"
      "\<forall>e \<in> set es. has_key fl (user (fst e))" by blast
    then have "stored_table crc bs fl"
      using assms(3,4) that(2) by (auto simp: stored_table_def bloom_size_opt_def)
    from ReadOne_stored [OF this that(6), where open_file = open_file and meta = meta and f = f] that bs
    show ?thesis by simp
  qed
  moreover have "st = OK" if "pf_good f0" using pgood.tb_build_ok [OF that assms(1) k assms(5) _ b] by (simp add: pgood.room_def)
  ultimately show ?thesis using b unfolding ptable.tb_build_def ptable_env by blast
qed

definition sample_entries :: "(bytes \<times> bytes) list" where
  "sample_entries = [([0x61] @ EncodeFixed64 (pack 9 kTypeValue), vi_Encode vi_zero),
     ([0x61] @ EncodeFixed64 (pack 3 kTypeDeletion), vi_Encode vi_zero), ([0x62] @ EncodeFixed64 (pack 4 kTypeValue), vi_Encode vi_zero)]"

definition empty_file :: PosixWritableFile where
  "empty_file = \<lparr>pf_buf = [], pf_fd = \<lparr>fd_data = [], fd_durable = [], fd_writes = [], fd_syncs = [], fd_close_ok = True\<rparr>,
     pf_is_open = True\<rparr>"

lemma sample_entries_ok: "table_entries sample_entries"
proof -
  have "ikey_cmp (0x61 # EncodeFixed64 s) (0x61 # EncodeFixed64 t) = of_bool (s < t) - of_bool (t < s)"
    "ikey_cmp (0x61 # EncodeFixed64 s) (0x62 # EncodeFixed64 t) = -1" for s t
    using ikey_cmp_eq [of "[0x61]" s "[0x61]" t] ikey_cmp_eq [of "[0x61]" s "[0x62]" t] by simp_all
  then show ?thesis
    by (simp add: table_entries_def sample_entries_def small_entry_def pack_def)
qed

theorem table_build_read_witness:
  "table_entries sample_entries \<and> (\<exists>b. Option.bind (tb_Add_all (posix_env (\<lambda>_. 0)) sample_entries (mk_TableBuilder empty_file True))
     (tb_Finish (posix_env (\<lambda>_. 0))) = Some (OK, b))"
proof -
  have "length (concat (map fst sample_entries)) < 2 ^ 32" "sample_entries \<noteq> []"
    "\<forall>e \<in> set sample_entries. length (fst e) + 24 < 2 ^ 32"
    by (simp_all add: sample_entries_def)
  moreover have "pf_contents empty_file = []" "pf_good empty_file"
    by (simp_all add: empty_file_def pf_contents_def pf_good_def)
  ultimately show ?thesis
    using table_build_read [of empty_file sample_entries "\<lambda>_. 0"] sample_entries_ok by blast
qed

text \<open>A batch over several files answers with the first file, in the order given, that has the
  user key: level 0 passes its files newest first, so an older file never hides a newer version.
  Files without the key are skipped; the batch returns not-found only if no file has it.\<close>

lemma read_batch_first:
  assumes "wf_ikey q" "length metas = length tables"
    and "\<forall>i < length metas. stored_table crc (fst (tables ! i)) (snd (tables ! i)) \<and>
      covers_versions q (concat (fst (tables ! i))) \<and>
      (\<exists>f. open_file (file_number (metas ! i)) = Some f \<and> aserves f (table_image crc (fst (tables ! i)) (snd (tables ! i)))) \<and>
      file_size (metas ! i) = of_nat (length (table_image crc (fst (tables ! i)) (snd (tables ! i)))) \<and>
      (\<forall>e \<in> set (concat (fst (tables ! i))). length (snd e) = 16)"
  shows "ReadAsyncBatch open_file metas q info =
    Some (case find (\<lambda>l. l \<noteq> None) (map (\<lambda>t. table_lookup (concat (fst t)) (user q)) tables) of
      Some (Some e) \<Rightarrow> (OK, snd (the (entry_result vi_zero e))) | _ \<Rightarrow> (NotFound, info))"
  using assms by (rule ReadAsyncBatch_stored)

definition sample_blocks :: "(bytes \<times> bytes) list list" where
  "sample_blocks = [take 2 sample_entries, drop 2 sample_entries]"

definition sample_filter :: bytes where
  "sample_filter = [0xff, 0xff]"

definition sample_meta :: SSTFileMeta where
  "sample_meta = \<lparr>file_size = of_nat (length (table_image (\<lambda>_. 0) sample_blocks sample_filter)), file_number = 1, fm_level = 0,
     vlog_file_no = 0, smallest = \<lparr>ik_size = 0, ik_rep = []\<rparr>, largest = \<lparr>ik_size = 0, ik_rep = []\<rparr>\<rparr>"

lemma sample_filter_has_key: "has_key sample_filter k"
proof -
  have "test_bit_at (n mod 16) [0xff, 0xff]" for n
  proof -
    have "(0xff :: u8) = mask 8" by (simp add: mask_eq_exp_minus_1)
    then have b: "bit (0xff :: u8) i" if "i < 8" for i using that by (simp only: bit_mask_iff) simp
    have "n mod 16 div 8 = 0 \<or> n mod 16 div 8 = 1" by presburger
    then have n: "[0xff, 0xff] ! (n mod 16 div 8) = (0xff :: u8)" by auto
    show ?thesis unfolding test_bit_at_iff n by (rule b) simp
  qed
  then show ?thesis by (simp add: has_key_def sample_filter_def)
qed

lemma sample_stored: "stored_table (\<lambda>_. 0) sample_blocks sample_filter"
proof -
  have c: "concat sample_blocks = sample_entries" by (simp add: sample_blocks_def)
  have "length (table_image (\<lambda>_. 0) sample_blocks sample_filter) < 2 ^ 63"
    by (simp add: table_image_eq sample_blocks_def sample_entries_def sample_filter_def kEncodedLength_def kBlockInfoLength_def)
  then show ?thesis
    using sample_entries_ok unfolding stored_table_def c
    by (simp add: sample_filter_has_key) (simp add: sample_blocks_def sample_entries_def sample_filter_def)
qed

end
