(* ===== verification/Table_Iterator.thy ===== *)
theory Table_Iterator
  imports Block_Iterator Sst_Reader
begin

text \<open>
  The class \<open>TableIterator\<close> of \<^verbatim>\<open>src/include/block_format.h\<close>: an iterator over a whole table, one
  iterator over the index block and one over the current data block. The file it reads is a
  function \<open>read off n\<close> that returns at most \<open>n\<close> bytes or fails.
\<close>

section \<open>TableIterator\<close>

type_synonym reader = "u64 \<Rightarrow> nat \<Rightarrow> bytes option"

record TableIterator =
  ti_file :: "reader option"
  ti_block :: BlockIterator
  ti_index :: BlockIterator
  ti_cmp :: Comparator

definition bi_default :: "Comparator \<Rightarrow> BlockIterator" where
  "bi_default cmp = \<lparr>bi_cur = 0, bi_end = 0, bi_cmp = cmp, bi_buf = []\<rparr>"

text \<open>Reading into a buffer of \<open>n\<close> zero bytes; a short read leaves zeros behind.\<close>

definition fill_buf :: "nat \<Rightarrow> bytes \<Rightarrow> bytes" where
  "fill_buf n d = take n d @ replicate (n - length d) 0"

definition bi_of_file :: "reader \<Rightarrow> BlockEntryInfo \<Rightarrow> Comparator \<Rightarrow> BlockIterator" where
  "bi_of_file read info cmp =
     (let n = unat (be_size info) in
      case read (be_offset info) n of
        None \<Rightarrow> \<lparr>bi_cur = 0, bi_end = 0, bi_cmp = cmp, bi_buf = replicate n 0\<rparr>
      | Some d \<Rightarrow> mk_BlockIterator (fill_buf n d) cmp)"

definition mk_TableIterator :: "(u64 \<Rightarrow> reader option) \<Rightarrow> SSTFileMeta \<Rightarrow> Comparator \<Rightarrow> TableIterator option" where
  "mk_TableIterator open_file meta cmp =
     (let it0 = \<lparr>ti_file = open_file (file_number meta), ti_block = bi_default cmp, ti_index = bi_default cmp, ti_cmp = cmp\<rparr> in
      case open_file (file_number meta) of
        None \<Rightarrow> Some it0
      | Some read \<Rightarrow>
          (case read (file_size meta - of_nat kEncodedLength) kEncodedLength of
            None \<Rightarrow> Some it0
          | Some input \<Rightarrow> do {
              (st, footer) \<leftarrow> Footer_Decode input;
              if \<not> ok st then Some it0
              else Some (it0\<lparr>ti_index := bi_of_file read (index_handle footer) cmp, ti_block := bi_default cmp\<rparr>) }))"

definition ti_valid :: "TableIterator \<Rightarrow> bool" where
  "ti_valid it \<longleftrightarrow> bi_valid (ti_index it) \<or> bi_valid (ti_block it)"

definition ti_NextBlock :: "TableIterator \<Rightarrow> TableIterator option" where
  "ti_NextBlock it =
     (if bi_valid (ti_index it) then do {
        v \<leftarrow> bi_value (ti_index it);
        b_info \<leftarrow> be_Decode v;
        read \<leftarrow> ti_file it;
        Some (it\<lparr>ti_block := bi_of_file read b_info (ti_cmp it)\<rparr>) }
      else None)"

definition ti_advance_index :: "TableIterator \<Rightarrow> TableIterator option" where
  "ti_advance_index it = (if bi_valid (ti_index it) then do { i \<leftarrow> bi_next (ti_index it); Some (it\<lparr>ti_index := i\<rparr>) } else Some it)"

definition ti_seekToFirst :: "TableIterator \<Rightarrow> TableIterator option" where
  "ti_seekToFirst it =
     (let it1 = it\<lparr>ti_index := bi_seekToFirst (ti_index it)\<rparr> in
      if \<not> bi_valid (ti_index it1) then Some it1
      else do { it2 \<leftarrow> ti_NextBlock it1; ti_advance_index it2 })"

definition ti_seek :: "bytes \<Rightarrow> TableIterator \<Rightarrow> TableIterator option" where
  "ti_seek target it = do {
     i \<leftarrow> bi_seek (ti_index it) target;
     let it1 = it\<lparr>ti_index := i, ti_block := bi_reset (ti_block it)\<rparr>;
     if \<not> bi_valid (ti_index it1) then Some it1
     else do {
       it2 \<leftarrow> ti_NextBlock it1;
       b \<leftarrow> bi_seek (ti_block it2) target;
       Some (it2\<lparr>ti_block := b\<rparr>) } }"

definition ti_next :: "TableIterator \<Rightarrow> TableIterator option" where
  "ti_next it =
     (if \<not> ti_valid it then None
      else do {
        b \<leftarrow> (if bi_valid (ti_block it) then bi_next (ti_block it) else Some (ti_block it));
        let it1 = it\<lparr>ti_block := b\<rparr>;
        if bi_valid b \<or> \<not> bi_valid (ti_index it1) then Some it1
        else do {
          it2 \<leftarrow> ti_NextBlock (it1\<lparr>ti_block := bi_reset b\<rparr>);
          ti_advance_index it2 } })"

text \<open>The loop of the range seek: the blocks of the index window are read one behind the other
  into one buffer. An error resets the index and leaves the block iterator empty.\<close>

definition append_block :: "reader \<Rightarrow> BlockEntryInfo \<Rightarrow> bytes \<Rightarrow> bytes option" where
  "append_block read info buf =
     (let n = unat (be_size info) in map_option (\<lambda>d. buf @ fill_buf n d) (read (be_offset info) n))"

fun collect_blocks :: "nat \<Rightarrow> reader \<Rightarrow> bytes \<Rightarrow> BlockIterator \<Rightarrow> (bytes option \<times> BlockIterator) option" where
  "collect_blocks 0 read buf ix = None"
| "collect_blocks (Suc fuel) read buf ix = do {
     v \<leftarrow> bi_value ix;
     b_info \<leftarrow> be_Decode v;
     case append_block read b_info buf of
       None \<Rightarrow> Some (None, bi_reset ix)
     | Some buf' \<Rightarrow> do {
         ix' \<leftarrow> bi_next ix;
         if bi_valid ix' then collect_blocks fuel read buf' ix' else Some (Some buf', ix') } }"

definition finish_range :: "bytes \<Rightarrow> bytes \<Rightarrow> bytes \<Rightarrow> TableIterator \<Rightarrow> TableIterator option" where
  "finish_range buf K1 K2 it = do {
     b \<leftarrow> bi_seek2 (mk_BlockIterator buf (ti_cmp it)) K1 K2;
     Some (it\<lparr>ti_block := b\<rparr>) }"

text \<open>Each round of the loop moves the index by at least eight bytes, so its length bounds the
  rounds.\<close>

definition ti_seek2 :: "bytes \<Rightarrow> bytes \<Rightarrow> TableIterator \<Rightarrow> TableIterator option" where
  "ti_seek2 K1 K2 it = do {
     i \<leftarrow> bi_seek2 (ti_index it) K1 K2;
     let it1 = it\<lparr>ti_index := i, ti_block := bi_reset (ti_block it)\<rparr>;
     if bi_valid i then do {
       i1 \<leftarrow> bi_AppendNext i;
       read \<leftarrow> ti_file it;
       (buf, i2) \<leftarrow> collect_blocks (Suc (length (bi_buf i1))) read [] i1;
       let it2 = it1\<lparr>ti_index := i2\<rparr>;
       case buf of
         None \<Rightarrow> Some it2
       | Some buf \<Rightarrow> finish_range buf K1 K2 it2 }
     else do {
       let i1 = bi_seekToFirst i;
       let it2 = it1\<lparr>ti_index := i1\<rparr>;
       if \<not> bi_valid i1 then Some it2
       else do {
         v \<leftarrow> bi_value i1;
         b_info \<leftarrow> be_Decode v;
         read \<leftarrow> ti_file it;
         let it3 = it2\<lparr>ti_index := bi_reset i1\<rparr>;
         case append_block read b_info [] of
           None \<Rightarrow> Some it3
         | Some buf \<Rightarrow> finish_range buf K1 K2 it3 } } }"

definition ti_key :: "TableIterator \<Rightarrow> bytes option" where
  "ti_key it = (if ti_valid it \<and> bi_valid (ti_block it) then bi_key (ti_block it) else None)"

definition ti_value :: "TableIterator \<Rightarrow> bytes option" where
  "ti_value it = (if ti_valid it \<and> bi_valid (ti_block it) then bi_value (ti_block it) else None)"

section \<open>TableIterator implements Iterator\<close>

text \<open>\<open>holds_block read (k, v) b\<close>: the index entry points at the block \<open>b\<close> of the file.\<close>

definition good_block :: "(bytes \<times> bytes) list \<Rightarrow> bool" where
  "good_block b \<longleftrightarrow> b \<noteq> [] \<and> length (block_of b) < 2 ^ 32 \<and> (\<forall>e \<in> set b. small_entry e)"

definition index_points :: "reader \<Rightarrow> bytes \<times> bytes \<Rightarrow> (bytes \<times> bytes) list \<Rightarrow> bool" where
  "index_points read e b \<longleftrightarrow> good_block b \<and> (\<exists>h. be_Decode (snd e) = Some h \<and> unat (be_size h) = length (block_of b) \<and>
     read (be_offset h) (length (block_of b)) = Some (block_of b))"

definition ti_delivers :: "TableIterator \<Rightarrow> (bytes \<times> bytes) list \<Rightarrow> bool" where
  "ti_delivers it es \<longleftrightarrow> (\<exists>cur ix rest read. es = cur @ concat rest \<and> bi_delivers (ti_block it) cur \<and>
     bi_delivers (ti_index it) ix \<and> ti_file it = Some read \<and> list_all2 (index_points read) ix rest \<and>
     (cur = [] \<longrightarrow> rest = [])) \<or>
   es = [] \<and> \<not> bi_valid (ti_block it) \<and> \<not> bi_valid (ti_index it)"

lemma fill_buf_id [simp]: "length d = n \<Longrightarrow> fill_buf n d = d"
  by (simp add: fill_buf_def)

lemma NextBlock_delivers:
  assumes "bi_delivers (ti_index it) (e # ix)" "ti_file it = Some read" "index_points read e b"
  shows "\<exists>it1 it2. ti_NextBlock it = Some it1 \<and> ti_advance_index it1 = Some it2 \<and>
    bi_delivers (ti_block it2) b \<and> bi_delivers (ti_index it2) ix \<and> ti_file it2 = Some read \<and> ti_cmp it2 = ti_cmp it"
proof -
  obtain k v where e: "e = (k, v)" by (cases e)
  have v: "bi_valid (ti_index it)" "bi_value (ti_index it) = Some v"
    using block_it.valid_iff block_it.val_hd assms(1) e by blast+
  obtain i' where i': "bi_next (ti_index it) = Some i'" "bi_delivers i' ix"
    using block_it.nxt_tl assms(1) e by blast
  obtain h where h: "be_Decode v = Some h" "unat (be_size h) = length (block_of b)"
      "read (be_offset h) (length (block_of b)) = Some (block_of b)" and gb: "good_block b"
    using assms(3) e by (auto simp: index_points_def)
  have "bi_of_file read h (ti_cmp it) = mk_BlockIterator (block_of b) (ti_cmp it)"
    using h by (simp add: bi_of_file_def)
  moreover have "bi_delivers (mk_BlockIterator (block_of b) (ti_cmp it)) b"
    using gb by (intro mk_BlockIterator_delivers) (auto simp: good_block_def)
  ultimately show ?thesis
    using v i' h(1) assms(2) by (simp add: ti_NextBlock_def ti_advance_index_def)
qed

interpretation table_it: iterator ti_valid ti_next ti_key ti_value ti_delivers
proof unfold_locales
  fix it es
  assume "ti_delivers it es"
  then show "ti_valid it \<longleftrightarrow> es \<noteq> []"
    unfolding ti_delivers_def
  proof (elim disjE exE conjE)
    fix cur ix rest read
    assume a: "es = cur @ concat rest" "bi_delivers (ti_block it) cur" "bi_delivers (ti_index it) ix"
      "list_all2 (index_points read) ix rest" "cur = [] \<longrightarrow> rest = []"
    have "bi_valid (ti_block it) \<longleftrightarrow> cur \<noteq> []" "bi_valid (ti_index it) \<longleftrightarrow> ix \<noteq> []"
      using a(2,3) block_it.valid_iff by blast+
    moreover have "ix = [] \<longleftrightarrow> rest = []" using a(4) by auto
    ultimately show ?thesis using a(1,5) by (auto simp: ti_valid_def)
  qed (simp add: ti_valid_def)
next
  fix it k v es
  assume d: "ti_delivers it ((k, v) # es)"
  then obtain cur ix rest read where a: "(k, v) # es = cur @ concat rest" "bi_delivers (ti_block it) cur"
    "bi_delivers (ti_index it) ix" "ti_file it = Some read" "list_all2 (index_points read) ix rest" "cur = [] \<longrightarrow> rest = []"
    by (auto simp: ti_delivers_def)
  then obtain cs where cur: "cur = (k, v) # cs" and es: "es = cs @ concat rest" by (cases cur) auto
  have val: "bi_valid (ti_block it)" using a(2) cur block_it.valid_iff by blast
  show "ti_key it = Some k" "ti_value it = Some v"
    using val block_it.key_hd block_it.val_hd a(2) cur by (auto simp: ti_key_def ti_value_def ti_valid_def)
  obtain b' where b': "bi_next (ti_block it) = Some b'" "bi_delivers b' cs"
    using block_it.nxt_tl a(2) cur by blast
  show "\<exists>it'. ti_next it = Some it' \<and> ti_delivers it' es"
  proof (cases "cs = [] \<and> ix \<noteq> []")
    case False
    have "bi_valid b' \<longleftrightarrow> cs \<noteq> []" "bi_valid (ti_index it) \<longleftrightarrow> ix \<noteq> []"
      using b'(2) a(3) block_it.valid_iff by blast+
    with False have "ti_next it = Some (it\<lparr>ti_block := b'\<rparr>)"
      using val b'(1) by (auto simp: ti_next_def ti_valid_def Let_def)
    moreover have "ti_delivers (it\<lparr>ti_block := b'\<rparr>) es"
      using False a(3-5) b'(2) es unfolding ti_delivers_def
      by (intro disjI1 exI [of _ cs] exI [of _ ix] exI [of _ rest] exI [of _ read]) auto
    ultimately show ?thesis by blast
  next
    case True
    then obtain e ix' b rest' where ix: "ix = e # ix'" "rest = b # rest'" "index_points read e b"
      "list_all2 (index_points read) ix' rest'"
      using a(5) by (cases ix) (auto simp: list_all2_Cons1)
    let ?it = "it\<lparr>ti_block := bi_reset b'\<rparr>"
    obtain it1 it2 where n: "ti_NextBlock ?it = Some it1" "ti_advance_index it1 = Some it2"
        "bi_delivers (ti_block it2) b" "bi_delivers (ti_index it2) ix'" "ti_file it2 = Some read"
      using NextBlock_delivers [of ?it e ix' read b] a(3,4) ix by auto
    have "\<not> bi_valid b'" "bi_valid (ti_index it)" using b'(2) a(3) True block_it.valid_iff by blast+
    then have "ti_next it = Some it2" using val b'(1) n(1,2) by (simp add: ti_next_def ti_valid_def Let_def)
    moreover have "ti_delivers it2 es"
      using n(3-5) ix es True unfolding ti_delivers_def
      by (intro disjI1 exI [of _ b] exI [of _ ix'] exI [of _ rest'] exI [of _ read])
        (auto simp: index_points_def good_block_def)
    ultimately show ?thesis by blast
  qed
qed

section \<open>Iterating a stored table\<close>

definition file_reader :: "bytes \<Rightarrow> reader" where
  "file_reader d off n = Some (take n (drop (unat off) d))"

text \<open>The table and the concatenation of its blocks fit the 32-bit positions of the iterators.\<close>

definition iterable :: "(bytes \<Rightarrow> u32) \<Rightarrow> (bytes \<times> bytes) list list \<Rightarrow> bytes \<Rightarrow> bool" where
  "iterable crc bs fl \<longleftrightarrow> stored_table crc bs fl \<and> bs \<noteq> [] \<and> length (block_of (concat bs)) < 2 ^ 32 \<and>
     length (block_of (index_entries 0 bs)) < 2 ^ 32"

lemma block_of_concat: "concat (map block_of bs) = block_of (concat bs)"
  by (induction bs) auto

lemma length_block_of_mem: "b \<in> set bs \<Longrightarrow> length (block_of b) \<le> length (block_of (concat bs))"
  by (induction bs) auto

lemma iterable_good_block: "iterable crc bs fl \<Longrightarrow> b \<in> set bs \<Longrightarrow> good_block b"
  using length_block_of_mem [of b bs]
  by (auto simp: iterable_def stored_table_def table_entries_def good_block_def)

lemma slice_reader:
  "in_file h d \<Longrightarrow> file_reader d (be_offset h) (unat (be_size h)) = Some (slice_of h d)"
  by (simp add: file_reader_def slice_of_def)

lemma index_points_stored:
  assumes "iterable crc bs fl" "bs = pre @ post"
  shows "list_all2 (index_points (file_reader (table_image crc bs fl))) (index_entries (length (sealed crc pre)) post) post"
  using assms(2)
proof (induction post arbitrary: pre)
  case (Cons b post)
  let ?D = "table_image crc bs fl"
  let ?h = "\<lparr>be_offset = of_nat (length (sealed crc pre)), be_size = of_nat (length (block_of b))\<rparr> :: BlockEntryInfo"
  have len: "length ?D < 2 ^ 63" using assms(1) by (simp add: iterable_def stored_table_def)
  have sz: "unat (be_size ?h) = length (block_of b)"
    using iterable_good_block [OF assms(1), of b] Cons.prems by (simp add: good_block_def unat_of_nat_u64)
  have "file_reader ?D (be_offset ?h) (unat (be_size ?h)) = Some (block_of b)"
    using slice_reader [OF image_handles_in_file(4) [OF len Cons.prems]] table_slices(4) [OF len Cons.prems] by simp
  then have rd: "file_reader ?D (be_offset ?h) (length (block_of b)) = Some (block_of b)" unfolding sz .
  have "good_block b" using iterable_good_block [OF assms(1)] Cons.prems by simp
  then have "index_points (file_reader ?D) (fst (last b), be_Encode ?h) b"
    using rd sz unfolding index_points_def by (intro conjI exI [of _ ?h]) simp_all
  moreover have "list_all2 (index_points (file_reader ?D)) (index_entries (length (sealed crc (pre @ [b]))) post) post"
    using Cons.IH [of "pre @ [b]"] Cons.prems by simp
  ultimately show ?case by (simp add: algebra_simps)
qed simp

lemma mk_TableIterator_stored:
  assumes "iterable crc bs fl" "open_file (file_number meta) = Some (file_reader (table_image crc bs fl))"
    and "file_size meta = of_nat (length (table_image crc bs fl))"
  shows "mk_TableIterator open_file meta cmp = Some \<lparr>ti_file = Some (file_reader (table_image crc bs fl)),
    ti_block = bi_default cmp, ti_index = mk_BlockIterator (block_of (index_entries 0 bs)) cmp, ti_cmp = cmp\<rparr>"
proof -
  let ?D = "table_image crc bs fl" and ?F = "image_footer crc bs fl"
  have len: "length ?D < 2 ^ 63" using assms(1) by (simp add: iterable_def stored_table_def)
  note sl = table_slices [OF len] and hf = image_handles_in_file [OF len]
  have sz: "unat (of_nat kEncodedLength :: u64) = kEncodedLength"
    by (simp add: kEncodedLength_def kBlockInfoLength_def)
  have f: "file_reader ?D (file_size meta - of_nat kEncodedLength) kEncodedLength = Some (Footer_Encode ?F)"
    using slice_reader [OF hf(1)] sl(1) assms(3) sz by simp
  have dec: "Footer_Decode (Footer_Encode ?F) = Some (OK, ?F)" using Footer_Decode_Encode [of _ "[]"] by simp
  have "length (slice_of (index_handle ?F) ?D) = unat (be_size (index_handle ?F))"
    using hf(3) by (simp add: slice_of_def in_file_def)
  then have "bi_of_file (file_reader ?D) (index_handle ?F) cmp = mk_BlockIterator (block_of (index_entries 0 bs)) cmp"
    using slice_reader [OF hf(3)] sl(3) by (simp add: bi_of_file_def)
  with f dec assms(2) show ?thesis by (simp add: mk_TableIterator_def Let_def)
qed

lemma iterable_index_ok:
  "iterable crc bs fl \<Longrightarrow> \<forall>e \<in> set (index_entries 0 bs). small_entry e"
  using stored_index_ok by (auto simp: iterable_def)

lemma ti_seekToFirst_stored:
  assumes "iterable crc bs fl" "ti_file it = Some (file_reader (table_image crc bs fl))"
    "bi_buf (ti_index it) = block_of (index_entries 0 bs)"
  shows "\<exists>it'. ti_seekToFirst it = Some it' \<and> ti_delivers it' (concat bs)"
proof -
  obtain b rest where bs: "bs = b # rest" using assms(1) by (cases bs) (auto simp: iterable_def)
  let ?it1 = "it\<lparr>ti_index := bi_seekToFirst (ti_index it)\<rparr>" and ?R = "file_reader (table_image crc bs fl)"
  have "window (bi_seekToFirst (ti_index it)) [] (index_entries 0 bs) []"
    using assms(1,3) iterable_index_ok [OF assms(1)]
    by (simp add: window_def bi_seekToFirst_def iterable_def)
  then have d: "bi_delivers (ti_index ?it1) (index_entries 0 bs)" unfolding bi_delivers_def by auto
  have ne: "index_entries 0 bs \<noteq> []" using bs by simp
  then have v: "bi_valid (bi_seekToFirst (ti_index it))" using d block_it.valid_iff by fastforce
  obtain e ix where ix: "index_entries 0 bs = e # ix" "index_points ?R e b" "list_all2 (index_points ?R) ix rest"
    using index_points_stored [OF assms(1), of "[]" bs] bs by (auto simp: list_all2_Cons2)
  from NextBlock_delivers [of ?it1 e ix ?R b] d ix(1,2) assms(2) obtain it1 it2 where
    n: "ti_NextBlock ?it1 = Some it1" "ti_advance_index it1 = Some it2"
      "bi_delivers (ti_block it2) b" "bi_delivers (ti_index it2) ix" "ti_file it2 = Some ?R" by auto
  have "b \<noteq> []" using iterable_good_block [OF assms(1)] bs by (auto simp: good_block_def)
  then have "ti_delivers it2 (concat bs)"
    using n(3-5) ix(3) bs unfolding ti_delivers_def
    by (intro disjI1 exI [of _ b] exI [of _ ix] exI [of _ rest] exI [of _ ?R]) auto
  with n(1,2) v show ?thesis by (simp add: ti_seekToFirst_def Let_def)
qed

section \<open>The range seek\<close>

lemma collect_blocks_delivers:
  assumes "bi_delivers ix es" "es \<noteq> []" "list_all2 (index_points read) es bs" "length es \<le> fuel"
  shows "\<exists>ix'. collect_blocks fuel read buf ix = Some (Some (buf @ block_of (concat bs)), ix') \<and> \<not> bi_valid ix'"
  using assms
proof (induction es arbitrary: ix bs fuel buf)
  case (Cons e es)
  obtain b bs' where bs: "bs = b # bs'" "index_points read e b" "list_all2 (index_points read) es bs'"
    using Cons.prems(3) by (auto simp: list_all2_Cons1)
  obtain fu where fu: "fuel = Suc fu" "length es \<le> fu" using Cons.prems(4) by (cases fuel) auto
  obtain k v where e: "e = (k, v)" by (cases e)
  have v: "bi_value ix = Some v" using block_it.val_hd Cons.prems(1) e by blast
  obtain ix1 where ix1: "bi_next ix = Some ix1" "bi_delivers ix1 es" using block_it.nxt_tl Cons.prems(1) e by blast
  obtain h where h: "be_Decode v = Some h" "unat (be_size h) = length (block_of b)"
      "read (be_offset h) (length (block_of b)) = Some (block_of b)"
    using bs(2) e by (auto simp: index_points_def)
  have a: "append_block read h buf = Some (buf @ block_of b)" using h by (simp add: append_block_def)
  show ?case
  proof (cases "es = []")
    case True
    then have "\<not> bi_valid ix1" using ix1(2) block_it.valid_iff by blast
    then show ?thesis using v h(1) a ix1(1) fu bs(1,3) True by simp
  next
    case False
    then have "bi_valid ix1" using ix1(2) block_it.valid_iff by blast
    then show ?thesis
      using Cons.IH [OF ix1(2) False bs(3) fu(2), of "buf @ block_of b"] v h(1) a ix1(1) fu(1) bs(1) by simp
  qed
qed simp

text \<open>The entries of a sorted list with user keys between those of \<open>K1\<close> and \<open>K2\<close>.\<close>

definition before_lo :: "bytes \<Rightarrow> bytes \<times> bytes \<Rightarrow> bool" where
  "before_lo K1 e \<longleftrightarrow> \<not> StrComparator_compare (user K1) (user (fst e)) \<le> 0"

definition upto_hi :: "bytes \<Rightarrow> bytes \<times> bytes \<Rightarrow> bool" where
  "upto_hi K2 e \<longleftrightarrow> \<not> StrComparator_compare (user K2) (user (fst e)) < 0"

definition in_range :: "bytes \<Rightarrow> bytes \<Rightarrow> (bytes \<times> bytes) list \<Rightarrow> (bytes \<times> bytes) list" where
  "in_range K1 K2 es = takeWhile (upto_hi K2) (dropWhile (before_lo K1) es)"

lemma finish_range_delivers:
  assumes "\<forall>e \<in> set es. small_entry e \<and> wf_ikey (fst e)" "length (block_of es) < 2 ^ 32" "wf_ikey K1" "wf_ikey K2"
    and "ti_cmp it = CUserKey" "\<not> bi_valid (ti_index it)" "ti_file it = Some read"
  shows "\<exists>it'. finish_range (block_of es) K1 K2 it = Some it' \<and> ti_delivers it' (in_range K1 K2 es)"
proof -
  let ?b = "mk_BlockIterator (block_of es) CUserKey"
  have "bi_buf ?b = block_of es" "bi_cmp ?b = CUserKey" by (simp_all add: mk_BlockIterator_def bi_seekToFirst_def)
  then obtain b' where b': "bi_seek2 ?b K1 K2 = Some b'" "bi_delivers b' (in_range K1 K2 es)"
    using bi_seek2_window [of ?b es K1 "\<lambda>k. StrComparator_compare (user K1) (user k)" K2 "\<lambda>k. StrComparator_compare (user K2) (user k)"]
      assms(1-4) by (auto simp: UserKey_compare in_range_def before_lo_def [abs_def] upto_hi_def [abs_def])
  moreover have "bi_delivers (ti_index it) []" using assms(6) by (simp add: bi_delivers_def)
  ultimately have "ti_delivers (it\<lparr>ti_block := b'\<rparr>) (in_range K1 K2 es)"
    using assms(7) unfolding ti_delivers_def
    by (intro disjI1 exI [of _ "in_range K1 K2 es"] exI [of _ "[]"] exI [of _ "[]"] exI [of _ read]) auto
  with b'(1) assms(5) show ?thesis by (simp add: finish_range_def)
qed

lemma index_entries_append:
  "index_entries off (as @ bs) = index_entries off as @ index_entries (off + length (sealed crc as)) bs"
  by (induction as arbitrary: off) (simp_all add: algebra_simps)

lemma length_index: "length (index_entries off bs) = length bs"
  by (induction bs arbitrary: off) simp_all

lemma takeWhile_index:
  "takeWhile (\<lambda>e. P (fst e)) (index_entries off bs) = index_entries off (takeWhile (\<lambda>b. P (fst (last b))) bs)"
  by (induction bs arbitrary: off) simp_all

lemma dropWhile_index:
  "dropWhile (\<lambda>e. P (fst e)) (index_entries off bs) =
     index_entries (off + length (sealed crc (takeWhile (\<lambda>b. P (fst (last b))) bs))) (dropWhile (\<lambda>b. P (fst (last b))) bs)"
  by (induction bs arbitrary: off) (simp_all add: algebra_simps)

lemma before_lo_mono:
  assumes "table_entries es" "es = xs @ x # ys" "y \<in> set xs" "wf_ikey K" "before_lo K x"
  shows "before_lo K y"
proof -
  have "ikey_cmp (fst y) (fst x) < 0" "wf_ikey (fst y)" "wf_ikey (fst x)"
    using assms(1-3) by (auto simp: table_entries_def sorted_wrt_append)
  then have "StrComparator_compare (user (fst y)) (user (fst x)) \<le> 0" by (intro ikey_user_le) auto
  then have "StrComparator_compare (user K) (user (fst y)) \<le> 0 \<Longrightarrow> StrComparator_compare (user K) (user (fst x)) \<le> 0"
    using Str_trans by blast
  then show ?thesis using assms(5) by (auto simp: before_lo_def)
qed

lemma blocks_before:
  assumes "table_entries (concat B @ es)" "\<forall>b \<in> set B. b \<noteq> [] \<and> before_lo K (last b)" "wf_ikey K"
  shows "\<forall>e \<in> set (concat B). before_lo K e"
proof
  fix e assume "e \<in> set (concat B)"
  then obtain b where b: "b \<in> set B" "e \<in> set b" by auto
  then obtain as cs where B: "B = as @ b # cs" by (metis split_list)
  have ne: "b \<noteq> []" "before_lo K (last b)" using assms(2) b(1) by auto
  then have bb: "b = butlast b @ [last b]" by simp
  have "concat B @ es = (concat as @ butlast b) @ last b # (concat cs @ es)"
    by (subst B, subst bb) simp
  moreover have "set b = insert (last b) (set (butlast b))" by (subst bb) simp
  then have "e = last b \<or> e \<in> set (concat as @ butlast b)" using b(2) by auto
  ultimately show "before_lo K e" using before_lo_mono [OF assms(1) _ _ assms(3) ne(2)] ne(2) by blast
qed

lemma in_range_blocks:
  assumes "table_entries (concat B @ concat S @ concat R)" "\<forall>b \<in> set B. b \<noteq> [] \<and> before_lo K1 (last b)" "wf_ikey K1"
    and "\<exists>e \<in> set (concat S). \<not> before_lo K1 e" "R \<noteq> [] \<longrightarrow> concat S \<noteq> [] \<and> \<not> upto_hi K2 (last (concat S))"
  shows "in_range K1 K2 (concat B @ concat S @ concat R) = in_range K1 K2 (concat S)"
proof -
  have "dropWhile (before_lo K1) (concat B @ concat S @ concat R) = dropWhile (before_lo K1) (concat S @ concat R)"
    using blocks_before [OF assms(1-3)] by (intro dropWhile_append2) auto
  also have "\<dots> = dropWhile (before_lo K1) (concat S) @ concat R"
    using assms(4) by (meson dropWhile_append1)
  finally have d: "in_range K1 K2 (concat B @ concat S @ concat R) =
      takeWhile (upto_hi K2) (dropWhile (before_lo K1) (concat S) @ concat R)"
    by (simp add: in_range_def)
  show ?thesis
  proof (cases "R = []")
    case True
    then show ?thesis unfolding d by (simp add: in_range_def)
  next
    case False
    then have s: "\<not> upto_hi K2 (last (concat S))" using assms(5) by simp
    have "dropWhile (before_lo K1) (concat S) \<noteq> []" using assms(4) by (auto simp: dropWhile_eq_Nil_conv)
    then have "last (concat S) \<in> set (dropWhile (before_lo K1) (concat S))"
      by (metis last_in_set last_appendR takeWhile_dropWhile_id)
    then show ?thesis unfolding d using s by (simp add: in_range_def takeWhile_append1)
  qed
qed

text \<open>The first block that ends at or behind \<open>K1\<close> also ends at or before \<open>K2\<close>.\<close>

definition covering_block :: "bytes \<Rightarrow> bytes \<Rightarrow> (bytes \<times> bytes) list list \<Rightarrow> bool" where
  "covering_block K1 K2 bs = (case dropWhile (\<lambda>b. before_lo K1 (last b)) bs of [] \<Rightarrow> False | b # _ \<Rightarrow> upto_hi K2 (last b))"

lemma ti_seek2_stored:
  assumes "iterable crc bs fl" "wf_ikey K1" "wf_ikey K2"
    and "ti_file it = Some (file_reader (table_image crc bs fl))" "ti_cmp it = CUserKey"
      "ti_index it = mk_BlockIterator (block_of (index_entries 0 bs)) CUserKey"
  shows "\<exists>it'. ti_seek2 K1 K2 it = Some it' \<and> ti_delivers it'
    (if covering_block K1 K2 bs then in_range K1 K2 (concat bs) else in_range K1 K2 (hd bs))"
proof -
  let ?I = "index_entries 0 bs" and ?R = "file_reader (table_image crc bs fl)"
  let ?c1 = "\<lambda>k. StrComparator_compare (user K1) (user k)" and ?c2 = "\<lambda>k. StrComparator_compare (user K2) (user k)"
  let ?P1 = "\<lambda>b. before_lo K1 (last b)" and ?P2 = "\<lambda>b. upto_hi K2 (last b)"
  have st: "stored_table crc bs fl" "bs \<noteq> []" "length (block_of (concat bs)) < 2 ^ 32" "length (block_of ?I) < 2 ^ 32"
    "table_entries (concat bs)" "\<forall>b \<in> set bs. b \<noteq> []"
    using assms(1) by (auto simp: iterable_def stored_table_def)
  have ents: "\<forall>e \<in> set (concat bs). small_entry e \<and> wf_ikey (fst e)" using st(5) by (auto simp: table_entries_def)
  have io: "\<forall>e \<in> set ?I. small_entry e \<and> wf_ikey (fst e)" by (rule stored_index_ok [OF st(1)])
  have buf: "bi_buf (ti_index it) = block_of ?I" "bi_cmp (ti_index it) = CUserKey"
    by (simp_all add: assms(6) mk_BlockIterator_def bi_seekToFirst_def)
  have h: "bi_buf (ti_index it) = block_of ?I" "length (block_of ?I) < 2 ^ 32" "\<forall>e \<in> set ?I. small_entry e"
    "\<forall>e \<in> set ?I. compare (bi_cmp (ti_index it)) K1 (fst e) = Some (?c1 (fst e))"
    "\<forall>e \<in> set ?I. compare (bi_cmp (ti_index it)) K2 (fst e) = Some (?c2 (fst e))"
    using io assms(2,3) st(4) by (auto simp: buf UserKey_compare)
  define B where "B = takeWhile ?P1 bs"
  define W where "W = dropWhile ?P1 bs"
  define S where "S = takeWhile ?P2 W"
  define T where "T = dropWhile ?P2 W"
  have bs: "bs = B @ S @ T" by (simp add: B_def W_def S_def T_def)
  let ?o1 = "length (sealed crc B)" and ?o2 = "length (sealed crc (B @ S))"
  have tw: "takeWhile (\<lambda>e. \<not> ?c1 (fst e) \<le> 0) ?I = index_entries 0 B"
    using takeWhile_index [of "\<lambda>k. \<not> ?c1 k \<le> 0" 0 bs] by (simp add: B_def before_lo_def)
  have dw: "dropWhile (\<lambda>e. \<not> ?c1 (fst e) \<le> 0) ?I = index_entries ?o1 W"
    using dropWhile_index [of "\<lambda>k. \<not> ?c1 k \<le> 0" 0 bs crc] by (simp add: B_def W_def before_lo_def)
  have ts: "takeWhile (\<lambda>e. \<not> ?c2 (fst e) < 0) (index_entries ?o1 W) = index_entries ?o1 S"
    using takeWhile_index [of "\<lambda>k. \<not> ?c2 k < 0" ?o1 W] by (simp add: S_def upto_hi_def)
  have rs: "dropWhile (\<lambda>e. \<not> ?c2 (fst e) < 0) (index_entries ?o1 W) = index_entries ?o2 T"
    using dropWhile_index [of "\<lambda>k. \<not> ?c2 k < 0" ?o1 W crc] by (simp add: T_def S_def upto_hi_def)
  have inr: "covering_block K1 K2 bs \<longleftrightarrow> S \<noteq> []"
    unfolding covering_block_def W_def [symmetric] S_def by (cases W) auto
  have ip: "list_all2 (index_points ?R) (index_entries (length (sealed crc pre)) post) post" if "bs = pre @ post" for pre post
    using index_points_stored [OF assms(1) that] .
  show ?thesis
  proof (cases "S = []")
    case True
    obtain b rest where b: "bs = b # rest" using st(2) by (cases bs) auto
    obtain i where i: "bi_seek2 (ti_index it) K1 K2 = Some i" "\<not> bi_valid i" "bi_buf i = block_of ?I"
    proof (cases "W = []")
      case True
      then have "bi_seek2 (ti_index it) K1 K2 = Some (SetInValid (ti_index it))"
        using bi_seek2_split(1) [OF h] dw by simp
      then show thesis using that buf by (simp add: SetInValid_def bi_valid_def)
    next
      case False
      then have "index_entries ?o1 W \<noteq> []" by (cases W) auto
      then obtain i where "bi_seek2 (ti_index it) K1 K2 = Some i" "window i (block_of (index_entries 0 B)) (index_entries ?o1 S) (block_of (index_entries ?o2 T))"
          "bi_buf i = bi_buf (ti_index it)"
        using bi_seek2_split(2) [OF h] tw dw ts rs by auto
      then show thesis using that window_valid True buf by fastforce
    qed
    let ?i1 = "bi_seekToFirst i"
    have "window ?i1 [] ?I []" using i(3) st(4) h(3) by (simp add: window_def bi_seekToFirst_def)
    then have d1: "bi_delivers ?i1 ?I" unfolding bi_delivers_def by auto
    obtain e ix where e: "?I = e # ix" "index_points ?R e b" using ip [of "[]" bs] b by (auto simp: list_all2_Cons2)
    obtain k v where kv: "e = (k, v)" by (cases e)
    have v: "bi_valid ?i1" "bi_value ?i1 = Some v" using d1 e(1) kv block_it.valid_iff block_it.val_hd by force+
    obtain hh where hh: "be_Decode v = Some hh" "append_block ?R hh [] = Some (block_of b)"
      using e(2) kv by (auto simp: index_points_def append_block_def)
    define it3 where "it3 = it\<lparr>ti_block := bi_reset (ti_block it), ti_index := bi_reset ?i1\<rparr>"
    have sk: "ti_seek2 K1 K2 it = finish_range (block_of b) K1 K2 it3"
      using i(1,2) v hh assms(4) by (simp add: ti_seek2_def Let_def it3_def)
    have "\<exists>it'. finish_range (block_of b) K1 K2 it3 = Some it' \<and> ti_delivers it' (in_range K1 K2 b)"
      using ents b st(3) assms(2-5)
      by (intro finish_range_delivers) (auto simp: it3_def bi_reset_def bi_valid_def)
    then show ?thesis using sk True inr b by simp
  next
    case False
    then have "index_entries ?o1 W \<noteq> []" by (cases W) (auto simp: S_def)
    then obtain i where i: "bi_seek2 (ti_index it) K1 K2 = Some i"
        "window i (block_of (index_entries 0 B)) (index_entries ?o1 S) (block_of (index_entries ?o2 T))"
        "bi_buf i = block_of ?I"
      using bi_seek2_split(2) [OF h] tw dw ts rs buf by auto
    have iv: "bi_valid i" using window_valid [OF i(2)] False by (cases S) auto
    define S' where "S' = S @ take 1 T"
    have T: "T = take 1 T @ drop 1 T" by simp
    have bs': "bs = B @ S' @ drop 1 T" using bs by (simp add: S'_def)
    have ix: "index_entries ?o1 S' = index_entries ?o1 S @ index_entries ?o2 (take 1 T)"
      unfolding S'_def by (subst index_entries_append [where crc = crc]) simp
    obtain i1 where i1: "bi_AppendNext i = Some i1" "bi_delivers i1 (index_entries ?o1 S')" "bi_buf i1 = block_of ?I"
    proof (cases T)
      case Nil
      then have "bi_AppendNext i = Some i" using bi_AppendNext_end i(2) by simp
      then show thesis using that i(2,3) Nil ix unfolding bi_delivers_def by auto
    next
      case (Cons b T')
      have "small_entry (fst (last b), be_Encode \<lparr>be_offset = of_nat ?o2, be_size = of_nat (length (block_of b))\<rparr>)"
      proof -
        have "?I = index_entries 0 (B @ S) @ index_entries ?o2 T" using bs index_entries_append [of 0 "B @ S" T crc] by simp
        then show ?thesis using h(3) Cons by simp
      qed
      then obtain i1 where "bi_AppendNext i = Some i1" and w: "window i1 (block_of (index_entries 0 B))
          (index_entries ?o1 S @ [(fst (last b), be_Encode \<lparr>be_offset = of_nat ?o2, be_size = of_nat (length (block_of b))\<rparr>)])
          (block_of (index_entries (?o2 + length (block_of b) + 4) T'))"
        using bi_AppendNext_window [of i "block_of (index_entries 0 B)" "index_entries ?o1 S"
            "(fst (last b), be_Encode \<lparr>be_offset = of_nat ?o2, be_size = of_nat (length (block_of b))\<rparr>)"
            "index_entries (?o2 + length (block_of b) + 4) T'"] i(2) unfolding Cons index_entries.simps by blast
      moreover have "bi_delivers i1 (index_entries ?o1 S')" using w ix Cons unfolding bi_delivers_def by auto
      moreover have "bi_buf i1 = block_of ?I"
        using \<open>bi_AppendNext i = Some i1\<close> i(3) w window_valid [OF w]
        by (auto simp: bi_AppendNext_def SetInValid_def bi_valid_def split: if_splits bind_splits)
      ultimately show thesis using that by blast
    qed
    have lp: "list_all2 (index_points ?R) (index_entries ?o1 S') S'"
    proof -
      have "list_all2 (index_points ?R) (index_entries ?o1 (S' @ drop 1 T)) (S' @ drop 1 T)" using ip [of B "S' @ drop 1 T"] bs' by simp
      then show ?thesis
        by (subst (asm) index_entries_append [where crc = crc], subst (asm) list_all2_append)
          (auto dest: list_all2_lengthD, use ip in \<open>simp add: length_index\<close>)
    qed
    have ne: "index_entries ?o1 S' \<noteq> []" using False by (cases S) (auto simp: S'_def)
    have "length (index_entries ?o1 S') \<le> length (block_of ?I)"
    proof -
      have "length es \<le> length (block_of es)" for es :: "(bytes \<times> bytes) list" by (induction es) auto
      then have "length ?I \<le> length (block_of ?I)" .
      moreover have "length S' \<le> length bs" using bs' by (metis le_add1 le_add2 le_trans length_append)
      ultimately show ?thesis by (simp add: length_index)
    qed
    then obtain i2 where i2: "collect_blocks (Suc (length (bi_buf i1))) ?R [] i1 = Some (Some (block_of (concat S')), i2)" "\<not> bi_valid i2"
      using collect_blocks_delivers [OF i1(2) ne lp, of "Suc (length (bi_buf i1))" "[]"] i1(3) by auto
    define it2 where "it2 = it\<lparr>ti_block := bi_reset (ti_block it), ti_index := i2\<rparr>"
    have sk: "ti_seek2 K1 K2 it = finish_range (block_of (concat S')) K1 K2 it2"
      using i(1) iv i1(1) i2(1) assms(4)
      by (simp add: ti_seek2_def Let_def it2_def del: collect_blocks.simps)
    have "length (block_of (concat S')) < 2 ^ 32" using st(3) by (subst (asm) bs') simp
    moreover have "\<forall>e \<in> set (concat S'). small_entry e \<and> wf_ikey (fst e)" using ents by (subst (asm) bs') auto
    moreover have "ti_cmp it2 = CUserKey" "\<not> bi_valid (ti_index it2)" "ti_file it2 = Some ?R"
      using assms(4,5) i2(2) by (simp_all add: it2_def)
    ultimately obtain it' where it': "finish_range (block_of (concat S')) K1 K2 it2 = Some it'" "ti_delivers it' (in_range K1 K2 (concat S'))"
      using finish_range_delivers [of "concat S'" K1 K2 it2 ?R] assms(2,3) by blast
    have "in_range K1 K2 (concat bs) = in_range K1 K2 (concat S')"
    proof -
      have cb: "concat bs = concat B @ concat S' @ concat (drop 1 T)" by (subst bs') simp
      have "\<forall>b \<in> set B. b \<noteq> [] \<and> before_lo K1 (last b)" using st(6) unfolding B_def by (blast dest: set_takeWhileD)
      moreover have "\<exists>e \<in> set (concat S'). \<not> before_lo K1 e"
      proof -
        obtain s Sr where s: "S = s # Sr" using False by (cases S) auto
        then have W: "W = s # tl W" unfolding S_def by (cases W) (auto split: if_splits)
        then have "\<not> before_lo K1 (last s)" unfolding W_def by (metis dropWhile_eq_Cons_conv)
        moreover have "s \<noteq> []" using st(6) bs s by simp
        ultimately show ?thesis using s by (intro bexI [of _ "last s"]) (auto simp: S'_def)
      qed
      moreover have "drop 1 T \<noteq> [] \<longrightarrow> concat S' \<noteq> [] \<and> \<not> upto_hi K2 (last (concat S'))"
      proof
        assume "drop 1 T \<noteq> []"
        then obtain b Tr where b: "T = b # Tr" by (cases T) auto
        then have "\<not> upto_hi K2 (last b)" unfolding T_def by (metis dropWhile_eq_Cons_conv)
        moreover have "b \<noteq> []" using st(6) bs b by simp
        ultimately show "concat S' \<noteq> [] \<and> \<not> upto_hi K2 (last (concat S'))" using b by (simp add: S'_def)
      qed
      ultimately show ?thesis using in_range_blocks [of B S' "drop 1 T" K1 K2] st(5) assms(2) unfolding cb by simp
    qed
    then show ?thesis using sk it' False inr by simp
  qed
qed

section \<open>Properties\<close>

text \<open>C11. Opening a table and seeking to its first entry gives an iterator that delivers every entry
  of the table once, in order, across all its blocks (\<open>table_it\<close>: valid, key, value and next agree
  with the list of remaining entries). A seek for a user-key range delivers exactly the entries in
  the range when the first block that ends at or behind the lower bound also ends at or before the
  upper bound. Otherwise only the first block of the table is searched.\<close>

theorem table_iterator_correct:
  assumes "iterable crc bs fl" "open_file (file_number meta) = Some (file_reader (table_image crc bs fl))"
    "file_size meta = of_nat (length (table_image crc bs fl))" "wf_ikey K1" "wf_ikey K2"
  shows "\<exists>it. mk_TableIterator open_file meta CUserKey = Some it \<and>
    (\<exists>it'. ti_seekToFirst it = Some it' \<and> ti_delivers it' (concat bs)) \<and>
    (\<exists>it'. ti_seek2 K1 K2 it = Some it' \<and> ti_delivers it'
      (if covering_block K1 K2 bs then in_range K1 K2 (concat bs) else in_range K1 K2 (hd bs)))"
proof -
  let ?it = "\<lparr>ti_file = Some (file_reader (table_image crc bs fl)), ti_block = bi_default CUserKey,
    ti_index = mk_BlockIterator (block_of (index_entries 0 bs)) CUserKey, ti_cmp = CUserKey\<rparr>"
  have "mk_TableIterator open_file meta CUserKey = Some ?it"
    using assms(1-3) by (rule mk_TableIterator_stored)
  moreover have "\<exists>it'. ti_seekToFirst ?it = Some it' \<and> ti_delivers it' (concat bs)"
    by (rule ti_seekToFirst_stored [OF assms(1)]) (simp_all add: mk_BlockIterator_def bi_seekToFirst_def)
  moreover have "\<exists>it'. ti_seek2 K1 K2 ?it = Some it' \<and> ti_delivers it'
      (if covering_block K1 K2 bs then in_range K1 K2 (concat bs) else in_range K1 K2 (hd bs))"
    by (rule ti_seek2_stored [OF assms(1,4,5)]) simp_all
  ultimately show ?thesis by blast
qed

lemma sample_iterable: "iterable (\<lambda>_. 0) sample_blocks sample_filter"
  using sample_stored by (simp add: iterable_def) (simp add: sample_blocks_def sample_entries_def)

theorem table_iterator_correct_witness:
  "\<exists>it it'. mk_TableIterator (\<lambda>_. Some (file_reader (table_image (\<lambda>_. 0) sample_blocks sample_filter))) sample_meta CUserKey = Some it \<and>
    ti_seekToFirst it = Some it' \<and> ti_delivers it' sample_entries"
proof -
  have "concat sample_blocks = sample_entries" by (simp add: sample_blocks_def)
  then show ?thesis
    using table_iterator_correct [OF sample_iterable, of "\<lambda>_. Some (file_reader (table_image (\<lambda>_. 0) sample_blocks sample_filter))"
        sample_meta "EncodeFixed64 0" "EncodeFixed64 0"] by (auto simp: sample_meta_def)
qed

definition gap_key :: "u8 \<Rightarrow> bytes" where
  "gap_key c = [c] @ EncodeFixed64 (pack 1 kTypeValue)"

definition gap_blocks :: "(bytes \<times> bytes) list list" where
  "gap_blocks = [[(gap_key 0x61, vi_Encode vi_zero)], [(gap_key 0x63, vi_Encode vi_zero), (gap_key 0x65, vi_Encode vi_zero)]]"

definition gap_meta :: SSTFileMeta where
  "gap_meta = sample_meta\<lparr>file_size := of_nat (length (table_image (\<lambda>_. 0) gap_blocks sample_filter))\<rparr>"

lemma gap_key_simps [simp]: "length (gap_key c) = 9" "user (gap_key c) = [c]"
  "ikey_cmp (gap_key c) (gap_key d) = StrComparator_compare [c] [d]"
  unfolding gap_key_def user_append ikey_cmp_eq by simp_all

lemma gap_iterable: "iterable (\<lambda>_. 0) gap_blocks sample_filter"
  by (simp add: iterable_def stored_table_def sample_filter_has_key table_image_eq)
    (simp add: gap_blocks_def table_entries_def small_entry_def sample_filter_def kEncodedLength_def kBlockInfoLength_def)

text \<open>C27. The range seek loses entries. In a table with the blocks \<open>a\<close> and \<open>c, e\<close> a seek for the
  range from \<open>c\<close> to \<open>d\<close> delivers nothing although \<open>c\<close> is in the table and in the range: no block
  ends inside the range, so the iterator falls back to the first block.\<close>

theorem range_seek_misses:
  "\<exists>it it'. mk_TableIterator (\<lambda>_. Some (file_reader (table_image (\<lambda>_. 0) gap_blocks sample_filter))) gap_meta CUserKey = Some it \<and>
    ti_seek2 (gap_key 0x63) (gap_key 0x64) it = Some it' \<and> \<not> ti_valid it' \<and>
    in_range (gap_key 0x63) (gap_key 0x64) (concat gap_blocks) = [(gap_key 0x63, vi_Encode vi_zero)]"
proof -
  let ?R = "file_reader (table_image (\<lambda>_. 0) gap_blocks sample_filter)"
  let ?it = "\<lparr>ti_file = Some ?R, ti_block = bi_default CUserKey,
    ti_index = mk_BlockIterator (block_of (index_entries 0 gap_blocks)) CUserKey, ti_cmp = CUserKey\<rparr>"
  have mk: "mk_TableIterator (\<lambda>_. Some ?R) gap_meta CUserKey = Some ?it"
    by (rule mk_TableIterator_stored [OF gap_iterable]) (simp_all add: gap_meta_def)
  have "\<not> covering_block (gap_key 0x63) (gap_key 0x64) gap_blocks" "in_range (gap_key 0x63) (gap_key 0x64) (hd gap_blocks) = []"
    and r: "in_range (gap_key 0x63) (gap_key 0x64) (concat gap_blocks) = [(gap_key 0x63, vi_Encode vi_zero)]"
    by (simp_all add: covering_block_def gap_blocks_def before_lo_def upto_hi_def in_range_def)
  with ti_seek2_stored [OF gap_iterable, of "gap_key 0x63" "gap_key 0x64" ?it]
  obtain it' where it': "ti_seek2 (gap_key 0x63) (gap_key 0x64) ?it = Some it'" "ti_delivers it' []" by auto
  then have "\<not> ti_valid it'" using table_it.valid_iff by blast
  with mk it' r show ?thesis by blast
qed

end
