(* ===== verification/Vlog.thy ===== *)
theory Vlog
  imports Table_Builder Lru
begin

text \<open>
  \<^verbatim>\<open>src/include/vlog_builder.h\<close> and the value-log readers of \<^verbatim>\<open>src/include/reader.h\<close>. The
  builder drives a \<open>TableBuilder\<close> so that every append becomes one checksummed block; the pointer
  record it hands out is what the readers take. Opening a file is an argument: it yields an empty
  file or fails. Destroying an unfinished table builder finishes it, so closing a log writes a
  filter, an index and a footer behind the entries.
\<close>

section \<open>VLogBuilder\<close>

record VLogBuilder =
  vb_file_no :: u32
  vb_offset :: u64
  vb_builder :: "PosixWritableFile TableBuilder option"

definition mk_VLogBuilder :: VLogBuilder where
  "mk_VLogBuilder = \<lparr>vb_file_no = 0, vb_offset = 0, vb_builder = None\<rparr>"

definition vb_EncodeKey :: "bytes \<Rightarrow> u64 \<Rightarrow> bytes" where
  "vb_EncodeKey key seq = key @ EncodeFixed64 seq"

text \<open>Opening over an open log would destroy the file under the old table builder: undefined.\<close>

definition vb_Open :: "(u32 \<Rightarrow> PosixWritableFile option) \<Rightarrow> u32 \<Rightarrow> VLogBuilder \<Rightarrow> (Status \<times> VLogBuilder) option" where
  "vb_Open new_file file_no b =
     (if vb_builder b \<noteq> None then None
      else let b1 = b\<lparr>vb_file_no := file_no\<rparr> in
        case new_file file_no of
          None \<Rightarrow> Some (IOError, b1)
        | Some f \<Rightarrow> Some (OK, b1\<lparr>vb_builder := Some (mk_TableBuilder f True)\<rparr>))"

text \<open>The destructors: the table builder finishes, then the file flushes and closes. The file is
  returned as it is left on disk.\<close>

definition tb_destroy :: "(bytes \<Rightarrow> u32) \<Rightarrow> PosixWritableFile TableBuilder \<Rightarrow> PosixWritableFile option" where
  "tb_destroy crc t = map_option (\<lambda>t. snd (pf_Close (tb_file t)))
     (if tb_closed t then Some t else map_option snd (tb_Finish (posix_env crc) t))"

definition vb_drop :: "(bytes \<Rightarrow> u32) \<Rightarrow> VLogBuilder \<Rightarrow> (PosixWritableFile option \<times> VLogBuilder) option" where
  "vb_drop crc b = (case vb_builder b of
       None \<Rightarrow> Some (None, b\<lparr>vb_file_no := 0\<rparr>)
     | Some t \<Rightarrow> map_option (\<lambda>f. (Some f, b\<lparr>vb_file_no := 0, vb_builder := None\<rparr>)) (tb_destroy crc t))"

definition vb_reset :: "(bytes \<Rightarrow> u32) \<Rightarrow> VLogBuilder \<Rightarrow> (PosixWritableFile option \<times> VLogBuilder) option" where
  "vb_reset crc b = vb_drop crc b"

definition vb_Close :: "(bytes \<Rightarrow> u32) \<Rightarrow> VLogBuilder \<Rightarrow> (Status \<times> PosixWritableFile option \<times> VLogBuilder) option" where
  "vb_Close crc b = map_option (\<lambda>(f, b'). (OK, f, b')) (vb_drop crc b)"

definition vb_Empty :: "VLogBuilder \<Rightarrow> bool" where
  "vb_Empty b \<longleftrightarrow> vb_builder b = None"

definition vb_Full :: "u32 \<Rightarrow> VLogBuilder \<Rightarrow> bool option" where
  "vb_Full value_sz b = map_option (\<lambda>t.
     of_nat kMaxVLogSize \<le> tb_ApproximateFileSize t \<or>
     (of_nat (kMaxVLogSize div 2) < tb_ApproximateFileSize t \<and> of_nat (kMaxVLogSize div 2) < value_sz)) (vb_builder b)"

definition vb_Append_key ::
  "(bytes \<Rightarrow> u32) \<Rightarrow> bytes \<Rightarrow> bytes \<Rightarrow> VLogEntryInfo \<Rightarrow> VLogBuilder \<Rightarrow> (Status \<times> VLogEntryInfo \<times> VLogBuilder) option" where
  "vb_Append_key crc ikey val info b = do {
     t \<leftarrow> vb_builder b;
     (info1, t1) \<leftarrow> tb_Add_info (posix_env crc) ikey val info t;
     let off = vb_offset b + ucast (vi_length info1);
     let info2 = info1\<lparr>vi_file_no := vb_file_no b\<rparr>;
     if ok (tb_status t1) then do {
       let next_index = (of_nat block_size < off);
       let off1 = (if next_index then 0 else off);
       t2 \<leftarrow> tb_Flush (posix_env crc) next_index (tb_SetLastKey ikey t1);
       Some (tb_status t2, info2, b\<lparr>vb_offset := off1, vb_builder := Some t2\<rparr>) }
     else Some (tb_status t1, info2, b\<lparr>vb_offset := off, vb_builder := Some t1\<rparr>) }"

definition vb_Append ::
  "(bytes \<Rightarrow> u32) \<Rightarrow> u64 \<Rightarrow> bytes \<Rightarrow> bytes \<Rightarrow> VLogEntryInfo \<Rightarrow> VLogBuilder \<Rightarrow> (Status \<times> VLogEntryInfo \<times> VLogBuilder) option" where
  "vb_Append crc seq key val info b = vb_Append_key crc (vb_EncodeKey key seq) val info b"

section \<open>VLogReader\<close>

text \<open>An open file is a handle of the operating system; \<open>open_file\<close> and \<open>pread\<close> are arguments.
  \<open>pread h off n\<close> returns at most \<open>n\<close> bytes, or nothing on an error.\<close>

record 'h VLogReader =
  vr_live :: "u64 option"
  vr_lru :: "(u32, 'h) Lru_Cache"

definition mk_VLogReader :: "u64 option \<Rightarrow> 'h VLogReader" where
  "mk_VLogReader live = \<lparr>vr_live = live, vr_lru = mk_Lru_Cache 5\<rparr>"

definition vr_InitFile ::
  "(u32 \<Rightarrow> 'h option) \<Rightarrow> u32 \<Rightarrow> 'h VLogReader \<Rightarrow> (Status \<times> 'h option \<times> 'h VLogReader) option" where
  "vr_InitFile open_file file_no r = do {
     (file_p, c) \<leftarrow> lru_Get file_no (vr_lru r);
     case file_p of
       Some h \<Rightarrow> Some (OK, Some h, r\<lparr>vr_lru := c\<rparr>)
     | None \<Rightarrow> (case open_file file_no of
         None \<Rightarrow> Some (IOError, None, r\<lparr>vr_lru := c\<rparr>)
       | Some h \<Rightarrow> do { c1 \<leftarrow> lru_Put file_no h c; Some (OK, Some h, r\<lparr>vr_lru := c1\<rparr>) }) }"

text \<open>The checks both readers make on the bytes of an entry: sizes (an assertion), checksum, and
  whether the entry is older than the last living sequence number. The value is only assigned when
  all of them pass.\<close>

definition check_entry :: "(bytes \<Rightarrow> u32) \<Rightarrow> u64 option \<Rightarrow> VLogEntryInfo \<Rightarrow> bytes \<Rightarrow> (Status \<times> bytes option) option" where
  "check_entry crc live info buf = do {
     key_size \<leftarrow> DecodeFixed32 buf;
     value_size \<leftarrow> DecodeFixed32 (drop 4 buf);
     if key_size + value_size + 8 \<noteq> vi_length info then None
     else do {
       crc32 \<leftarrow> DecodeFixed32 (drop (8 + unat key_size + unat value_size) buf);
       body \<leftarrow> bread 0 (unat (key_size + value_size + 8)) buf;
       if crc32 \<noteq> crc body then Some (Corruption, None)
       else do {
         k \<leftarrow> bread 8 (unat key_size) buf;
         v \<leftarrow> bread (unat key_size + 8) (unat value_size) buf;
         case live of
           None \<Rightarrow> Some (OK, Some v)
         | Some live_seq \<Rightarrow> do {
             seq \<leftarrow> ExtractSequenceNumber k;
             if seq < live_seq then Some (Expired, None) else Some (OK, Some v) } } } }"

definition vr_Read ::
  "(bytes \<Rightarrow> u32) \<Rightarrow> (u32 \<Rightarrow> 'h option) \<Rightarrow> ('h \<Rightarrow> nat \<Rightarrow> nat \<Rightarrow> bytes option) \<Rightarrow> VLogEntryInfo \<Rightarrow> 'h VLogReader
   \<Rightarrow> (Status \<times> bytes option \<times> 'h VLogReader) option" where
  "vr_Read crc open_file pread info r = do {
     (st, h, r1) \<leftarrow> vr_InitFile open_file (vi_file_no info) r;
     case h of
       None \<Rightarrow> Some (st, None, r1)
     | Some h \<Rightarrow> do {
         let n = unat (vi_length info + of_nat kBlockTrailerSize);
         case pread h (unat (vi_offset info)) n of
           None \<Rightarrow> Some (IOError, None, r1)
         | Some buf \<Rightarrow>
             if length buf \<noteq> n then Some (Corruption, None, r1)
             else do { (st, v) \<leftarrow> check_entry crc (vr_live r) info buf; Some (st, v, r1) } } }"

section \<open>CoroVLogReader\<close>

text \<open>One coroutine per list element. A task whose file does not open, whose submission is refused
  or whose read completes with an error is never resumed and the reader waits forever: \<open>None\<close>. A
  short read leaves bytes of the arena, \<open>junk\<close>, behind the bytes read.\<close>

definition coro_ReadOne ::
  "(bytes \<Rightarrow> u32) \<Rightarrow> (u32 \<Rightarrow> 'h option) \<Rightarrow> ('h \<Rightarrow> nat \<Rightarrow> nat \<Rightarrow> bytes option) \<Rightarrow> (nat \<Rightarrow> u8) \<Rightarrow> u64 option \<Rightarrow> VLogEntryInfo
   \<Rightarrow> (Status \<times> bytes option) option" where
  "coro_ReadOne crc open_file pread junk live info = do {
     h \<leftarrow> open_file (vi_file_no info);
     let n = unat (vi_length info + of_nat kBlockTrailerSize);
     d \<leftarrow> pread h (unat (vi_offset info)) n;
     check_entry crc live info (take n d @ map junk [length (take n d)..<n]) }"

text \<open>Elements with an empty value are erased. A value that does not decode makes the count of
  running tasks go wrong, which ends in the final assertion or in waiting forever. The status of
  the whole call is that of the first element, and an element that was not read keeps its pointer
  bytes.\<close>

fun coro_ReadList ::
  "(VLogEntryInfo \<Rightarrow> (Status \<times> bytes option) option) \<Rightarrow> (bytes \<times> bytes) list \<Rightarrow> (Status list \<times> (bytes \<times> bytes) list) option" where
  "coro_ReadList read1 [] = Some ([], [])"
| "coro_ReadList read1 ((k, v) # es) =
     (if v = [] then coro_ReadList read1 es
      else do {
        (st, info) \<leftarrow> vi_Decode vi_zero v;
        if \<not> ok st then None
        else do {
          (st, r) \<leftarrow> read1 info;
          (sts, rest) \<leftarrow> coro_ReadList read1 es;
          Some (st # sts, (k, case r of None \<Rightarrow> v | Some w \<Rightarrow> w) # rest) } })"

definition ReadList_status :: "Status list \<Rightarrow> Status" where
  "ReadList_status sts = (case find (\<lambda>s. \<not> IsNotFound s) sts of None \<Rightarrow> OK | Some s \<Rightarrow> s)"

definition ReadList ::
  "(VLogEntryInfo \<Rightarrow> (Status \<times> bytes option) option) \<Rightarrow> (bytes \<times> bytes) list \<Rightarrow> (Status \<times> (bytes \<times> bytes) list) option" where
  "ReadList read1 es = map_option (\<lambda>(sts, rest). (ReadList_status sts, rest)) (coro_ReadList read1 es)"

section \<open>Appending\<close>

context disk_table_file
begin

text \<open>The filter has room for the keys of one block.\<close>

definition filter_ok :: "'f TableBuilder \<Rightarrow> bytes list \<Rightarrow> bool" where
  "filter_ok b cur \<longleftrightarrow> (\<exists>fb. tb_filter_block b = Some fb \<and> filter_rep fb {} cur)"

lemma filter_ok_Flush:
  assumes "filter_rep fb {} cur"
  shows "\<exists>fb'. fb_Flush fb = Some fb' \<and> filter_rep fb' {} []"
  using filter_rep_Flush [OF assms] by (auto simp: filter_rep_def)

lemma tb_Flush_empty: "filter_ok b [] \<Longrightarrow> tb_data_block b = [] \<Longrightarrow> tb_Flush env n b = Some b"
  by (cases b) (auto simp: tb_Flush_def filter_ok_def filter_rep_def fb_Flush_def fb_pending_def)

lemma tb_Flush_block:
  assumes "tb_status b = OK" "filter_ok b cur" "tb_data_block b \<noteq> []"
  shows "\<exists>b'. tb_Flush env n b = Some b' \<and> (tb_status b' = OK \<longrightarrow>
    contents (tb_file b') = contents (tb_file b) @ seal crc (tb_data_block b) \<and>
    on_disk (tb_file b') = contents (tb_file b') \<and> tb_data_block b' = [] \<and> filter_ok b' [] \<and>
    tb_closed b' = tb_closed b \<and> tb_offset b' = tb_offset b + of_nat (length (tb_data_block b)) + 4)"
proof -
  obtain fb where fb0: "tb_filter_block b = Some fb" "filter_rep fb {} cur"
    using assms(2) by (auto simp: filter_ok_def)
  obtain fb' where fb': "fb_Flush fb = Some fb'" "filter_rep fb' {} []"
    using filter_ok_Flush [OF fb0(2)] by blast
  note fb = fb0(1) fb'
  define b1 where "b1 = b\<lparr>tb_filter_block := Some fb'\<rparr>"
  have b1: "tb_data_block b1 = tb_data_block b" "tb_file b1 = tb_file b" "tb_offset b1 = tb_offset b" "tb_closed b1 = tb_closed b"
    by (simp_all add: b1_def)
  obtain h b2 where w: "tb_WriteRawBlock env (tb_data_block b) b1 = (h, b2)"
    by (cases "tb_WriteRawBlock env (tb_data_block b) b1")
  define b3 where "b3 = b2\<lparr>tb_data_block_entry := h, tb_data_block := []\<rparr>"
  obtain st f where fl: "flush (tb_file b3) = (st, f)" by (cases "flush (tb_file b3)")
  define b4 where "b4 = (if tb_status b3 = OK then b3\<lparr>tb_need_next_index_entry := n, tb_file := f, tb_status := st\<rparr> else b3)"
  have r: "tb_Flush env n b = Some b4"
    using assms w fl fb(1,2)
    by (simp add: tb_Flush_def Let_def tb_WriteDataBlock_def b1_def [symmetric] b1 b3_def [symmetric] b4_def) (simp add: env_def)
  moreover have "contents (tb_file b4) = contents (tb_file b) @ seal crc (tb_data_block b) \<and>
    on_disk (tb_file b4) = contents (tb_file b4) \<and> tb_data_block b4 = [] \<and> filter_ok b4 [] \<and>
    tb_closed b4 = tb_closed b \<and> tb_offset b4 = tb_offset b + of_nat (length (tb_data_block b)) + 4"
    if ok4: "tb_status b4 = OK"
  proof -
    have ok2: "tb_status b2 = OK" and st: "st = OK" using ok4 by (auto simp: b4_def b3_def split: if_splits)
    note W = tb_WriteRawBlock_ok [OF w ok2 TrueI TrueI]
    have b4: "b4 = b1\<lparr>tb_offset := tb_offset b1 + of_nat (length (tb_data_block b)) + 4, tb_data_block_entry := h,
        tb_data_block := [], tb_need_next_index_entry := n, tb_file := f, tb_status := OK\<rparr>"
      using ok2 st by (subst b4_def, subst b3_def, subst W(3)) (simp add: b3_def)
    have "contents f = contents (tb_file b2)" "on_disk f = contents (tb_file b2)"
      using flush_ok [of "tb_file b3" f] fl st by (simp_all add: b3_def)
    then show ?thesis using W(1) fb(3) by (simp add: b4 b1) (simp add: filter_ok_def b1_def)
  qed
  ultimately show ?thesis by blast
qed

end

context reliable_table_file
begin

lemma fine_Add_info:
  assumes "fine b" "tb_Add_info env k v info b = Some (info', b')" "small (length (BlockBuilder_Add (tb_data_block b) k v))"
  shows "fine b'"
proof -
  obtain b2 where b2: "tb_add_filter k (tb_add_index b) = Some b2" "b' = b \<or>
     b' = b2\<lparr>tb_num_entries := tb_num_entries b2 + 1, tb_data_block := BlockBuilder_Add (tb_data_block b2) k v\<rparr> \<or>
     tb_Flush env True (b2\<lparr>tb_num_entries := tb_num_entries b2 + 1, tb_data_block := BlockBuilder_Add (tb_data_block b2) k v,
       tb_last_key := k\<rparr>) = Some b'"
    using assms by (auto simp: tb_Add_info_def Let_def fine_def split: if_splits bind_splits)
  have "fine b2" "tb_data_block b2 = tb_data_block b"
    using b2(1) assms(1) by (auto simp: tb_add_filter_def split: option.splits bind_splits)
  moreover have "fine b'" if "tb_Flush env True (b2\<lparr>tb_num_entries := tb_num_entries b2 + 1,
       tb_data_block := BlockBuilder_Add (tb_data_block b2) k v, tb_last_key := k\<rparr>) = Some b'"
    by (rule fine_Flush [OF _ that]) (use calculation assms(3) in simp_all)
  ultimately show ?thesis using b2(2) assms(1) by auto
qed

end

text \<open>\<open>vb_holds b C\<close>: the log is open, has reported no error and everything appended to it, \<open>C\<close>, has
  been handed to the operating system.\<close>

definition vb_holds :: "VLogBuilder \<Rightarrow> bytes \<Rightarrow> bool" where
  "vb_holds b C \<longleftrightarrow> (\<exists>t fb. vb_builder b = Some t \<and> tb_status t = OK \<and> \<not> tb_closed t \<and>
     tb_filter_block t = Some fb \<and> filter_rep fb {} [] \<and> tb_data_block t = [] \<and> pf_contents (tb_file t) = C \<and> fd_data (pf_fd (tb_file t)) = C \<and>
     tb_offset t = of_nat (length C))"

lemma vb_Open_holds:
  assumes "new_file n = Some f" "fd_data (pf_fd f) = []" "pf_buf f = []" "vb_builder b = None"
  shows "\<exists>b'. vb_Open new_file n b = Some (OK, b') \<and> vb_holds b' [] \<and> vb_file_no b' = n"
  using assms by (simp add: vb_Open_def vb_holds_def mk_TableBuilder_def pf_contents_def filter_rep_def
      mk_FilterBlockBuilder_def fb_pending_def fb_slices_def)

lemma vb_Append_key_holds:
  assumes "vb_holds b C" "wf_ikey ik" "length ik < 2 ^ 32"
  shows "\<exists>st b'. vb_Append_key crc ik v info b = Some (st, \<lparr>vi_offset = of_nat (length C), vi_file_no = vb_file_no b,
      vi_length = of_nat (length v + length ik + 8)\<rparr>, b') \<and> vb_file_no b' = vb_file_no b \<and>
    (st = OK \<longrightarrow> vb_holds b' (C @ seal crc (block_entry ik v)))"
proof -
  obtain t fb where t: "vb_builder b = Some t" "tb_status t = OK" "\<not> tb_closed t" "tb_filter_block t = Some fb" "filter_rep fb {} []"
    "tb_data_block t = []" "pf_contents (tb_file t) = C" "fd_data (pf_fd (tb_file t)) = C" "tb_offset t = of_nat (length C)"
    using assms(1) by (auto simp: vb_holds_def)
  let ?e = "posix_env crc"
  define i1 where "i1 = info\<lparr>vi_offset := of_nat (length C), vi_length := of_nat (length v + length ik + 8)\<rparr>"
  define t1 where "t1 = (tb_add_index t)\<lparr>tb_filter_block := Some (fb_AddKey fb (user ik)),
    tb_num_entries := tb_num_entries (tb_add_index t) + 1, tb_data_block := block_entry ik v\<rparr>"
  have "length (user ik) < 2 ^ 32" using assms(3) by (simp add: user_def)
  then have "filter_rep (fb_AddKey fb (user ik)) {} [user ik]" using filter_rep_AddKey [OF t(5), of "user ik"] by simp
  then have t1: "tb_status t1 = OK" "ptable.filter_ok t1 [user ik]" "tb_data_block t1 \<noteq> []" "tb_closed t1 = tb_closed t"
    "tb_offset t1 = tb_offset t" "tb_file t1 = tb_file t" "tb_data_block t1 = block_entry ik v"
    using t by (simp_all add: t1_def ptable.filter_ok_def)
  have fk: "ptable.filter_ok (t\<lparr>tb_last_key := k\<rparr>) cur = ptable.filter_ok t cur" for t :: "PosixWritableFile TableBuilder" and k cur
    by (simp add: ptable.filter_ok_def)
  have add: "tb_Add_info ?e ik v info t =
      (if block_size \<le> length (block_entry ik v) then map_option (Pair i1) (tb_Flush ?e True (t1\<lparr>tb_last_key := ik\<rparr>)) else Some (i1, t1))"
    using t assms(2) by (simp add: tb_Add_info_def tb_add_filter_def Let_def t1_def i1_def BlockBuilder_Add_def ExtractUserKey_user)
  have fin: "vb_holds (b'\<lparr>vb_builder := Some t2\<rparr>) (C @ seal crc (block_entry ik v))"
    if "tb_status t2 = OK" "pf_contents (tb_file t2) = pf_contents (tb_file t1) @ seal crc (tb_data_block t1)"
      "fd_data (pf_fd (tb_file t2)) = pf_contents (tb_file t2)" "tb_data_block t2 = []" "ptable.filter_ok t2 []"
      "tb_closed t2 = tb_closed t1" "tb_offset t2 = tb_offset t1 + of_nat (length (tb_data_block t1)) + 4" for t2 b'
    using that t1 t by (auto simp: vb_holds_def algebra_simps ptable.filter_ok_def)
  show ?thesis
  proof (cases "block_size \<le> length (block_entry ik v)")
    case True
    obtain t2 where t2: "tb_Flush ?e True (t1\<lparr>tb_last_key := ik\<rparr>) = Some t2"
      "tb_status t2 = OK \<longrightarrow> pf_contents (tb_file t2) = pf_contents (tb_file t1) @ seal crc (tb_data_block t1) \<and>
        fd_data (pf_fd (tb_file t2)) = pf_contents (tb_file t2) \<and> tb_data_block t2 = [] \<and> ptable.filter_ok t2 [] \<and>
        tb_closed t2 = tb_closed t1 \<and> tb_offset t2 = tb_offset t1 + of_nat (length (tb_data_block t1)) + 4"
      using ptable.tb_Flush_block [of "t1\<lparr>tb_last_key := ik\<rparr>" "[user ik]" crc True] t1 fk unfolding ptable_env by auto
    have fe: "tb_Flush ?e n (tb_SetLastKey ik t2) = Some (tb_SetLastKey ik t2)" if "tb_status t2 = OK" for n
      using ptable.tb_Flush_empty [of "tb_SetLastKey ik t2" crc n] t2(2) that fk unfolding ptable_env
      by (simp add: tb_SetLastKey_def)
    show ?thesis
    proof (cases "tb_status t2 = OK")
      case ok: True
      then show ?thesis
        using t(1) add t2(1) fe True fin [of "tb_SetLastKey ik t2"] t2(2) fk
        by (simp add: vb_Append_key_def Let_def i1_def tb_SetLastKey_def)
    next
      case False
      then show ?thesis using t(1) add t2(1) True by (simp add: vb_Append_key_def Let_def i1_def)
    qed
  next
    case False
    have "\<exists>t2. tb_Flush ?e n (tb_SetLastKey ik t1) = Some t2 \<and> (tb_status t2 = OK \<longrightarrow>
        pf_contents (tb_file t2) = pf_contents (tb_file t1) @ seal crc (tb_data_block t1) \<and>
        fd_data (pf_fd (tb_file t2)) = pf_contents (tb_file t2) \<and> tb_data_block t2 = [] \<and> ptable.filter_ok t2 [] \<and>
        tb_closed t2 = tb_closed t1 \<and> tb_offset t2 = tb_offset t1 + of_nat (length (tb_data_block t1)) + 4)" for n
      using ptable.tb_Flush_block [of "tb_SetLastKey ik t1" "[user ik]" crc n] t1 fk unfolding ptable_env by (simp add: tb_SetLastKey_def)
    then obtain T where T: "\<And>n. tb_Flush ?e n (tb_SetLastKey ik t1) = Some (T n) \<and> (tb_status (T n) = OK \<longrightarrow>
        pf_contents (tb_file (T n)) = pf_contents (tb_file t1) @ seal crc (tb_data_block t1) \<and>
        fd_data (pf_fd (tb_file (T n))) = pf_contents (tb_file (T n)) \<and> tb_data_block (T n) = [] \<and> ptable.filter_ok (T n) [] \<and>
        tb_closed (T n) = tb_closed t1 \<and> tb_offset (T n) = tb_offset t1 + of_nat (length (tb_data_block t1)) + 4)"
      by metis
    then show ?thesis
      using t(1) add False t1(1) fin by (simp add: vb_Append_key_def Let_def i1_def)
  qed
qed

section \<open>Reading back\<close>

lemma check_entry_seal:
  assumes "small_entry (k, v)" "wf_ikey k"
  shows "check_entry crc live \<lparr>vi_offset = off, vi_file_no = n, vi_length = of_nat (length v + length k + 8)\<rparr> (seal crc (block_entry k v)) =
    Some (case live of None \<Rightarrow> (OK, Some v)
      | Some l \<Rightarrow> if the (ExtractSequenceNumber k) < l then (Expired, None) else (OK, Some v))"
proof -
  have u: "unat (of_nat (length k) :: u32) = length k" "unat (of_nat (length v) :: u32) = length v"
    "unat (of_nat (length k) + of_nat (length v) + 8 :: u32) = length k + length v + 8"
    using assms(1) by (simp_all add: unat_key_size unat_value_size unat_entry_size)
  obtain s where s: "ExtractSequenceNumber k = Some s"
    using assms(2) by (elim ikey_cases) (simp add: ExtractSequenceNumber_def)
  have "drop (8 + length k + length v) (seal crc (block_entry k v)) = EncodeFixed32 (crc (block_entry k v))"
    "bread 8 (length k) (seal crc (block_entry k v)) = Some k" "bread (length k + 8) (length v) (seal crc (block_entry k v)) = Some v"
    by (simp_all add: seal_def block_entry_def)
  moreover have "bread 0 (length k + length v + 8) (seal crc (block_entry k v)) = Some (block_entry k v)"
    by (simp add: seal_def)
  moreover have "DecodeFixed32 (seal crc (block_entry k v)) = Some (of_nat (length k))"
    "DecodeFixed32 (drop 4 (seal crc (block_entry k v))) = Some (of_nat (length v))"
    using block_entry_decode [OF assms(1), of "EncodeFixed32 (crc (block_entry k v))"] by (simp_all add: seal_def)
  moreover have "of_nat (length k) + of_nat (length v) + 8 = (of_nat (length v + length k + 8) :: u32)"
    by (simp add: algebra_simps)
  ultimately show ?thesis using u s
    by (simp add: check_entry_def del: of_nat_add split: option.splits)
qed

definition reader_sound :: "(u32 \<Rightarrow> 'h option) \<Rightarrow> 'h VLogReader \<Rightarrow> bool" where
  "reader_sound open_file r \<longleftrightarrow> lru.sound open_file (vr_lru r)"

lemma vr_InitFile_sound:
  assumes "reader_sound open_file r"
  shows "\<exists>c. vr_InitFile open_file n r = Some (case open_file n of None \<Rightarrow> (IOError, None, r\<lparr>vr_lru := c\<rparr>)
      | Some h \<Rightarrow> (OK, Some h, r\<lparr>vr_lru := c\<rparr>)) \<and> reader_sound open_file (r\<lparr>vr_lru := c\<rparr>)"
proof -
  obtain c where c: "lru.read_through open_file n (vr_lru r) = Some (open_file n, c)" "lru.sound open_file c"
    using lru.read_through_transparent [OF assms [unfolded reader_sound_def], of n] by auto
  obtain g c1 where g: "lru_Get n (vr_lru r) = Some (g, c1)"
    using c(1) by (auto simp: lru.read_through_def split: option.splits)
  show ?thesis
  proof (cases g)
    case (Some h)
    then have "open_file n = Some h" "c1 = c" using c g by (auto simp: lru.read_through_def)
    then show ?thesis using Some c g by (auto simp: vr_InitFile_def reader_sound_def)
  next
    case None
    then show ?thesis using c g
      by (cases "open_file n") (auto simp: vr_InitFile_def lru.read_through_def reader_sound_def)
  qed
qed

lemma mk_VLogReader_sound: "reader_sound open_file (mk_VLogReader live)"
  by (simp add: reader_sound_def lru.sound_def mk_VLogReader_def mk_Lru_Cache_inv)
    (simp add: mk_Lru_Cache_def lru_abs_def)

text \<open>What a pointer record promises: the file contains the sealed entry where it says.\<close>

definition points_to :: "(bytes \<Rightarrow> u32) \<Rightarrow> VLogEntryInfo \<Rightarrow> bytes \<Rightarrow> bytes \<Rightarrow> bytes \<Rightarrow> bool" where
  "points_to crc info C ik v \<longleftrightarrow> vi_length info = of_nat (length v + length ik + 8) \<and>
     (\<exists>pre post. C = pre @ seal crc (block_entry ik v) @ post \<and> vi_offset info = of_nat (length pre))"

lemma points_to_extend: "points_to crc info C ik v \<Longrightarrow> points_to crc info (C @ D) ik v"
  unfolding points_to_def by (metis append.assoc)

lemma vr_Read_points_to:
  assumes "points_to crc info C ik v" "length C < 2 ^ 64" "length ik + length v + 12 < 2 ^ 32" "wf_ikey ik"
    and "reader_sound open_file r" "open_file (vi_file_no info) = Some h" "\<And>off n. pread h off n = Some (take n (drop off C))"
  shows "\<exists>r'. reader_sound open_file r' \<and> vr_live r' = vr_live r \<and> vr_Read crc open_file pread info r =
    Some (case vr_live r of None \<Rightarrow> (OK, Some v, r')
      | Some l \<Rightarrow> if the (ExtractSequenceNumber ik) < l then (Expired, None, r') else (OK, Some v, r'))"
proof -
  obtain pre post where C: "C = pre @ seal crc (block_entry ik v) @ post" and off: "vi_offset info = of_nat (length pre)"
    and len: "vi_length info = of_nat (length v + length ik + 8)"
    using assms(1) by (auto simp: points_to_def)
  have "length pre < 2 ^ 64" using assms(2) C by simp
  then have o: "unat (vi_offset info) = length pre" unfolding off by (intro unat_of_nat_u64) simp
  have "vi_length info + of_nat kBlockTrailerSize = of_nat (length v + length ik + 12)"
    unfolding len by (simp add: kBlockTrailerSize_def)
  then have n: "unat (vi_length info + of_nat kBlockTrailerSize) = length (seal crc (block_entry ik v))"
    using assms(3) by (simp add: unat_of_nat_u32 algebra_simps del: of_nat_add)
  have sm: "small_entry (ik, v)" using assms(3) by (simp add: small_entry_def)
  have i: "info = \<lparr>vi_offset = vi_offset info, vi_file_no = vi_file_no info, vi_length = of_nat (length v + length ik + 8)\<rparr>"
    using len by simp
  have ce: "check_entry crc live info (seal crc (block_entry ik v)) = Some (case live of None \<Rightarrow> (OK, Some v)
      | Some l \<Rightarrow> if the (ExtractSequenceNumber ik) < l then (Expired, None) else (OK, Some v))" for live
    by (subst i) (rule check_entry_seal [OF sm assms(4)])
  obtain c where c: "vr_InitFile open_file (vi_file_no info) r = Some (OK, Some h, r\<lparr>vr_lru := c\<rparr>)"
      "reader_sound open_file (r\<lparr>vr_lru := c\<rparr>)"
    using vr_InitFile_sound [OF assms(5), of "vi_file_no info"] assms(6) by auto
  have "pread h (unat (vi_offset info)) (unat (vi_length info + of_nat kBlockTrailerSize)) = Some (seal crc (block_entry ik v))"
    unfolding o n assms(7) C by simp
  then show ?thesis
    using c ce n by (intro exI [of _ "r\<lparr>vr_lru := c\<rparr>"])
      (simp add: vr_Read_def Let_def split: option.splits)
qed

text \<open>A sequence of appends that stops at the first error.\<close>

fun vb_run :: "(bytes \<Rightarrow> u32) \<Rightarrow> (u64 \<times> bytes \<times> bytes) list \<Rightarrow> VLogBuilder \<Rightarrow> (Status \<times> VLogEntryInfo list \<times> VLogBuilder) option" where
  "vb_run crc [] b = Some (OK, [], b)"
| "vb_run crc ((s, k, v) # ops) b = do {
     (st, info, b1) \<leftarrow> vb_Append crc s k v vi_zero b;
     if \<not> ok st then Some (st, [], b1)
     else do { (st2, infos, b2) \<leftarrow> vb_run crc ops b1; Some (st2, info # infos, b2) } }"

lemma vb_run_points_to:
  assumes "vb_holds b C" "\<forall>(s, k, v) \<in> set ops. length k + 8 < 2 ^ 32"
  shows "\<exists>st infos b'. vb_run crc ops b = Some (st, infos, b') \<and> vb_file_no b' = vb_file_no b \<and> (st = OK \<longrightarrow>
    (\<exists>D. vb_holds b' (C @ D) \<and> length infos = length ops \<and>
      (\<forall>i < length ops. vi_file_no (infos ! i) = vb_file_no b \<and>
        points_to crc (infos ! i) (C @ D) (vb_EncodeKey (fst (snd (ops ! i))) (fst (ops ! i))) (snd (snd (ops ! i))))))"
  using assms
proof (induction ops arbitrary: b C)
  case Nil
  then show ?case by (auto intro!: exI [of _ "[]"])
next
  case (Cons op ops)
  obtain s k v where op: "op = (s, k, v)" by (cases op)
  let ?ik = "vb_EncodeKey k s" and ?S = "seal crc (block_entry (vb_EncodeKey k s) v)"
  obtain st b1 where b1: "vb_Append crc s k v vi_zero b = Some (st, \<lparr>vi_offset = of_nat (length C), vi_file_no = vb_file_no b,
      vi_length = of_nat (length v + length ?ik + 8)\<rparr>, b1)" "vb_file_no b1 = vb_file_no b"
      "st = OK \<longrightarrow> vb_holds b1 (C @ ?S)"
    using vb_Append_key_holds [OF Cons.prems(1), of ?ik crc v vi_zero] Cons.prems(2) op unfolding vb_Append_def
    by (auto simp: vb_EncodeKey_def)
  show ?case
  proof (cases "st = OK")
    case False
    then show ?thesis using b1 op by simp
  next
    case True
    obtain st2 infos b2 where r: "vb_run crc ops b1 = Some (st2, infos, b2)" "vb_file_no b2 = vb_file_no b1"
      "st2 = OK \<longrightarrow> (\<exists>D. vb_holds b2 ((C @ ?S) @ D) \<and> length infos = length ops \<and>
        (\<forall>i < length ops. vi_file_no (infos ! i) = vb_file_no b1 \<and>
          points_to crc (infos ! i) ((C @ ?S) @ D) (vb_EncodeKey (fst (snd (ops ! i))) (fst (ops ! i))) (snd (snd (ops ! i)))))"
      using Cons.IH [of b1 "C @ ?S"] b1(3) True Cons.prems(2) by auto
    have p: "points_to crc \<lparr>vi_offset = of_nat (length C), vi_file_no = vb_file_no b, vi_length = of_nat (length v + length ?ik + 8)\<rparr>
        (C @ ?S @ D) ?ik v" for D
      by (auto simp: points_to_def)
    have r2: "st2 = OK \<longrightarrow> (\<exists>D. vb_holds b2 (C @ D) \<and> length infos = length ops \<and>
        (\<forall>i < Suc (length ops). vi_file_no ((\<lparr>vi_offset = of_nat (length C), vi_file_no = vb_file_no b,
            vi_length = of_nat (length v + length ?ik + 8)\<rparr> # infos) ! i) = vb_file_no b \<and>
          points_to crc ((\<lparr>vi_offset = of_nat (length C), vi_file_no = vb_file_no b,
            vi_length = of_nat (length v + length ?ik + 8)\<rparr> # infos) ! i) (C @ D)
            (vb_EncodeKey (fst (snd ((op # ops) ! i))) (fst ((op # ops) ! i))) (snd (snd ((op # ops) ! i)))))"
    proof
      assume "st2 = OK"
      with r(3) obtain D where D: "vb_holds b2 ((C @ ?S) @ D)" "length infos = length ops"
        "\<forall>i < length ops. vi_file_no (infos ! i) = vb_file_no b1 \<and>
          points_to crc (infos ! i) ((C @ ?S) @ D) (vb_EncodeKey (fst (snd (ops ! i))) (fst (ops ! i))) (snd (snd (ops ! i)))"
        by blast
      show "\<exists>D. vb_holds b2 (C @ D) \<and> length infos = length ops \<and>
        (\<forall>i < Suc (length ops). vi_file_no ((\<lparr>vi_offset = of_nat (length C), vi_file_no = vb_file_no b,
            vi_length = of_nat (length v + length ?ik + 8)\<rparr> # infos) ! i) = vb_file_no b \<and>
          points_to crc ((\<lparr>vi_offset = of_nat (length C), vi_file_no = vb_file_no b,
            vi_length = of_nat (length v + length ?ik + 8)\<rparr> # infos) ! i) (C @ D)
            (vb_EncodeKey (fst (snd ((op # ops) ! i))) (fst ((op # ops) ! i))) (snd (snd ((op # ops) ! i))))"
        using D p [of D] b1(2) op by (intro exI [of _ "?S @ D"]) (auto simp: less_Suc_eq_0_disj)
    qed
    show ?thesis using b1 True r(1,2) r2 op by auto
  qed
qed

text \<open>On an operating system that never fails the appends succeed.\<close>

lemma vb_Append_key_fine:
  assumes "vb_builder b = Some t" "pgood.fine t" "vb_Append_key crc ik v info b = Some (st, info', b')"
  shows "st = OK \<and> (\<exists>t'. vb_builder b' = Some t' \<and> pgood.fine t')"
proof -
  have S: "pgood.fine (tb_SetLastKey k t1) = pgood.fine t1" for k t1 by (simp add: tb_SetLastKey_def)
  obtain i1 t1 where t1: "tb_Add_info (posix_env crc) ik v info t = Some (i1, t1)"
    using assms(1,3) by (auto simp: vb_Append_key_def split: bind_splits)
  then have f1: "pgood.fine t1" using pgood.fine_Add_info [of t crc] assms(2) unfolding ptable_env by blast
  then have "tb_status t1 = OK" by (simp add: pgood.fine_def)
  then obtain n t2 where t2: "tb_Flush (posix_env crc) n (tb_SetLastKey ik t1) = Some t2" "st = tb_status t2" "vb_builder b' = Some t2"
    using assms(1,3) t1 by (auto simp: vb_Append_key_def Let_def split: bind_splits)
  have "pgood.fine t2" using pgood.fine_Flush [of "tb_SetLastKey ik t1" crc] f1 S t2(1) unfolding ptable_env by blast
  then show ?thesis using t2 by (simp add: pgood.fine_def)
qed

lemma vb_run_fine:
  "vb_builder b = Some t \<Longrightarrow> pgood.fine t \<Longrightarrow> vb_run crc ops b = Some (st, infos, b') \<Longrightarrow> st = OK"
proof (induction ops arbitrary: b t infos)
  case (Cons op ops)
  obtain s k v where op: "op = (s, k, v)" by (cases op)
  obtain st1 i1 b1 where a: "vb_Append crc s k v vi_zero b = Some (st1, i1, b1)"
    using Cons.prems(3) op by (auto split: bind_splits)
  then have b1: "st1 = OK" "\<exists>t'. vb_builder b1 = Some t' \<and> pgood.fine t'"
    using vb_Append_key_fine Cons.prems(1,2) unfolding vb_Append_def by blast+
  then show ?case using Cons.IH Cons.prems(3) a op by (auto split: bind_splits)
qed simp

section \<open>Properties\<close>

text \<open>C9. What is appended to the value log can be read back. Open a fresh log file and append any
  sequence of writes. The appends always return, and succeed if the operating system never fails; if they all succeed, then for every one of them,
  however many came after it, reading the pointer record it handed out returns exactly its value,
  or Expired when its sequence number is below the last living one, through the reader's cache of
  open files.\<close>

theorem vlog_append_read:
  assumes "new_file n = Some f" "fd_data (pf_fd f) = []" "pf_buf f = []"
    and "\<forall>(s, k, v) \<in> set ops. length k + length v + 20 < 2 ^ 32"
  shows "\<exists>b0 st infos b t. vb_Open new_file n mk_VLogBuilder = Some (OK, b0) \<and> vb_run crc ops b0 = Some (st, infos, b) \<and>
    (pf_good f \<longrightarrow> st = OK) \<and>
    (st = OK \<longrightarrow> length infos = length ops \<and> vb_builder b = Some t \<and>
      (length (fd_data (pf_fd (tb_file t))) < 2 ^ 64 \<longrightarrow>
       (\<forall>i < length ops. \<forall>open_file pread (r :: 'h VLogReader) h. reader_sound open_file r \<and> open_file n = Some h \<and>
          (\<forall>off m. pread h off m = Some (take m (drop off (fd_data (pf_fd (tb_file t)))))) \<longrightarrow>
          (\<exists>r'. reader_sound open_file r' \<and> vr_Read crc open_file pread (infos ! i) r =
            Some (if vr_live r \<noteq> None \<and> drop_bit 8 (fst (ops ! i)) < the (vr_live r) then (Expired, None, r')
                  else (OK, Some (snd (snd (ops ! i))), r'))))))"
proof -
  obtain b0 where b0: "vb_Open new_file n mk_VLogBuilder = Some (OK, b0)" "vb_holds b0 []" "vb_file_no b0 = n"
    using vb_Open_holds [where new_file = new_file and n = n, OF assms(1-3), of mk_VLogBuilder] by (auto simp: mk_VLogBuilder_def)
  have kb: "\<forall>(s, k, v) \<in> set ops. length k + 8 < 2 ^ 32" using assms(4) by auto
  obtain st infos b where run: "vb_run crc ops b0 = Some (st, infos, b)"
    and ok: "st = OK \<longrightarrow> (\<exists>D. vb_holds b D \<and> length infos = length ops \<and>
      (\<forall>i < length ops. vi_file_no (infos ! i) = n \<and>
        points_to crc (infos ! i) D (vb_EncodeKey (fst (snd (ops ! i))) (fst (ops ! i))) (snd (snd (ops ! i)))))"
    using vb_run_points_to [OF b0(2) kb, of crc] unfolding b0(3) by auto
  have "\<exists>t. st = OK \<longrightarrow> length infos = length ops \<and> vb_builder b = Some t \<and>
      (length (fd_data (pf_fd (tb_file t))) < 2 ^ 64 \<longrightarrow>
       (\<forall>i < length ops. \<forall>open_file pread (r :: 'h VLogReader) h. reader_sound open_file r \<and> open_file n = Some h \<and>
          (\<forall>off m. pread h off m = Some (take m (drop off (fd_data (pf_fd (tb_file t)))))) \<longrightarrow>
          (\<exists>r'. reader_sound open_file r' \<and> vr_Read crc open_file pread (infos ! i) r =
            Some (if vr_live r \<noteq> None \<and> drop_bit 8 (fst (ops ! i)) < the (vr_live r) then (Expired, None, r')
                  else (OK, Some (snd (snd (ops ! i))), r')))))"
  proof (cases "st = OK")
    case True
    with ok obtain D where D: "vb_holds b D" "length infos = length ops"
      and pt: "\<And>i. i < length ops \<Longrightarrow> vi_file_no (infos ! i) = n"
        "\<And>i. i < length ops \<Longrightarrow> points_to crc (infos ! i) D (vb_EncodeKey (fst (snd (ops ! i))) (fst (ops ! i))) (snd (snd (ops ! i)))"
      by blast
    obtain t where t: "vb_builder b = Some t" "fd_data (pf_fd (tb_file t)) = D" using D(1) by (auto simp: vb_holds_def)
    have "\<exists>r'. reader_sound open_file r' \<and> vr_Read crc open_file pread (infos ! i) r =
            Some (if vr_live r \<noteq> None \<and> drop_bit 8 (fst (ops ! i)) < the (vr_live r) then (Expired, None, r')
                  else (OK, Some (snd (snd (ops ! i))), r'))"
      if i: "i < length ops" and "length D < 2 ^ 64" "reader_sound open_file r" "open_file n = Some h"
        "\<forall>off m. pread h off m = Some (take m (drop off D))" for i open_file pread and r :: "'h VLogReader" and h
    proof -
      obtain s k v where op: "ops ! i = (s, k, v)" by (cases "ops ! i")
      then have "(s, k, v) \<in> set ops" using i nth_mem by metis
      then have "length k + length v + 20 < 2 ^ 32" using assms(4) by auto
      then have "length (vb_EncodeKey k s) + length v + 12 < 2 ^ 32" "wf_ikey (vb_EncodeKey k s)"
        by (simp_all add: vb_EncodeKey_def)
      moreover have "the (ExtractSequenceNumber (vb_EncodeKey k s)) = drop_bit 8 s"
        by (simp add: vb_EncodeKey_def ExtractSequenceNumber_def)
      ultimately show ?thesis
        using vr_Read_points_to [where info = "infos ! i" and C = D and ik = "vb_EncodeKey k s" and v = v and r = r
            and open_file = open_file and h = h and pread = pread and crc = crc] pt [OF i] that op
        by (auto split: option.splits)
    qed
    then show ?thesis using t D(2) by (intro exI [of _ t]) (unfold t(2), blast)
  qed auto
  moreover have "st = OK" if "pf_good f"
  proof -
    have "vb_builder b0 = Some (mk_TableBuilder f True)" using b0(1) assms(1) by (auto simp: vb_Open_def split: if_splits)
    moreover have "pgood.fine (mk_TableBuilder f True)" using that by (simp add: pgood.fine_def mk_TableBuilder_def)
    ultimately show ?thesis using vb_run_fine run by blast
  qed
  ultimately show ?thesis using b0(1) run by blast
qed

theorem vlog_append_read_witness:
  "\<exists>b0 infos b t. vb_Open (\<lambda>_. Some \<lparr>pf_buf = [], pf_fd = \<lparr>fd_data = [], fd_durable = [], fd_writes = [], fd_syncs = [],
        fd_close_ok = True\<rparr>, pf_is_open = True\<rparr>) 0 mk_VLogBuilder = Some (OK, b0) \<and>
     vb_run (\<lambda>_. 7) [(pack 1 kTypeValue, [0x61], [1, 2, 3]), (pack 2 kTypeValue, [0x62], [])] b0 = Some (OK, infos, b) \<and>
     length infos = 2 \<and> vb_builder b = Some t"
  using vlog_append_read [of "\<lambda>_. Some \<lparr>pf_buf = [], pf_fd = \<lparr>fd_data = [], fd_durable = [], fd_writes = [], fd_syncs = [],
      fd_close_ok = True\<rparr>, pf_is_open = True\<rparr>" 0 _ "[(pack 1 kTypeValue, [0x61], [1, 2, 3]), (pack 2 kTypeValue, [0x62], [])]"
      "\<lambda>_. 7", where 'h = nat] by (auto simp: pf_good_def)

end
