(* ===== verification/Uring_File.thy ===== *)
theory Uring_File
  imports Writable_File
begin

text \<open>
  \<open>UringWritableFile\<close> (\<^verbatim>\<open>src/file.cpp\<close>, \<^verbatim>\<open>src/include/file.h\<close>): the file that table builders write to.
  Data is copied into one of two chunks; a full chunk is handed to the kernel through an
  \<open>io_uring\<close> and written while the other one is filled. The kernel performs submitted requests in
  any order; a write reads its chunk when it is performed. What the kernel does is given by two
  lists in the state: whether each \<open>io_uring_submit\<close> succeeds, and what each look at the completion
  queue shows (which of the requests in flight have completed, and how, or an error of the call).
  When a list is used up, submissions succeed and everything in flight completes in order. \<open>None\<close>
  is a wait that never returns or a request taken from a full ring (a null pointer).
\<close>

section \<open>The ring and the kernel\<close>

datatype ur_source = Chunk nat | Direct bytes
datatype ur_request = UWrite nat ur_source nat nat | UFsync nat
datatype ur_result = Full | Short nat | UError
datatype ur_look = Reap "(nat \<times> ur_result) list" | LookFailed

record UringWritableFile =
  ur_open :: bool
  ur_offset :: nat
  ur_pos :: nat
  ur_ready :: "bool list"
  ur_chunks :: "bytes list"
  ur_chunk_pos :: u32
  ur_sq :: "ur_request list"
  ur_inflight :: "ur_request list"
  ur_data :: bytes
  ur_durable :: bytes
  ur_submits :: "bool list"
  ur_looks :: "ur_look list"

definition kChunkSize :: nat where "kChunkSize = kWritableFileBufferSize div 2"

definition kSyncTag :: nat where "kSyncTag = 3"
definition kLargeValueTag :: nat where "kLargeValueTag = 4"

definition chunk_of :: "u32 \<Rightarrow> nat" where "chunk_of c = unat (c AND 1)"

definition MaskChunk :: "u32 \<Rightarrow> nat" where "MaskChunk c = chunk_of c + 1"

fun req_tag :: "ur_request \<Rightarrow> nat" where
  "req_tag (UWrite t _ _ _) = t"
| "req_tag (UFsync t) = t"

text \<open>A positioned write: a gap before the position is filled with zeros.\<close>

definition pwrite :: "nat \<Rightarrow> bytes \<Rightarrow> bytes \<Rightarrow> bytes" where
  "pwrite off d file = (if d = [] then file
     else take off (file @ replicate (off - length file) 0) @ d @ drop (off + length d) file)"

fun source_bytes :: "UringWritableFile \<Rightarrow> ur_source \<Rightarrow> bytes" where
  "source_bytes f (Chunk i) = ur_chunks f ! i"
| "source_bytes f (Direct d) = d"

fun result_len :: "ur_result \<Rightarrow> nat \<Rightarrow> nat" where
  "result_len Full n = n"
| "result_len (Short m) n = min m n"
| "result_len UError n = 0"

fun perform :: "ur_request \<Rightarrow> ur_result \<Rightarrow> UringWritableFile \<Rightarrow> UringWritableFile" where
  "perform (UWrite t src off len) r f =
     f\<lparr>ur_data := pwrite off (take (result_len r len) (source_bytes f src)) (ur_data f)\<rparr>"
| "perform (UFsync t) r f = (if r = UError then f else f\<lparr>ur_durable := ur_data f\<rparr>)"

definition remove_nth :: "nat \<Rightarrow> 'a list \<Rightarrow> 'a list" where
  "remove_nth i xs = take i xs @ drop (Suc i) xs"

section \<open>Operations\<close>

definition mk_UringWritableFile :: "bool list \<Rightarrow> ur_look list \<Rightarrow> UringWritableFile" where
  "mk_UringWritableFile submits looks = \<lparr>ur_open = True, ur_offset = 0, ur_pos = 0, ur_ready = [True, True],
     ur_chunks = [replicate kChunkSize 0, replicate kChunkSize 0], ur_chunk_pos = 0, ur_sq = [], ur_inflight = [],
     ur_data = [], ur_durable = [], ur_submits = submits, ur_looks = looks\<rparr>"

text \<open>\<open>io_uring_get_sqe\<close> and the request written into it; the ring has sixteen slots.\<close>

definition queue_request :: "ur_request \<Rightarrow> UringWritableFile \<Rightarrow> UringWritableFile option" where
  "queue_request q f = (if 16 \<le> length (ur_sq f) then None else Some (f\<lparr>ur_sq := ur_sq f @ [q]\<rparr>))"

definition ring_submit :: "UringWritableFile \<Rightarrow> Status \<times> UringWritableFile" where
  "ring_submit f =
     (case ur_submits f of
        False # ss \<Rightarrow> (IOError, f\<lparr>ur_submits := ss\<rparr>)
      | ss \<Rightarrow> (OK, f\<lparr>ur_submits := tl ss, ur_sq := [], ur_inflight := ur_inflight f @ ur_sq f\<rparr>))"

text \<open>A completion as the loop over the completion queue sees it: the request has been performed, it
  leaves the ring, and its chunk becomes ready.\<close>

definition complete_request :: "nat \<Rightarrow> ur_result \<Rightarrow> UringWritableFile \<Rightarrow> UringWritableFile" where
  "complete_request i r f =
     (let q = ur_inflight f ! i; t = req_tag q; f1 = (perform q r f)\<lparr>ur_inflight := remove_nth i (ur_inflight f)\<rparr> in
      if t = 1 then f1\<lparr>ur_ready := (ur_ready f1)[0 := True]\<rparr>
      else if t = 2 then f1\<lparr>ur_ready := (ur_ready f1)[1 := True]\<rparr> else f1)"

text \<open>One pass of \<open>io_uring_for_each_cqe\<close>: the status of the pass and whether the tag was seen.\<close>

fun reap :: "nat \<Rightarrow> (nat \<times> ur_result) list \<Rightarrow> Status \<Rightarrow> bool \<Rightarrow> UringWritableFile \<Rightarrow> Status \<times> bool \<times> UringWritableFile" where
  "reap tag [] st found f = (st, found, f)"
| "reap tag ((i, r) # cs) st found f =
     (if length (ur_inflight f) \<le> i then reap tag cs st found f
      else reap tag cs (if r = UError \<and> ok st then IOError else st) (found \<or> req_tag (ur_inflight f ! i) = tag)
        (complete_request i r f))"

definition all_done :: "UringWritableFile \<Rightarrow> (nat \<times> ur_result) list" where
  "all_done f = replicate (length (ur_inflight f)) (0, Full)"

function ProcessCompletions :: "nat \<Rightarrow> UringWritableFile \<Rightarrow> (Status \<times> UringWritableFile) option" where
  "ProcessCompletions tag f =
     (case ur_looks f of
        [] \<Rightarrow> (case reap tag (all_done f) OK False f of
            (st, found, f1) \<Rightarrow> if found \<or> \<not> ok st then Some (st, f1) else None)
      | LookFailed # ls \<Rightarrow> Some (IOError, f\<lparr>ur_looks := ls\<rparr>)
      | Reap cs # ls \<Rightarrow> (case reap tag cs OK False (f\<lparr>ur_looks := ls\<rparr>) of
            (st, found, f1) \<Rightarrow> if found \<or> \<not> ok st then Some (st, f1) else ProcessCompletions tag f1))"
  by pat_completeness auto

text \<open>What a pass changes.\<close>

lemma complete_frame [simp]:
  "ur_looks (complete_request i r f) = ur_looks f" "ur_pos (complete_request i r f) = ur_pos f"
  "ur_offset (complete_request i r f) = ur_offset f" "ur_chunks (complete_request i r f) = ur_chunks f"
  "ur_chunk_pos (complete_request i r f) = ur_chunk_pos f" "ur_open (complete_request i r f) = ur_open f"
  "ur_sq (complete_request i r f) = ur_sq f" "ur_submits (complete_request i r f) = ur_submits f"
  "ur_inflight (complete_request i r f) = remove_nth i (ur_inflight f)"
  by (cases "ur_inflight f ! i"; simp add: complete_request_def Let_def)+

lemma reap_frame:
  "reap tag cs st found f = (st', found', f') \<Longrightarrow>
     ur_looks f' = ur_looks f \<and> ur_pos f' = ur_pos f \<and> ur_offset f' = ur_offset f \<and> ur_chunks f' = ur_chunks f \<and>
     ur_chunk_pos f' = ur_chunk_pos f \<and> ur_open f' = ur_open f \<and> ur_sq f' = ur_sq f \<and> ur_submits f' = ur_submits f"
  by (induction tag cs st found f rule: reap.induct) (auto split: if_splits)

termination ProcessCompletions
  by (relation "measure (\<lambda>(tag, f). length (ur_looks f))") (auto dest: reap_frame [OF sym])

declare ProcessCompletions.simps [simp del]

definition SubmitIO :: "UringWritableFile \<Rightarrow> (Status \<times> UringWritableFile) option" where
  "SubmitIO f =
     (if ur_pos f = 0 then Some (NotFound, f)
      else do {
        let c = chunk_of (ur_chunk_pos f);
        f1 \<leftarrow> queue_request (UWrite (MaskChunk (ur_chunk_pos f)) (Chunk c) (ur_offset f) (ur_pos f)) f;
        Some (ring_submit (f1\<lparr>ur_ready := (ur_ready f1)[c := False], ur_chunk_pos := ur_chunk_pos f1 + 1,
          ur_offset := ur_offset f1 + ur_pos f1, ur_pos := 0\<rparr>)) })"

definition ur_Flush :: "UringWritableFile \<Rightarrow> (Status \<times> UringWritableFile) option" where
  "ur_Flush f = do {
     (st, f1) \<leftarrow> SubmitIO f;
     if ok st \<and> \<not> ur_ready f1 ! chunk_of (ur_chunk_pos f1)
     then ProcessCompletions (MaskChunk (ur_chunk_pos f1)) f1
     else Some (OK, f1) }"

lemma ProcessCompletions_frame:
  "ProcessCompletions tag f = Some (st, f') \<Longrightarrow> ur_pos f' = ur_pos f"
proof (induction tag f rule: ProcessCompletions.induct)
  case (1 tag f)
  from "1.prems" show ?case
    using "1.IH" by (subst (asm) ProcessCompletions.simps)
      (fastforce split: list.splits ur_look.splits prod.splits if_splits dest: reap_frame)
qed

lemma SubmitIO_pos: "SubmitIO f = Some (st, f') \<Longrightarrow> ur_pos f' = 0"
  by (auto simp: SubmitIO_def queue_request_def ring_submit_def Let_def split: if_splits list.splits bool.splits)

lemma ur_Flush_pos: "ur_Flush f = Some (st, f') \<Longrightarrow> ur_pos f' = 0"
  by (auto simp: ur_Flush_def split: if_splits bind_splits dest!: SubmitIO_pos ProcessCompletions_frame)

text \<open>The first part of \<open>Append\<close>: copy what fits into the current chunk.\<close>

definition ur_copy :: "bytes \<Rightarrow> UringWritableFile \<Rightarrow> (bytes \<times> nat \<times> UringWritableFile) option" where
  "ur_copy data0 f = do {
     let data = take (unat (of_nat (length data0) :: u32)) data0;
     let copy_size = min (length data) (kChunkSize - ur_pos f);
     let c = chunk_of (ur_chunk_pos f);
     chunk \<leftarrow> bwrite (ur_pos f) (take copy_size data) (ur_chunks f ! c);
     Some (drop copy_size data, copy_size, f\<lparr>ur_chunks := (ur_chunks f)[c := chunk], ur_pos := ur_pos f + copy_size\<rparr>) }"

lemma ur_copy_rest:
  assumes "ur_copy data f = Some (rest, n, f1)"
  shows "length rest + n \<le> length data" "rest \<noteq> [] \<Longrightarrow> ur_pos f = 0 \<Longrightarrow> 0 < n"
proof -
  define d where "d = take (unat (of_nat (length data) :: u32)) data"
  have n: "n = min (length d) (kChunkSize - ur_pos f)" and r: "rest = drop n d"
    using assms by (auto simp: ur_copy_def Let_def d_def split: bind_splits)
  have "length d \<le> length data" by (simp add: d_def)
  then show "length rest + n \<le> length data" using n r by auto
  show "0 < n" if "rest \<noteq> []" "ur_pos f = 0"
    using n r that by (auto simp: kChunkSize_def kWritableFileBufferSize_def)
qed

function ur_Append :: "bytes \<Rightarrow> UringWritableFile \<Rightarrow> (Status \<times> UringWritableFile) option" where
  "ur_Append data f =
     (case ur_copy data f of None \<Rightarrow> None
      | Some (rest, copy_size, f1) \<Rightarrow>
          if rest = [] then Some (OK, f1)
          else (case ur_Flush f1 of None \<Rightarrow> None
            | Some (st, f2) \<Rightarrow>
                if \<not> ok st then Some (st, f2)
                else if length rest < kWritableFileBufferSize then ur_Append rest f2
                else do {
                  f3 \<leftarrow> queue_request (UWrite kLargeValueTag (Direct rest) (ur_offset f2) (length rest)) f2;
                  let (st, f4) = ring_submit (f3\<lparr>ur_offset := ur_offset f3 + copy_size\<rparr>);
                  if \<not> ok st then Some (IOError, f4) else ProcessCompletions kLargeValueTag f4 }))"
  by pat_completeness auto
termination
proof (relation "measure (\<lambda>(d, f). 2 * length d + (if ur_pos f = 0 then 0 else 1))", goal_cases)
  case (2 data f x rest y n f1 z st f2)
  then have c: "ur_copy data f = Some (rest, n, f1)" and r: "rest \<noteq> []" and "ur_Flush f1 = Some (st, f2)" by simp_all
  then have "ur_pos f2 = 0" by (auto dest: ur_Flush_pos)
  then show ?case using ur_copy_rest [OF c] r by (cases "ur_pos f = 0") auto
qed simp

declare ur_Append.simps [simp del]

definition ur_Sync :: "UringWritableFile \<Rightarrow> (Status \<times> UringWritableFile) option" where
  "ur_Sync f = do {
     (_, f1) \<leftarrow> ur_Flush f;
     f2 \<leftarrow> queue_request (UFsync kSyncTag) f1;
     let (st, f3) = ring_submit f2;
     if \<not> ok st then Some (IOError, f3) else ProcessCompletions kSyncTag f3 }"

definition ur_Close :: "UringWritableFile \<Rightarrow> (Status \<times> UringWritableFile) option" where
  "ur_Close f =
     (if \<not> ur_open f then Some (OK, f)
      else do {
        let chunk = ur_chunk_pos f;
        f1 \<leftarrow> (if \<not> ur_ready f ! chunk_of (chunk + 1) then map_option snd (ProcessCompletions (MaskChunk (chunk + 1)) f)
               else Some f);
        (st, f2) \<leftarrow> SubmitIO f1;
        f3 \<leftarrow> (if ok st then map_option snd (ProcessCompletions (MaskChunk chunk) f2) else Some f2);
        Some (OK, f3\<lparr>ur_open := False\<rparr>) })"

section \<open>Chunks in flight\<close>

lemma chunk_of_eq: "chunk_of c = of_bool (odd c)"
  by (simp add: chunk_of_def and_one_eq mod_2_eq_odd)

lemma chunk_of_lt: "chunk_of c < 2" "chunk_of c \<le> 1"
  by (simp_all add: chunk_of_eq)

lemma chunk_of_Suc: "chunk_of (c + 1) = 1 - chunk_of c"
  by (simp add: chunk_of_eq)

lemma pwrite_simps:
  "pwrite (length D) X D = D @ X" "pwrite off [] D = D"
  "pwrite (length D) X (pwrite (length D + length X) Y D) = D @ X @ Y"
  "pwrite (length D + length X) Y (D @ X) = D @ X @ Y"
  by (simp_all add: pwrite_def)

text \<open>A kernel that may complete requests in any order and group, but completes them in full.\<close>

definition ur_reliable :: "UringWritableFile \<Rightarrow> bool" where
  "ur_reliable f \<longleftrightarrow> ur_submits f = [] \<and> (\<forall>l \<in> set (ur_looks f). \<exists>cs. l = Reap cs \<and> (\<forall>c \<in> set cs. snd c = Full))"

definition ur_shape :: "UringWritableFile \<Rightarrow> bool" where
  "ur_shape f \<longleftrightarrow> ur_open f \<and> ur_sq f = [] \<and> length (ur_chunks f) = 2 \<and> (\<forall>c \<in> set (ur_chunks f). length c = kChunkSize) \<and>
     ur_pos f \<le> kChunkSize"

text \<open>\<open>mid f x D nx ny a b s\<close>: the bytes \<open>D\<close> are in the file; the first \<open>nx\<close> bytes of chunk \<open>x\<close> follow
  them and the first \<open>ny\<close> bytes of the other chunk come next. \<open>a\<close> and \<open>b\<close> tell whether these writes
  are in flight and \<open>s\<close> whether an \<open>fsync\<close> is.\<close>

definition mid :: "UringWritableFile \<Rightarrow> nat \<Rightarrow> bytes \<Rightarrow> nat \<Rightarrow> nat \<Rightarrow> bool \<Rightarrow> bool \<Rightarrow> bool \<Rightarrow> bool" where
  "mid f x D nx ny a b s \<longleftrightarrow> x < 2 \<and> nx \<le> kChunkSize \<and> ny \<le> kChunkSize \<and> (a \<longrightarrow> 0 < nx) \<and> (b \<longrightarrow> 0 < ny) \<and>
     ur_inflight f = (if a then [UWrite (x + 1) (Chunk x) (length D) nx] else []) @
       (if b then [UWrite (2 - x) (Chunk (1 - x)) (length D + nx) ny] else []) @ (if s then [UFsync kSyncTag] else []) \<and>
     ur_data f = (let X = take nx (ur_chunks f ! x); Y = take ny (ur_chunks f ! (1 - x)) in
       if a then (if b then D else pwrite (length D + nx) Y D) else if b then D @ X else D @ X @ Y) \<and>
     ur_ready f = (if x = 0 then [\<not> a, \<not> b] else [\<not> b, \<not> a])"

definition ur_holds :: "UringWritableFile \<Rightarrow> bytes \<Rightarrow> bool" where
  "ur_holds f C \<longleftrightarrow> ur_shape f \<and> ur_reliable f \<and>
     (\<exists>D n a. let cur = chunk_of (ur_chunk_pos f); x = 1 - cur in
        mid f x D n 0 a False False \<and> ur_offset f = length D + n \<and>
        C = D @ take n (ur_chunks f ! x) @ take (ur_pos f) (ur_chunks f ! cur))"

lemma mid_chunk:
  assumes "ur_shape f" "x < 2" "n \<le> kChunkSize"
  shows "length (take n (ur_chunks f ! x)) = n" "length (take n (ur_chunks f ! (1 - x))) = n"
proof -
  have "ur_chunks f ! x \<in> set (ur_chunks f)" "ur_chunks f ! (1 - x) \<in> set (ur_chunks f)"
    using assms by (simp_all add: ur_shape_def)
  then show "length (take n (ur_chunks f ! x)) = n" "length (take n (ur_chunks f ! (1 - x))) = n"
    using assms by (auto simp: ur_shape_def)
qed

lemma mid_shift:
  "x < 2 \<Longrightarrow> ur_shape f \<Longrightarrow> mid f x D nx ny False b False \<longleftrightarrow>
     nx \<le> kChunkSize \<and> mid f (1 - x) (D @ take nx (ur_chunks f ! x)) ny 0 b False False"
  using mid_chunk [of f x nx] by (cases "x = 0") (auto simp: mid_def less_2_cases_iff Let_def pwrite_simps)

lemma reap_shape: "reap tag cs st found f = (st', found', f') \<Longrightarrow> ur_shape f \<Longrightarrow> ur_shape f'"
  by (drule reap_frame) (simp add: ur_shape_def)

lemma remove_nth_pick:
  assumes "L = (if a then [p] else []) @ (if b then [q] else []) @ (if s then [r] else [])" "i < length L"
  shows "(a \<and> L ! i = p \<and> remove_nth i L = (if b then [q] else []) @ (if s then [r] else [])) \<or>
    (b \<and> L ! i = q \<and> remove_nth i L = (if a then [p] else []) @ (if s then [r] else [])) \<or>
    (s \<and> L ! i = r \<and> remove_nth i L = (if a then [p] else []) @ (if b then [q] else []))"
proof -
  have "i = 0 \<or> i = 1 \<or> i = 2" using assms by (auto split: if_splits)
  then show ?thesis
    using assms(2) unfolding assms(1)
    by (elim disjE; cases a; cases b; cases s) (simp_all add: remove_nth_def)
qed

text \<open>The requests of \<open>mid\<close> and what their completion does.\<close>

definition waits_for :: "nat \<Rightarrow> nat \<Rightarrow> bool \<Rightarrow> bool \<Rightarrow> bool \<Rightarrow> bool" where
  "waits_for tag x a b s \<longleftrightarrow> tag = x + 1 \<and> a \<or> tag = 2 - x \<and> b \<or> tag = kSyncTag \<and> s"

lemma mid_complete:
  assumes "mid f x D nx ny a b s" "ur_shape f" "i < length (ur_inflight f)"
  shows "\<exists>a' b' s'. mid (complete_request i Full f) x D nx ny a' b' s' \<and> (a' \<longrightarrow> a) \<and> (b' \<longrightarrow> b) \<and> (s' \<longrightarrow> s) \<and>
    (\<forall>tag. req_tag (ur_inflight f ! i) = tag \<longleftrightarrow> waits_for tag x a b s \<and> \<not> waits_for tag x a' b' s')"
proof -
  have x: "x = 0 \<or> x = 1" and n: "nx \<le> kChunkSize" "ny \<le> kChunkSize"
    using assms(1) by (auto simp: mid_def)
  define X where "X = take nx (ur_chunks f ! x)"
  define Y where "Y = take ny (ur_chunks f ! (1 - x))"
  have l: "length X = nx" "length Y = ny"
    using mid_chunk [OF assms(2), of x] x n by (auto simp: X_def Y_def)
  have W: "pwrite (length D) X D = D @ X" "pwrite (length D) X (pwrite (length D + nx) Y D) = D @ X @ Y"
    "pwrite (length D + nx) Y (D @ X) = D @ X @ Y"
    using l pwrite_simps(1,3,4) [of D X] by (simp_all add: pwrite_simps(1))
  have inf: "ur_inflight f = (if a then [UWrite (x + 1) (Chunk x) (length D) nx] else []) @
       (if b then [UWrite (2 - x) (Chunk (1 - x)) (length D + nx) ny] else []) @ (if s then [UFsync kSyncTag] else [])"
    using assms(1) by (simp add: mid_def)
  consider (A) "a" "ur_inflight f ! i = UWrite (x + 1) (Chunk x) (length D) nx"
      "remove_nth i (ur_inflight f) = (if b then [UWrite (2 - x) (Chunk (1 - x)) (length D + nx) ny] else []) @ (if s then [UFsync kSyncTag] else [])"
    | (B) "b" "ur_inflight f ! i = UWrite (2 - x) (Chunk (1 - x)) (length D + nx) ny"
      "remove_nth i (ur_inflight f) = (if a then [UWrite (x + 1) (Chunk x) (length D) nx] else []) @ (if s then [UFsync kSyncTag] else [])"
    | (S) "s" "ur_inflight f ! i = UFsync kSyncTag"
      "remove_nth i (ur_inflight f) = (if a then [UWrite (x + 1) (Chunk x) (length D) nx] else []) @
        (if b then [UWrite (2 - x) (Chunk (1 - x)) (length D + nx) ny] else [])"
    using remove_nth_pick [OF inf assms(3)] by blast
  then show ?thesis
  proof cases
    case A
    then have "mid (complete_request i Full f) x D nx ny False b s"
      using assms(1) x W [unfolded X_def Y_def] unfolding mid_def complete_request_def
      by (elim disjE) (simp_all add: Let_def split: if_splits)
    then show ?thesis using A x by (intro exI [of _ False] exI [of _ b] exI [of _ s]) (auto simp: kSyncTag_def waits_for_def)
  next
    case B
    then have "mid (complete_request i Full f) x D nx ny a False s"
      using assms(1) x W [unfolded X_def Y_def] unfolding mid_def complete_request_def
      by (elim disjE) (simp_all add: Let_def split: if_splits)
    then show ?thesis using B x by (intro exI [of _ a] exI [of _ False] exI [of _ s]) (auto simp: kSyncTag_def waits_for_def)
  next
    case S
    then have "mid (complete_request i Full f) x D nx ny a b False"
      using assms(1) x unfolding mid_def complete_request_def
      by (elim disjE) (simp_all add: Let_def kSyncTag_def split: if_splits)
    then show ?thesis using S x by (intro exI [of _ a] exI [of _ b] exI [of _ False]) (auto simp: kSyncTag_def waits_for_def)
  qed
qed

lemma waits_for_mono: "(a' \<longrightarrow> a) \<Longrightarrow> (b' \<longrightarrow> b) \<Longrightarrow> (s' \<longrightarrow> s) \<Longrightarrow> waits_for tag x a' b' s' \<Longrightarrow> waits_for tag x a b s"
  by (auto simp: waits_for_def)

lemma mid_reap:
  assumes "mid f x D nx ny a b s" "ur_shape f" "\<forall>c \<in> set cs. snd c = Full" "reap tag cs OK found f = (st, found', f')"
  shows "st = OK \<and> (\<exists>a' b' s'. mid f' x D nx ny a' b' s' \<and> (a' \<longrightarrow> a) \<and> (b' \<longrightarrow> b) \<and> (s' \<longrightarrow> s) \<and>
    (found' \<longleftrightarrow> found \<or> waits_for tag x a b s \<and> \<not> waits_for tag x a' b' s'))"
  using assms
proof (induction cs arbitrary: f a b s found)
  case Nil
  then show ?case by auto
next
  case (Cons c cs)
  obtain i where c: "c = (i, Full)" using Cons.prems(3) by (cases c) auto
  show ?case
  proof (cases "length (ur_inflight f) \<le> i")
    case True
    then show ?thesis using Cons.IH [OF Cons.prems(1,2), of found] Cons.prems(3,4) c by auto
  next
    case False
    then have i: "i < length (ur_inflight f)" by simp
    obtain a1 b1 s1 where m: "mid (complete_request i Full f) x D nx ny a1 b1 s1" "a1 \<longrightarrow> a" "b1 \<longrightarrow> b" "s1 \<longrightarrow> s"
      and t: "req_tag (ur_inflight f ! i) = tag \<longleftrightarrow> waits_for tag x a b s \<and> \<not> waits_for tag x a1 b1 s1"
      using mid_complete [OF Cons.prems(1,2) i] by blast
    have sh: "ur_shape (complete_request i Full f)" using Cons.prems(2) by (simp add: ur_shape_def)
    have rp: "reap tag cs OK (found \<or> req_tag (ur_inflight f ! i) = tag) (complete_request i Full f) = (st, found', f')"
      using Cons.prems(4) c False by simp
    from Cons.IH [OF m(1) sh _ rp] Cons.prems(3) obtain a2 b2 s2 where
      r: "st = OK" "mid f' x D nx ny a2 b2 s2" "a2 \<longrightarrow> a1" "b2 \<longrightarrow> b1" "s2 \<longrightarrow> s1"
        "found' \<longleftrightarrow> (found \<or> req_tag (ur_inflight f ! i) = tag) \<or> waits_for tag x a1 b1 s1 \<and> \<not> waits_for tag x a2 b2 s2"
      by auto
    have "waits_for tag x a2 b2 s2 \<longrightarrow> waits_for tag x a1 b1 s1" "waits_for tag x a1 b1 s1 \<longrightarrow> waits_for tag x a b s"
      using waits_for_mono r(3-5) m(2-4) by metis+
    then show ?thesis using r m(2-4) t by blast
  qed
qed

lemma reap_all: "reap tag (replicate (length (ur_inflight f)) (0, Full)) st found f = (st', found', f') \<Longrightarrow> ur_inflight f' = []"
proof (induction "length (ur_inflight f)" arbitrary: f st found)
  case (Suc n)
  have "length (ur_inflight (complete_request 0 Full f)) = n" using Suc.hyps(2) by (simp add: remove_nth_def)
  then show ?case using Suc.hyps(1) [of "complete_request 0 Full f"] Suc.prems by (simp add: Suc.hyps(2) [symmetric])
qed simp

text \<open>Waiting for a request that is in flight ends, with success, and the request is done.\<close>

lemma ProcessCompletions_mid:
  assumes "mid f x D nx ny a b s" "ur_shape f" "ur_reliable f" "waits_for tag x a b s"
  shows "\<exists>f' a' b' s'. ProcessCompletions tag f = Some (OK, f') \<and> mid f' x D nx ny a' b' s' \<and> ur_shape f' \<and> ur_reliable f' \<and>
    (a' \<longrightarrow> a) \<and> (b' \<longrightarrow> b) \<and> (s' \<longrightarrow> s) \<and> \<not> waits_for tag x a' b' s' \<and> ur_pos f' = ur_pos f \<and> ur_offset f' = ur_offset f \<and>
    ur_chunks f' = ur_chunks f \<and> ur_chunk_pos f' = ur_chunk_pos f"
  using assms
proof (induction "length (ur_looks f)" arbitrary: f a b s rule: less_induct)
  case less
  have x: "x < 2" using less.prems(1) by (simp add: mid_def)
  define cs where "cs = (case ur_looks f of Reap cs # _ \<Rightarrow> cs | _ \<Rightarrow> all_done f)"
  define g where "g = f\<lparr>ur_looks := tl (ur_looks f)\<rparr>"
  have full: "\<forall>c \<in> set cs. snd c = Full"
    using less.prems(3) by (fastforce simp: cs_def ur_reliable_def all_done_def split: list.splits ur_look.splits)
  have g: "mid g x D nx ny a b s" "ur_shape g" "ur_reliable g"
  proof -
    have "set (tl (ur_looks f)) \<subseteq> set (ur_looks f)" by (cases "ur_looks f") auto
    then show "ur_reliable g" using less.prems(3) by (auto simp: g_def ur_reliable_def)
  qed (use less.prems(1,2) in \<open>simp_all add: g_def mid_def ur_shape_def\<close>)
  obtain st found f1 where rp: "reap tag cs OK False g = (st, found, f1)" by (cases "reap tag cs OK False g")
  note fr = reap_frame [OF rp]
  obtain a1 b1 s1 where r: "st = OK" "mid f1 x D nx ny a1 b1 s1" "(a1 \<longrightarrow> a) \<and> (b1 \<longrightarrow> b) \<and> (s1 \<longrightarrow> s)"
      "found \<longrightarrow> \<not> waits_for tag x a1 b1 s1" "\<not> found \<longrightarrow> waits_for tag x a1 b1 s1"
    using mid_reap [OF g(1,2) full rp] less.prems(4) by auto
  have g1: "ur_shape f1" "ur_reliable f1" using reap_shape [OF rp g(2)] fr g(3) by (simp_all add: ur_reliable_def)
  have same: "ur_pos f1 = ur_pos f" "ur_offset f1 = ur_offset f" "ur_chunks f1 = ur_chunks f" "ur_chunk_pos f1 = ur_chunk_pos f"
    using fr by (simp_all add: g_def)
  show ?case
  proof (cases "ur_looks f")
    case Nil
    then have cs: "cs = replicate (length (ur_inflight g)) (0, Full)" and gf: "g = f" by (simp_all add: cs_def all_done_def g_def)
    have "ur_inflight f1 = []" using rp unfolding cs by (rule reap_all)
    then have "\<not> waits_for tag x a1 b1 s1" using r(2) by (auto simp: mid_def waits_for_def split: if_splits)
    then have "found" using r(5) by blast
    then have "ProcessCompletions tag f = Some (OK, f1)"
      using Nil rp r(1) gf cs by (subst ProcessCompletions.simps) (simp add: all_done_def)
    then show ?thesis using r g1 same \<open>found\<close> by blast
  next
    case (Cons l ls)
    then obtain cs' where l: "ur_looks f = Reap cs' # ls" using less.prems(3) by (auto simp: ur_reliable_def)
    have pc: "ProcessCompletions tag f = (if found then Some (OK, f1) else ProcessCompletions tag f1)"
      using l rp r(1) by (subst ProcessCompletions.simps) (simp add: cs_def g_def)
    show ?thesis
    proof (cases found)
      case True
      then show ?thesis using pc r g1 same by auto
    next
      case False
      have "length (ur_looks f1) < length (ur_looks f)" using fr l by (simp add: g_def)
      from less.hyps [OF this r(2) g1] r(3,5) False pc same show ?thesis by force
    qed
  qed
qed

section \<open>Operations on a reliable kernel\<close>

lemma ur_holds_cases:
  assumes "ur_holds f C"
  obtains D n a where "mid f (1 - chunk_of (ur_chunk_pos f)) D n 0 a False False" "ur_offset f = length D + n"
    "C = D @ take n (ur_chunks f ! (1 - chunk_of (ur_chunk_pos f))) @ take (ur_pos f) (ur_chunks f ! chunk_of (ur_chunk_pos f))"
    "ur_shape f" "ur_reliable f"
  using assms by (auto simp: ur_holds_def Let_def)

lemma SubmitIO_mid:
  assumes "mid f x D n 0 a False False" "x = 1 - chunk_of (ur_chunk_pos f)" "ur_offset f = length D + n"
    "ur_shape f" "ur_reliable f" "0 < ur_pos f"
  shows "\<exists>f'. SubmitIO f = Some (OK, f') \<and> mid f' x D n (ur_pos f) a True False \<and> ur_shape f' \<and> ur_reliable f' \<and>
    ur_offset f' = length D + n + ur_pos f \<and> ur_pos f' = 0 \<and> ur_chunk_pos f' = ur_chunk_pos f + 1 \<and> ur_chunks f' = ur_chunks f"
proof -
  have "x = 0 \<and> chunk_of (ur_chunk_pos f) = 1 \<or> x = 1 \<and> chunk_of (ur_chunk_pos f) = 0"
    using assms(2) chunk_of_lt(1) [of "ur_chunk_pos f"] by (auto simp: less_2_cases_iff)
  then show ?thesis
    using assms by (elim disjE) (auto simp: SubmitIO_def queue_request_def ring_submit_def ur_shape_def ur_reliable_def MaskChunk_def
        mid_def Let_def pwrite_simps)
qed

lemma mid_ready: "mid f x D nx ny a b s \<Longrightarrow> ur_ready f ! x = (\<not> a) \<and> ur_ready f ! (1 - x) = (\<not> b)"
  by (auto simp: mid_def less_2_cases_iff)

lemma ur_Flush_holds:
  assumes "ur_holds f C"
  shows "\<exists>f'. ur_Flush f = Some (OK, f') \<and> ur_holds f' C \<and> ur_pos f' = 0"
proof (cases "ur_pos f = 0")
  case True
  then show ?thesis using assms by (auto simp: ur_Flush_def SubmitIO_def)
next
  case False
  define x where "x = 1 - chunk_of (ur_chunk_pos f)"
  from assms obtain D n a where m: "mid f x D n 0 a False False" "ur_offset f = length D + n"
    and C: "C = D @ take n (ur_chunks f ! x) @ take (ur_pos f) (ur_chunks f ! chunk_of (ur_chunk_pos f))"
    and sh: "ur_shape f" "ur_reliable f"
    unfolding x_def by (rule ur_holds_cases)
  have x: "x < 2" "chunk_of (ur_chunk_pos f) = 1 - x" "chunk_of (ur_chunk_pos f + 1) = x"
    using chunk_of_lt(1) [of "ur_chunk_pos f"] by (auto simp: x_def chunk_of_Suc)
  obtain f1 where f1: "SubmitIO f = Some (OK, f1)" "mid f1 x D n (ur_pos f) a True False" "ur_shape f1" "ur_reliable f1"
      "ur_offset f1 = length D + n + ur_pos f" "ur_pos f1 = 0" "ur_chunk_pos f1 = ur_chunk_pos f + 1" "ur_chunks f1 = ur_chunks f"
    using SubmitIO_mid [OF m(1) x_def m(2) sh] False by auto
  have fin: "ur_holds f' C"
    if "mid f' x D n (ur_pos f) False b False" "ur_shape f'" "ur_reliable f'" "ur_offset f' = length D + n + ur_pos f"
      "ur_pos f' = 0" "ur_chunk_pos f' = ur_chunk_pos f + 1" "ur_chunks f' = ur_chunks f" for f' b
  proof -
    have "n \<le> kChunkSize" "mid f' (1 - x) (D @ take n (ur_chunks f' ! x)) (ur_pos f) 0 b False False"
      using mid_shift [OF x(1) that(2)] that(1) by auto
    moreover have "length (take n (ur_chunks f' ! x)) = n" using mid_chunk(1) [OF that(2) x(1)] calculation(1) .
    ultimately show ?thesis
      using that x C unfolding ur_holds_def Let_def
      by (intro conjI exI [of _ "D @ take n (ur_chunks f' ! x)"] exI [of _ "ur_pos f"] exI [of _ b]) auto
  qed
  have fl: "ur_Flush f = (if a then ProcessCompletions (x + 1) f1 else Some (OK, f1))"
    using f1(1,7) x(3) mid_ready [OF f1(2)] by (simp add: ur_Flush_def MaskChunk_def)
  show ?thesis
  proof (cases a)
    case False
    then show ?thesis using fl f1 fin [of f1 True] by auto
  next
    case True
    then have "waits_for (x + 1) x a True False" by (simp add: waits_for_def)
    from ProcessCompletions_mid [OF f1(2-4) this] obtain f' a' b' s' where
      p: "ProcessCompletions (x + 1) f1 = Some (OK, f')" "mid f' x D n (ur_pos f) a' b' s'" "ur_shape f'" "ur_reliable f'"
        "s' \<longrightarrow> False" "\<not> waits_for (x + 1) x a' b' s'" "ur_pos f' = ur_pos f1" "ur_offset f' = ur_offset f1"
        "ur_chunks f' = ur_chunks f1" "ur_chunk_pos f' = ur_chunk_pos f1"
      by blast
    then have "ur_holds f' C" using fin [of f' b'] f1 by (simp add: waits_for_def)
    then show ?thesis using fl True p(1,7) f1(6) by simp
  qed
qed

text \<open>Copying into the current chunk leaves the chunk in flight alone.\<close>

lemma ur_copy_holds:
  assumes "ur_holds f C" "length d < 2 ^ 32"
  shows "\<exists>n f'. ur_copy d f = Some (drop n d, n, f') \<and> ur_holds f' (C @ take n d) \<and>
    (drop n d \<noteq> [] \<longrightarrow> n = kChunkSize - ur_pos f)"
proof -
  define c where "c = chunk_of (ur_chunk_pos f)"
  define n where "n = min (length d) (kChunkSize - ur_pos f)"
  from assms(1) obtain D m a where h: "mid f (1 - c) D m 0 a False False" "ur_offset f = length D + m"
    and C: "C = D @ take m (ur_chunks f ! (1 - c)) @ take (ur_pos f) (ur_chunks f ! c)" and sh: "ur_shape f" "ur_reliable f"
    unfolding c_def by (rule ur_holds_cases)
  have c: "c = 0 \<or> c = 1" "length (ur_chunks f) = 2" "length (ur_chunks f ! c) = kChunkSize" "ur_pos f \<le> kChunkSize"
    using sh(1) chunk_of_lt(1) [of "ur_chunk_pos f"] by (auto simp: c_def ur_shape_def less_2_cases_iff)
  define ch where "ch = take (ur_pos f) (ur_chunks f ! c) @ take n d @ drop (ur_pos f + n) (ur_chunks f ! c)"
  define f' where "f' = f\<lparr>ur_chunks := (ur_chunks f)[c := ch], ur_pos := ur_pos f + n\<rparr>"
  have n: "n \<le> length d" "ur_pos f + n \<le> kChunkSize" using c(4) by (auto simp: n_def)
  have ch: "length ch = kChunkSize" "take (ur_pos f + n) ch = take (ur_pos f) (ur_chunks f ! c) @ take n d"
    using c n by (auto simp: ch_def)
  have cp: "ur_copy d f = Some (drop n d, n, f')"
    using c n unat_of_nat_u32 [of "length d"] assms(2)
    by (simp add: ur_copy_def bwrite_def Let_def f'_def ch_def n_def [symmetric] c_def [symmetric])
  have other: "ur_chunks f' ! (1 - c) = ur_chunks f ! (1 - c)" "ur_chunks f' ! c = ch" using c by (auto simp: f'_def)
  have "ur_shape f'" using sh(1) ch(1) n(2) by (auto simp: ur_shape_def f'_def dest: set_update_subset_insert [THEN subsetD])
  moreover have "ur_reliable f'" using sh(2) by (simp add: ur_reliable_def f'_def)
  moreover have "mid f' (1 - c) D m 0 a False False"
    using h(1) other by (auto simp: mid_def Let_def pwrite_simps f'_def)
  moreover have "C @ take n d = D @ take m (ur_chunks f' ! (1 - c)) @ take (ur_pos f') (ur_chunks f' ! c)"
    using ch(2) other by (simp add: C f'_def)
  moreover have "ur_chunk_pos f' = ur_chunk_pos f" "ur_offset f' = length D + m" using h(2) by (simp_all add: f'_def)
  ultimately have "ur_holds f' (C @ take n d)"
    unfolding ur_holds_def Let_def c_def by (intro conjI exI [of _ D] exI [of _ m] exI [of _ a]) simp_all
  then show ?thesis using cp n_def by auto
qed

lemma ur_Append_holds:
  assumes "ur_holds f C" "length d < kWritableFileBufferSize"
  shows "\<exists>f'. ur_Append d f = Some (OK, f') \<and> ur_holds f' (C @ d)"
  using assms
proof (induction "2 * length d + (if ur_pos f = 0 then 0 else 1)" arbitrary: d f C rule: less_induct)
  case less
  have "length d < 2 ^ 32" using less.prems(2) by (simp add: kWritableFileBufferSize_def)
  from ur_copy_holds [OF less.prems(1) this] obtain n f1 where
    c: "ur_copy d f = Some (drop n d, n, f1)" "ur_holds f1 (C @ take n d)" "drop n d \<noteq> [] \<longrightarrow> n = kChunkSize - ur_pos f" by blast
  show ?case
  proof (cases "drop n d = []")
    case True
    then show ?thesis using c by (subst ur_Append.simps) simp
  next
    case False
    obtain f2 where f2: "ur_Flush f1 = Some (OK, f2)" "ur_holds f2 (C @ take n d)" "ur_pos f2 = 0"
      using ur_Flush_holds [OF c(2)] by blast
    have s: "length (drop n d) < kWritableFileBufferSize" using less.prems(2) by simp
    have ap: "ur_Append d f = ur_Append (drop n d) f2"
      using c(1) f2(1) False s by (subst ur_Append.simps) simp
    have "2 * length (drop n d) + (if ur_pos f2 = 0 then 0 else 1) < 2 * length d + (if ur_pos f = 0 then 0 else 1)"
      using False ur_copy_rest(2) [OF c(1) False] f2(3) by (cases "ur_pos f = 0") auto
    from less.hyps [OF this f2(2) s] show ?thesis by (simp add: ap)
  qed
qed

lemma ur_Sync_holds:
  assumes "ur_holds f C"
  shows "\<exists>f'. ur_Sync f = Some (OK, f') \<and> ur_holds f' C"
proof -
  obtain f1 where f1: "ur_Flush f = Some (OK, f1)" "ur_holds f1 C" "ur_pos f1 = 0" using ur_Flush_holds [OF assms] by blast
  define x where "x = 1 - chunk_of (ur_chunk_pos f1)"
  from f1(2) obtain D n a where m: "mid f1 x D n 0 a False False" "ur_offset f1 = length D + n"
    and C: "C = D @ take n (ur_chunks f1 ! x) @ take (ur_pos f1) (ur_chunks f1 ! chunk_of (ur_chunk_pos f1))"
    and sh: "ur_shape f1" "ur_reliable f1"
    unfolding x_def by (rule ur_holds_cases)
  define f2 where "f2 = f1\<lparr>ur_submits := [], ur_sq := [], ur_inflight := ur_inflight f1 @ [UFsync kSyncTag]\<rparr>"
  have "ur_Sync f = ProcessCompletions kSyncTag f2"
    using f1(1) sh by (simp add: ur_Sync_def queue_request_def ring_submit_def ur_shape_def ur_reliable_def f2_def)
  moreover have "mid f2 x D n 0 a False True" "ur_shape f2" "ur_reliable f2" "waits_for kSyncTag x a False True"
    using m(1) sh by (simp_all add: mid_def f2_def ur_shape_def ur_reliable_def waits_for_def)
  note ProcessCompletions_mid [OF this]
  ultimately obtain f' a' b' s' where p: "ur_Sync f = Some (OK, f')" "mid f' x D n 0 a' b' s'" "ur_shape f'" "ur_reliable f'"
     "b' \<longrightarrow> False" "\<not> waits_for kSyncTag x a' b' s'" "ur_pos f' = ur_pos f2" "ur_offset f' = ur_offset f2"
     "ur_chunks f' = ur_chunks f2" "ur_chunk_pos f' = ur_chunk_pos f2"
    by auto
  then have "ur_holds f' C" using C m(2) unfolding ur_holds_def Let_def x_def
    by (intro conjI exI [of _ D] exI [of _ n] exI [of _ a']) (auto simp: f2_def waits_for_def)
  then show ?thesis using p(1) by blast
qed

lemma ur_Close_holds:
  assumes "ur_holds f C"
  shows "\<exists>f'. ur_Close f = Some (OK, f') \<and> ur_data f' = C"
proof -
  define x where "x = 1 - chunk_of (ur_chunk_pos f)"
  from assms obtain D n a where m: "mid f x D n 0 a False False" "ur_offset f = length D + n"
    and C: "C = D @ take n (ur_chunks f ! x) @ take (ur_pos f) (ur_chunks f ! chunk_of (ur_chunk_pos f))"
    and sh: "ur_shape f" "ur_reliable f"
    unfolding x_def by (rule ur_holds_cases)
  have x: "x < 2" "chunk_of (ur_chunk_pos f) = 1 - x" "chunk_of (ur_chunk_pos f + 1) = x"
    using chunk_of_lt(1) [of "ur_chunk_pos f"] by (auto simp: x_def chunk_of_Suc)
  have "\<exists>f1. (if \<not> ur_ready f ! x then map_option snd (ProcessCompletions (x + 1) f) else Some f) = Some f1 \<and>
     mid f1 x D n 0 False False False \<and> ur_shape f1 \<and> ur_reliable f1 \<and> ur_pos f1 = ur_pos f \<and> ur_offset f1 = ur_offset f \<and>
     ur_chunks f1 = ur_chunks f \<and> ur_chunk_pos f1 = ur_chunk_pos f"
  proof (cases a)
    case True
    then have "waits_for (x + 1) x a False False" by (simp add: waits_for_def)
    from ProcessCompletions_mid [OF m(1) sh this] mid_ready [OF m(1)] True show ?thesis
      by (auto simp: waits_for_def)
  qed (use m mid_ready [OF m(1)] sh in auto)
  then obtain f1 where f1: "(if \<not> ur_ready f ! x then map_option snd (ProcessCompletions (x + 1) f) else Some f) = Some f1"
     "mid f1 x D n 0 False False False" "ur_shape f1" "ur_reliable f1" "ur_pos f1 = ur_pos f" "ur_offset f1 = ur_offset f"
     "ur_chunks f1 = ur_chunks f" "ur_chunk_pos f1 = ur_chunk_pos f"
    by blast
  have op: "ur_open f" using sh by (simp add: ur_shape_def)
  have cl: "ur_Close f = do { (st, f2) \<leftarrow> SubmitIO f1;
        f3 \<leftarrow> (if ok st then map_option snd (ProcessCompletions (2 - x) f2) else Some f2); Some (OK, f3\<lparr>ur_open := False\<rparr>) }"
  proof -
    have mc: "MaskChunk (ur_chunk_pos f) = 2 - x" "MaskChunk (ur_chunk_pos f + 1) = x + 1" using x by (auto simp: MaskChunk_def)
    show ?thesis unfolding ur_Close_def Let_def mc x(3) f1(1) using op by simp
  qed
  show ?thesis
  proof (cases "ur_pos f = 0")
    case True
    then show ?thesis using cl f1(2,5,7) C by (simp add: SubmitIO_def mid_def)
  next
    case False
    then obtain f2 where f2: "SubmitIO f1 = Some (OK, f2)" "mid f2 x D n (ur_pos f) False True False" "ur_shape f2" "ur_reliable f2"
        "ur_chunks f2 = ur_chunks f"
      using SubmitIO_mid [OF f1(2) _ _ f1(3,4)] f1(5-8) m(2) x_def by auto
    have "waits_for (2 - x) x False True False" by (simp add: waits_for_def)
    from ProcessCompletions_mid [OF f2(2-4) this] obtain f3 a' b' s' where
      p: "ProcessCompletions (2 - x) f2 = Some (OK, f3)" "mid f3 x D n (ur_pos f) a' b' s'" "a' \<longrightarrow> False"
        "\<not> waits_for (2 - x) x a' b' s'" "ur_chunks f3 = ur_chunks f2"
      by blast
    have "ur_data f3 = C" using p(2-5) f2(5) C x(2) by (auto simp: mid_def waits_for_def)
    then show ?thesis using cl f2(1) p(1) by simp
  qed
qed

lemma mk_UringWritableFile_holds:
  "\<forall>l \<in> set looks. \<exists>cs. l = Reap cs \<and> (\<forall>c \<in> set cs. snd c = Full) \<Longrightarrow> ur_holds (mk_UringWritableFile [] looks) []"
  unfolding ur_holds_def Let_def
  by (intro conjI exI [of _ "[]"] exI [of _ 0] exI [of _ False])
    (simp_all add: mk_UringWritableFile_def ur_shape_def ur_reliable_def mid_def chunk_of_def)

section \<open>Properties\<close>

text \<open>A client calls \<open>Append\<close>, \<open>Flush\<close> and \<open>Sync\<close> in any order and stops at the first error.\<close>

datatype file_op = OpAppend bytes | OpFlush | OpSync

fun op_bytes :: "file_op \<Rightarrow> bytes" where
  "op_bytes (OpAppend d) = d"
| "op_bytes OpFlush = []"
| "op_bytes OpSync = []"

fun ur_op :: "file_op \<Rightarrow> UringWritableFile \<Rightarrow> (Status \<times> UringWritableFile) option" where
  "ur_op (OpAppend d) f = ur_Append d f"
| "ur_op OpFlush f = ur_Flush f"
| "ur_op OpSync f = ur_Sync f"

fun ur_run :: "file_op list \<Rightarrow> UringWritableFile \<Rightarrow> (Status \<times> UringWritableFile) option" where
  "ur_run [] f = Some (OK, f)"
| "ur_run (p # ps) f = do { (st, f1) \<leftarrow> ur_op p f; if ok st then ur_run ps f1 else Some (st, f1) }"

lemma ur_op_holds:
  assumes "ur_holds f C" "length (op_bytes p) < kWritableFileBufferSize"
  shows "\<exists>f'. ur_op p f = Some (OK, f') \<and> ur_holds f' (C @ op_bytes p)"
  using assms ur_Append_holds ur_Flush_holds ur_Sync_holds by (cases p) fastforce+

lemma ur_run_holds:
  "ur_holds f C \<Longrightarrow> \<forall>p \<in> set ps. length (op_bytes p) < kWritableFileBufferSize \<Longrightarrow>
     \<exists>f'. ur_run ps f = Some (OK, f') \<and> ur_holds f' (C @ concat (map op_bytes ps))"
proof (induction ps arbitrary: f C)
  case (Cons p ps)
  obtain f1 where f1: "ur_op p f = Some (OK, f1)" "ur_holds f1 (C @ op_bytes p)"
    using ur_op_holds [OF Cons.prems(1)] Cons.prems(2) by auto
  from Cons.IH [OF f1(2)] Cons.prems(2) f1(1) show ?case by auto
qed simp

text \<open>C15. On a kernel that completes every request in full, in whatever order and at whatever time,
  no call of the file blocks forever or reports an error, and once it is closed the file consists
  of the appended bytes in order, as long as each append is smaller than 64 KB. In particular no
  chunk is overwritten while the kernel still reads it.\<close>

theorem uring_file_contents:
  assumes "\<forall>l \<in> set looks. \<exists>cs. l = Reap cs \<and> (\<forall>c \<in> set cs. snd c = Full)"
    and "\<forall>p \<in> set ps. length (op_bytes p) < kWritableFileBufferSize"
  shows "\<exists>f f'. ur_run ps (mk_UringWritableFile [] looks) = Some (OK, f) \<and> ur_Close f = Some (OK, f') \<and>
    ur_data f' = concat (map op_bytes ps)"
  using ur_run_holds [OF mk_UringWritableFile_holds [OF assms(1)] assms(2)] ur_Close_holds by fastforce

theorem uring_file_contents_witness:
  "\<exists>f f'. ur_run [OpAppend [1, 2], OpFlush, OpAppend [3], OpSync] (mk_UringWritableFile [] [Reap [(1, Full)], Reap []]) = Some (OK, f) \<and>
    ur_Close f = Some (OK, f') \<and> ur_data f' = [1, 2, 3]"
  using uring_file_contents [of "[Reap [(1, Full)], Reap []]" "[OpAppend [1, 2], OpFlush, OpAppend [3], OpSync]"]
  by (simp add: kWritableFileBufferSize_def)

text \<open>C28. An append with 64 KB or more left after filling the chunk is written directly, but the
  position of the next write then advances by the number of bytes copied into the chunk instead:
  data appended later overwrites the middle of the large append.\<close>

theorem uring_large_append_overwritten:
  assumes "kChunkSize + kWritableFileBufferSize \<le> length d" "length d < 2 ^ 32"
  shows "\<exists>f1 f2 f3. ur_Append d (mk_UringWritableFile [] []) = Some (OK, f1) \<and> ur_Append [x] f1 = Some (OK, f2) \<and>
    ur_Close f2 = Some (OK, f3) \<and> ur_data f3 = take 65536 d @ [x] @ drop 65537 d"
proof -
  let ?f = "mk_UringWritableFile [] []"
  let ?A = "take 32768 d" and ?B = "drop 32768 d"
  have k: "kChunkSize = 32768" "kWritableFileBufferSize = 65536" by (simp_all add: kChunkSize_def kWritableFileBufferSize_def)
  have l: "98304 \<le> length d" using assms(1) by (simp add: k)
  define f1 where "f1 = \<lparr>ur_open = True, ur_offset = 65536, ur_pos = 0, ur_ready = [True, True],
     ur_chunks = [?A, replicate 32768 0], ur_chunk_pos = 1, ur_sq = [], ur_inflight = [],
     ur_data = d, ur_durable = [], ur_submits = [], ur_looks = []\<rparr>"
  define f2 where "f2 = f1\<lparr>ur_pos := 1, ur_chunks := [?A, [x] @ replicate 32767 0]\<rparr>"
  define f3 where "f3 = f2\<lparr>ur_pos := 0, ur_chunk_pos := 2, ur_offset := 65537, ur_open := False, ur_data := take 65536 d @ [x] @ drop 65537 d\<rparr>"
  have cp: "ur_copy d ?f = Some (?B, 32768, ?f\<lparr>ur_chunks := [?A, replicate 32768 0], ur_pos := 32768\<rparr>)"
    using assms(2) l unat_of_nat_u32 [of "length d"]
    by (simp add: ur_copy_def mk_UringWritableFile_def k chunk_of_def bwrite_def Let_def min_def)
  have A: "pwrite 0 ?A [] = ?A" "pwrite 32768 ?B ?A = d"
    using l pwrite_simps(1) [of ?A ?B] by (simp_all add: pwrite_def)
  have nl: "\<not> length d - 32768 < 65536" "\<not> length d \<le> 32768" using l by simp_all
  have "ur_Append d ?f = Some (OK, f1)"
    using cp A nl by (subst ur_Append.simps) (simp add: ur_Flush_def SubmitIO_def queue_request_def ring_submit_def mk_UringWritableFile_def k
        chunk_of_def MaskChunk_def ProcessCompletions.simps all_done_def complete_request_def kLargeValueTag_def
        remove_nth_def numeral_2_eq_2 f1_def)
  moreover have "ur_Append [x] f1 = Some (OK, f2)"
    by (subst ur_Append.simps) (simp add: ur_copy_def f1_def f2_def k chunk_of_def bwrite_def min_def)
  moreover have "ur_Close f2 = Some (OK, f3)"
    using l by (simp add: ur_Close_def f1_def f2_def f3_def chunk_of_def MaskChunk_def SubmitIO_def queue_request_def ring_submit_def
        ProcessCompletions.simps all_done_def complete_request_def remove_nth_def pwrite_def)
  ultimately show ?thesis by (auto simp: f3_def)
qed

theorem uring_large_append_overwritten_witness:
  "\<exists>f1 f2 f3. ur_Append (replicate 98304 1) (mk_UringWritableFile [] []) = Some (OK, f1) \<and> ur_Append [2] f1 = Some (OK, f2) \<and>
    ur_Close f2 = Some (OK, f3) \<and> ur_data f3 = take 65536 (replicate 98304 1) @ [2] @ drop 65537 (replicate 98304 1)"
  using uring_large_append_overwritten [of "replicate 98304 1" 2] by (simp add: kChunkSize_def kWritableFileBufferSize_def)

text \<open>C29. \<open>Sync\<close> hands the last chunk and the \<open>fsync\<close> to the kernel together and waits only for the
  \<open>fsync\<close>: when the kernel performs it first, \<open>Sync\<close> reports success with nothing on stable
  storage.\<close>

theorem uring_sync_not_durable:
  "\<exists>f1 f2. ur_Append [x] (mk_UringWritableFile [] [Reap [(1, Full)]]) = Some (OK, f1) \<and>
    ur_Sync f1 = Some (OK, f2) \<and> ur_durable f2 = []"
proof -
  let ?f = "mk_UringWritableFile [] [Reap [(1, Full)]]"
  let ?f1 = "?f\<lparr>ur_pos := 1, ur_chunks := [[x] @ replicate 32767 0, replicate 32768 0]\<rparr>"
  have k: "kChunkSize = 32768" by (simp add: kChunkSize_def kWritableFileBufferSize_def)
  have "ur_Append [x] ?f = Some (OK, ?f1)"
    by (subst ur_Append.simps) (simp add: ur_copy_def mk_UringWritableFile_def k chunk_of_def bwrite_def min_def)
  moreover have "\<exists>f2. ur_Sync ?f1 = Some (OK, f2) \<and> ur_durable f2 = []"
    by (simp add: ur_Sync_def ur_Flush_def SubmitIO_def queue_request_def ring_submit_def mk_UringWritableFile_def k
        chunk_of_def MaskChunk_def ProcessCompletions.simps complete_request_def kSyncTag_def remove_nth_def)
  ultimately show ?thesis by blast
qed

end
