(* ===== verification/File_System.thy ===== *)
theory File_System
  imports Lsmkv_Prelude Version "HOL-Library.Sublist"
begin

text \<open>
  The part of the file system the store relies on: names refer to files, and a file that was opened
  stays readable after its name is gone. The calls are those of \<^verbatim>\<open>src/include/file.h\<close> and
  \<^verbatim>\<open>utils/utils.h\<close>.
\<close>

record FileSystem =
  fs_names :: "string \<Rightarrow> nat option"
  fs_data :: "nat \<Rightarrow> bytes"
  fs_next :: nat

text \<open>\<open>open\<close> with \<open>O_CREAT | O_TRUNC\<close>.\<close>

definition fs_create :: "string \<Rightarrow> FileSystem \<Rightarrow> nat \<times> FileSystem" where
  "fs_create name fs = (case fs_names fs name of
      Some i \<Rightarrow> (i, fs\<lparr>fs_data := (fs_data fs)(i := [])\<rparr>)
    | None \<Rightarrow> (fs_next fs, fs\<lparr>fs_names := (fs_names fs)(name \<mapsto> fs_next fs),
        fs_data := (fs_data fs)(fs_next fs := []), fs_next := fs_next fs + 1\<rparr>))"

definition fs_store :: "nat \<Rightarrow> bytes \<Rightarrow> FileSystem \<Rightarrow> FileSystem" where
  "fs_store i d fs = fs\<lparr>fs_data := (fs_data fs)(i := d)\<rparr>"

definition fs_content :: "string \<Rightarrow> FileSystem \<Rightarrow> bytes option" where
  "fs_content name fs = map_option (fs_data fs) (fs_names fs name)"

definition FileExists :: "string \<Rightarrow> FileSystem \<Rightarrow> bool" where
  "FileExists name fs \<longleftrightarrow> fs_names fs name \<noteq> None"

definition GetFileSize :: "string \<Rightarrow> FileSystem \<Rightarrow> int" where
  "GetFileSize name fs = (case fs_content name fs of None \<Rightarrow> -1 | Some d \<Rightarrow> int (length d))"

definition rmfile :: "string \<Rightarrow> FileSystem \<Rightarrow> FileSystem" where
  "rmfile name fs = fs\<lparr>fs_names := (fs_names fs)(name := None)\<rparr>"

text \<open>All files below a directory.\<close>

definition rmfiles :: "string \<Rightarrow> FileSystem \<Rightarrow> FileSystem" where
  "rmfiles path fs = fs\<lparr>fs_names := (\<lambda>n. if prefix (path @ ''/'') n then None else fs_names fs n)\<rparr>"

text \<open>Names refer to allocated files, and no two names to the same one.\<close>

definition fs_ok :: "FileSystem \<Rightarrow> bool" where
  "fs_ok fs \<longleftrightarrow> (\<forall>n i. fs_names fs n = Some i \<longrightarrow> i < fs_next fs) \<and>
     (\<forall>n m i. fs_names fs n = Some i \<and> fs_names fs m = Some i \<longrightarrow> n = m)"

lemma fs_ok_create: "fs_ok fs \<Longrightarrow> fs_create name fs = (i, fs') \<Longrightarrow> fs_ok fs' \<and> fs_names fs' name = Some i"
  unfolding fs_ok_def fs_create_def by (auto split: option.splits if_splits) (metis less_irrefl less_Suc_eq)+

lemma fs_ok_store [simp]: "fs_ok (fs_store i d fs) = fs_ok fs" "fs_names (fs_store i d fs) = fs_names fs"
  "fs_next (fs_store i d fs) = fs_next fs"
  by (simp_all add: fs_ok_def fs_store_def)

lemma fs_ok_rmfile: "fs_ok fs \<Longrightarrow> fs_ok (rmfile name fs)"
  by (auto simp: fs_ok_def rmfile_def)

lemma fs_ok_rmfiles: "fs_ok fs \<Longrightarrow> fs_ok (rmfiles path fs)"
  by (auto simp: fs_ok_def rmfiles_def split: if_splits)

text \<open>Writing a file does not touch the others.\<close>

lemma fs_content_store:
  assumes "fs_ok fs" "fs_names fs name = Some i"
  shows "fs_content name' (fs_store i d fs) = (if name' = name then Some d else fs_content name' fs)"
  using assms unfolding fs_content_def fs_store_def fs_ok_def
  by (cases "fs_names fs name'") auto

lemma fs_content_create:
  assumes "fs_ok fs" "fs_create name fs = (i, fs')"
  shows "fs_content name' fs' = (if name' = name then Some [] else fs_content name' fs)"
proof -
  have "fs_names fs name' \<noteq> Some (fs_next fs)" using assms(1) less_irrefl unfolding fs_ok_def by blast
  moreover have "fs_names fs name = Some j \<Longrightarrow> fs_names fs name' = Some j \<Longrightarrow> name' = name" for j
    using assms(1) unfolding fs_ok_def by blast
  ultimately show ?thesis
    using assms(2) unfolding fs_content_def fs_create_def
    by (cases "fs_names fs name"; cases "fs_names fs name'") auto
qed

lemma fs_create_frame:
  "fs_create name fs = (i, fs') \<Longrightarrow> name' \<noteq> name \<Longrightarrow> fs_names fs' name' = fs_names fs name'"
  "fs_create name fs = (i, fs') \<Longrightarrow> fs_next fs \<le> fs_next fs'"
  by (auto simp: fs_create_def split: option.splits)

end
