(* ===== verification/Build_Table.thy ===== *)
theory Build_Table
  imports Table_Builder Uring_File Memtable File_System Sst_Reader
begin

text \<open>
  \<^verbatim>\<open>src/builder.cpp\<close>: writing a memtable to a table file. The builder works on a
  \<open>UringWritableFile\<close>; a file object whose operation never returned is \<open>None\<close>, and so is the result
  of \<open>BuildTable\<close> then. A failed assertion is \<open>None\<close> as well. The file system receives what the
  kernel has written when the function returns.
\<close>

section \<open>The file as the builder sees it\<close>

fun uw_append :: "bytes \<Rightarrow> UringWritableFile option \<Rightarrow> Status \<times> UringWritableFile option" where
  "uw_append d None = (IOError, None)"
| "uw_append d (Some f) = (case ur_Append d f of None \<Rightarrow> (IOError, None) | Some (st, f') \<Rightarrow> (st, Some f'))"

fun uw_flush :: "UringWritableFile option \<Rightarrow> Status \<times> UringWritableFile option" where
  "uw_flush None = (IOError, None)"
| "uw_flush (Some f) = (case ur_Flush f of None \<Rightarrow> (IOError, None) | Some (st, f') \<Rightarrow> (st, Some f'))"

fun uw_sync :: "UringWritableFile option \<Rightarrow> Status \<times> UringWritableFile option" where
  "uw_sync None = (IOError, None)"
| "uw_sync (Some f) = (case ur_Sync f of None \<Rightarrow> (IOError, None) | Some (st, f') \<Rightarrow> (st, Some f'))"

definition uring_env :: "(bytes \<Rightarrow> u32) \<Rightarrow> UringWritableFile option tb_env" where
  "uring_env crc = \<lparr>te_append = uw_append, te_flush = uw_flush, te_sync = uw_sync, te_crc = crc\<rparr>"

text \<open>The logical contents: what is written, the writes in flight, and the current chunk.\<close>

definition ur_contents :: "UringWritableFile \<Rightarrow> bytes" where
  "ur_contents f = ur_data (fold (\<lambda>q. perform q Full) (ur_inflight f) f) @
     take (ur_pos f) (ur_chunks f ! chunk_of (ur_chunk_pos f))"

definition uw_contents :: "UringWritableFile option \<Rightarrow> bytes" where
  "uw_contents fo = (case fo of None \<Rightarrow> [] | Some f \<Rightarrow> ur_contents f)"

definition uw_ok :: "UringWritableFile option \<Rightarrow> bool" where
  "uw_ok fo \<longleftrightarrow> (\<exists>f C. fo = Some f \<and> ur_holds f C)"

lemma ur_contents_holds: "ur_holds f C \<Longrightarrow> ur_contents f = C"
proof -
  assume "ur_holds f C"
  then obtain D n a where h: "mid f (1 - chunk_of (ur_chunk_pos f)) D n 0 a False False"
    "C = D @ take n (ur_chunks f ! (1 - chunk_of (ur_chunk_pos f))) @ take (ur_pos f) (ur_chunks f ! chunk_of (ur_chunk_pos f))"
    by (rule ur_holds_cases)
  then show ?thesis by (cases a) (auto simp: ur_contents_def mid_def Let_def pwrite_simps)
qed

lemma uw_ok_holds: "uw_ok fo \<longleftrightarrow> (\<exists>f. fo = Some f \<and> ur_holds f (uw_contents fo))"
  using ur_contents_holds by (fastforce simp: uw_ok_def uw_contents_def)

lemma uw_append_ok:
  assumes "uw_ok fo" "length d < kWritableFileBufferSize"
  shows "\<exists>fo'. uw_append d fo = (OK, fo') \<and> uw_ok fo' \<and> uw_contents fo' = uw_contents fo @ d"
proof -
  obtain f where f: "fo = Some f" "ur_holds f (uw_contents fo)" using assms(1) by (auto simp: uw_ok_holds)
  obtain f' where "ur_Append d f = Some (OK, f')" "ur_holds f' (uw_contents fo @ d)" using ur_Append_holds [OF f(2) assms(2)] by blast
  then show ?thesis using f(1) by (auto simp: uw_ok_def uw_contents_def dest: ur_contents_holds)
qed

lemma uw_flush_ok:
  assumes "uw_ok fo"
  shows "\<exists>fo'. uw_flush fo = (OK, fo') \<and> uw_ok fo' \<and> uw_contents fo' = uw_contents fo"
proof -
  obtain f where f: "fo = Some f" "ur_holds f (uw_contents fo)" using assms(1) by (auto simp: uw_ok_holds)
  obtain f' where "ur_Flush f = Some (OK, f')" "ur_holds f' (uw_contents fo)" using ur_Flush_holds [OF f(2)] by blast
  then show ?thesis using f(1) by (auto simp: uw_ok_def uw_contents_def dest: ur_contents_holds)
qed

interpretation utable: reliable_table_file uw_append uw_flush uw_contents uw_ok "\<lambda>n. n < kWritableFileBufferSize" uw_sync crc for crc
proof unfold_locales
  fix f f' d
  show "uw_ok f \<Longrightarrow> length d < kWritableFileBufferSize \<Longrightarrow> uw_append d f = (OK, f') \<Longrightarrow> uw_contents f' = uw_contents f @ d \<and> uw_ok f'"
    using uw_append_ok [of f d] by auto
  show "uw_ok f \<Longrightarrow> length d < kWritableFileBufferSize \<Longrightarrow> \<exists>f'. uw_append d f = (OK, f')" using uw_append_ok [of f d] by auto
  show "uw_ok f \<Longrightarrow> uw_flush f = (OK, f') \<Longrightarrow> uw_contents f' = uw_contents f \<and> uw_ok f'" using uw_flush_ok [of f] by auto
  show "uw_ok f \<Longrightarrow> \<exists>f'. uw_flush f = (OK, f')" using uw_flush_ok [of f] by auto
qed (simp_all add: kWritableFileBufferSize_def)

lemma utable_env: "utable.env crc = uring_env crc"
  by (simp add: utable.env_def uring_env_def)

section \<open>BuildTable\<close>

text \<open>What opening a new file yields: the behaviour of its ring, or a failure.\<close>

type_synonym ring_behaviour = "bool list \<times> ur_look list"

definition NewUringWritableFile ::
  "ring_behaviour option \<Rightarrow> string \<Rightarrow> FileSystem \<Rightarrow> (nat \<times> UringWritableFile \<times> FileSystem) option" where
  "NewUringWritableFile ring fname fs = (case ring of
      None \<Rightarrow> None
    | Some (submits, looks) \<Rightarrow> let (i, fs') = fs_create fname fs in Some (i, mk_UringWritableFile submits looks, fs'))"

definition fm_default :: SSTFileMeta where
  "fm_default = \<lparr>file_size = 0, file_number = 0, fm_level = 0, vlog_file_no = 0,
     smallest = \<lparr>ik_size = 0, ik_rep = []\<rparr>, largest = \<lparr>ik_size = 0, ik_rep = []\<rparr>\<rparr>"

text \<open>The loop over the memtable; it remembers the last key.\<close>

partial_function (option) build_loop ::
  "'f tb_env \<Rightarrow> mt_iter \<Rightarrow> bytes \<Rightarrow> 'f TableBuilder \<Rightarrow> (bytes \<times> 'f TableBuilder) option" where
  "build_loop env it key b =
     (if mti_valid it then do {
        k \<leftarrow> mti_key it;
        v \<leftarrow> mti_value it;
        b1 \<leftarrow> tb_Add env k v b;
        it1 \<leftarrow> mti_next it;
        build_loop env it1 k b1 }
      else Some (key, b))"

definition BuildTable ::
  "(bytes \<Rightarrow> u32) \<Rightarrow> string \<Rightarrow> ring_behaviour option \<Rightarrow> Version \<Rightarrow> mt_iter \<Rightarrow> SSTFileMeta \<Rightarrow> FileSystem
   \<Rightarrow> (Status \<times> Version \<times> SSTFileMeta \<times> FileSystem) option" where
  "BuildTable crc db ring v iter meta fs = do {
     it \<leftarrow> mti_seekToFirst iter;
     if \<not> mti_valid it then Some (InvalidArgument, v, meta, fs)
     else do {
       let number = NewSSTFileNumber v;
       let fname = SSTFileName db number;
       case NewUringWritableFile ring fname fs of
         None \<Rightarrow> Some (IOError, v, meta, fs)
       | Some (i, f, fs1) \<Rightarrow> do {
           k0 \<leftarrow> mti_key it;
           let meta1 = meta\<lparr>file_number := number, smallest := ik_DecodeFrom k0\<rparr>;
           (key, b1) \<leftarrow> build_loop (uring_env crc) it [] (mk_TableBuilder (Some f) True);
           let (meta2, b2) = (if key \<noteq> [] then (meta1\<lparr>largest := ik_DecodeFrom key\<rparr>, tb_SetLastKey key b1) else (meta1, b1));
           (s, b3) \<leftarrow> tb_Finish (uring_env crc) b2;
           meta3 \<leftarrow> (if ok s then if tb_FileSize b3 = 0 then None
                     else Some (meta2\<lparr>fm_level := 0, file_size := tb_FileSize b3\<rparr>) else Some meta2);
           f3 \<leftarrow> tb_file b3;
           (s1, f4) \<leftarrow> (if ok s then ur_Sync f3 else Some (s, f3));
           (s2, f5) \<leftarrow> (if ok s1 then ur_Close f4 else Some (s1, f4));
           if of_int (GetFileSize fname (fs_store i (ur_data f5) fs1)) \<noteq> file_size meta3 then None
           else do {
             (_, f6) \<leftarrow> ur_Close f5;
             Some (s2, if ok s2 \<and> file_size meta3 > 0 then SetSSTFileNumber (number + 1) v else v, meta3,
               fs_store i (ur_data f6) fs1) } } } }"

section \<open>The table that is built\<close>

lemma build_loop_delivers:
  "mti_delivers it kvs \<Longrightarrow>
     build_loop env it key b = map_option (Pair (if kvs = [] then key else fst (last kvs))) (tb_Add_all env kvs b)"
proof (induction kvs arbitrary: it key b)
  case Nil
  then show ?case using mem_it.valid_iff [OF Nil] by (simp add: build_loop.simps)
next
  case (Cons kv kvs)
  obtain k v where kv: "kv = (k, v)" by (cases kv)
  have d: "mti_delivers it ((k, v) # kvs)" using Cons.prems kv by simp
  obtain it1 where it1: "mti_next it = Some it1" "mti_delivers it1 kvs" using mem_it.nxt_tl [OF d] by blast
  have step: "build_loop env it key b = Option.bind (tb_Add env k v b) (build_loop env it1 k)"
    using mem_it.valid_iff [OF d] mem_it.key_hd [OF d] mem_it.val_hd [OF d] it1(1) by (subst build_loop.simps) simp
  show ?case using Cons.IH [OF it1(2)] by (cases "tb_Add env k v b") (auto simp: step kv)
qed

lemma length_sealed: "length (sealed crc bs) = length (block_of (concat bs)) + 4 * length bs"
  by (induction bs) simp_all

lemma length_blocks: "\<forall>l \<in> set bs. l \<noteq> [] \<Longrightarrow> length bs \<le> length (block_of (concat bs))"
proof (induction bs)
  case (Cons l bs)
  then have "0 < length (block_of l)" by simp
  with Cons show ?case by (simp del: length_greater_0_conv)
qed simp

lemma table_image_length:
  assumes "\<forall>l \<in> set bs. l \<noteq> []" "length (block_of (concat bs)) < kWritableFileBufferSize"
    "(\<Sum>e\<leftarrow>concat bs. length (fst e) + 24) < kWritableFileBufferSize" "length fl = bloom_size_opt"
  shows "length (table_image crc bs fl) < 2 ^ 20" "0 < length (table_image crc bs fl)"
  using length_blocks [OF assms(1)] length_index_block [OF assms(1), of 0] assms(2-4)
  by (simp_all add: table_image_eq length_sealed kWritableFileBufferSize_def bloom_size_opt_def kEncodedLength_def kBlockInfoLength_def)

lemma tb_rep_last_key:
  assumes "utable.tb_rep crc b bs c" "concat bs @ c = kvs" "kvs \<noteq> []"
  shows "tb_SetLastKey (fst (last kvs)) b = b"
proof -
  have "tb_last_key b = fst (last kvs)"
  proof (cases "c = []")
    case True
    then have bs: "bs \<noteq> []" "\<forall>l \<in> set bs. l \<noteq> []" "tb_last_key b = fst (last (last bs))"
      using assms by (auto simp: utable.tb_rep_def index_rep_def split: if_splits)
    have "last bs \<noteq> []" using bs(1,2) by simp
    then have "last (concat bs) = last (last bs)"
      using bs(1) by (metis append_butlast_last_id concat_append concat.simps last_appendR append_Nil2)
    then show ?thesis using bs(3) assms(2) True by simp
  qed (use assms in \<open>auto simp: utable.tb_rep_def\<close>)
  then show ?thesis by (simp add: tb_SetLastKey_def)
qed

text \<open>The entries fit the sizes the file and the key fields can take: in the store a memtable stays
  around 24 KB.\<close>

definition fits_table :: "(bytes \<times> bytes) list \<Rightarrow> bool" where
  "fits_table kvs \<longleftrightarrow> kvs \<noteq> [] \<and> (\<forall>e \<in> set kvs. 8 \<le> length (fst e)) \<and>
     length (block_of kvs) < kWritableFileBufferSize \<and> (\<Sum>e\<leftarrow>kvs. length (fst e) + 24) < kWritableFileBufferSize"

definition reliable_ring :: "ring_behaviour option \<Rightarrow> bool" where
  "reliable_ring ring \<longleftrightarrow> (\<exists>looks. ring = Some ([], looks) \<and>
     (\<forall>l \<in> set looks. \<exists>cs. l = Reap cs \<and> (\<forall>c \<in> set cs. snd c = Full)))"

lemma added_table:
  assumes "ur_holds f0 []" "fits_table kvs"
  shows "\<exists>b1 bs c. tb_Add_all (uring_env crc) kvs (mk_TableBuilder (Some f0) True) = Some b1 \<and> utable.fine b1 \<and> \<not> tb_closed b1 \<and>
    utable.tb_rep crc b1 bs c \<and> concat bs @ c = kvs"
proof -
  have f0: "uw_ok (Some f0)" "uw_contents (Some f0) = []" using assms(1) by (auto simp: uw_ok_def uw_contents_def dest: ur_contents_holds)
  have kv: "\<forall>e \<in> set kvs. 8 \<le> length (fst e)" "utable.room kvs" using assms(2) by (auto simp: fits_table_def utable.room_def)
  have "length (concat (map fst kvs)) \<le> (\<Sum>e\<leftarrow>kvs. length (fst e) + 24)" by (induction kvs) auto
  then have l32: "length (concat (map fst kvs)) < 2 ^ 32" using assms(2) by (simp add: fits_table_def kWritableFileBufferSize_def)
  have n: "tb_status (mk_TableBuilder (Some f0) True) = OK" "\<not> tb_closed (mk_TableBuilder (Some f0) True)"
    by (simp_all add: mk_TableBuilder_def)
  obtain b1 where b1: "tb_Add_all (uring_env crc) kvs (mk_TableBuilder (Some f0) True) = Some b1" "\<not> tb_closed b1"
      "tb_status b1 = OK \<longrightarrow> (\<exists>bs c. utable.tb_rep crc b1 bs c \<and> concat bs @ c = kvs)"
    using utable.tb_Add_all_rep [OF utable.tb_rep_new [OF f0] n kv(1), of crc] l32 kv(2) by (auto simp: utable_env)
  have "utable.fine b1"
    using utable.fine_Add_all [OF utable.tb_rep_new [OF f0] _ n(2) kv(1), of crc b1] b1(1) l32 kv(2) f0 n(1)
    by (simp add: utable.fine_def utable_env mk_TableBuilder_def)
  then show ?thesis using b1 by (auto simp: utable.fine_def)
qed

lemma finished_table:
  assumes "ur_holds f0 []" "fits_table kvs" "tb_Add_all (uring_env crc) kvs (mk_TableBuilder (Some f0) True) = Some b1"
  shows "\<exists>bs fl b3 f3 f4 f5. tb_SetLastKey (fst (last kvs)) b1 = b1 \<and> tb_Finish (uring_env crc) b1 = Some (OK, b3) \<and>
    tb_FileSize b3 = of_nat (length (table_image crc bs fl)) \<and> tb_file b3 = Some f3 \<and> ur_Sync f3 = Some (OK, f4) \<and>
    ur_Close f4 = Some (OK, f5) \<and> ur_data f5 = table_image crc bs fl \<and> \<not> ur_open f5 \<and>
    concat bs = kvs \<and> (\<forall>l \<in> set bs. l \<noteq> []) \<and> length fl = bloom_size_opt \<and> (\<forall>e \<in> set kvs. has_key fl (user (fst e))) \<and>
    length (table_image crc bs fl) < 2 ^ 20 \<and> 0 < length (table_image crc bs fl)"
proof -
  have kv: "kvs \<noteq> []" "utable.room kvs" using assms(2) by (auto simp: fits_table_def utable.room_def)
  obtain bs' c where rep: "utable.fine b1" "utable.tb_rep crc b1 bs' c" "concat bs' @ c = kvs"
    using added_table [OF assms(1,2), of crc] assms(3) by auto
  have ok1: "tb_status b1 = OK" using rep(1) by (simp add: utable.fine_def)
  have ne: "concat bs' @ c \<noteq> []" "utable.room (concat bs' @ c)" using rep(3) kv by simp_all
  obtain st b3 where b3: "tb_Finish (uring_env crc) b1 = Some (st, b3)" and
    im: "st = OK \<longrightarrow> (\<exists>bs fl. concat bs = kvs \<and> (\<forall>l \<in> set bs. l \<noteq> []) \<and> uw_contents (tb_file b3) = table_image crc bs fl \<and>
      tb_offset b3 = of_nat (length (table_image crc bs fl)) \<and> length fl = bloom_size_opt \<and> (\<forall>e \<in> set (concat bs). has_key fl (user (fst e))))"
    using utable.tb_Finish_rep [OF rep(2) ok1 ne] unfolding rep(3) utable_env by blast
  have st: "st = OK" "uw_ok (tb_file b3)"
    using utable.fine_Finish [OF rep(2,1) ne(2), of st b3] b3 by (simp_all add: utable_env utable.fine_def)
  then obtain bs fl where bs: "concat bs = kvs" "\<forall>l \<in> set bs. l \<noteq> []" "uw_contents (tb_file b3) = table_image crc bs fl"
      "tb_offset b3 = of_nat (length (table_image crc bs fl))" "length fl = bloom_size_opt" "\<forall>e \<in> set kvs. has_key fl (user (fst e))"
    using im by blast
  have len: "length (table_image crc bs fl) < 2 ^ 20" "0 < length (table_image crc bs fl)"
    using table_image_length [OF bs(2) _ _ bs(5)] assms(2) bs(1) by (auto simp: fits_table_def)
  obtain f3 where f3: "tb_file b3 = Some f3" "ur_holds f3 (table_image crc bs fl)" using st(2) bs(3) by (auto simp: uw_ok_holds)
  obtain f4 where f4: "ur_Sync f3 = Some (OK, f4)" "ur_holds f4 (table_image crc bs fl)" using ur_Sync_holds [OF f3(2)] by blast
  obtain f5 where f5: "ur_Close f4 = Some (OK, f5)" "ur_data f5 = table_image crc bs fl" "\<not> ur_open f5"
    using ur_Close_holds [OF f4(2)] f4 by (auto simp: ur_Close_def Let_def split: if_splits bind_splits)
  have "tb_SetLastKey (fst (last kvs)) b1 = b1" by (rule tb_rep_last_key [OF rep(2,3) kv(1)])
  then show ?thesis using b3 st bs len f3(1) f4(1) f5 by (simp add: tb_FileSize_def) blast
qed

lemma BuildTable_correct:
  assumes "mti_seekToFirst iter = Some it" "mti_delivers it kvs" "fits_table kvs" "reliable_ring ring" "fs_ok fs"
  shows "\<exists>bs fl fs'. BuildTable crc db ring v iter meta fs = Some (OK, SetSSTFileNumber (fileno v + 1) v,
      meta\<lparr>file_number := fileno v, smallest := ik_DecodeFrom (fst (hd kvs)), largest := ik_DecodeFrom (fst (last kvs)),
        fm_level := 0, file_size := of_nat (length (table_image crc bs fl))\<rparr>, fs') \<and>
    concat bs = kvs \<and> (\<forall>l \<in> set bs. l \<noteq> []) \<and> length fl = bloom_size_opt \<and> (\<forall>e \<in> set kvs. has_key fl (user (fst e))) \<and>
    length (table_image crc bs fl) < 2 ^ 20 \<and> fs_ok fs' \<and>
    (\<forall>name. fs_content name fs' = (if name = SSTFileName db (fileno v) then Some (table_image crc bs fl) else fs_content name fs))"
proof -
  have kv: "kvs \<noteq> []" "\<forall>e \<in> set kvs. 8 \<le> length (fst e)" using assms(3) by (auto simp: fits_table_def)
  obtain looks where ring: "ring = Some ([], looks)" "\<forall>l \<in> set looks. \<exists>cs. l = Reap cs \<and> (\<forall>c \<in> set cs. snd c = Full)"
    using assms(4) by (auto simp: reliable_ring_def)
  define f0 where "f0 = mk_UringWritableFile [] looks"
  have h0: "ur_holds f0 []" unfolding f0_def by (rule mk_UringWritableFile_holds [OF ring(2)])
  obtain b1 where b1: "tb_Add_all (uring_env crc) kvs (mk_TableBuilder (Some f0) True) = Some b1"
    using added_table [OF h0 assms(3), of crc] by blast
  obtain bs fl b3 f3 f4 f5 where fin: "tb_SetLastKey (fst (last kvs)) b1 = b1" "tb_Finish (uring_env crc) b1 = Some (OK, b3)"
      "tb_FileSize b3 = of_nat (length (table_image crc bs fl))" "tb_file b3 = Some f3" "ur_Sync f3 = Some (OK, f4)"
      "ur_Close f4 = Some (OK, f5)" "ur_data f5 = table_image crc bs fl" "\<not> ur_open f5"
    and bs: "concat bs = kvs" "\<forall>l \<in> set bs. l \<noteq> []" "length fl = bloom_size_opt" "\<forall>e \<in> set kvs. has_key fl (user (fst e))"
      "length (table_image crc bs fl) < 2 ^ 20" "0 < length (table_image crc bs fl)"
    using finished_table [OF h0 assms(3) b1] by blast
  have nz: "of_nat (length (table_image crc bs fl)) \<noteq> (0 :: u64)"
    using bs(5,6) unat_of_nat_u64 [of "length (table_image crc bs fl)"] by auto
  let ?fn = "SSTFileName db (fileno v)"
  obtain i fs1 where i: "fs_create ?fn fs = (i, fs1)" by (cases "fs_create ?fn fs")
  have fs1: "fs_ok fs1" "fs_names fs1 ?fn = Some i" using fs_ok_create [OF assms(5) i] by simp_all
  have k0: "mti_valid it" "mti_key it = Some (fst (hd kvs))"
    using mem_it.valid_iff [OF assms(2)] mem_it.key_hd [of it "fst (hd kvs)" "snd (hd kvs)" "tl kvs"] assms(2) kv(1) by simp_all
  have kne: "fst (last kvs) \<noteq> []" using kv(1,2) last_in_set by fastforce
  have loop: "build_loop (uring_env crc) it [] (mk_TableBuilder (Some f0) True) = Some (fst (last kvs), b1)"
    using build_loop_delivers [OF assms(2), of "uring_env crc" "[]" "mk_TableBuilder (Some f0) True"] b1 kv(1) by simp
  have sz: "GetFileSize ?fn (fs_store i (table_image crc bs fl) fs1) = int (length (table_image crc bs fl))"
    using fs_content_store [OF fs1] by (simp add: GetFileSize_def)
  have r: "BuildTable crc db ring v iter meta fs = Some (OK, SetSSTFileNumber (fileno v + 1) v,
      meta\<lparr>file_number := fileno v, smallest := ik_DecodeFrom (fst (hd kvs)), largest := ik_DecodeFrom (fst (last kvs)),
        fm_level := 0, file_size := of_nat (length (table_image crc bs fl))\<rparr>, fs_store i (table_image crc bs fl) fs1)"
  proof -
    have cl: "ur_Close f5 = Some (OK, f5)" using fin(8) by (simp add: ur_Close_def)
    have gt: "0 < (of_nat (length (table_image crc bs fl)) :: u64)" using nz by (simp add: word_gt_0)
    show ?thesis
      using assms(1) k0 ring(1) i loop fin(1-7) cl kne nz gt sz
      by (simp add: BuildTable_def NewUringWritableFile_def f0_def [symmetric] NewSSTFileNumber_def Let_def)
  qed
  have fc: "fs_content name (fs_store i (table_image crc bs fl) fs1) =
      (if name = ?fn then Some (table_image crc bs fl) else fs_content name fs)" for name
    using fs_content_store [OF fs1] fs_content_create [OF assms(5) i] by simp
  show ?thesis
    using r bs fc fs1(1)
    by (intro exI [of _ bs] exI [of _ fl] exI [of _ "fs_store i (table_image crc bs fl) fs1"] conjI) simp_all
qed

section \<open>From a memtable to a searchable table\<close>

definition kv_of :: "entry list \<Rightarrow> (bytes \<times> bytes) list" where
  "kv_of es = map (\<lambda>e. (e_ikey e, snd (snd e))) es"

lemma kv_of_table_entries:
  assumes "mt_holds m es" "\<forall>e \<in> set es. length (fst e) + 32 < 2 ^ 32"
  shows "table_entries (kv_of es)"
proof -
  have "sorted_wrt (\<lambda>a b. ikey_cmp (fst a) (fst b) < 0) (kv_of es)"
    unfolding kv_of_def sorted_wrt_map
    by (rule sorted_wrt_mono_rel [OF _ mt_holds_sorted [OF assms(1)]]) (simp add: ikey_cmp_e_lt)
  moreover have "\<forall>e \<in> set es. length (snd (snd e)) = 16" using assms(1) by (auto simp: mt_holds_def e_ok_def)
  ultimately show ?thesis using assms(2) by (auto simp: table_entries_def kv_of_def small_entry_def)
qed

lemma BuildTable_stored:
  assumes "mt_holds m es" "fits_table (kv_of es)" "reliable_ring ring" "fs_ok fs"
  shows "\<exists>bs fl fs'. BuildTable crc db ring v (mti_new m) meta fs = Some (OK, SetSSTFileNumber (fileno v + 1) v,
      meta\<lparr>file_number := fileno v, smallest := ik_DecodeFrom (e_ikey (hd es)), largest := ik_DecodeFrom (e_ikey (last es)),
        fm_level := 0, file_size := of_nat (length (table_image crc bs fl))\<rparr>, fs') \<and>
    concat bs = kv_of es \<and> stored_table crc bs fl \<and> fs_ok fs' \<and>
    (\<forall>name. fs_content name fs' = (if name = SSTFileName db (fileno v) then Some (table_image crc bs fl) else fs_content name fs))"
proof -
  obtain it where it: "mti_seekToFirst (mti_new m) = Some it" "mti_delivers it (kv_of es)"
    using mti_seekToFirst_delivers [OF assms(1)] by (auto simp: kv_of_def)
  have ne: "es \<noteq> []" using assms(2) by (auto simp: fits_table_def kv_of_def)
  have small: "length (fst e) + 32 < kWritableFileBufferSize" if "e \<in> set es" for e
  proof -
    have "length (fst e) + 32 \<in> set (map (\<lambda>e. length (fst e) + 24) (kv_of es))" using that by (auto simp: kv_of_def)
    then have "length (fst e) + 32 \<le> (\<Sum>e\<leftarrow>kv_of es. length (fst e) + 24)" by (rule member_le_sum_list) simp
    then show ?thesis using assms(2) by (simp add: fits_table_def)
  qed
  have big: "length (fst e) + 32 < 2 ^ 32" if "e \<in> set es" for e
    using small [OF that] by (simp add: kWritableFileBufferSize_def)
  obtain bs fl fs' where b: "BuildTable crc db ring v (mti_new m) meta fs = Some (OK, SetSSTFileNumber (fileno v + 1) v,
      meta\<lparr>file_number := fileno v, smallest := ik_DecodeFrom (fst (hd (kv_of es))), largest := ik_DecodeFrom (fst (last (kv_of es))),
        fm_level := 0, file_size := of_nat (length (table_image crc bs fl))\<rparr>, fs')" "concat bs = kv_of es"
    "\<forall>l \<in> set bs. l \<noteq> []" "length fl = bloom_size_opt" "\<forall>e \<in> set (kv_of es). has_key fl (user (fst e))"
    "length (table_image crc bs fl) < 2 ^ 20" "fs_ok fs'"
    "\<forall>name. fs_content name fs' = (if name = SSTFileName db (fileno v) then Some (table_image crc bs fl) else fs_content name fs)"
    using BuildTable_correct [OF it assms(2-4)] by blast
  have "table_entries (kv_of es)" using kv_of_table_entries [OF assms(1)] big by blast
  moreover have "\<forall>e \<in> set (kv_of es). length (fst e) + 24 < 2 ^ 32" using big by (fastforce simp: kv_of_def)
  ultimately have st: "stored_table crc bs fl"
    unfolding stored_table_def b(2) using b(3-6) by (simp add: bloom_size_opt_def)
  have ends: "fst (hd (kv_of es)) = e_ikey (hd es)" "fst (last (kv_of es)) = e_ikey (last es)"
    using ne by (simp_all add: kv_of_def hd_map last_map)
  show ?thesis
    using b(1,2,7,8) st unfolding ends by (intro exI [of _ bs] exI [of _ fl] exI [of _ fs']) simp
qed

text \<open>C7. Flushing a memtable writes a table in which every lookup is answered as by the memtable's
  entries, for a memtable with at least one entry whose data and whose index each fit the 64 KB write
  buffer (\<open>fits_table\<close>). On a kernel that completes writes in full, in any order, \<open>BuildTable\<close> returns OK and takes
  the next file number; the file of that number then holds a table with exactly the entries of the
  memtable, the metadata describes it (smallest and largest key, size), every other file is
  unchanged, and a reader of the file finds for each key its newest version or reports not-found.\<close>

theorem build_table_searchable:
  assumes "mt_holds m es" "fits_table (kv_of es)" "reliable_ring ring" "fs_ok fs"
  shows "\<exists>v' meta' fs' d. BuildTable crc db ring v (mti_new m) meta fs = Some (OK, v', meta', fs') \<and>
    v' = SetSSTFileNumber (fileno v + 1) v \<and> file_number meta' = fileno v \<and>
    smallest meta' = ik_DecodeFrom (e_ikey (hd es)) \<and> largest meta' = ik_DecodeFrom (e_ikey (last es)) \<and>
    fs_content (SSTFileName db (fileno v)) fs' = Some d \<and> file_size meta' = of_nat (length d) \<and>
    (\<forall>name. name \<noteq> SSTFileName db (fileno v) \<longrightarrow> fs_content name fs' = fs_content name fs) \<and>
    (\<forall>model open_file f q info. open_file (fileno v) = Some f \<and> serves f d \<and> wf_ikey q \<and> covers_versions q (kv_of es) \<longrightarrow>
      ReadOne model open_file meta' q info = lookup_result info (table_lookup (kv_of es) (user q)))"
proof -
  obtain bs fl fs' where b: "BuildTable crc db ring v (mti_new m) meta fs = Some (OK, SetSSTFileNumber (fileno v + 1) v,
      meta\<lparr>file_number := fileno v, smallest := ik_DecodeFrom (e_ikey (hd es)), largest := ik_DecodeFrom (e_ikey (last es)),
        fm_level := 0, file_size := of_nat (length (table_image crc bs fl))\<rparr>, fs')" "concat bs = kv_of es" "stored_table crc bs fl"
    "\<forall>name. fs_content name fs' = (if name = SSTFileName db (fileno v) then Some (table_image crc bs fl) else fs_content name fs)"
    using BuildTable_stored [OF assms] by blast
  define meta' where "meta' = meta\<lparr>file_number := fileno v, smallest := ik_DecodeFrom (e_ikey (hd es)),
    largest := ik_DecodeFrom (e_ikey (last es)), fm_level := 0, file_size := of_nat (length (table_image crc bs fl))\<rparr>"
  have "ReadOne model open_file meta' q info = lookup_result info (table_lookup (kv_of es) (user q))"
    if "open_file (fileno v) = Some f" "serves f (table_image crc bs fl)" "wf_ikey q" "covers_versions q (kv_of es)"
    for model open_file f q info
    using ReadOne_stored [OF b(3) that(3), where open_file = open_file and meta = meta' and f = f] that b(2) by (simp add: meta'_def)
  then show ?thesis
    using b(1,4) unfolding meta'_def [symmetric]
    by (intro exI [of _ "SetSSTFileNumber (fileno v + 1) v"] exI [of _ meta'] exI [of _ fs'] exI [of _ "table_image crc bs fl"] conjI)
      (simp_all add: meta'_def)
qed

definition empty_fs :: FileSystem where
  "empty_fs = \<lparr>fs_names = (\<lambda>_. None), fs_data = (\<lambda>_. []), fs_next = 0\<rparr>"

lemma empty_fs_ok: "fs_ok empty_fs"
  by (simp add: fs_ok_def empty_fs_def)

lemma sample_memtable:
  "\<exists>m. mt_put sample_env 0x101 [7] (replicate 16 0) (mk_MemTable 8000) = Some (OK, m) \<and>
     mt_holds m [put_entry sample_env 0x101 [7] (replicate 16 0)]"
  using mt_put_correct [OF mk_MemTable_holds sample_env_ok, where val = "replicate 16 0" and seq = "0x101"] by (auto simp: to_ValueType_def)

theorem build_table_searchable_witness:
  "\<exists>m v' meta' fs' d. mt_put sample_env 0x101 [7] (replicate 16 0) (mk_MemTable 8000) = Some (OK, m) \<and>
     BuildTable (\<lambda>_. 0) ''db'' (Some ([], [Reap [(0, Full)]])) mk_Version (mti_new m) fm_default empty_fs = Some (OK, v', meta', fs') \<and>
     fs_content (SSTFileName ''db'' 0) fs' = Some d \<and> file_size meta' = of_nat (length d)"
proof -
  obtain m where m: "mt_put sample_env 0x101 [7] (replicate 16 0) (mk_MemTable 8000) = Some (OK, m)"
    "mt_holds m [put_entry sample_env 0x101 [7] (replicate 16 0)]"
    using sample_memtable by blast
  have "fits_table (kv_of [put_entry sample_env 0x101 [7] (replicate 16 0)])"
    by (simp add: fits_table_def kv_of_def put_entry_def kWritableFileBufferSize_def)
  moreover have "reliable_ring (Some ([], [Reap [(0, Full)]]))" by (simp add: reliable_ring_def)
  ultimately show ?thesis
    using build_table_searchable [OF m(2) _ _ empty_fs_ok, where crc = "\<lambda>_. 0" and db = "''db''" and v = mk_Version and meta = fm_default
        and ring = "Some ([], [Reap [(0, Full)]])"] m(1)
    by (fastforce simp: mk_Version_def)
qed

end
