(* ===== verification/Scan.thy ===== *)
theory Scan
  imports Table_Iterator Memtable
begin

text \<open>
  The function \<open>Scan\<close> of \<^verbatim>\<open>src/include/levelcache.h\<close>, which collects what an iterator delivers into a
  \<open>std::map\<close>, and the abstract class \<open>Iterator\<close> (\<^verbatim>\<open>utils/iterator.h\<close>) with the two implementations
  that reach it.
\<close>

section \<open>Iterator\<close>

datatype Iterator = ItMem mt_iter | ItTable TableIterator

fun i_valid :: "Iterator \<Rightarrow> bool" where
  "i_valid (ItMem it) = mti_valid it"
| "i_valid (ItTable it) = ti_valid it"

fun i_next :: "Iterator \<Rightarrow> Iterator option" where
  "i_next (ItMem it) = map_option ItMem (mti_next it)"
| "i_next (ItTable it) = map_option ItTable (ti_next it)"

fun i_key :: "Iterator \<Rightarrow> bytes option" where
  "i_key (ItMem it) = mti_key it"
| "i_key (ItTable it) = ti_key it"

fun i_value :: "Iterator \<Rightarrow> bytes option" where
  "i_value (ItMem it) = mti_value it"
| "i_value (ItTable it) = ti_value it"

fun i_delivers :: "Iterator \<Rightarrow> (bytes \<times> bytes) list \<Rightarrow> bool" where
  "i_delivers (ItMem it) es = mti_delivers it es"
| "i_delivers (ItTable it) es = ti_delivers it es"

interpretation any_it: iterator i_valid i_next i_key i_value i_delivers
proof unfold_locales
  fix it es
  show "i_delivers it es \<Longrightarrow> i_valid it \<longleftrightarrow> es \<noteq> []"
    by (cases it) (auto simp: mem_it.valid_iff table_it.valid_iff)
next
  fix it k v es
  assume d: "i_delivers it ((k, v) # es)"
  show "i_key it = Some k" using d by (cases it) (auto simp: mem_it.key_hd table_it.key_hd)
  show "i_value it = Some v" using d by (cases it) (auto simp: mem_it.val_hd table_it.val_hd)
  show "\<exists>it'. i_next it = Some it' \<and> i_delivers it' es"
    using d mem_it.nxt_tl table_it.nxt_tl by (cases it) fastforce+
qed

section \<open>The ordered map\<close>

text \<open>What the code relies on of \<open>std::map\<close>, given as its sequence of elements: \<open>emplace\<close> leaves an
  existing element alone, so a sequence of insertions keeps the first value of every key.\<close>

locale std_map =
  fixes emp :: "'k \<Rightarrow> 'v \<Rightarrow> ('k \<times> 'v) list \<Rightarrow> ('k \<times> 'v) list" and okm :: "('k \<times> 'v) list \<Rightarrow> bool"
  assumes okm_emp: "okm m \<Longrightarrow> okm (emp k v m)"
    and lookup_emp: "okm m \<Longrightarrow> map_of (emp k v m) = (map_of m)(k := Some (case map_of m k of None \<Rightarrow> v | Some w \<Rightarrow> w))"
begin

definition emp_all :: "('k \<times> 'v) list \<Rightarrow> ('k \<times> 'v) list \<Rightarrow> ('k \<times> 'v) list" where
  "emp_all kvs m = fold (\<lambda>e. emp (fst e) (snd e)) kvs m"

lemma okm_emp_all: "okm m \<Longrightarrow> okm (emp_all kvs m)"
  unfolding emp_all_def by (induction kvs arbitrary: m) (auto intro: okm_emp)

lemma lookup_emp_all:
  "okm m \<Longrightarrow> map_of (emp_all kvs m) k = (case map_of m k of Some v \<Rightarrow> Some v | None \<Rightarrow> map_of kvs k)"
proof (induction kvs arbitrary: m)
  case (Cons e kvs)
  have "map_of (emp_all (e # kvs) m) k = map_of (emp_all kvs (emp (fst e) (snd e) m)) k" by (simp add: emp_all_def)
  also have "\<dots> = (case map_of (emp (fst e) (snd e) m) k of Some v \<Rightarrow> Some v | None \<Rightarrow> map_of kvs k)"
    by (rule Cons.IH [OF okm_emp [OF Cons.prems]])
  finally show ?case by (cases e) (auto simp: lookup_emp [OF Cons.prems] split: option.splits)
qed (simp add: emp_all_def split: option.splits)

end

text \<open>\<open>std::map<std::string, std::string>\<close> as its sequence of elements. \<open>emplace\<close> leaves an existing
  element alone.\<close>

type_synonym str_map = "(bytes \<times> bytes) list"

fun emplace :: "bytes \<Rightarrow> bytes \<Rightarrow> str_map \<Rightarrow> str_map" where
  "emplace k v [] = [(k, v)]"
| "emplace k v ((k', v') # m) =
     (if k = k' then (k', v') # m
      else if StrComparator_compare k k' < 0 then (k, v) # (k', v') # m
      else (k', v') # emplace k v m)"

definition map_ok :: "str_map \<Rightarrow> bool" where
  "map_ok m \<longleftrightarrow> sorted_wrt (\<lambda>a b. StrComparator_compare (fst a) (fst b) < 0) m"

lemma fst_emplace: "fst ` set (emplace k v m) = insert k (fst ` set m)"
  by (induction k v m rule: emplace.induct) auto

lemma map_ok_emplace: "map_ok m \<Longrightarrow> map_ok (emplace k v m)"
proof (induction k v m rule: emplace.induct)
  case (2 k v k' v' m)
  have keys: "fst x \<in> insert k (fst ` set m)" if "x \<in> set (emplace k v m)" for x
    using fst_emplace [of k v m] that by blast
  show ?case
  proof (cases "k = k' \<or> StrComparator_compare k k' < 0")
    case True
    then show ?thesis using "2.prems" str.cmp_lt_trans [of k k'] by (auto simp: map_ok_def)
  next
    case False
    then have "StrComparator_compare k' k < 0"
      using Str_neg [of k' k] Str_eq_0_iff [of k k'] by linarith
    moreover have "StrComparator_compare k' (fst x) < 0" if "x \<in> set m" for x using "2.prems" that by (simp add: map_ok_def)
    ultimately have "StrComparator_compare k' (fst x) < 0" if "x \<in> set (emplace k v m)" for x
      using keys [OF that] by auto
    moreover have "map_ok (emplace k v m)" using 2 False by (simp add: map_ok_def)
    ultimately show ?thesis using False by (simp add: map_ok_def)
  qed
qed (simp add: map_ok_def)

lemma emplace_present: "map_ok m \<Longrightarrow> k \<in> fst ` set m \<Longrightarrow> emplace k v m = m"
proof (induction k v m rule: emplace.induct)
  case (2 k v k' v' m)
  show ?case
  proof (cases "k = k'")
    case False
    then obtain x where x: "x \<in> set m" "fst x = k" using "2.prems"(2) by auto
    then have "StrComparator_compare k' k < 0" using "2.prems"(1) by (auto simp: map_ok_def)
    then have "\<not> StrComparator_compare k k' < 0" using Str_neg [of k' k] by linarith
    then show ?thesis using False 2 by (auto simp: map_ok_def)
  qed simp
qed simp

lemma map_of_emplace: "map_ok m \<Longrightarrow> map_of (emplace k v m) = (map_of m)(k := Some (case map_of m k of None \<Rightarrow> v | Some w \<Rightarrow> w))"
proof (induction k v m rule: emplace.induct)
  case (2 k v k' v' m)
  have "map_of m k = None" if "StrComparator_compare k k' < 0"
  proof -
    have "k \<notin> fst ` set m"
    proof
      assume "k \<in> fst ` set m"
      then have "StrComparator_compare k' k < 0" using "2.prems" by (auto simp: map_ok_def)
      then show False using that Str_neg [of k' k] by linarith
    qed
    then show ?thesis by (simp add: map_of_eq_None_iff)
  qed
  with 2 show ?case by (auto simp: map_ok_def fun_upd_def split: option.splits)
qed (simp add: fun_upd_def)

interpretation strm: std_map emplace map_ok
  by unfold_locales (simp_all add: map_ok_emplace map_of_emplace)

section \<open>Scan\<close>

text \<open>The first loop looks for the first visible entry and takes it; the second takes the visible
  entries whose user key differs from the last one taken.\<close>

partial_function (option) scan_first :: "u64 \<Rightarrow> str_map \<Rightarrow> Iterator \<Rightarrow> (str_map \<times> bytes \<times> Iterator) option" where
  "scan_first seq m it = do {
     k \<leftarrow> i_key it;
     key_seq \<leftarrow> ExtractSequenceNumber k;
     if key_seq \<le> seq then do {
       u \<leftarrow> ExtractUserKey k;
       v \<leftarrow> i_value it;
       it' \<leftarrow> i_next it;
       Some (emplace u v m, u, it') }
     else do {
       it' \<leftarrow> i_next it;
       if i_valid it' then scan_first seq m it' else Some (m, [], it') } }"

partial_function (option) scan_rest :: "u64 \<Rightarrow> bytes \<Rightarrow> str_map \<Rightarrow> Iterator \<Rightarrow> str_map option" where
  "scan_rest seq last_key m it =
     (if i_valid it then do {
        k \<leftarrow> i_key it;
        key_seq \<leftarrow> ExtractSequenceNumber k;
        u \<leftarrow> ExtractUserKey k;
        if key_seq \<le> seq \<and> u \<noteq> last_key then do {
          v \<leftarrow> i_value it;
          it' \<leftarrow> i_next it;
          scan_rest seq u (emplace u v m) it' }
        else do { it' \<leftarrow> i_next it; scan_rest seq last_key m it' } }
      else Some m)"

definition Scan :: "str_map \<Rightarrow> Iterator \<Rightarrow> u64 \<Rightarrow> (Status \<times> str_map) option" where
  "Scan m it seq =
     (if i_valid it then do {
        (m1, last_key, it1) \<leftarrow> scan_first seq m it;
        m2 \<leftarrow> scan_rest seq last_key m1 it1;
        Some (OK, m2) }
      else Some (OK, m))"

text \<open>The specification: every visible entry in turn, without looking at the previous key.\<close>

definition visible :: "u64 \<Rightarrow> bytes \<times> bytes \<Rightarrow> bool" where
  "visible seq e \<longleftrightarrow> the (ExtractSequenceNumber (fst e)) \<le> seq"

definition collect :: "u64 \<Rightarrow> (bytes \<times> bytes) list \<Rightarrow> str_map \<Rightarrow> str_map" where
  "collect seq es m = fold (\<lambda>e. emplace (user (fst e)) (snd e)) (filter (visible seq) es) m"

lemma collect_simps [simp]:
  "collect seq [] m = m"
  "collect seq (e # es) m = collect seq es (if visible seq e then emplace (user (fst e)) (snd e) m else m)"
  by (simp_all add: collect_def)

lemma collect_emp_all: "collect seq es m = strm.emp_all (map (\<lambda>e. (user (fst e), snd e)) (filter (visible seq) es)) m"
  by (simp add: collect_def strm.emp_all_def fold_map comp_def)

lemma map_ok_collect: "map_ok m \<Longrightarrow> map_ok (collect seq es m)"
  unfolding collect_emp_all by (rule strm.okm_emp_all)

text \<open>A key keeps the value it has; a new one gets the first visible entry.\<close>

lemma map_of_collect:
  assumes "map_ok m"
  shows "map_of (collect seq es m) u = (case map_of m u of Some v \<Rightarrow> Some v
     | None \<Rightarrow> map_option snd (find (\<lambda>e. user (fst e) = u \<and> visible seq e) es))"
proof -
  have "map_of (map (\<lambda>e. (user (fst e), snd e)) (filter (visible seq) es)) u =
      map_option snd (find (\<lambda>e. user (fst e) = u \<and> visible seq e) es)"
    by (induction es) auto
  then show ?thesis unfolding collect_emp_all strm.lookup_emp_all [OF assms] by (simp only:)
qed

lemma wf_ikey_seq:
  assumes "wf_ikey k"
  obtains s where "ExtractSequenceNumber k = Some s"
  using assms by (auto elim!: ikey_cases simp: ExtractSequenceNumber_def)

lemma scan_rest_delivers:
  assumes "i_delivers it es" "\<forall>e \<in> set es. wf_ikey (fst e)" "map_ok m" "last_key \<in> fst ` set m \<or> es = []"
  shows "scan_rest seq last_key m it = Some (collect seq es m)"
  using assms
proof (induction es arbitrary: it m last_key)
  case Nil
  then show ?case using any_it.valid_iff [OF Nil.prems(1)] by (simp add: scan_rest.simps)
next
  case (Cons e es)
  obtain k v where e: "e = (k, v)" by (cases e)
  have d: "i_delivers it ((k, v) # es)" using Cons.prems(1) e by simp
  obtain it' where it': "i_next it = Some it'" "i_delivers it' es" using any_it.nxt_tl [OF d] by blast
  obtain sq where sq: "ExtractSequenceNumber k = Some sq"
    using wf_ikey_seq [of k] Cons.prems e by auto
  have wf: "wf_ikey k" "8 \<le> length k" using Cons.prems(2) e by auto
  have step: "scan_rest seq last_key m it =
      (if visible seq e \<and> user k \<noteq> last_key then scan_rest seq (user k) (emplace (user k) v m) it' else scan_rest seq last_key m it')"
    using any_it.valid_iff [OF d] any_it.key_hd [OF d] any_it.val_hd [OF d] it'(1) sq
      ExtractUserKey_user [OF wf(2)] e
    by (subst scan_rest.simps) (auto simp: visible_def)
  have fe: "user k \<in> fst ` set (emplace (user k) v m)" using fst_emplace [of "user k" v m] by simp
  have "emplace (user k) v m = m" if "user k = last_key" using that Cons.prems(3,4) by (intro emplace_present) auto
  then show ?case
    using step Cons.IH [OF it'(2) _ Cons.prems(3), of last_key] Cons.prems fe e
      Cons.IH [OF it'(2) _ map_ok_emplace [OF Cons.prems(3)], of "user k" "user k" v]
    by auto
qed

lemma scan_first_delivers:
  assumes "i_delivers it es" "es \<noteq> []" "\<forall>e \<in> set es. wf_ikey (fst e)" "map_ok m"
  shows "\<exists>m1 last_key it1. scan_first seq m it = Some (m1, last_key, it1) \<and> scan_rest seq last_key m1 it1 = Some (collect seq es m)"
  using assms
proof (induction es arbitrary: it)
  case (Cons e es)
  obtain k v where e: "e = (k, v)" by (cases e)
  have d: "i_delivers it ((k, v) # es)" using Cons.prems(1) e by simp
  obtain it' where it': "i_next it = Some it'" "i_delivers it' es" using any_it.nxt_tl [OF d] by blast
  obtain sq where sq: "ExtractSequenceNumber k = Some sq"
    using wf_ikey_seq [of k] Cons.prems e by auto
  have wf: "wf_ikey k" "8 \<le> length k" using Cons.prems(3) e by auto
  have step: "scan_first seq m it =
      (if visible seq e then Some (emplace (user k) v m, user k, it')
       else if es \<noteq> [] then scan_first seq m it' else Some (m, [], it'))"
    using any_it.key_hd [OF d] any_it.val_hd [OF d] it'(1) sq
      ExtractUserKey_user [OF wf(2)] e any_it.valid_iff [OF it'(2)]
    by (subst scan_first.simps) (auto simp: visible_def)
  show ?case
  proof (cases "visible seq e")
    case True
    have "user k \<in> fst ` set (emplace (user k) v m)" using fst_emplace [of "user k" v m] by simp
    then show ?thesis
      using step True e scan_rest_delivers [OF it'(2) _ map_ok_emplace [OF Cons.prems(4)], of "user k" "user k" v] Cons.prems(3)
      by auto
  next
    case False
    show ?thesis
    proof (cases "es = []")
      case True
      then show ?thesis using step False e it'(2) scan_rest_delivers [OF it'(2) _ Cons.prems(4), of "[]"] by simp
    next
      case ne: False
      then show ?thesis using step False Cons.IH [OF it'(2) ne] Cons.prems(3,4) by simp
    qed
  qed
qed simp

lemma Scan_delivers:
  assumes "i_delivers it es" "\<forall>e \<in> set es. wf_ikey (fst e)" "map_ok m"
  shows "Scan m it seq = Some (OK, collect seq es m)"
proof (cases "es = []")
  case True
  then show ?thesis using any_it.valid_iff [OF assms(1)] by (simp add: Scan_def)
next
  case False
  then show ?thesis
    using scan_first_delivers [OF assms(1) False assms(2,3), of seq] any_it.valid_iff [OF assms(1)] by (auto simp: Scan_def)
qed

end
