(* ===== verification/Loser_Tree.thy ===== *)
theory Loser_Tree
  imports Scan "HOL-Library.Multiset"
begin

text \<open>
  The loser tree of \<^verbatim>\<open>src/levelcache.cpp\<close>, which merges the tables of a compaction. Node \<open>p\<close> with
  \<open>1 \<le> p < n\<close> has children \<open>2 * p\<close> and \<open>2 * p + 1\<close>; an index from \<open>n\<close> on is a leaf and stands for the way
  \<open>index - n\<close>. The array keeps the loser of each match and, at index 0, the overall winner. An access
  out of range is \<open>None\<close>.
\<close>

section \<open>Comparison of ways\<close>

text \<open>An exhausted way is larger than every other; keys are compared as plain byte strings.\<close>

definition lt_cmp :: "Iterator \<Rightarrow> Iterator \<Rightarrow> bool option" where
  "lt_cmp lhs rhs =
     (if \<not> i_valid lhs then Some False
      else if \<not> i_valid rhs then Some True
      else do { a \<leftarrow> i_key lhs; b \<leftarrow> i_key rhs; Some (StrComparator_compare a b < 0) })"

section \<open>LoserTree\<close>

record LoserTree =
  lt_n :: nat
  lt_ways :: "Iterator list"
  lt_loser :: "nat list"

text \<open>Array accesses with a bounds check.\<close>

definition at :: "'a list \<Rightarrow> nat \<Rightarrow> 'a option" where
  "at xs i = (if i < length xs then Some (xs ! i) else None)"

definition put_at :: "'a list \<Rightarrow> nat \<Rightarrow> 'a \<Rightarrow> 'a list option" where
  "put_at xs i x = (if i < length xs then Some (xs[i := x]) else None)"

text \<open>The loser and the winner of a match are stored at node \<open>i\<close> of the two arrays.\<close>

definition set_loser_winner ::
  "Iterator list \<Rightarrow> nat \<Rightarrow> nat \<Rightarrow> nat \<Rightarrow> nat list \<times> nat list \<Rightarrow> (nat list \<times> nat list) option" where
  "set_loser_winner ways i left right lw = do {
     l \<leftarrow> at ways left;
     r \<leftarrow> at ways right;
     c \<leftarrow> lt_cmp l r;
     loser \<leftarrow> put_at (fst lw) i (if c then right else left);
     winner \<leftarrow> put_at (snd lw) i (if c then left else right);
     Some (loser, winner) }"

fun init_leaves :: "Iterator list \<Rightarrow> nat \<Rightarrow> nat \<Rightarrow> nat \<Rightarrow> nat list \<times> nat list \<Rightarrow> (nat list \<times> nat list) option" where
  "init_leaves ways n m 0 lw = Some lw"
| "init_leaves ways n m (Suc i) lw =
     (if m < Suc i then do {
        lw1 \<leftarrow> set_loser_winner ways (Suc i) (Suc i * 2 - n) (Suc i * 2 - n + 1) lw;
        init_leaves ways n m i lw1 }
      else Some lw)"

definition set_inner :: "Iterator list \<Rightarrow> nat \<Rightarrow> nat list \<times> nat list \<Rightarrow> (nat list \<times> nat list) option" where
  "set_inner ways j lw = do {
     l \<leftarrow> at (snd lw) (2 * j);
     r \<leftarrow> at (snd lw) (2 * j + 1);
     set_loser_winner ways j l r lw }"

fun init_inner :: "Iterator list \<Rightarrow> nat \<Rightarrow> nat \<Rightarrow> nat list \<times> nat list \<Rightarrow> (nat list \<times> nat list) option" where
  "init_inner ways lo 0 lw = Some lw"
| "init_inner ways lo (Suc j) lw =
     (if lo < Suc j then do { lw1 \<leftarrow> set_inner ways j lw; init_inner ways lo j lw1 } else Some lw)"

fun init_levels :: "Iterator list \<Rightarrow> nat \<Rightarrow> nat list \<times> nat list \<Rightarrow> (nat list \<times> nat list) option" where
  "init_levels ways i lw =
     (if i = 0 then Some lw else do { lw1 \<leftarrow> init_inner ways (i div 2) i lw; init_levels ways (i div 2) lw1 })"

declare init_levels.simps [simp del]

text \<open>With no way at all the first loop starts at the largest index.\<close>

definition mk_LoserTree :: "Iterator list \<Rightarrow> LoserTree option" where
  "mk_LoserTree ways =
     (let n = length ways; m = n div 2 in
      if n = 0 then None
      else do {
        lw1 \<leftarrow> init_leaves ways n m (n - 1) (replicate n 0, replicate n 0);
        lw2 \<leftarrow> (if odd n then do { w \<leftarrow> at (snd lw1) (n - 1); set_loser_winner ways m w 0 lw1 }
                else set_loser_winner ways m 0 1 lw1);
        (loser, winner) \<leftarrow> init_levels ways m lw2;
        w1 \<leftarrow> at winner 1;
        loser' \<leftarrow> put_at loser 0 w1;
        Some \<lparr>lt_n = n, lt_ways = ways, lt_loser = loser'\<rparr> })"

definition lt_top :: "LoserTree \<Rightarrow> nat option" where
  "lt_top t = at (lt_loser t) 0"

definition lt_top_iter :: "LoserTree \<Rightarrow> Iterator option" where
  "lt_top_iter t = Option.bind (lt_top t) (at (lt_ways t))"

definition lt_end :: "LoserTree \<Rightarrow> bool option" where
  "lt_end t = map_option (\<lambda>it. \<not> i_valid it) (lt_top_iter t)"

fun adjust_loop :: "Iterator list \<Rightarrow> nat \<Rightarrow> nat \<Rightarrow> nat list \<Rightarrow> nat list option" where
  "adjust_loop ways parent index loser =
     (if parent div 2 = 0 then put_at loser 0 index
      else do {
        l \<leftarrow> at loser (parent div 2);
        si \<leftarrow> at ways index;
        li \<leftarrow> at ways l;
        c \<leftarrow> lt_cmp si li;
        if \<not> c then adjust_loop ways (parent div 2) l (loser[parent div 2 := index])
        else adjust_loop ways (parent div 2) index loser })"

declare adjust_loop.simps [simp del]

definition Adjust :: "nat \<Rightarrow> LoserTree \<Rightarrow> LoserTree option" where
  "Adjust index t = map_option (\<lambda>l. t\<lparr>lt_loser := l\<rparr>) (adjust_loop (lt_ways t) (index + lt_n t) index (lt_loser t))"

definition lt_increment :: "LoserTree \<Rightarrow> LoserTree option" where
  "lt_increment t = do {
     top \<leftarrow> lt_top t;
     it \<leftarrow> at (lt_ways t) top;
     it' \<leftarrow> i_next it;
     Adjust top (t\<lparr>lt_ways := (lt_ways t)[top := it']\<rparr>) }"

section \<open>The order of the ways\<close>

text \<open>What the ways deliver, as lists; an empty one is last.\<close>

definition way_lt :: "(bytes \<times> bytes) list \<Rightarrow> (bytes \<times> bytes) list \<Rightarrow> bool" where
  "way_lt a b \<longleftrightarrow> a \<noteq> [] \<and> (b = [] \<or> StrComparator_compare (fst (hd a)) (fst (hd b)) < 0)"

lemma way_lt_trans: "\<not> way_lt b a \<Longrightarrow> \<not> way_lt c b \<Longrightarrow> \<not> way_lt c a"
  using Str_trans [of "fst (hd a)" "fst (hd b)" "fst (hd c)"] Str_neg [of "fst (hd a)" "fst (hd b)"]
    Str_neg [of "fst (hd b)" "fst (hd c)"] Str_neg [of "fst (hd a)" "fst (hd c)"]
  by (auto simp: way_lt_def)

lemma way_lt_asym: "way_lt a b \<Longrightarrow> \<not> way_lt b a"
  using Str_neg [of "fst (hd a)" "fst (hd b)"] by (auto simp: way_lt_def)

lemma lt_cmp_delivers:
  assumes "i_delivers x a" "i_delivers y b"
  shows "lt_cmp x y = Some (way_lt a b)"
proof (cases "a = [] \<or> b = []")
  case True
  then show ?thesis
    using any_it.valid_iff [OF assms(1)] any_it.valid_iff [OF assms(2)] by (auto simp: lt_cmp_def way_lt_def)
next
  case False
  then obtain k v as k' v' bs where ab: "a = (k, v) # as" "b = (k', v') # bs" by (metis list.exhaust prod.exhaust)
  then show ?thesis
    using any_it.valid_iff [OF assms(1)] any_it.valid_iff [OF assms(2)] any_it.key_hd [of x k v as] any_it.key_hd [of y k' v' bs] assms
    by (simp add: lt_cmp_def way_lt_def)
qed

definition delivers_all :: "Iterator list \<Rightarrow> (bytes \<times> bytes) list list \<Rightarrow> bool" where
  "delivers_all ways ess \<longleftrightarrow> list_all2 i_delivers ways ess"

lemma delivers_allD:
  assumes "delivers_all ways ess"
  shows "length ways = length ess" "i < length ess \<Longrightarrow> i_delivers (ways ! i) (ess ! i)"
  using assms by (auto simp: delivers_all_def list_all2_conv_all_nth)

lemma delivers_all_update:
  "delivers_all ways ess \<Longrightarrow> i_delivers it es \<Longrightarrow> delivers_all (ways[i := it]) (ess[i := es])"
  by (simp add: delivers_all_def list_all2_update_cong)

section \<open>The tree of matches\<close>

text \<open>\<open>match\<close>: the winner and the loser of node \<open>p\<close> are the winners of its children, in the right
  order. \<open>W\<close> gives the winner of every node and leaf.\<close>

definition match :: "(bytes \<times> bytes) list list \<Rightarrow> (nat \<Rightarrow> nat) \<Rightarrow> nat list \<Rightarrow> nat \<Rightarrow> bool" where
  "match ess W L p \<longleftrightarrow> (W p = W (2 * p) \<and> L ! p = W (2 * p + 1) \<or> W p = W (2 * p + 1) \<and> L ! p = W (2 * p)) \<and>
     \<not> way_lt (ess ! (L ! p)) (ess ! (W p))"

definition leaves :: "nat \<Rightarrow> (nat \<Rightarrow> nat) \<Rightarrow> bool" where
  "leaves n W \<longleftrightarrow> (\<forall>i < n. W (n + i) = i)"

definition tree_ok :: "(bytes \<times> bytes) list list \<Rightarrow> (nat \<Rightarrow> nat) \<Rightarrow> nat list \<Rightarrow> bool" where
  "tree_ok ess W L \<longleftrightarrow> length L = length ess \<and> leaves (length ess) W \<and> (\<forall>p. 1 \<le> p \<and> p < length ess \<longrightarrow> match ess W L p) \<and>
     L ! 0 = W 1"

lemma half_bounds: "2 \<le> (q :: nat) \<Longrightarrow> q < 2 * n \<Longrightarrow> 1 \<le> q div 2 \<and> q div 2 < n \<and> q div 2 < q \<and> (q = 2 * (q div 2) \<or> q = 2 * (q div 2) + 1)"
  by auto

text \<open>The overall winner is a smallest way.\<close>

lemma tree_ok_min:
  assumes "tree_ok ess W L" "1 \<le> q" "q < 2 * length ess"
  shows "\<not> way_lt (ess ! W q) (ess ! W 1)"
  using assms(2,3)
proof (induction q rule: less_induct)
  case (less q)
  show ?case
  proof (cases "q = 1")
    case True
    then show ?thesis using way_lt_asym by blast
  next
    case False
    then have q: "1 \<le> q div 2" "q div 2 < length ess" "q div 2 < q" "q = 2 * (q div 2) \<or> q = 2 * (q div 2) + 1"
      using half_bounds [of q "length ess"] less.prems by auto
    have m: "match ess W L (q div 2)" using assms(1) q(1,2) by (simp add: tree_ok_def)
    have "\<not> way_lt (ess ! W q) (ess ! W (q div 2))"
      using m q(4) way_lt_asym unfolding match_def by metis
    moreover have "\<not> way_lt (ess ! W (q div 2)) (ess ! W 1)" using less.IH [OF q(3,1)] q(2) by simp
    ultimately show ?thesis using way_lt_trans by blast
  qed
qed

lemma tree_ok_top:
  assumes "tree_ok ess W L" "i < length ess"
  shows "\<not> way_lt (ess ! i) (ess ! (L ! 0))"
  using tree_ok_min [OF assms(1), of "length ess + i"] assms by (auto simp: tree_ok_def leaves_def)

text \<open>Ancestors.\<close>

inductive anc :: "nat \<Rightarrow> nat \<Rightarrow> bool" where
  anc_refl: "anc c c"
| anc_half: "anc q c \<Longrightarrow> anc (q div 2) c"

lemma anc_le: "anc q c \<Longrightarrow> q \<le> c"
  by (induction rule: anc.induct) auto

lemma anc_trans: "anc p q \<Longrightarrow> anc q c \<Longrightarrow> anc p c"
  by (induction rule: anc.induct) (auto intro: anc_half)

lemma anc_cases: "anc q c \<Longrightarrow> q = c \<or> anc q (c div 2)"
  by (induction rule: anc.induct) (auto intro: anc.intros)

lemma anc_linear: "anc p c \<Longrightarrow> anc q c \<Longrightarrow> anc p q \<or> anc q p"
proof (induction rule: anc.induct)
  case (anc_half p c)
  then consider "anc p q" | "anc q p" by blast
  then show ?case
  proof cases
    case 2
    then show ?thesis using anc_cases anc.intros by blast
  qed (auto intro: anc.intros)
qed (auto intro: anc.intros)

definition sib :: "nat \<Rightarrow> nat" where "sib q = (if even q then q + 1 else q - 1)"

lemma sib_props:
  assumes "2 \<le> q"
  shows "sib q \<noteq> q" "sib q div 2 = q div 2" "2 \<le> sib q" "{q, sib q} = {2 * (q div 2), 2 * (q div 2) + 1}"
  using assms by (auto simp: sib_def elim!: evenE oddE)

lemma sib_not_anc:
  assumes "2 \<le> q" "anc q c" "anc (sib q) c"
  shows False
proof -
  have n: "\<not> anc a b" if "a \<noteq> b" "a div 2 = b div 2" "2 \<le> b" for a b
  proof
    assume "anc a b"
    then have "anc a (b div 2)" using anc_cases that(1) by blast
    then have "a \<le> b div 2" by (rule anc_le)
    then show False using that by linarith
  qed
  from anc_linear [OF assms(2,3)] show False
    using n [of q "sib q"] n [of "sib q" q] sib_props [OF assms(1)] assms(1) by auto
qed

text \<open>A winner comes from below its node.\<close>

lemma winner_below:
  assumes "tree_ok ess W L" "1 \<le> q" "q < 2 * length ess"
  shows "W q < length ess \<and> anc q (length ess + W q)"
  using assms(2,3)
proof (induction "2 * length ess - q" arbitrary: q rule: less_induct)
  case less
  let ?n = "length ess"
  show ?case
  proof (cases "q < ?n")
    case False
    then obtain i where "q = ?n + i" "i < ?n" using less.prems by (metis add.commute le_add_diff_inverse less_diff_conv2 mult_2 not_le)
    then show ?thesis using assms(1) by (auto simp: tree_ok_def leaves_def intro: anc_refl)
  next
    case True
    then have "match ess W L q" using assms(1) less.prems by (simp add: tree_ok_def)
    then obtain c where c: "c = 2 * q \<or> c = 2 * q + 1" "W q = W c" by (auto simp: match_def)
    then have cb: "2 * ?n - c < 2 * ?n - q" "1 \<le> c" "c < 2 * ?n" "c div 2 = q" using True less.prems by auto
    from less.hyps [OF cb(1-3)] c(2) cb(4) show ?thesis
      using anc_trans [of q c] anc_half [OF anc_refl, of c] by auto
  qed
qed

text \<open>On the path from the root to the leaf of the overall winner every match was won by it, and lost
  by the winner of the other child.\<close>

lemma winner_path:
  assumes "tree_ok ess W L" "anc q (length ess + W 1)" "1 \<le> q" "q < 2 * length ess"
  shows "W q = W 1" "2 \<le> q \<Longrightarrow> L ! (q div 2) = W (sib q)"
proof -
  let ?n = "length ess"
  have both: "W q = W 1 \<and> (2 \<le> q \<longrightarrow> L ! (q div 2) = W (sib q))"
    using assms(2-4)
  proof (induction q rule: less_induct)
    case (less q)
    show ?case
    proof (cases "q = 1")
      case False
      then have q2: "2 \<le> q" using less.prems by simp
      have q: "1 \<le> q div 2" "q div 2 < ?n" "q div 2 < q" using half_bounds [OF q2 less.prems(3)] by auto
      note sp = sib_props [OF q2]
      have sn: "sib q < 2 * ?n" using sp(2) q(2) by linarith
      have wp: "W (q div 2) = W 1" using less.IH [OF q(3) anc_half [OF less.prems(1)] q(1)] q(2) by simp
      have ws: "W (sib q) \<noteq> W 1"
      proof
        assume "W (sib q) = W 1"
        then have "anc (sib q) (?n + W 1)" using winner_below [OF assms(1), of "sib q"] sp(3) sn by simp
        then show False using sib_not_anc [OF q2 less.prems(1)] by blast
      qed
      have "match ess W L (q div 2)" using assms(1) q by (simp add: tree_ok_def)
      then have "W (q div 2) = W q \<and> L ! (q div 2) = W (sib q) \<or> W (q div 2) = W (sib q)"
        using sp(4) unfolding match_def by (metis doubleton_eq_iff)
      then show ?thesis using wp ws by simp
    qed simp
  qed
  show "W q = W 1" "2 \<le> q \<Longrightarrow> L ! (q div 2) = W (sib q)" using both by blast+
qed

section \<open>Replaying the path\<close>

definition off_path :: "nat \<Rightarrow> nat \<Rightarrow> bool" where
  "off_path c p \<longleftrightarrow> \<not> (\<exists>q. anc q c \<and> 2 \<le> q \<and> q div 2 = p)"

definition replay_inv :: "(bytes \<times> bytes) list list \<Rightarrow> (nat \<Rightarrow> nat) \<Rightarrow> nat list \<Rightarrow> nat \<Rightarrow> nat \<Rightarrow> bool" where
  "replay_inv ess W L c s \<longleftrightarrow> length L = length ess \<and> leaves (length ess) W \<and> W c = s \<and> 1 \<le> c \<and> c < 2 * length ess \<and>
     (\<forall>q. 1 \<le> q \<and> q < 2 * length ess \<longrightarrow> W q < length ess) \<and>
     (\<forall>q. anc q c \<and> 2 \<le> q \<longrightarrow> L ! (q div 2) = W (sib q)) \<and>
     (\<forall>p. 1 \<le> p \<and> p < length ess \<and> off_path c p \<longrightarrow> match ess W L p)"

lemma replay_step:
  assumes "replay_inv ess W L c s" "2 \<le> c" "{x, y} = {s, W (sib c)}" "\<not> way_lt (ess ! y) (ess ! x)"
  shows "replay_inv ess (W(c div 2 := x)) (L[c div 2 := y]) (c div 2) x"
proof -
  let ?p = "c div 2" and ?n = "length ess"
  let ?W = "W(?p := x)" and ?L = "L[?p := y]"
  have c: "c < 2 * ?n" "length L = ?n" "leaves ?n W" "W c = s" and wb: "\<And>q. 1 \<le> q \<Longrightarrow> q < 2 * ?n \<Longrightarrow> W q < ?n"
    and path: "\<And>q. anc q c \<Longrightarrow> 2 \<le> q \<Longrightarrow> L ! (q div 2) = W (sib q)"
    and off: "\<And>p. 1 \<le> p \<Longrightarrow> p < ?n \<Longrightarrow> off_path c p \<Longrightarrow> match ess W L p"
    using assms(1) by (auto simp: replay_inv_def)
  have p: "1 \<le> ?p" "?p < ?n" "?p < c" using half_bounds [OF assms(2) c(1)] by auto
  note sp = sib_props [OF assms(2)]
  have sc: "sib c < 2 * ?n" "?p < sib c" using sp(2,3) p(2) by linarith+
  have "x \<in> {s, W (sib c)}" using assms(3) by blast
  then have xn: "x < ?n" using wb [of c] wb [of "sib c"] assms(2) sp(3) sc(1) c by auto
  have "leaves ?n ?W" using c(3) p(2) by (auto simp: leaves_def)
  moreover have "?W q < ?n" if "1 \<le> q" "q < 2 * ?n" for q using wb [OF that] xn by simp
  moreover have "?L ! (q div 2) = ?W (sib q)" if q: "anc q ?p" "2 \<le> q" for q
  proof -
    have "q \<le> ?p" using anc_le [OF q(1)] .
    then have "q div 2 \<noteq> ?p" using q(2) by linarith
    moreover have "sib q \<noteq> ?p" using sib_not_anc [OF q(2,1)] anc_refl by metis
    moreover have "anc q c" using q(1) anc_half [OF anc_refl, of c] anc_trans by blast
    ultimately show ?thesis using path [of q] q(2) by simp
  qed
  moreover have "match ess ?W ?L p'" if p': "1 \<le> p'" "p' < ?n" "off_path ?p p'" for p'
  proof (cases "p' = ?p")
    case True
    have "?W (2 * ?p) = W (2 * ?p)" "?W (2 * ?p + 1) = W (2 * ?p + 1)" using p(1) by auto
    moreover have "{W (2 * ?p), W (2 * ?p + 1)} = {s, W (sib c)}" using sp(4) c(4) by (metis image_empty image_insert)
    ultimately show ?thesis
      using True assms(3,4) p(2) c(2) unfolding match_def by (simp add: doubleton_eq_iff) metis
  next
    case False
    have "off_path c p'"
      using p'(3) False anc_cases [of _ c] unfolding off_path_def by blast
    then have m: "match ess W L p'" using off p' by blast
    have "2 * p' \<noteq> ?p" "2 * p' + 1 \<noteq> ?p"
      using p'(1,3) anc_refl [of ?p] unfolding off_path_def by (auto dest!: spec [of _ ?p])
    then show ?thesis using m False by (simp add: match_def)
  qed
  ultimately show ?thesis using c(2) p(1) p(2) unfolding replay_inv_def by simp
qed

lemma adjust_loop_replay:
  assumes "replay_inv ess W L c s" "delivers_all ways ess"
  shows "\<exists>L' W'. adjust_loop ways c s L = Some L' \<and> tree_ok ess W' L'"
  using assms(1)
proof (induction c arbitrary: W L s rule: less_induct)
  case (less c)
  let ?n = "length ess"
  have inv: "length L = ?n" "leaves ?n W" "W c = s" "1 \<le> c" "c < 2 * ?n" "s < ?n"
    using less.prems unfolding replay_inv_def by blast+
  show ?case
  proof (cases "c = 1")
    case True
    have "off_path c p" for p using anc_le [of _ c] True by (fastforce simp: off_path_def)
    then have "\<forall>p. 1 \<le> p \<and> p < ?n \<longrightarrow> match ess W L p" using less.prems by (simp add: replay_inv_def)
    moreover have "0 < length L" using inv(1,5) by linarith
    ultimately have "tree_ok ess W (L[0 := s])" using inv True by (auto simp: tree_ok_def match_def)
    then show ?thesis using True inv by (subst adjust_loop.simps) (auto simp: put_at_def)
  next
    case False
    then have c2: "2 \<le> c" using inv(4) by simp
    let ?p = "c div 2" and ?l = "W (sib c)"
    have p: "?p \<noteq> 0" "?p < ?n" "?p < c" using half_bounds [OF c2 inv(5)] by auto
    have lp: "L ! ?p = ?l" using less.prems c2 anc_refl by (auto simp: replay_inv_def)
    have ln: "?l < ?n"
      using less.prems sib_props(2,3) [OF c2] p(2) unfolding replay_inv_def by (auto dest!: spec [of _ "sib c"])
    have cm: "lt_cmp (ways ! s) (ways ! ?l) = Some (way_lt (ess ! s) (ess ! ?l))"
      using delivers_allD(2) [OF assms(2)] inv(6) ln lt_cmp_delivers by blast
    have step: "adjust_loop ways c s L = (if \<not> way_lt (ess ! s) (ess ! ?l) then adjust_loop ways ?p ?l (L[?p := s]) else adjust_loop ways ?p s L)"
      using p lp cm ln inv(1,6) delivers_allD(1) [OF assms(2)] by (subst adjust_loop.simps) (simp add: at_def)
    show ?thesis
    proof (cases "way_lt (ess ! s) (ess ! ?l)")
      case True
      have "replay_inv ess (W(?p := s)) (L[?p := ?l]) ?p s"
        by (rule replay_step [OF less.prems c2]) (use way_lt_asym [OF True] in auto)
      moreover have "L[?p := ?l] = L" using lp by (metis list_update_id)
      ultimately have "replay_inv ess (W(?p := s)) L ?p s" by metis
      from less.IH [OF p(3) this] show ?thesis using step True by simp
    next
      case False
      have "replay_inv ess (W(?p := ?l)) (L[?p := s]) ?p ?l"
        by (rule replay_step [OF less.prems c2]) (use False in auto)
      from less.IH [OF p(3) this] show ?thesis using step False by simp
    qed
  qed
qed

lemma Adjust_ok:
  assumes "tree_ok ess W L" "delivers_all ways (ess[L ! 0 := es])" "L ! 0 < length ess"
  shows "\<exists>L' W'. adjust_loop ways (L ! 0 + length ess) (L ! 0) L = Some L' \<and> tree_ok (ess[L ! 0 := es]) W' L'"
proof -
  let ?n = "length ess" and ?t = "L ! 0"
  let ?e = "ess[?t := es]"
  have t: "?t = W 1" using assms(1) by (simp add: tree_ok_def)
  have W: "W q < ?n \<and> anc q (?n + W q)" if "1 \<le> q" "q < 2 * ?n" for q using winner_below [OF assms(1) that] .
  have "match ?e W L p" if p: "1 \<le> p" "p < ?n" "off_path (?n + ?t) p" for p
  proof -
    have m: "match ess W L p" using assms(1) p by (simp add: tree_ok_def)
    have ne: "W c \<noteq> ?t" if "c = 2 * p \<or> c = 2 * p + 1" for c
    proof
      assume "W c = ?t"
      then have "anc c (?n + ?t)" "2 \<le> c" "c div 2 = p" using W [of c] that p(1,2) by auto
      then show False using p(3) by (auto simp: off_path_def)
    qed
    then have "L ! p \<noteq> ?t" "W p \<noteq> ?t" using m by (auto simp: match_def)
    then show ?thesis using m by (simp add: match_def)
  qed
  moreover have "L ! (q div 2) = W (sib q)" if "anc q (?n + ?t)" "2 \<le> q" for q
    using winner_path(2) [OF assms(1), of q] that t anc_le [OF that(1)] assms(3) by auto
  ultimately have "replay_inv ?e W L (?n + ?t) ?t"
    using assms(1,3) W unfolding replay_inv_def tree_ok_def by (auto simp: leaves_def)
  from adjust_loop_replay [OF this assms(2)] show ?thesis by (simp add: add.commute)
qed

section \<open>Building the tree\<close>

definition winner_of :: "nat \<Rightarrow> nat list \<Rightarrow> nat \<Rightarrow> nat" where
  "winner_of n w p = (if p < n then w ! p else p - n)"

text \<open>All matches from node \<open>j\<close> on have been played.\<close>

definition played :: "(bytes \<times> bytes) list list \<Rightarrow> nat \<Rightarrow> nat list \<times> nat list \<Rightarrow> bool" where
  "played ess j lw \<longleftrightarrow> length (fst lw) = length ess \<and> length (snd lw) = length ess \<and> (\<forall>w \<in> set (snd lw). w < length ess) \<and>
     (\<forall>p. j \<le> p \<and> 1 \<le> p \<and> p < length ess \<longrightarrow> match ess (winner_of (length ess) (snd lw)) (fst lw) p)"

lemma played_step:
  assumes "delivers_all ways ess" "played ess (Suc j) lw" "j < length ess" "left < length ess" "right < length ess"
    "1 \<le> j \<Longrightarrow> left = winner_of (length ess) (snd lw) (2 * j) \<and> right = winner_of (length ess) (snd lw) (2 * j + 1)"
  shows "\<exists>lw'. set_loser_winner ways j left right lw = Some lw' \<and> played ess j lw'"
proof -
  let ?n = "length ess" and ?c = "way_lt (ess ! left) (ess ! right)"
  let ?lw = "((fst lw)[j := if ?c then right else left], (snd lw)[j := if ?c then left else right])"
  have cm: "lt_cmp (ways ! left) (ways ! right) = Some ?c"
    using delivers_allD(2) [OF assms(1)] assms(4,5) lt_cmp_delivers by blast
  have len: "length (fst lw) = ?n" "length (snd lw) = ?n" using assms(2) by (simp_all add: played_def)
  have r: "set_loser_winner ways j left right lw = Some ?lw"
    using cm assms(3-5) len delivers_allD(1) [OF assms(1)] by (simp add: set_loser_winner_def at_def put_at_def)
  have "match ess (winner_of ?n (snd ?lw)) (fst ?lw) p" if p: "j \<le> p" "1 \<le> p" "p < ?n" for p
  proof (cases "p = j")
    case True
    then have "winner_of ?n (snd ?lw) (2 * p) = left" "winner_of ?n (snd ?lw) (2 * p + 1) = right"
      using assms(6) p by (auto simp: winner_of_def)
    then show ?thesis using True p(3) len way_lt_asym [of "ess ! left" "ess ! right"]
      by (auto simp: match_def winner_of_def)
  next
    case False
    then have "match ess (winner_of ?n (snd lw)) (fst lw) p" using assms(2) p by (simp add: played_def)
    moreover have "winner_of ?n (snd ?lw) q = winner_of ?n (snd lw) q" if "q \<noteq> j" for q using that by (simp add: winner_of_def)
    moreover have "fst ?lw ! p = fst lw ! p" "2 * p \<noteq> j" "2 * p + 1 \<noteq> j" using False p by simp_all
    ultimately show ?thesis using False unfolding match_def by presburger
  qed
  moreover have "\<forall>w \<in> set (snd ?lw). w < ?n"
    using assms(2,4,5) set_update_subset_insert [of "snd lw" j] by (fastforce simp: played_def)
  ultimately have "played ess j ?lw" using len by (simp add: played_def)
  then show ?thesis using r by blast
qed

lemma init_leaves_played:
  assumes "delivers_all ways ess" "m = length ess div 2" "played ess (Suc i) lw" "m \<le> i" "i < length ess"
  shows "\<exists>lw'. init_leaves ways (length ess) m i lw = Some lw' \<and> played ess (Suc m) lw'"
  using assms(3-5)
proof (induction i arbitrary: lw)
  case (Suc i)
  let ?n = "length ess"
  show ?case
  proof (cases "m < Suc i")
    case True
    then have "?n \<le> Suc i * 2" using assms(2) by presburger
    moreover have "Suc i * 2 - ?n + 1 < ?n" using calculation Suc.prems(3) by presburger
    ultimately have k: "?n \<le> Suc i * 2" "Suc i * 2 - ?n + 1 < ?n" by blast+
    obtain lw1 where lw1: "set_loser_winner ways (Suc i) (Suc i * 2 - ?n) (Suc i * 2 - ?n + 1) lw = Some lw1" "played ess (Suc i) lw1"
    proof -
      have "Suc i * 2 - ?n = winner_of ?n (snd lw) (2 * Suc i)" "Suc i * 2 - ?n + 1 = winner_of ?n (snd lw) (2 * Suc i + 1)"
        using k by (auto simp: winner_of_def mult.commute)
      moreover have "Suc i * 2 - ?n < ?n" using k(2) by simp
      ultimately show thesis
        using played_step [OF assms(1) Suc.prems(1) Suc.prems(3), of "Suc i * 2 - ?n" "Suc i * 2 - ?n + 1"] k(2) that by blast
    qed
    from Suc.IH [OF lw1(2)] True Suc.prems(3) lw1(1) show ?thesis by simp
  next
    case False
    then have "m = Suc i" using Suc.prems by simp
    then show ?thesis using Suc.prems by simp
  qed
qed simp

lemma set_inner_played:
  assumes "delivers_all ways ess" "played ess (Suc j) lw" "2 * j + 1 < length ess"
  shows "\<exists>lw'. set_inner ways j lw = Some lw' \<and> played ess j lw'"
proof -
  have len: "length (snd lw) = length ess" and w: "\<forall>w \<in> set (snd lw). w < length ess" using assms(2) by (simp_all add: played_def)
  have "snd lw ! (2 * j) < length ess" "snd lw ! (2 * j + 1) < length ess"
    using w len assms(3) nth_mem [of "2 * j" "snd lw"] nth_mem [of "2 * j + 1" "snd lw"] by auto
  then show ?thesis
    using played_step [OF assms(1,2), of "snd lw ! (2 * j)" "snd lw ! (2 * j + 1)"] assms(3) len
    by (simp add: set_inner_def at_def winner_of_def)
qed

lemma init_inner_played:
  assumes "delivers_all ways ess" "played ess j lw" "2 * j \<le> length ess" "lo \<le> j"
  shows "\<exists>lw'. init_inner ways lo j lw = Some lw' \<and> played ess lo lw'"
  using assms(2-4)
proof (induction j arbitrary: lw)
  case (Suc j)
  show ?case
  proof (cases "lo < Suc j")
    case True
    obtain lw1 where "set_inner ways j lw = Some lw1" "played ess j lw1"
      using set_inner_played [OF assms(1) Suc.prems(1)] Suc.prems(2) by auto
    then show ?thesis using Suc.IH [of lw1] True Suc.prems(2) by simp
  next
    case False
    then have "lo = Suc j" using Suc.prems(3) by simp
    then show ?thesis using Suc.prems by simp
  qed
qed simp

lemma init_levels_played:
  assumes "delivers_all ways ess" "played ess i lw" "2 * i \<le> length ess"
  shows "\<exists>lw'. init_levels ways i lw = Some lw' \<and> played ess 0 lw'"
  using assms(2,3)
proof (induction i arbitrary: lw rule: less_induct)
  case (less i)
  show ?case
  proof (cases "i = 0")
    case False
    obtain lw1 where "init_inner ways (i div 2) i lw = Some lw1" "played ess (i div 2) lw1"
      using init_inner_played [OF assms(1) less.prems, of "i div 2"] by auto
    then show ?thesis using less.IH [of "i div 2" lw1] False less.prems(2) by (subst init_levels.simps) auto
  qed (use less.prems in \<open>simp add: init_levels.simps\<close>)
qed

lemma mk_LoserTree_ok:
  assumes "delivers_all ways ess" "2 \<le> length ess"
  shows "\<exists>L W. mk_LoserTree ways = Some \<lparr>lt_n = length ess, lt_ways = ways, lt_loser = L\<rparr> \<and> tree_ok ess W L"
proof -
  let ?n = "length ess" and ?m = "length ess div 2" and ?z = "(replicate (length ess) 0, replicate (length ess) 0) :: nat list \<times> nat list"
  have n: "length ways = ?n" by (rule delivers_allD(1) [OF assms(1)])
  have "0 < ?n" using assms(2) by linarith
  then have "played ess (Suc (?n - 1)) ?z" by (auto simp: played_def)
  then obtain lw1 where lw1: "init_leaves ways ?n ?m (?n - 1) ?z = Some lw1" "played ess (Suc ?m) lw1"
    using init_leaves_played [OF assms(1) refl, of "?n - 1" ?z] \<open>0 < ?n\<close> assms(2) by force
  have len1: "length (snd lw1) = ?n" "\<forall>w \<in> set (snd lw1). w < ?n" using lw1(2) by (simp_all add: played_def)
  have "\<exists>lw2. (if odd ?n then do { w \<leftarrow> at (snd lw1) (?n - 1); set_loser_winner ways ?m w 0 lw1 }
                else set_loser_winner ways ?m 0 1 lw1) = Some lw2 \<and> played ess ?m lw2"
  proof (cases "odd ?n")
    case True
    then have k: "2 * ?m = ?n - 1" "2 * ?m + 1 = ?n" by presburger+
    have "snd lw1 ! (?n - 1) < ?n" using len1 assms(2) by simp
    then show ?thesis
      using played_step [OF assms(1) lw1(2), of "snd lw1 ! (?n - 1)" 0] k \<open>0 < ?n\<close> len1(1) True by (auto simp: at_def winner_of_def)
  next
    case False
    then have k: "2 * ?m = ?n" by presburger
    then show ?thesis
      using played_step [OF assms(1) lw1(2), of 0 1] assms(2) \<open>0 < ?n\<close> False by (auto simp: winner_of_def)
  qed
  then obtain lw2 where lw2: "(if odd ?n then do { w \<leftarrow> at (snd lw1) (?n - 1); set_loser_winner ways ?m w 0 lw1 }
                else set_loser_winner ways ?m 0 1 lw1) = Some lw2" "played ess ?m lw2" by blast
  obtain l w where lw: "init_levels ways ?m lw2 = Some (l, w)" "played ess 0 (l, w)"
    using init_levels_played [OF assms(1) lw2(2)] by auto
  have len: "length l = ?n" "length w = ?n" using lw(2) by (simp_all add: played_def)
  let ?W = "winner_of ?n w" and ?L = "l[0 := w ! 1]"
  have "\<forall>p. 1 \<le> p \<and> p < ?n \<longrightarrow> match ess ?W ?L p" using lw(2) by (auto simp: played_def match_def)
  moreover have pos: "0 < length l" "1 < ?n" using len assms(2) by linarith+
  ultimately have "tree_ok ess ?W ?L" using len by (auto simp: tree_ok_def leaves_def winner_of_def)
  moreover have "mk_LoserTree ways = Some \<lparr>lt_n = ?n, lt_ways = ways, lt_loser = ?L\<rparr>"
  proof -
    have "w \<noteq> []" "l \<noteq> []" "ess \<noteq> []" "ways \<noteq> []" using len n \<open>0 < ?n\<close> by auto
    then show ?thesis using n lw1(1) lw2(1) lw(1) len pos \<open>0 < ?n\<close> by (simp add: mk_LoserTree_def Let_def at_def put_at_def)
  qed
  ultimately show ?thesis by blast
qed

text \<open>With a single way the constructor reads past the end of its array of winners.\<close>

lemma single_way_out_of_bounds: "mk_LoserTree [it] = None"
  by (auto simp: mk_LoserTree_def Let_def set_loser_winner_def at_def put_at_def init_levels.simps split: bind_splits)

section \<open>Merging\<close>

text \<open>The loop of the compaction: take the top entry and advance its way until all are exhausted.\<close>

partial_function (option) lt_drain :: "LoserTree \<Rightarrow> (bytes \<times> bytes) list option" where
  "lt_drain t = do {
     e \<leftarrow> lt_end t;
     if e then Some []
     else do {
       it \<leftarrow> lt_top_iter t;
       k \<leftarrow> i_key it;
       v \<leftarrow> i_value it;
       t' \<leftarrow> lt_increment t;
       rest \<leftarrow> lt_drain t';
       Some ((k, v) # rest) } }"

text \<open>What a merge may produce: always a smallest head.\<close>

inductive merges :: "(bytes \<times> bytes) list list \<Rightarrow> (bytes \<times> bytes) list \<Rightarrow> bool" where
  merges_Nil: "\<forall>es \<in> set ess. es = [] \<Longrightarrow> merges ess []"
| merges_Cons: "i < length ess \<Longrightarrow> ess ! i = e # es \<Longrightarrow> \<forall>j < length ess. \<not> way_lt (ess ! j) (ess ! i) \<Longrightarrow>
    merges (ess[i := es]) out \<Longrightarrow> merges ess (e # out)"

inductive_cases merges_ConsE: "merges ess (e # out)"

definition raw_sorted :: "(bytes \<times> bytes) list \<Rightarrow> bool" where
  "raw_sorted es \<longleftrightarrow> sorted_wrt (\<lambda>a b. StrComparator_compare (fst a) (fst b) \<le> 0) es"

lemma mset_concat_update:
  "i < length ess \<Longrightarrow> ess ! i = e # es \<Longrightarrow> mset (concat ess) = add_mset e (mset (concat (ess[i := es])))"
proof (induction ess arbitrary: i)
  case (Cons a ess)
  then show ?case by (cases i) auto
qed simp

lemma merges_mset: "merges ess out \<Longrightarrow> mset out = mset (concat ess)"
proof (induction rule: merges.induct)
  case (merges_Nil ess)
  then show ?case by (induction ess) auto
next
  case (merges_Cons i ess e es out)
  then show ?case using mset_concat_update [of i ess e es] by simp
qed

lemma merges_sorted: "merges ess out \<Longrightarrow> \<forall>es \<in> set ess. raw_sorted es \<Longrightarrow> raw_sorted out"
proof (induction rule: merges.induct)
  case (merges_Cons i ess e es out)
  have ei: "raw_sorted (e # es)" using merges_Cons.prems merges_Cons.hyps(1,2) nth_mem by metis
  then have "\<forall>l \<in> set (ess[i := es]). raw_sorted l"
    using merges_Cons.prems set_update_subset_insert [of ess i es] by (auto simp: raw_sorted_def)
  then have "raw_sorted out" by (rule merges_Cons.IH)
  moreover have "StrComparator_compare (fst e) (fst x) \<le> 0" if "x \<in> set out" for x
  proof -
    have "x \<in> set (concat (ess[i := es]))" using that merges_mset [OF merges_Cons.hyps(4)] by (metis set_mset_mset)
    then obtain l where l: "l \<in> set (ess[i := es])" "x \<in> set l" by auto
    show ?thesis
    proof (cases "l = es")
      case True
      then show ?thesis using l(2) ei by (simp add: raw_sorted_def)
    next
      case False
      then obtain j where j: "j < length ess" "l = ess ! j"
      proof -
        have "l \<in> insert es (set ess)" using l(1) set_update_subset_insert [of ess i es] by blast
        then show thesis using False that by (auto simp: in_set_conv_nth)
      qed
      have ls: "raw_sorted l" "l \<noteq> []" using j merges_Cons.prems l(2) by auto
      have "\<not> way_lt l (e # es)" using merges_Cons.hyps(2,3) j by metis
      then have "StrComparator_compare (fst e) (fst (hd l)) \<le> 0"
        using ls(2) Str_neg [of "fst e" "fst (hd l)"] by (simp add: way_lt_def)
      moreover have "StrComparator_compare (fst (hd l)) (fst x) \<le> 0"
        using ls l(2) by (cases l) (auto simp: raw_sorted_def)
      ultimately show ?thesis by (rule Str_trans)
    qed
  qed
  ultimately show ?case by (simp add: raw_sorted_def)
qed (simp add: raw_sorted_def)

definition tree_rep :: "LoserTree \<Rightarrow> (bytes \<times> bytes) list list \<Rightarrow> bool" where
  "tree_rep t ess \<longleftrightarrow> 2 \<le> length ess \<and> lt_n t = length ess \<and> delivers_all (lt_ways t) ess \<and> (\<exists>W. tree_ok ess W (lt_loser t))"

lemma mk_LoserTree_rep:
  "delivers_all ways ess \<Longrightarrow> 2 \<le> length ess \<Longrightarrow> \<exists>t. mk_LoserTree ways = Some t \<and> tree_rep t ess"
  using mk_LoserTree_ok by (fastforce simp: tree_rep_def)

lemma tree_rep_top:
  assumes "tree_rep t ess"
  obtains i where "lt_top t = Some i" "i < length ess" "lt_top_iter t = Some (lt_ways t ! i)" "i_delivers (lt_ways t ! i) (ess ! i)"
    "lt_end t = Some (ess ! i = [])" "\<forall>j < length ess. \<not> way_lt (ess ! j) (ess ! i)"
proof -
  obtain W where W: "tree_ok ess W (lt_loser t)" using assms by (auto simp: tree_rep_def)
  have n: "2 \<le> length ess" "delivers_all (lt_ways t) ess" using assms by (auto simp: tree_rep_def)
  define i where "i = lt_loser t ! 0"
  have i: "i < length ess" using winner_below [OF W, of 1] W n(1) by (auto simp: i_def tree_ok_def)
  have "length (lt_loser t) = length ess" using W by (simp add: tree_ok_def)
  then have tp: "lt_top t = Some i" using n(1) by (auto simp: lt_top_def at_def i_def)
  have d: "i_delivers (lt_ways t ! i) (ess ! i)" using delivers_allD(2) [OF n(2) i] .
  have ti: "lt_top_iter t = Some (lt_ways t ! i)" using tp i delivers_allD(1) [OF n(2)] by (simp add: lt_top_iter_def at_def)
  show thesis
    using that [OF tp i ti d] ti any_it.valid_iff [OF d] tree_ok_top [OF W] by (simp add: lt_end_def i_def)
qed

lemma tree_rep_increment:
  assumes "tree_rep t ess" "lt_top t = Some i" "ess ! i = e # es" "i < length ess"
  shows "\<exists>t'. lt_increment t = Some t' \<and> tree_rep t' (ess[i := es])"
proof -
  obtain W where W: "tree_ok ess W (lt_loser t)" using assms(1) by (auto simp: tree_rep_def)
  have n: "2 \<le> length ess" "delivers_all (lt_ways t) ess" "lt_n t = length ess" using assms(1) by (auto simp: tree_rep_def)
  have i: "lt_loser t ! 0 = i" using assms(2) by (auto simp: lt_top_def at_def split: if_splits)
  have len: "length (lt_ways t) = length ess" using delivers_allD(1) [OF n(2)] .
  obtain k v where e: "e = (k, v)" by (cases e)
  obtain it' where it': "i_next (lt_ways t ! i) = Some it'" "i_delivers it' es"
    using delivers_allD(2) [OF n(2) assms(4)] any_it.nxt_tl [of "lt_ways t ! i" k v es] assms(3) e by auto
  have d: "delivers_all ((lt_ways t)[i := it']) (ess[i := es])" using delivers_all_update [OF n(2) it'(2)] .
  obtain L' W' where L': "adjust_loop ((lt_ways t)[i := it']) (i + length ess) i (lt_loser t) = Some L'" "tree_ok (ess[i := es]) W' L'"
    using Adjust_ok [OF W, of "(lt_ways t)[i := it']" es] d assms(4) unfolding i by blast
  have "lt_increment t = Some (t\<lparr>lt_ways := (lt_ways t)[i := it'], lt_loser := L'\<rparr>)"
    using assms(2,4) len it'(1) L'(1) n(3) by (simp add: lt_increment_def at_def Adjust_def)
  then show ?thesis using n d L'(2) by (auto simp: tree_rep_def)
qed

lemma lt_drain_merges: "tree_rep t ess \<Longrightarrow> \<exists>out. lt_drain t = Some out \<and> merges ess out"
proof (induction "length (concat ess)" arbitrary: t ess rule: less_induct)
  case less
  obtain i where i: "lt_top t = Some i" "i < length ess" "lt_top_iter t = Some (lt_ways t ! i)" "i_delivers (lt_ways t ! i) (ess ! i)"
    "lt_end t = Some (ess ! i = [])" "\<forall>j < length ess. \<not> way_lt (ess ! j) (ess ! i)"
    by (rule tree_rep_top [OF less.prems])
  show ?case
  proof (cases "ess ! i")
    case Nil
    then have "\<forall>es \<in> set ess. es = []" using i(6) by (auto simp: way_lt_def in_set_conv_nth)
    then show ?thesis using Nil i(5) by (subst lt_drain.simps) (auto intro: merges_Nil)
  next
    case (Cons e es)
    obtain k v where e: "e = (k, v)" by (cases e)
    obtain t' where t': "lt_increment t = Some t'" "tree_rep t' (ess[i := es])"
      using tree_rep_increment [OF less.prems i(1) Cons i(2)] by blast
    have "length (concat (ess[i := es])) < length (concat ess)"
      using mset_concat_update [OF i(2) Cons] by (metis lessI size_add_mset size_mset)
    from less.hyps [OF this t'(2)] obtain out where out: "lt_drain t' = Some out" "merges (ess[i := es]) out" by blast
    have d: "i_delivers (lt_ways t ! i) ((k, v) # es)" using i(4) Cons e by simp
    have "lt_drain t = Some (e # out)"
      using i(3,5) Cons any_it.key_hd [OF d] any_it.val_hd [OF d] t'(1) out(1) e by (subst lt_drain.simps) simp
    moreover have "merges ess (e # out)" by (rule merges_Cons [OF i(2) Cons i(6) out(2)])
    ultimately show ?thesis by blast
  qed
qed

section \<open>Properties\<close>

text \<open>C12. The loser tree merges any two or more ways: building it and taking the top until every way
  is exhausted never goes out of bounds and ends, delivers each entry of the ways exactly once, always takes a
  smallest head in the order of plain byte strings, and so delivers a sorted sequence whenever each
  way is sorted in that order.\<close>

theorem loser_tree_merges:
  assumes "list_all2 i_delivers ways ess" "2 \<le> length ways"
  shows "\<exists>t out. mk_LoserTree ways = Some t \<and> lt_drain t = Some out \<and> merges ess out \<and> mset out = mset (concat ess) \<and>
    ((\<forall>es \<in> set ess. raw_sorted es) \<longrightarrow> raw_sorted out)"
proof -
  have d: "delivers_all ways ess" "2 \<le> length ess" using assms list_all2_lengthD [OF assms(1)] by (simp_all add: delivers_all_def)
  obtain t where t: "mk_LoserTree ways = Some t" "tree_rep t ess" using mk_LoserTree_rep [OF d] by blast
  obtain out where out: "lt_drain t = Some out" "merges ess out" using lt_drain_merges [OF t(2)] by blast
  show ?thesis
  proof (intro exI conjI impI)
    show "mk_LoserTree ways = Some t" "lt_drain t = Some out" "merges ess out" by fact+
    show "mset out = mset (concat ess)" by (rule merges_mset [OF out(2)])
    show "raw_sorted out" if "\<forall>es \<in> set ess. raw_sorted es" by (rule merges_sorted [OF out(2) that])
  qed
qed

lemma sample_way:
  assumes "seq = 0x101 \<or> seq = 0x201"
  shows "\<exists>m it. mt_put sample_env seq [7] (replicate 16 0) (mk_MemTable 8000) = Some (OK, m) \<and>
     mti_seekToFirst (mti_new m) = Some it \<and> i_delivers (ItMem it) [([7] @ EncodeFixed64 seq, replicate 16 0)]"
proof -
  obtain m where m: "mt_put sample_env seq [7] (replicate 16 0) (mk_MemTable 8000) = Some (OK, m)"
    "mt_holds m [put_entry sample_env seq [7] (replicate 16 0)]"
    using mt_put_correct [OF mk_MemTable_holds sample_env_ok, where val = "replicate 16 0" and seq = seq] assms
    by (auto simp: to_ValueType_def)
  show ?thesis using m(1) mti_seekToFirst_delivers [OF m(2)] by (auto simp: put_entry_def e_ikey_def)
qed

theorem loser_tree_merges_witness:
  "\<exists>m it t out. mt_put sample_env 0x101 [7] (replicate 16 0) (mk_MemTable 8000) = Some (OK, m) \<and>
     mti_seekToFirst (mti_new m) = Some it \<and> mk_LoserTree [ItMem it, ItMem it] = Some t \<and> lt_drain t = Some out \<and> length out = 2"
proof -
  obtain m it where m: "mt_put sample_env 0x101 [7] (replicate 16 0) (mk_MemTable 8000) = Some (OK, m)"
     "mti_seekToFirst (mti_new m) = Some it" "i_delivers (ItMem it) [([7] @ EncodeFixed64 0x101, replicate 16 0)]"
    using sample_way [of "0x101"] by blast
  let ?e = "[([7] @ EncodeFixed64 0x101, replicate 16 0)] :: (bytes \<times> bytes) list"
  obtain t out where t: "mk_LoserTree [ItMem it, ItMem it] = Some t" "lt_drain t = Some out" "mset out = mset (concat [?e, ?e])"
    using loser_tree_merges [of "[ItMem it, ItMem it]" "[?e, ?e]"] m(3) by auto
  have "length out = 2" using arg_cong [OF t(3), of size] by simp
  with m t show ?thesis by blast
qed






end
