(* ===== verification/Level_Cache.thy ===== *)
theory Level_Cache
  imports Build_Table Loser_Tree
begin

text \<open>
  The class \<open>LevelCache\<close> of \<^verbatim>\<open>src/include/levelcache.h\<close> and \<^verbatim>\<open>src/levelcache.cpp\<close> without the
  compaction itself: the tables of every level, the lookup and the scan over them, and the choice
  of the files a compaction works on. The lock is held by the callers and left out. \<open>None\<close> stands
  for undefined behaviour (an index out of range, a null pointer) and for a read that never returns.
\<close>

section \<open>The files of a level\<close>

text \<open>\<open>std::map<uint64_t, SSTFileMeta>\<close> as its sequence of elements.\<close>

type_synonym level_map = "(u64 \<times> SSTFileMeta) list"

fun lm_emplace :: "u64 \<Rightarrow> SSTFileMeta \<Rightarrow> level_map \<Rightarrow> level_map" where
  "lm_emplace k v [] = [(k, v)]"
| "lm_emplace k v ((k', v') # m) =
     (if k = k' then (k', v') # m
      else if k < k' then (k, v) # (k', v') # m
      else (k', v') # lm_emplace k v m)"

definition lm_erase :: "u64 \<Rightarrow> level_map \<Rightarrow> level_map" where
  "lm_erase k m = filter (\<lambda>e. fst e \<noteq> k) m"

record LevelCache =
  lc_cache :: "level_map list"

text \<open>How the operating system answers for each table file: whether it opens, the results of
  \<open>read\<close>, of \<open>lseek\<close> and of the ring, and what a positional read of the contents returns.\<close>

record read_env =
  re_open :: "u64 \<Rightarrow> bool"
  re_reads :: "u64 \<Rightarrow> read_result list"
  re_seeks :: "u64 \<Rightarrow> bool list"
  re_ring :: "u64 \<Rightarrow> ring_result list"
  re_pread :: "u64 \<Rightarrow> bytes \<Rightarrow> reader"

definition sst_content :: "string \<Rightarrow> read_env \<Rightarrow> FileSystem \<Rightarrow> u64 \<Rightarrow> bytes option" where
  "sst_content db re fs n = (if re_open re n then fs_content (SSTFileName db n) fs else None)"

definition open_seq :: "string \<Rightarrow> read_env \<Rightarrow> FileSystem \<Rightarrow> u64 \<Rightarrow> SequentialFile option" where
  "open_seq db re fs n = map_option (\<lambda>d. \<lparr>sq_data = d, sq_pos = 0, sq_reads = re_reads re n, sq_seeks = re_seeks re n\<rparr>)
     (sst_content db re fs n)"

definition open_async :: "string \<Rightarrow> read_env \<Rightarrow> FileSystem \<Rightarrow> u64 \<Rightarrow> async_file option" where
  "open_async db re fs n = map_option (\<lambda>d. \<lparr>af_data = d, af_ring = re_ring re n\<rparr>) (sst_content db re fs n)"

definition open_reader :: "string \<Rightarrow> read_env \<Rightarrow> FileSystem \<Rightarrow> u64 \<Rightarrow> reader option" where
  "open_reader db re fs n = map_option (re_pread re n) (sst_content db re fs n)"

section \<open>LevelCache\<close>

text \<open>The constructor also creates the file \<open>.current\<close>, which is never written.\<close>

definition fs_open_append :: "bool \<Rightarrow> string \<Rightarrow> FileSystem \<Rightarrow> FileSystem" where
  "fs_open_append opens name fs = (if opens \<and> fs_names fs name = None then snd (fs_create name fs) else fs)"

definition mk_LevelCache :: "bool \<Rightarrow> string \<Rightarrow> FileSystem \<Rightarrow> LevelCache \<times> FileSystem" where
  "mk_LevelCache opens db fs = (\<lparr>lc_cache = replicate 8 []\<rparr>, fs_open_append opens (VersionFileName db) fs)"

definition lc_reset :: "LevelCache \<Rightarrow> LevelCache" where
  "lc_reset c = c\<lparr>lc_cache := []\<rparr>"

definition lc_gc :: "LevelCache \<Rightarrow> Status \<times> LevelCache" where
  "lc_gc c = (OK, c)"

definition lc_empty :: "LevelCache \<Rightarrow> bool" where
  "lc_empty c \<longleftrightarrow> lc_cache c = []"

definition NumLevelFiles :: "nat \<Rightarrow> LevelCache \<Rightarrow> u32" where
  "NumLevelFiles level c = (if length (lc_cache c) \<le> level then 0 else of_nat (length (lc_cache c ! level)))"

definition NumLevelFilesEx :: "nat \<Rightarrow> LevelCache \<Rightarrow> u32" where
  "NumLevelFilesEx level c = (if length (lc_cache c) \<le> level then 0 else of_nat (length (lc_cache c ! level)))"

definition NewIterator :: "string \<Rightarrow> read_env \<Rightarrow> FileSystem \<Rightarrow> SSTFileMeta \<Rightarrow> Comparator \<Rightarrow> TableIterator option" where
  "NewIterator db re fs meta cmp = mk_TableIterator (open_reader db re fs) meta cmp"

text \<open>\<open>scan\<close>: level 0 from the highest file number down, the other levels from the lowest up.\<close>

definition scan_file ::
  "string \<Rightarrow> read_env \<Rightarrow> FileSystem \<Rightarrow> bytes \<Rightarrow> bytes \<Rightarrow> u64 \<Rightarrow> SSTFileMeta \<Rightarrow> str_map \<Rightarrow> str_map option" where
  "scan_file db re fs K1 K2 seq meta m = do {
     it \<leftarrow> NewIterator db re fs meta CUserKey;
     it1 \<leftarrow> ti_seek2 K1 K2 it;
     (_, m1) \<leftarrow> Scan m (ItTable it1) seq;
     Some m1 }"

fun scan_files ::
  "string \<Rightarrow> read_env \<Rightarrow> FileSystem \<Rightarrow> bytes \<Rightarrow> bytes \<Rightarrow> u64 \<Rightarrow> SSTFileMeta list \<Rightarrow> str_map \<Rightarrow> str_map option" where
  "scan_files db re fs K1 K2 seq [] m = Some m"
| "scan_files db re fs K1 K2 seq (f # fms) m = do {
     m1 \<leftarrow> scan_file db re fs K1 K2 seq f m;
     scan_files db re fs K1 K2 seq fms m1 }"

definition lc_scan :: "string \<Rightarrow> read_env \<Rightarrow> FileSystem \<Rightarrow> bytes \<Rightarrow> bytes \<Rightarrow> str_map \<Rightarrow> LevelCache \<Rightarrow> str_map option" where
  "lc_scan db re fs K1 K2 m c = do {
     seq \<leftarrow> ExtractSequenceNumber K1;
     case lc_cache c of
       [] \<Rightarrow> None
     | level0 # levels \<Rightarrow> do {
         m1 \<leftarrow> scan_files db re fs K1 K2 seq (rev (map snd level0)) m;
         scan_files db re fs K1 K2 seq (map snd (concat levels)) m1 } }"

text \<open>\<open>get\<close>: the files of a level whose range has the key are searched as one batch. Below level 0 the
  search stops at the first level that answers OK; any other status is replaced by that of the next
  level with a candidate.\<close>

fun files_in_range :: "QueryKey \<Rightarrow> SSTFileMeta list \<Rightarrow> SSTFileMeta list option" where
  "files_in_range q [] = Some []"
| "files_in_range q (f # fms) = do {
     b \<leftarrow> fm_InRange_query f q;
     tmp \<leftarrow> files_in_range q fms;
     Some (if b then f # tmp else tmp) }"

text \<open>\<open>search_level\<close> is the search of one level: \<open>None\<close> in the second position when no file qualifies.\<close>

definition search_level ::
  "(bytes \<Rightarrow> bytes \<Rightarrow> Status \<times> BlockEntryInfo) \<Rightarrow> string \<Rightarrow> read_env \<Rightarrow> FileSystem \<Rightarrow> QueryKey \<Rightarrow> SSTFileMeta list
   \<Rightarrow> Status \<times> VLogEntryInfo \<Rightarrow> (Status \<times> VLogEntryInfo) option" where
  "search_level model db re fs q fms r = do {
     tmp \<leftarrow> files_in_range q fms;
     if tmp = [] then Some r
     else do {
       k \<leftarrow> internal_key q;
       ReadBatch model (open_seq db re fs) (open_async db re fs) tmp k (snd r) } }"

fun search_levels ::
  "(bytes \<Rightarrow> bytes \<Rightarrow> Status \<times> BlockEntryInfo) \<Rightarrow> string \<Rightarrow> read_env \<Rightarrow> FileSystem \<Rightarrow> QueryKey \<Rightarrow> level_map list
   \<Rightarrow> Status \<times> VLogEntryInfo \<Rightarrow> (Status \<times> VLogEntryInfo) option" where
  "search_levels model db re fs q [] r = Some r"
| "search_levels model db re fs q (l # ls) r = do {
     r1 \<leftarrow> search_level model db re fs q (map snd l) r;
     if ok (fst r1) then Some r1 else search_levels model db re fs q ls r1 }"

definition lc_get ::
  "(bytes \<Rightarrow> bytes \<Rightarrow> Status \<times> BlockEntryInfo) \<Rightarrow> string \<Rightarrow> read_env \<Rightarrow> FileSystem \<Rightarrow> QueryKey \<Rightarrow> VLogEntryInfo \<Rightarrow> LevelCache
   \<Rightarrow> (Status \<times> VLogEntryInfo) option" where
  "lc_get model db re fs q info c = (case lc_cache c of
       [] \<Rightarrow> None
     | level0 # levels \<Rightarrow> do {
         r \<leftarrow> search_level model db re fs q (rev (map snd level0)) (NotFound, info);
         if IsNotFound (fst r) then search_levels model db re fs q levels r else Some r })"

section \<open>Adding, moving and removing files\<close>

definition resize_levels :: "nat \<Rightarrow> LevelCache \<Rightarrow> LevelCache" where
  "resize_levels n c = c\<lparr>lc_cache := take n (lc_cache c) @ replicate (n - length (lc_cache c)) []\<rparr>"

definition grow_levels :: "nat \<Rightarrow> LevelCache \<Rightarrow> LevelCache" where
  "grow_levels level c = (if length (lc_cache c) \<le> level then resize_levels (level + 1) c else c)"

definition AddFile :: "nat \<Rightarrow> SSTFileMeta \<Rightarrow> LevelCache \<Rightarrow> LevelCache" where
  "AddFile level f c = (let c1 = grow_levels level c in
     c1\<lparr>lc_cache := (lc_cache c1)[level := lm_emplace (file_number f) f (lc_cache c1 ! level)]\<rparr>)"

text \<open>The variant for a list sets the level of each file and asserts that it has a value log.\<close>

fun add_files :: "nat \<Rightarrow> SSTFileMeta list \<Rightarrow> level_map \<Rightarrow> level_map option" where
  "add_files level [] m = Some m"
| "add_files level (f # fms) m =
     (if level \<noteq> 0 \<and> kCompactionVLogLevel \<le> level \<and> vlog_file_no f = 0 then None
      else add_files level fms (lm_emplace (file_number f) (f\<lparr>fm_level := of_nat level\<rparr>) m))"

definition AddFiles :: "nat \<Rightarrow> SSTFileMeta list \<Rightarrow> LevelCache \<Rightarrow> LevelCache option" where
  "AddFiles level fms c = (let c1 = grow_levels level c in
     map_option (\<lambda>m. c1\<lparr>lc_cache := (lc_cache c1)[level := m]\<rparr>) (add_files level fms (lc_cache c1 ! level)))"

definition RemoveFile :: "nat \<Rightarrow> u64 \<Rightarrow> LevelCache \<Rightarrow> Status \<times> LevelCache" where
  "RemoveFile level file_no c =
     (if length (lc_cache c) \<le> level then (Corruption, c)
      else case map_of (lc_cache c ! level) file_no of
        None \<Rightarrow> (NotFound, c)
      | Some _ \<Rightarrow> (OK, c\<lparr>lc_cache := (lc_cache c)[level := lm_erase file_no (lc_cache c ! level)]\<rparr>))"

fun RemoveFileAtCompaction :: "nat \<Rightarrow> SSTFileMeta list \<Rightarrow> LevelCache \<Rightarrow> Status \<times> LevelCache" where
  "RemoveFileAtCompaction level [] c = (OK, c)"
| "RemoveFileAtCompaction level (f # fms) c =
     (let (s, c1) = RemoveFile level (file_number f) c in
      if ok s then RemoveFileAtCompaction level fms c1 else (s, c1))"

fun move_files :: "nat \<Rightarrow> SSTFileMeta list \<Rightarrow> nat \<Rightarrow> LevelCache \<Rightarrow> Status \<times> LevelCache" where
  "move_files level [] new_level c = (OK, c)"
| "move_files level (f # fms) new_level c =
     (case map_of (lc_cache c ! level) (file_number f) of
        None \<Rightarrow> (NotFound, c)
      | Some meta \<Rightarrow>
          let c1 = c\<lparr>lc_cache := (lc_cache c)[new_level := lm_emplace (file_number f) (meta\<lparr>fm_level := of_nat new_level\<rparr>)
                (lc_cache c ! new_level)]\<rparr>;
              c2 = c1\<lparr>lc_cache := (lc_cache c1)[level := lm_erase (file_number f) (lc_cache c1 ! level)]\<rparr> in
          move_files level fms new_level c2)"

definition MoveFiles :: "nat \<Rightarrow> SSTFileMeta list \<Rightarrow> nat \<Rightarrow> LevelCache \<Rightarrow> Status \<times> LevelCache" where
  "MoveFiles level metas new_level c =
     (if length (lc_cache c) \<le> level then (Corruption, c)
      else move_files level metas new_level (grow_levels new_level c))"

section \<open>Choosing the files of a compaction\<close>

text \<open>The pointers of the source point to elements of the levels, which stay in place while the
  record is in use; the model holds the elements.\<close>

record CompactInfo =
  ci_level :: nat
  ci_old_files :: "SSTFileMeta list"
  ci_overlap_files :: "SSTFileMeta list"
  ci_smallest_key :: "InternalKey option"
  ci_largest_key :: "InternalKey option"

definition mk_CompactInfo :: "nat \<Rightarrow> CompactInfo" where
  "mk_CompactInfo level = \<lparr>ci_level = level, ci_old_files = [], ci_overlap_files = [], ci_smallest_key = None, ci_largest_key = None\<rparr>"

text \<open>\<open>pow(10, level)\<close> leaves the range of \<open>uint32_t\<close> from level 10 on, where the conversion is
  undefined. The difference is computed in 64 bits and cut to 32.\<close>

definition PickSSTFileNum :: "nat \<Rightarrow> LevelCache \<Rightarrow> u32 option" where
  "PickSSTFileNum level c =
     (if length (lc_cache c) \<le> level then None
      else if level = 0 then Some (of_nat (length (lc_cache c ! 0)))
      else if 10 \<le> level then None
      else let num = (10 ^ level :: u64); n = (of_nat (length (lc_cache c ! level)) :: u64) in
        Some (if n < num then 0 else ucast (num - n + 2)))"

definition widen_key :: "(int \<Rightarrow> bool) \<Rightarrow> InternalKey \<Rightarrow> InternalKey option \<Rightarrow> InternalKey option" where
  "widen_key better k old = (case old of None \<Rightarrow> None | Some o' \<Rightarrow> do {
     a \<leftarrow> ik_Encode k; b \<leftarrow> ik_Encode o'; r \<leftarrow> compare CInternalKey a b;
     Some (if better r then k else o') })"

fun pick_old_files :: "u32 \<Rightarrow> SSTFileMeta list \<Rightarrow> CompactInfo \<Rightarrow> CompactInfo option" where
  "pick_old_files n [] ci = Some ci"
| "pick_old_files n (f # fms) ci = do {
     ci1 \<leftarrow> (if ci_old_files ci = [] then Some (ci\<lparr>ci_smallest_key := Some (smallest f), ci_largest_key := Some (largest f)\<rparr>)
             else do {
               s \<leftarrow> widen_key (\<lambda>r. r < 0) (smallest f) (ci_smallest_key ci);
               l \<leftarrow> widen_key (\<lambda>r. r > 0) (largest f) (ci_largest_key ci);
               Some (ci\<lparr>ci_smallest_key := Some s, ci_largest_key := Some l\<rparr>) });
     let ci2 = ci1\<lparr>ci_old_files := ci_old_files ci1 @ [f]\<rparr>;
     if length (ci_old_files ci2) = unat n then Some ci2 else pick_old_files n fms ci2 }"

fun overlapping :: "InternalKey \<Rightarrow> InternalKey \<Rightarrow> SSTFileMeta list \<Rightarrow> SSTFileMeta list option" where
  "overlapping s l [] = Some []"
| "overlapping s l (f # fms) = do {
     b \<leftarrow> fm_InRange f s l CInternalKey;
     r \<leftarrow> overlapping s l fms;
     Some (if b then f # r else r) }"

definition PickOverlappingFiles :: "LevelCache \<Rightarrow> CompactInfo \<Rightarrow> (Status \<times> CompactInfo) option" where
  "PickOverlappingFiles c ci =
     (let level = ci_level ci + 1 in
      if length (lc_cache c) \<le> level then Some (OK, ci)
      else if lc_cache c ! level = [] then Some (OK, ci)
      else do {
        s \<leftarrow> ci_smallest_key ci;
        l \<leftarrow> ci_largest_key ci;
        r \<leftarrow> overlapping s l (map snd (lc_cache c ! level));
        Some (OK, ci\<lparr>ci_overlap_files := ci_overlap_files ci @ r\<rparr>) })"

definition PickCompaction :: "LevelCache \<Rightarrow> CompactInfo \<Rightarrow> (Status \<times> CompactInfo) option" where
  "PickCompaction c ci =
     (if length (lc_cache c) \<le> ci_level ci then Some (OK, ci)
      else do {
        n \<leftarrow> PickSSTFileNum (ci_level ci) c;
        if ci_level ci = 0 \<and> unat n \<noteq> length (lc_cache c ! 0) then None
        else if n = 0 then Some (OK, ci)
        else do {
          ci1 \<leftarrow> pick_old_files n (map snd (lc_cache c ! ci_level ci)) ci;
          PickOverlappingFiles c ci1 } })"

section \<open>The level cache as a map from levels and numbers to files\<close>

definition level_ok :: "level_map \<Rightarrow> bool" where
  "level_ok m \<longleftrightarrow> sorted_wrt (\<lambda>a b. fst a < fst b) m"

lemma fst_lm_emplace: "fst ` set (lm_emplace k v m) = insert k (fst ` set m)"
  by (induction k v m rule: lm_emplace.induct) auto

lemma set_lm_emplace: "set (lm_emplace k v m) \<subseteq> insert (k, v) (set m)"
  by (induction k v m rule: lm_emplace.induct) auto

lemma level_ok_distinct: "level_ok m \<Longrightarrow> distinct (map fst m)"
  by (induction m) (auto simp: level_ok_def)

lemma level_ok_emplace: "level_ok m \<Longrightarrow> level_ok (lm_emplace k v m)"
proof (induction k v m rule: lm_emplace.induct)
  case (2 k v k' v' m)
  have "k' < fst x" if "k' < k" "x \<in> set (lm_emplace k v m)" for x
    using that set_lm_emplace [of k v m] "2.prems" by (auto simp: level_ok_def)
  then show ?case using 2 by (auto simp: level_ok_def)
qed (simp add: level_ok_def)

lemma map_of_lm_emplace:
  "level_ok m \<Longrightarrow> map_of (lm_emplace k v m) = (map_of m)(k := Some (case map_of m k of None \<Rightarrow> v | Some w \<Rightarrow> w))"
proof (induction k v m rule: lm_emplace.induct)
  case (2 k v k' v' m)
  have "map_of m k = None" if "k < k'"
    using that "2.prems" by (fastforce simp: map_of_eq_None_iff level_ok_def)
  with 2 show ?case by (auto simp: level_ok_def fun_upd_def split: option.splits)
qed (simp add: fun_upd_def)

interpretation lvlm: std_map lm_emplace level_ok
  by unfold_locales (simp_all add: level_ok_emplace map_of_lm_emplace)

lemma level_ok_erase: "level_ok m \<Longrightarrow> level_ok (lm_erase k m)"
  by (simp add: level_ok_def lm_erase_def sorted_wrt_filter)

lemma map_of_erase: "map_of (lm_erase k m) = (map_of m)(k := None)"
  by (induction m) (auto simp: lm_erase_def fun_upd_def)

text \<open>The abstract state: which file has which number on which level. The invariant: every level is
  in the order of the file numbers, the number of an element is that of its file, and no number is
  used on two levels.\<close>

definition lc_file :: "LevelCache \<Rightarrow> nat \<Rightarrow> u64 \<Rightarrow> SSTFileMeta option" where
  "lc_file c level n = (if level < length (lc_cache c) then map_of (lc_cache c ! level) n else None)"

definition lc_ok :: "LevelCache \<Rightarrow> bool" where
  "lc_ok c \<longleftrightarrow> (\<forall>m \<in> set (lc_cache c). level_ok m) \<and> (\<forall>l n f. lc_file c l n = Some f \<longrightarrow> file_number f = n) \<and>
     (\<forall>l l' n. lc_file c l n \<noteq> None \<and> lc_file c l' n \<noteq> None \<longrightarrow> l = l')"

definition lc_fresh :: "LevelCache \<Rightarrow> u64 \<Rightarrow> bool" where
  "lc_fresh c n \<longleftrightarrow> (\<forall>l. lc_file c l n = None)"

lemma lc_ok_levels: "lc_ok c \<Longrightarrow> level < length (lc_cache c) \<Longrightarrow> level_ok (lc_cache c ! level)"
  by (simp add: lc_ok_def)

lemma lc_ok_number: "lc_ok c \<Longrightarrow> lc_file c l n = Some f \<Longrightarrow> file_number f = n"
  by (simp add: lc_ok_def)

lemma lc_ok_unique: "lc_ok c \<Longrightarrow> lc_file c l n = Some f \<Longrightarrow> lc_file c l' n = Some g \<Longrightarrow> l = l'"
  unfolding lc_ok_def by blast

lemma lc_okI:
  assumes "\<forall>m \<in> set (lc_cache c'). level_ok m" "\<And>l n f. lc_file c' l n = Some f \<Longrightarrow> file_number f = n"
    and "\<And>l l' n f g. lc_file c' l n = Some f \<Longrightarrow> lc_file c' l' n = Some g \<Longrightarrow> l = l'"
  shows "lc_ok c'"
  using assms unfolding lc_ok_def by blast

lemma grow_levels_simps:
  "lc_file (grow_levels level c) l n = lc_file c l n"
  "level < length (lc_cache (grow_levels level c))"
  "length (lc_cache c) \<le> length (lc_cache (grow_levels level c))"
  "(\<forall>m \<in> set (lc_cache c). level_ok m) \<Longrightarrow> \<forall>m \<in> set (lc_cache (grow_levels level c)). level_ok m"
  by (auto simp: grow_levels_def resize_levels_def lc_file_def nth_append level_ok_def dest: in_set_takeD)

lemma lc_ok_grow: "lc_ok c \<Longrightarrow> lc_ok (grow_levels level c)"
  unfolding lc_ok_def grow_levels_simps(1) using grow_levels_simps(4) by blast

text \<open>Replacing the files of one level.\<close>

lemma lc_file_update:
  "level < length (lc_cache c) \<Longrightarrow>
     lc_file (c\<lparr>lc_cache := (lc_cache c)[level := m]\<rparr>) l n = (if l = level then map_of m n else lc_file c l n)"
  by (simp add: lc_file_def)

lemma levels_update:
  "\<forall>m \<in> set (lc_cache c). level_ok m \<Longrightarrow> level_ok m \<Longrightarrow> \<forall>m \<in> set ((lc_cache c)[level := m]). level_ok m"
  using set_update_subset_insert by fastforce

lemma AddFile_refines:
  assumes "lc_ok c" "lc_fresh c (file_number f)"
  shows "lc_file (AddFile level f c) l n = (if l = level \<and> n = file_number f then Some f else lc_file c l n)" (is ?A)
    and "lc_ok (AddFile level f c)"
proof -
  let ?c = "grow_levels level c"
  note g = grow_levels_simps [where level = level and c = c]
  have lv: "level_ok (lc_cache ?c ! level)" using lc_ok_levels [OF lc_ok_grow [OF assms(1)] g(2)] .
  have "map_of (lc_cache ?c ! level) (file_number f) = None"
    using assms(2) g(1) [where l = level and n = "file_number f"] g(2) by (simp add: lc_fresh_def lc_file_def)
  then have "map_of (lm_emplace (file_number f) f (lc_cache ?c ! level)) n =
      (if n = file_number f then Some f else map_of (lc_cache ?c ! level) n)" for n
    using map_of_lm_emplace [OF lv] by simp
  then have r: "lc_file (AddFile level f c) l n = (if l = level \<and> n = file_number f then Some f else lc_file c l n)" for l n
    unfolding AddFile_def Let_def lc_file_update [OF g(2)] using g(1) [where l = level and n = n] g(1) [where l = l and n = n] g(2) by (auto simp: lc_file_def)
  then show ?A .
  show "lc_ok (AddFile level f c)"
  proof (rule lc_okI)
    show "\<forall>m \<in> set (lc_cache (AddFile level f c)). level_ok m"
    proof -
      have "\<forall>m \<in> set (lc_cache ?c). level_ok m" using g(4) assms(1) unfolding lc_ok_def by blast
      then have "\<forall>m \<in> set ((lc_cache ?c)[level := lm_emplace (file_number f) f (lc_cache ?c ! level)]). level_ok m"
        by (rule levels_update [OF _ level_ok_emplace [OF lv]])
      then show ?thesis by (simp add: AddFile_def Let_def)
    qed
  qed (use assms(2) in \<open>auto simp: r lc_fresh_def split: if_splits dest: lc_ok_number [OF assms(1)] lc_ok_unique [OF assms(1)]\<close>)
qed

lemma RemoveFile_refines:
  assumes "lc_ok c"
  shows "RemoveFile level n c = (fst (RemoveFile level n c), snd (RemoveFile level n c))"
    and "fst (RemoveFile level n c) = (if length (lc_cache c) \<le> level then Corruption else if lc_file c level n = None then NotFound else OK)"
    and "lc_file (snd (RemoveFile level n c)) l k = (if l = level \<and> k = n then None else lc_file c l k)"
    and "lc_ok (snd (RemoveFile level n c))"
    and "length (lc_cache (snd (RemoveFile level n c))) = length (lc_cache c)"
proof -
  show "RemoveFile level n c = (fst (RemoveFile level n c), snd (RemoveFile level n c))" by simp
  show "fst (RemoveFile level n c) = (if length (lc_cache c) \<le> level then Corruption else if lc_file c level n = None then NotFound else OK)"
    by (auto simp: RemoveFile_def lc_file_def split: option.splits)
  show "length (lc_cache (snd (RemoveFile level n c))) = length (lc_cache c)"
    by (auto simp: RemoveFile_def split: option.splits)
  have r: "lc_file (snd (RemoveFile level n c)) l k = (if l = level \<and> k = n then None else lc_file c l k)" for l k
  proof (cases "level < length (lc_cache c) \<and> map_of (lc_cache c ! level) n \<noteq> None")
    case True
    then have "snd (RemoveFile level n c) = c\<lparr>lc_cache := (lc_cache c)[level := lm_erase n (lc_cache c ! level)]\<rparr>"
      by (auto simp: RemoveFile_def)
    then show ?thesis using True by (simp add: lc_file_update map_of_erase) (simp add: lc_file_def)
  next
    case False
    then have "snd (RemoveFile level n c) = c" "lc_file c level n = None" by (auto simp: RemoveFile_def lc_file_def)
    then show ?thesis by simp
  qed
  then show "lc_file (snd (RemoveFile level n c)) l k = (if l = level \<and> k = n then None else lc_file c l k)" .
  show "lc_ok (snd (RemoveFile level n c))"
  proof (rule lc_okI)
    have "\<forall>m \<in> set ((lc_cache c)[level := lm_erase n (lc_cache c ! level)]). level_ok m" if "level < length (lc_cache c)"
      by (rule levels_update [OF _ level_ok_erase [OF lc_ok_levels [OF assms that]]]) (use assms in \<open>simp add: lc_ok_def\<close>)
    then show "\<forall>m \<in> set (lc_cache (snd (RemoveFile level n c))). level_ok m"
      using assms by (cases "map_of (lc_cache c ! level) n") (simp_all add: RemoveFile_def lc_ok_def)
  qed (auto simp: r split: if_splits dest: lc_ok_number [OF assms] lc_ok_unique [OF assms])
qed

lemma lc_file_bound: "lc_file c level n = Some f \<Longrightarrow> level < length (lc_cache c)"
  by (auto simp: lc_file_def split: if_splits)

lemma RemoveFileAtCompaction_refines:
  assumes "lc_ok c" "\<forall>f \<in> set fms. lc_file c level (file_number f) \<noteq> None" "distinct (map file_number fms)"
  shows "\<exists>c'. RemoveFileAtCompaction level fms c = (OK, c') \<and> lc_ok c' \<and> length (lc_cache c') = length (lc_cache c) \<and>
    (\<forall>l k. lc_file c' l k = (if l = level \<and> k \<in> file_number ` set fms then None else lc_file c l k))"
  using assms
proof (induction fms arbitrary: c)
  case (Cons f fms)
  note R = RemoveFile_refines [OF Cons.prems(1), of level "file_number f"]
  let ?c = "snd (RemoveFile level (file_number f) c)"
  have "level < length (lc_cache c)" using Cons.prems(2) by (auto dest: lc_file_bound)
  then have o: "RemoveFile level (file_number f) c = (OK, ?c)"
    using R(2) Cons.prems(2) by (subst R(1)) simp
  have "\<forall>g \<in> set fms. lc_file ?c level (file_number g) \<noteq> None"
    using Cons.prems(2,3) by (auto simp: R(3)) (metis image_eqI)
  from Cons.IH [OF R(4) this] Cons.prems(3) obtain c' where
    c': "RemoveFileAtCompaction level fms ?c = (OK, c')" "lc_ok c'" "length (lc_cache c') = length (lc_cache ?c)"
      "\<forall>l k. lc_file c' l k = (if l = level \<and> k \<in> file_number ` set fms then None else lc_file ?c l k)" by auto
  show ?case
  proof (intro exI conjI allI)
    show "RemoveFileAtCompaction level (f # fms) c = (OK, c')" using c'(1) by (subst RemoveFileAtCompaction.simps, subst o) simp
  qed (use c' R in auto)
qed auto

text \<open>One step of moving files.\<close>

definition move_one :: "nat \<Rightarrow> nat \<Rightarrow> u64 \<Rightarrow> SSTFileMeta \<Rightarrow> LevelCache \<Rightarrow> LevelCache" where
  "move_one level new_level n meta c =
     (let c1 = c\<lparr>lc_cache := (lc_cache c)[new_level := lm_emplace n (meta\<lparr>fm_level := of_nat new_level\<rparr>) (lc_cache c ! new_level)]\<rparr> in
      c1\<lparr>lc_cache := (lc_cache c1)[level := lm_erase n (lc_cache c1 ! level)]\<rparr>)"

lemma move_one_refines:
  assumes "lc_ok c" "lc_file c level n = Some meta" "new_level < length (lc_cache c)" "level \<noteq> new_level"
  shows "lc_file (move_one level new_level n meta c) l k =
      (if k = n then if l = new_level then Some (meta\<lparr>fm_level := of_nat new_level\<rparr>) else None else lc_file c l k)"
    and "lc_ok (move_one level new_level n meta c)" and "length (lc_cache (move_one level new_level n meta c)) = length (lc_cache c)"
proof -
  let ?new = "lm_emplace n (meta\<lparr>fm_level := of_nat new_level\<rparr>) (lc_cache c ! new_level)"
  define c1 where "c1 = c\<lparr>lc_cache := (lc_cache c)[new_level := ?new]\<rparr>"
  have b: "level < length (lc_cache c)" by (rule lc_file_bound [OF assms(2)])
  then have c1: "level < length (lc_cache c1)" "lc_cache c1 ! level = lc_cache c ! level" using assms(4) by (simp_all add: c1_def)
  have m: "move_one level new_level n meta c = c1\<lparr>lc_cache := (lc_cache c1)[level := lm_erase n (lc_cache c1 ! level)]\<rparr>"
    by (simp add: move_one_def c1_def)
  have other: "lc_file c l' n = None" if "l' \<noteq> level" for l' using lc_ok_unique [OF assms(1,2)] that by fastforce
  have lv: "level_ok (lc_cache c ! new_level)" "level_ok (lc_cache c ! level)"
    using lc_ok_levels [OF assms(1)] assms(3) b by blast+
  have none: "map_of (lc_cache c ! new_level) n = None" using other [of new_level] assms(3,4) by (simp add: lc_file_def)
  have new: "map_of ?new k = (if k = n then Some (meta\<lparr>fm_level := of_nat new_level\<rparr>) else map_of (lc_cache c ! new_level) k)" for k
    using map_of_lm_emplace [OF lv(1), of n] none by simp
  have r: "lc_file (move_one level new_level n meta c) l k =
      (if k = n then if l = new_level then Some (meta\<lparr>fm_level := of_nat new_level\<rparr>) else None else lc_file c l k)" for l k
  proof -
    have "lc_file (move_one level new_level n meta c) l k =
      (if l = level then if k = n then None else map_of (lc_cache c ! level) k else if l = new_level then map_of ?new k else lc_file c l k)"
      unfolding m lc_file_update [OF c1(1)] by (simp add: c1(2) map_of_erase) (simp add: c1_def lc_file_update [OF assms(3)])
    then show ?thesis using other [of l] b assms(3,4) unfolding new by (auto simp: lc_file_def)
  qed
  then show "lc_file (move_one level new_level n meta c) l k =
      (if k = n then if l = new_level then Some (meta\<lparr>fm_level := of_nat new_level\<rparr>) else None else lc_file c l k)" .
  show "length (lc_cache (move_one level new_level n meta c)) = length (lc_cache c)" by (simp add: move_one_def Let_def)
  show "lc_ok (move_one level new_level n meta c)"
  proof (rule lc_okI)
    have "\<forall>m \<in> set (lc_cache c1). level_ok m"
      using levels_update [OF _ level_ok_emplace [OF lv(1)], of c new_level n] assms(1) unfolding c1_def lc_ok_def by (simp del: ball_simps)
    then show "\<forall>m \<in> set (lc_cache (move_one level new_level n meta c)). level_ok m"
      unfolding m using levels_update [OF _ level_ok_erase [OF lv(2)]] c1(2) by simp
    show "file_number f = k" if "lc_file (move_one level new_level n meta c) l k = Some f" for l k f
      using that lc_ok_number [OF assms(1,2)] lc_ok_number [OF assms(1), of l k] by (auto simp: r split: if_splits)
    show "l = l'" if "lc_file (move_one level new_level n meta c) l k = Some f" "lc_file (move_one level new_level n meta c) l' k = Some g" for l l' k f g
      using that lc_ok_unique [OF assms(1), of l k] by (auto simp: r split: if_splits)
  qed
qed

lemma move_files_refines:
  assumes "lc_ok c" "\<forall>f \<in> set fms. lc_file c level (file_number f) \<noteq> None" "distinct (map file_number fms)"
    and "new_level < length (lc_cache c)" "level \<noteq> new_level"
  shows "\<exists>c'. move_files level fms new_level c = (OK, c') \<and> lc_ok c' \<and>
    (\<forall>l k. lc_file c' l k = (if k \<in> file_number ` set fms
       then if l = new_level then map_option (\<lambda>f. f\<lparr>fm_level := of_nat new_level\<rparr>) (lc_file c level k) else None
       else lc_file c l k))"
  using assms
proof (induction fms arbitrary: c)
  case (Cons f fms)
  obtain meta where meta: "lc_file c level (file_number f) = Some meta" using Cons.prems(2) by fastforce
  let ?c = "move_one level new_level (file_number f) meta c"
  note M = move_one_refines [OF Cons.prems(1) meta Cons.prems(4,5)]
  have "map_of (lc_cache c ! level) (file_number f) = Some meta" using meta by (simp add: lc_file_def split: if_splits)
  then have step: "move_files level (f # fms) new_level c = move_files level fms new_level ?c" by (simp add: move_one_def Let_def)
  have "\<forall>g \<in> set fms. lc_file ?c level (file_number g) \<noteq> None"
    using Cons.prems(2,3) by (auto simp: M(1)) (metis image_eqI)
  from Cons.IH [OF M(2) this] Cons.prems(3-5) M(3) obtain c' where
    c': "move_files level fms new_level ?c = (OK, c')" "lc_ok c'"
      "\<forall>l k. lc_file c' l k = (if k \<in> file_number ` set fms
         then if l = new_level then map_option (\<lambda>f. f\<lparr>fm_level := of_nat new_level\<rparr>) (lc_file ?c level k) else None
         else lc_file ?c l k)" by auto
  have "file_number f \<notin> file_number ` set fms" using Cons.prems(3) by simp
  then show ?case using c' meta unfolding step by (intro exI [of _ c']) (auto simp: M(1))
qed auto

lemma MoveFiles_refines:
  assumes "lc_ok c" "\<forall>f \<in> set fms. lc_file c level (file_number f) \<noteq> None" "distinct (map file_number fms)"
    and "level < length (lc_cache c)" "level \<noteq> new_level"
  shows "\<exists>c'. MoveFiles level fms new_level c = (OK, c') \<and> lc_ok c' \<and>
    (\<forall>l k. lc_file c' l k = (if k \<in> file_number ` set fms
       then if l = new_level then map_option (\<lambda>f. f\<lparr>fm_level := of_nat new_level\<rparr>) (lc_file c level k) else None
       else lc_file c l k))"
  using move_files_refines [OF lc_ok_grow [OF assms(1), of new_level], of fms level new_level, unfolded grow_levels_simps(1),
      OF assms(2,3) grow_levels_simps(2) assms(5)] assms(4)
  unfolding MoveFiles_def by (simp only: linorder_not_less [symmetric] not_True_eq_False if_False simp_thms)

lemma add_files_emp_all:
  assumes "level < kCompactionVLogLevel \<or> (\<forall>f \<in> set fms. vlog_file_no f \<noteq> 0)"
  shows "add_files level fms m = Some (lvlm.emp_all (map (\<lambda>f. (file_number f, f\<lparr>fm_level := of_nat level\<rparr>)) fms) m)"
  using assms by (induction fms arbitrary: m) (auto simp: lvlm.emp_all_def)

lemma AddFiles_refines:
  assumes "lc_ok c" "\<forall>f \<in> set fms. lc_fresh c (file_number f)" "distinct (map file_number fms)"
    and "level < kCompactionVLogLevel \<or> (\<forall>f \<in> set fms. vlog_file_no f \<noteq> 0)"
  shows "\<exists>c'. AddFiles level fms c = Some c' \<and> lc_ok c' \<and> (\<forall>l k. lc_file c' l k =
      (if l = level \<and> k \<in> file_number ` set fms then map_of (map (\<lambda>f. (file_number f, f\<lparr>fm_level := of_nat level\<rparr>)) fms) k
       else lc_file c l k))"
proof -
  let ?c = "grow_levels level c" and ?kvs = "map (\<lambda>f. (file_number f, f\<lparr>fm_level := of_nat level\<rparr>)) fms"
  note g = grow_levels_simps [where level = level and c = c]
  let ?m = "lvlm.emp_all ?kvs (lc_cache ?c ! level)"
  have lv: "level_ok (lc_cache ?c ! level)" using lc_ok_levels [OF lc_ok_grow [OF assms(1)] g(2)] .
  define c' where "c' = ?c\<lparr>lc_cache := (lc_cache ?c)[level := ?m]\<rparr>"
  have a: "AddFiles level fms c = Some c'" by (simp add: AddFiles_def Let_def add_files_emp_all [OF assms(4)] c'_def)
  have cur: "map_of (lc_cache ?c ! level) k = lc_file c level k" for k using g(1) [where l = level and n = k] g(2) by (simp add: lc_file_def)
  have none: "map_of ?kvs k = None \<longleftrightarrow> k \<notin> file_number ` set fms" for k by (auto simp: map_of_eq_None_iff image_image)
  have r: "lc_file c' l k = (if l = level \<and> k \<in> file_number ` set fms then map_of ?kvs k else lc_file c l k)" for l k
  proof (cases "l = level")
    case True
    then have "lc_file c' l k = (case lc_file c level k of Some v \<Rightarrow> Some v | None \<Rightarrow> map_of ?kvs k)"
      unfolding c'_def lc_file_update [OF g(2)] by (simp only: lvlm.lookup_emp_all [OF lv] cur if_True simp_thms)
    moreover have "lc_file c level k = None" if "k \<in> file_number ` set fms" using that assms(2) by (auto simp: lc_fresh_def)
    moreover have "map_of ?kvs k = None" if "k \<notin> file_number ` set fms" using that none by blast
    ultimately show ?thesis using True by (cases "k \<in> file_number ` set fms"; cases "lc_file c level k") simp_all
  next
    case False
    then show ?thesis unfolding c'_def lc_file_update [OF g(2)] using g(1) by simp
  qed
  have num: "file_number f = k" if "map_of ?kvs k = Some f" for k f using map_of_SomeD [OF that] by auto
  have fresh: "lc_file c l k = None" if "k \<in> file_number ` set fms" for l k using that assms(2) by (auto simp: lc_fresh_def)
  have "lc_ok c'"
  proof (rule lc_okI)
    have "\<forall>m \<in> set (lc_cache ?c). level_ok m" using g(4) assms(1) unfolding lc_ok_def by blast
    from levels_update [OF this lvlm.okm_emp_all [OF lv]] show "\<forall>m \<in> set (lc_cache c'). level_ok m"
      unfolding c'_def by simp
    show "file_number f = k" if "lc_file c' l k = Some f" for l k f
    proof (cases "l = level \<and> k \<in> file_number ` set fms")
      case True
      then have "map_of ?kvs k = Some f" using that unfolding r by simp
      then show ?thesis by (rule num)
    next
      case False
      then have "lc_file c l k = Some f" using that unfolding r by (simp only: if_False)
      then show ?thesis by (rule lc_ok_number [OF assms(1)])
    qed
    show "l = l'" if "lc_file c' l k = Some f" "lc_file c' l' k = Some h" for l l' k f h
    proof (cases "k \<in> file_number ` set fms")
      case True
      then show ?thesis using that fresh [of k] unfolding r by (auto split: if_splits)
    next
      case False
      then have "lc_file c l k = Some f" "lc_file c l' k = Some h" using that unfolding r by (auto split: if_splits)
      then show ?thesis by (rule lc_ok_unique [OF assms(1)])
    qed
  qed
  then show ?thesis using a r by blast
qed

section \<open>What a compaction picks\<close>

lemma pick_old_files_prefix:
  "pick_old_files n fms ci = Some ci' \<Longrightarrow> ci_level ci' = ci_level ci \<and> ci_overlap_files ci' = ci_overlap_files ci \<and>
     (\<exists>k. ci_old_files ci' = ci_old_files ci @ take k fms) \<and> (fms \<noteq> [] \<longrightarrow> ci_old_files ci' \<noteq> [])"
proof (induction n fms ci rule: pick_old_files.induct)
  case (2 n f fms ci)
  let ?X = "if ci_old_files ci = [] then Some (ci\<lparr>ci_smallest_key := Some (smallest f), ci_largest_key := Some (largest f)\<rparr>)
     else do {
       s \<leftarrow> widen_key (\<lambda>r. r < 0) (smallest f) (ci_smallest_key ci);
       l \<leftarrow> widen_key (\<lambda>r. r > 0) (largest f) (ci_largest_key ci);
       Some (ci\<lparr>ci_smallest_key := Some s, ci_largest_key := Some l\<rparr>) }"
  obtain ci1 where src: "?X = Some ci1" using "2.prems" by (cases ?X) auto
  then have ci1: "ci_level ci1 = ci_level ci" "ci_overlap_files ci1 = ci_overlap_files ci" "ci_old_files ci1 = ci_old_files ci"
    by (auto split: if_splits bind_splits)
  have r: "(if length (ci_old_files ci1 @ [f]) = unat n then Some (ci1\<lparr>ci_old_files := ci_old_files ci1 @ [f]\<rparr>)
        else pick_old_files n fms (ci1\<lparr>ci_old_files := ci_old_files ci1 @ [f]\<rparr>)) = Some ci'"
    using "2.prems" src by (simp only: pick_old_files.simps) (simp add: Let_def)
  show ?case
  proof (cases "length (ci_old_files ci1 @ [f]) = unat n")
    case True
    then have "ci' = ci1\<lparr>ci_old_files := ci_old_files ci1 @ [f]\<rparr>" using r by simp
    then show ?thesis using ci1 by (auto intro!: exI [of _ "Suc 0"])
  next
    case False
    then have "pick_old_files n fms (ci1\<lparr>ci_old_files := ci_old_files ci1 @ [f]\<rparr>) = Some ci'" using r by simp
    from "2.IH" [OF src refl _ this] False ci1 obtain k where
      "ci_level ci' = ci_level ci" "ci_overlap_files ci' = ci_overlap_files ci" "ci_old_files ci' = (ci_old_files ci @ [f]) @ take k fms" by auto
    then show ?thesis by (auto intro!: exI [of _ "Suc k"])
  qed
qed auto

lemma overlapping_filter:
  "overlapping s l fms = Some r \<Longrightarrow> r = filter (\<lambda>f. fm_InRange f s l CInternalKey = Some True) fms"
  by (induction fms arbitrary: r) (auto split: bind_splits)

text \<open>The picked files are in the cache.\<close>

lemma level_files:
  assumes "lc_ok c" "level < length (lc_cache c)"
  shows "\<forall>f \<in> set (map snd (lc_cache c ! level)). lc_file c level (file_number f) = Some f"
    and "distinct (map file_number (map snd (lc_cache c ! level)))"
proof -
  have d: "distinct (map fst (lc_cache c ! level))" by (rule level_ok_distinct [OF lc_ok_levels [OF assms]])
  have n: "k = file_number f" if "(k, f) \<in> set (lc_cache c ! level)" for k f
    using map_of_is_SomeI [OF d that] lc_ok_number [OF assms(1), of level k f] assms(2) by (simp add: lc_file_def)
  show "\<forall>f \<in> set (map snd (lc_cache c ! level)). lc_file c level (file_number f) = Some f"
    using map_of_is_SomeI [OF d] n assms(2) by (fastforce simp: lc_file_def)
  have "map file_number (map snd (lc_cache c ! level)) = map fst (lc_cache c ! level)" using n by force
  then show "distinct (map file_number (map snd (lc_cache c ! level)))" using d by (simp only:)
qed

definition picked :: "LevelCache \<Rightarrow> CompactInfo \<Rightarrow> bool" where
  "picked c ci \<longleftrightarrow> ci_level ci < length (lc_cache c) \<and>
     (\<forall>f \<in> set (ci_old_files ci). lc_file c (ci_level ci) (file_number f) \<noteq> None) \<and>
     (\<forall>f \<in> set (ci_overlap_files ci). lc_file c (ci_level ci + 1) (file_number f) \<noteq> None) \<and>
     distinct (map file_number (ci_old_files ci)) \<and> distinct (map file_number (ci_overlap_files ci))"

lemma PickCompaction_picked:
  assumes "lc_ok c" "PickCompaction c (mk_CompactInfo level) = Some (st, ci)"
  shows "st = OK" "ci_level ci = level" "ci_old_files ci = [] \<or> level < 10 \<and> picked c ci"
proof -
  have main: "st = OK \<and> ci_level ci = level \<and> (ci_old_files ci = [] \<or> level < 10 \<and> picked c ci)"
  proof (cases "length (lc_cache c) \<le> level \<or> PickSSTFileNum level c = Some 0")
    case True
    then show ?thesis using assms(2) by (auto simp: PickCompaction_def mk_CompactInfo_def split: if_splits)
  next
    case False
    then obtain n ci1 where n: "PickSSTFileNum level c = Some n" "level < length (lc_cache c)"
        "pick_old_files n (map snd (lc_cache c ! level)) (mk_CompactInfo level) = Some ci1" "PickOverlappingFiles c ci1 = Some (st, ci)"
      using assms(2) by (auto simp: PickCompaction_def mk_CompactInfo_def split: if_splits bind_splits)
    have "level < 10" using n(1,2) by (auto simp: PickSSTFileNum_def split: if_splits)
    obtain k where k: "ci_level ci1 = level" "ci_overlap_files ci1 = []" "ci_old_files ci1 = take k (map snd (lc_cache c ! level))"
      using pick_old_files_prefix [OF n(3)] by (auto simp: mk_CompactInfo_def)
    have P: "st = OK" "ci_level ci = level" "ci_old_files ci = ci_old_files ci1"
        "ci_overlap_files ci = [] \<or> level + 1 < length (lc_cache c) \<and>
          (\<exists>P. ci_overlap_files ci = filter P (map snd (lc_cache c ! (level + 1))))"
      using n(4) k by (auto simp: PickOverlappingFiles_def Let_def dest!: overlapping_filter split: if_splits bind_splits)
    have o: "\<forall>f \<in> set (ci_old_files ci). lc_file c level (file_number f) \<noteq> None" "distinct (map file_number (ci_old_files ci))"
      using level_files [OF assms(1) n(2)] unfolding P(3) k(3)
      by (fastforce dest!: in_set_takeD, simp only: take_map [symmetric] distinct_take)
    have v: "\<forall>f \<in> set (ci_overlap_files ci). lc_file c (level + 1) (file_number f) \<noteq> None" "distinct (map file_number (ci_overlap_files ci))"
    proof -
      have "\<forall>f \<in> set (filter P (map snd (lc_cache c ! (level + 1)))). lc_file c (level + 1) (file_number f) \<noteq> None"
          "distinct (map file_number (filter P (map snd (lc_cache c ! (level + 1)))))" if "level + 1 < length (lc_cache c)" for P
        using level_files [OF assms(1) that] by (fastforce, metis distinct_map_filter)
      then show "\<forall>f \<in> set (ci_overlap_files ci). lc_file c (level + 1) (file_number f) \<noteq> None" "distinct (map file_number (ci_overlap_files ci))"
        using P(4) by (cases "ci_overlap_files ci = []", simp, metis, cases "ci_overlap_files ci = []", simp, metis)
    qed
    show ?thesis using P(1,2) o v n(2) \<open>level < 10\<close> by (simp add: picked_def)
  qed
  then show "st = OK" "ci_level ci = level" "ci_old_files ci = [] \<or> level < 10 \<and> picked c ci" by blast+
qed

section \<open>Looking up a key\<close>

definition re_good :: "read_env \<Rightarrow> bool" where
  "re_good re \<longleftrightarrow> (\<forall>n. re_open re n \<and> re_reads re n = [] \<and> re_seeks re n = [] \<and> re_ring re n = [] \<and> re_pread re n = file_reader)"

type_synonym table = "(bytes \<times> bytes) list list \<times> bytes"

abbreviation entries :: "table \<Rightarrow> (bytes \<times> bytes) list" where
  "entries t \<equiv> concat (fst t)"

text \<open>The metadata describes the table the file contains.\<close>

definition file_holds :: "(bytes \<Rightarrow> u32) \<Rightarrow> string \<Rightarrow> FileSystem \<Rightarrow> SSTFileMeta \<Rightarrow> table \<Rightarrow> bool" where
  "file_holds crc db fs m t \<longleftrightarrow> iterable crc (fst t) (snd t) \<and>
     fs_content (SSTFileName db (file_number m)) fs = Some (table_image crc (fst t) (snd t)) \<and>
     file_size m = of_nat (length (table_image crc (fst t) (snd t))) \<and>
     smallest m = ik_DecodeFrom (fst (hd (entries t))) \<and> largest m = ik_DecodeFrom (fst (last (entries t))) \<and>
     (\<forall>e \<in> set (entries t). length (snd e) = 16)"

text \<open>The first table that has the key decides.\<close>

fun first_hit :: "bytes \<Rightarrow> table list \<Rightarrow> (bytes \<times> bytes) option" where
  "first_hit u [] = None"
| "first_hit u (t # ts) = (case table_lookup (entries t) u of Some e \<Rightarrow> Some e | None \<Rightarrow> first_hit u ts)"

definition hit_result :: "(bytes \<times> bytes) option \<Rightarrow> Status \<times> VLogEntryInfo" where
  "hit_result r = (case r of None \<Rightarrow> (NotFound, vi_zero) | Some e \<Rightarrow> (OK, snd (the (entry_result vi_zero e))))"

lemma first_hit_append: "first_hit u (as @ bs) = (case first_hit u as of Some e \<Rightarrow> Some e | None \<Rightarrow> first_hit u bs)"
  by (induction as) (auto split: option.splits)

lemma ik_user_key_DecodeFrom:
  assumes "wf_ikey k" "length k < 2 ^ 32"
  shows "ik_user_key (ik_DecodeFrom k) = Some (user k)"
proof -
  have "k \<noteq> []" using assms(1) by auto
  then show ?thesis using assms by (simp add: ik_user_key_def ik_Encode_DecodeFrom ExtractUserKey_user)
qed

lemma lookup_result_16:
  assumes "length (snd e) = 16"
  shows "lookup_result vi_zero (Some e) = Some (hit_result (Some e))"
  using assms vi_Decode_total [of vi_zero "snd e"]
  by (auto simp: lookup_result_def entry_result_def hit_result_def vi_Decode_def split: if_splits bind_splits)

lemma first_hit_find:
  "hit_result (first_hit u ts) = (case find (\<lambda>l. l \<noteq> None) (map (\<lambda>t. table_lookup (entries t) u) ts) of
     Some (Some e) \<Rightarrow> (OK, snd (the (entry_result vi_zero e))) | _ \<Rightarrow> (NotFound, vi_zero))"
  by (induction ts) (auto simp: hit_result_def split: option.splits)

lemma table_ends:
  assumes "table_entries es" "e \<in> set es"
  shows "StrComparator_compare (user (fst (hd es))) (user (fst e)) \<le> 0" "StrComparator_compare (user (fst e)) (user (fst (last es))) \<le> 0"
proof -
  have wf: "wf_ikey (fst x)" if "x \<in> set es" for x using that assms(1) by (simp add: table_entries_def)
  obtain as bs where es: "es = as @ e # bs" using assms(2) by (metis split_list)
  have "es \<noteq> []" using assms(2) by auto
  then have "hd es \<in> set es" "last es \<in> set es" by (rule hd_in_set, rule last_in_set)
  moreover have "ikey_cmp (fst (hd es)) (fst e) < 0 \<or> hd es = e"
    using assms(1) es by (cases as) (auto simp: table_entries_def)
  moreover have "ikey_cmp (fst e) (fst (last es)) < 0 \<or> last es = e"
    using assms(1) es by (cases bs rule: rev_cases) (auto simp: table_entries_def sorted_wrt_append)
  ultimately show "StrComparator_compare (user (fst (hd es))) (user (fst e)) \<le> 0" "StrComparator_compare (user (fst e)) (user (fst (last es))) \<le> 0"
    using wf ikey_user_le [of "fst (hd es)" "fst e"] ikey_user_le [of "fst e" "fst (last es)"] assms(2) by auto
qed

lemma file_holds_entries:
  assumes "file_holds crc db fs m t"
  shows "table_entries (entries t)" "entries t \<noteq> []" "\<forall>e \<in> set (entries t). wf_ikey (fst e) \<and> length (fst e) < 2 ^ 32" "stored_table crc (fst t) (snd t)"
  using assms by (fastforce simp: file_holds_def iterable_def stored_table_def table_entries_def)+

lemma file_in_range:
  assumes "file_holds crc db fs m t" "qk_user_key q = Some key"
  shows "\<exists>b. fm_InRange_query m q = Some b \<and> (\<not> b \<longrightarrow> table_lookup (entries t) key = None)"
proof -
  note es = file_holds_entries [OF assms(1)]
  have "hd (entries t) \<in> set (entries t)" "last (entries t) \<in> set (entries t)"
    using hd_in_set [OF es(2)] last_in_set [OF es(2)] by blast+
  then have u: "ik_user_key (smallest m) = Some (user (fst (hd (entries t))))" "ik_user_key (largest m) = Some (user (fst (last (entries t))))"
    using assms(1) es(3) by (simp_all add: file_holds_def ik_user_key_DecodeFrom del: set_concat)
  define b where "b \<longleftrightarrow> StrComparator_compare key (user (fst (last (entries t)))) \<le> 0 \<and> 0 \<le> StrComparator_compare key (user (fst (hd (entries t))))"
  have "fm_InRange_query m q = Some b" using u assms(2) by (simp add: fm_InRange_query_def b_def)
  moreover have "table_lookup (entries t) key = None" if "\<not> b"
  proof (rule ccontr)
    assume "table_lookup (entries t) key \<noteq> None"
    then obtain e where l: "table_lookup (entries t) key = Some e" by blast
    then have e: "e \<in> set (entries t)" "user (fst e) = key"
      using table_lookup_in [OF l] by (simp, simp add: table_lookup_def find_Some_iff, blast)
    have "StrComparator_compare (user (fst (hd (entries t)))) key \<le> 0" "StrComparator_compare key (user (fst (last (entries t)))) \<le> 0"
      using table_ends [OF es(1) e(1)] e(2) by simp_all
    then show False using that Str_neg [of key "user (fst (hd (entries t)))"] by (simp add: b_def)
  qed
  ultimately show ?thesis by blast
qed

lemma files_in_range_hit:
  assumes "list_all2 (file_holds crc db fs) fms ts" "qk_user_key q = Some key"
  shows "\<exists>tmp ts'. files_in_range q fms = Some tmp \<and> list_all2 (file_holds crc db fs) tmp ts' \<and> set ts' \<subseteq> set ts \<and>
    first_hit key ts' = first_hit key ts"
  using assms(1)
proof (induction fms ts rule: list_all2_induct)
  case (Cons m fms t ts)
  obtain b where b: "fm_InRange_query m q = Some b" "\<not> b \<longrightarrow> table_lookup (entries t) key = None"
    using file_in_range [OF Cons(1) assms(2)] by blast
  obtain tmp ts' where t: "files_in_range q fms = Some tmp" "list_all2 (file_holds crc db fs) tmp ts'" "set ts' \<subseteq> set ts"
      "first_hit key ts' = first_hit key ts" using Cons(3) by blast
  show ?case
  proof (cases b)
    case True
    then show ?thesis using b t Cons(1) by (intro exI [of _ "m # tmp"] exI [of _ "t # ts'"]) (auto split: option.split)
  next
    case False
    then show ?thesis using b t by (intro exI [of _ tmp] exI [of _ ts']) auto
  qed
qed auto

lemma ReadBatch_hit:
  assumes "re_good re" "tmp \<noteq> []" "list_all2 (file_holds crc db fs) tmp ts" "wf_ikey k" "\<forall>t \<in> set ts. covers_versions k (entries t)"
  shows "ReadBatch model (open_seq db re fs) (open_async db re fs) tmp k vi_zero = Some (hit_result (first_hit (user k) ts))"
proof (cases "length tmp = 1")
  case True
  then obtain m t where m: "tmp = [m]" "ts = [t]" "file_holds crc db fs m t"
    using assms(3) by (cases tmp) (auto simp: list_all2_Cons1)
  have "ReadOne model (open_seq db re fs) m k vi_zero = lookup_result vi_zero (table_lookup (entries t) (user k))"
  proof (rule ReadOne_stored [OF file_holds_entries(4) [OF m(3)] assms(4)])
    show "open_seq db re fs (file_number m) = Some \<lparr>sq_data = table_image crc (fst t) (snd t), sq_pos = 0, sq_reads = [], sq_seeks = []\<rparr>"
      using assms(1) m(3) by (simp add: open_seq_def sst_content_def re_good_def file_holds_def)
  qed (use m assms in \<open>auto simp: serves_def file_holds_def\<close>)
  moreover have "lookup_result vi_zero (table_lookup (entries t) (user k)) = Some (hit_result (table_lookup (entries t) (user k)))"
  proof (cases "table_lookup (entries t) (user k)")
    case (Some e)
    then have "length (snd e) = 16" using table_lookup_in [OF Some] m(3) unfolding file_holds_def by blast
    then show ?thesis unfolding Some by (rule lookup_result_16)
  qed (simp add: lookup_result_def hit_result_def)
  ultimately show ?thesis using m by (simp add: ReadBatch_def option.case_eq_if)
next
  case False
  have "ReadAsyncBatch (open_async db re fs) tmp k vi_zero = Some (hit_result (first_hit (user k) ts))"
    unfolding first_hit_find
  proof (rule ReadAsyncBatch_stored [OF assms(4)])
    show "length tmp = length ts" using assms(3) by (rule list_all2_lengthD)
    show "\<forall>i < length tmp. stored_table crc (fst (ts ! i)) (snd (ts ! i)) \<and> covers_versions k (entries (ts ! i)) \<and>
      (\<exists>f. open_async db re fs (file_number (tmp ! i)) = Some f \<and> aserves f (table_image crc (fst (ts ! i)) (snd (ts ! i)))) \<and>
      file_size (tmp ! i) = of_nat (length (table_image crc (fst (ts ! i)) (snd (ts ! i)))) \<and>
      (\<forall>e \<in> set (entries (ts ! i)). length (snd e) = 16)"
    proof (intro allI impI)
      fix i assume i: "i < length tmp"
      then have f: "file_holds crc db fs (tmp ! i) (ts ! i)" "ts ! i \<in> set ts"
        using assms(3) by (auto simp: list_all2_conv_all_nth)
      have "open_async db re fs (file_number (tmp ! i)) = Some \<lparr>af_data = table_image crc (fst (ts ! i)) (snd (ts ! i)), af_ring = []\<rparr>"
        using assms(1) f(1) by (simp add: open_async_def sst_content_def re_good_def file_holds_def)
      then show "stored_table crc (fst (ts ! i)) (snd (ts ! i)) \<and> covers_versions k (entries (ts ! i)) \<and>
        (\<exists>f. open_async db re fs (file_number (tmp ! i)) = Some f \<and> aserves f (table_image crc (fst (ts ! i)) (snd (ts ! i)))) \<and>
        file_size (tmp ! i) = of_nat (length (table_image crc (fst (ts ! i)) (snd (ts ! i)))) \<and>
        (\<forall>e \<in> set (entries (ts ! i)). length (snd e) = 16)"
        using file_holds_entries(4) [OF f(1)] assms(5) f by (simp add: aserves_def) (simp add: file_holds_def)
    qed
  qed
  then show ?thesis using False by (simp add: ReadBatch_def)
qed

lemma search_level_hit:
  assumes "re_good re" "list_all2 (file_holds crc db fs) fms ts" "qk_user_key q = Some key" "internal_key q = Some k"
    and "wf_ikey k" "user k = key" "\<forall>t \<in> set ts. covers_versions k (entries t)"
  shows "search_level model db re fs q fms (NotFound, vi_zero) = Some (hit_result (first_hit key ts))"
proof -
  obtain tmp ts' where t: "files_in_range q fms = Some tmp" "list_all2 (file_holds crc db fs) tmp ts'" "set ts' \<subseteq> set ts"
      "first_hit key ts' = first_hit key ts"
    using files_in_range_hit [OF assms(2,3)] by blast
  show ?thesis
  proof (cases "tmp = []")
    case True
    then have "first_hit key ts = None" using t by auto
    then show ?thesis using t(1) True by (simp add: search_level_def hit_result_def)
  next
    case False
    have "\<forall>t \<in> set ts'. covers_versions k (entries t)" using assms(7) t(3) by blast
    then show ?thesis
      using ReadBatch_hit [OF assms(1) False t(2) assms(5), of model] t(1,4) False assms(4,6) by (simp add: search_level_def)
  qed
qed

lemma search_levels_hit:
  assumes "re_good re" "list_all2 (\<lambda>l. list_all2 (file_holds crc db fs) (map snd l)) ls tss" "qk_user_key q = Some key"
    and "internal_key q = Some k" "wf_ikey k" "user k = key" "\<forall>t \<in> set (concat tss). covers_versions k (entries t)"
  shows "search_levels model db re fs q ls (NotFound, vi_zero) = Some (hit_result (first_hit key (concat tss)))"
  using assms(2,7)
proof (induction ls tss rule: list_all2_induct)
  case (Cons l ls ts tss)
  have "search_level model db re fs q (map snd l) (NotFound, vi_zero) = Some (hit_result (first_hit key ts))"
    using search_level_hit [OF assms(1) Cons(1) assms(3-6)] Cons(4) by simp
  moreover have "search_levels model db re fs q ls (NotFound, vi_zero) = Some (hit_result (first_hit key (concat tss)))"
    using Cons(3,4) by simp
  ultimately show ?case by (cases "first_hit key ts") (simp_all add: first_hit_append, simp_all add: hit_result_def)
qed (simp add: hit_result_def)

text \<open>The tables of the cache in the order they are searched.\<close>

definition lc_holds :: "(bytes \<Rightarrow> u32) \<Rightarrow> string \<Rightarrow> FileSystem \<Rightarrow> LevelCache \<Rightarrow> table list list \<Rightarrow> bool" where
  "lc_holds crc db fs c tss \<longleftrightarrow> lc_cache c \<noteq> [] \<and> list_all2 (\<lambda>l. list_all2 (file_holds crc db fs) (map snd l)) (lc_cache c) tss"

definition search_order :: "table list list \<Rightarrow> table list" where
  "search_order tss = rev (hd tss) @ concat (tl tss)"

lemma lc_get_hit:
  assumes "re_good re" "lc_holds crc db fs c tss" "qk_user_key q = Some key"
    and "internal_key q = Some k" "wf_ikey k" "user k = key" "\<forall>t \<in> set (concat tss). covers_versions k (entries t)"
  shows "lc_get model db re fs q vi_zero c = Some (hit_result (first_hit key (search_order tss)))"
proof -
  obtain l ls ts tss' where c: "lc_cache c = l # ls" "tss = ts # tss'" "list_all2 (file_holds crc db fs) (map snd l) ts"
      "list_all2 (\<lambda>l. list_all2 (file_holds crc db fs) (map snd l)) ls tss'"
    using assms(2) by (cases "lc_cache c") (auto simp: lc_holds_def list_all2_Cons1)
  have "list_all2 (file_holds crc db fs) (rev (map snd l)) (rev ts)" using c(3) by simp
  from search_level_hit [OF assms(1) this assms(3-6)] assms(7) c(2)
  have "search_level model db re fs q (rev (map snd l)) (NotFound, vi_zero) = Some (hit_result (first_hit key (rev ts)))" by simp
  moreover have "search_levels model db re fs q ls (NotFound, vi_zero) = Some (hit_result (first_hit key (concat tss')))"
    using search_levels_hit [OF assms(1) c(4) assms(3-6)] assms(7) c(2) by simp
  ultimately show ?thesis
    by (cases "first_hit key (rev ts)") (simp_all add: lc_get_def c first_hit_append search_order_def, simp_all add: hit_result_def)
qed

lemma lc_holds_table:
  assumes "lc_holds crc db fs c tss" "t \<in> set (concat tss)"
  shows "\<exists>m. file_holds crc db fs m t"
proof -
  obtain ts where ts: "ts \<in> set tss" "t \<in> set ts" using assms(2) by auto
  then obtain i where i: "i < length tss" "tss ! i = ts" by (auto simp: in_set_conv_nth)
  then have "list_all2 (file_holds crc db fs) (map snd (lc_cache c ! i)) ts"
    using assms(1) by (auto simp: lc_holds_def list_all2_conv_all_nth)
  then show ?thesis using ts(2) by (auto simp: list_all2_conv_all_nth in_set_conv_nth)
qed

text \<open>Tables that are searched earlier have newer versions.\<close>

definition newest_first :: "table list \<Rightarrow> bool" where
  "newest_first ts \<longleftrightarrow> sorted_wrt (\<lambda>t t'. \<forall>e \<in> set (entries t). \<forall>e' \<in> set (entries t').
     user (fst e) = user (fst e') \<longrightarrow> ikey_cmp (fst e) (fst e') < 0) ts"

lemma table_lookup_newest:
  assumes "table_entries es" "table_lookup es u = Some e"
  shows "user (fst e) = u \<and> e \<in> set es \<and> (\<forall>e' \<in> set es. user (fst e') = u \<longrightarrow> ikey_cmp (fst e) (fst e') \<le> 0)"
proof -
  obtain as bs where es: "es = as @ e # bs" "user (fst e) = u" "\<forall>a \<in> set as. user (fst a) \<noteq> u"
    using assms(2) unfolding table_lookup_def by (rule find_first)
  have "wf_ikey (fst e)" using assms(1) es(1) by (simp add: table_entries_def)
  then have "ikey_cmp (fst e) (fst e) \<le> 0" using ikey_cmp_eq_0_iff [of "fst e" "fst e"] by simp
  then show ?thesis using es assms(1) by (auto simp: table_entries_def sorted_wrt_append)
qed

lemma first_hit_newest:
  assumes "newest_first ts" "\<forall>t \<in> set ts. table_entries (entries t)"
  shows "case first_hit u ts of
      None \<Rightarrow> \<forall>t \<in> set ts. \<forall>e \<in> set (entries t). user (fst e) \<noteq> u
    | Some e \<Rightarrow> user (fst e) = u \<and> (\<exists>t \<in> set ts. e \<in> set (entries t)) \<and>
        (\<forall>t \<in> set ts. \<forall>e' \<in> set (entries t). user (fst e') = u \<longrightarrow> ikey_cmp (fst e) (fst e') \<le> 0)"
  using assms
proof (induction ts)
  case (Cons t ts)
  show ?case
  proof (cases "table_lookup (entries t) u")
    case None
    then have "\<forall>e \<in> set (entries t). user (fst e) \<noteq> u" unfolding table_lookup_def find_None_iff by blast
    moreover have "newest_first ts" "\<forall>t \<in> set ts. table_entries (entries t)" using Cons.prems by (simp_all add: newest_first_def)
    ultimately show ?thesis using Cons.IH None by (cases "first_hit u ts") auto
  next
    case (Some e)
    have e: "user (fst e) = u \<and> e \<in> set (entries t) \<and> (\<forall>e' \<in> set (entries t). user (fst e') = u \<longrightarrow> ikey_cmp (fst e) (fst e') \<le> 0)"
      by (rule table_lookup_newest [OF _ Some]) (use Cons.prems in simp)
    then have "ikey_cmp (fst e) (fst e') \<le> 0" if "t' \<in> set ts" "e' \<in> set (entries t')" "user (fst e') = u" for t' e'
      using Cons.prems(1) that by (fastforce simp: newest_first_def)
    then show ?thesis using Some e by (auto simp del: set_concat)
  qed
qed simp

section \<open>Scanning\<close>

text \<open>What a table contributes to a scan: its entries between the keys when some block ends in the
  range, else only those of its first block.\<close>

definition scan_window :: "bytes \<Rightarrow> bytes \<Rightarrow> table \<Rightarrow> (bytes \<times> bytes) list" where
  "scan_window K1 K2 t = (if covering_block K1 K2 (fst t) then in_range K1 K2 (entries t) else in_range K1 K2 (hd (fst t)))"

definition scan_tables :: "u64 \<Rightarrow> bytes \<Rightarrow> bytes \<Rightarrow> table list \<Rightarrow> str_map \<Rightarrow> str_map" where
  "scan_tables seq K1 K2 ts m = fold (\<lambda>t. collect seq (scan_window K1 K2 t)) ts m"

lemma scan_window_subset:
  assumes "fst t \<noteq> []"
  shows "set (scan_window K1 K2 t) \<subseteq> set (entries t)"
  using assms by (cases "fst t") (auto simp: scan_window_def in_range_def dest!: set_takeWhileD set_dropWhileD)

lemma scan_file_window:
  assumes "re_good re" "file_holds crc db fs meta t" "wf_ikey K1" "wf_ikey K2" "map_ok m"
  shows "scan_file db re fs K1 K2 seq meta m = Some (collect seq (scan_window K1 K2 t) m)"
proof -
  let ?R = "file_reader (table_image crc (fst t) (snd t))"
  have it: "iterable crc (fst t) (snd t)" "file_size meta = of_nat (length (table_image crc (fst t) (snd t)))"
      "open_reader db re fs (file_number meta) = Some ?R"
    using assms(1,2) by (simp_all add: file_holds_def open_reader_def sst_content_def re_good_def)
  define i0 where "i0 = \<lparr>ti_file = Some ?R, ti_block = bi_default CUserKey,
    ti_index = mk_BlockIterator (block_of (index_entries 0 (fst t))) CUserKey, ti_cmp = CUserKey\<rparr>"
  have n: "NewIterator db re fs meta CUserKey = Some i0"
    unfolding NewIterator_def i0_def by (rule mk_TableIterator_stored [where open_file = "open_reader db re fs" and meta = meta, OF it(1,3,2)])
  obtain i1 where i1: "ti_seek2 K1 K2 i0 = Some i1" "ti_delivers i1 (scan_window K1 K2 t)"
    using ti_seek2_stored [OF it(1) assms(3,4), of i0] by (auto simp: i0_def scan_window_def)
  have "fst t \<noteq> []" using it(1) by (simp add: iterable_def)
  then have "\<forall>e \<in> set (scan_window K1 K2 t). wf_ikey (fst e)"
    using file_holds_entries(3) [OF assms(2)] scan_window_subset by blast
  then have "Scan m (ItTable i1) seq = Some (OK, collect seq (scan_window K1 K2 t) m)"
    using i1(2) assms(5) by (intro Scan_delivers) simp_all
  then show ?thesis using n i1(1) by (simp add: scan_file_def)
qed

lemma scan_files_windows:
  assumes "re_good re" "wf_ikey K1" "wf_ikey K2" "list_all2 (file_holds crc db fs) fms ts" "map_ok m"
  shows "scan_files db re fs K1 K2 seq fms m = Some (scan_tables seq K1 K2 ts m) \<and> map_ok (scan_tables seq K1 K2 ts m)"
  using assms(4,5)
proof (induction fms ts arbitrary: m rule: list_all2_induct)
  case (Cons f fms t ts)
  then show ?case using scan_file_window [OF assms(1) Cons(1) assms(2,3) Cons(4)] map_ok_collect [OF Cons(4)]
    by (simp add: scan_tables_def)
qed (simp add: scan_tables_def)

lemma lc_scan_windows:
  assumes "re_good re" "lc_holds crc db fs c tss" "wf_ikey K1" "wf_ikey K2" "ExtractSequenceNumber K1 = Some seq" "map_ok m"
  shows "lc_scan db re fs K1 K2 m c = Some (scan_tables seq K1 K2 (search_order tss) m) \<and>
    map_ok (scan_tables seq K1 K2 (search_order tss) m)"
proof -
  obtain l ls ts tss' where c: "lc_cache c = l # ls" "tss = ts # tss'" "list_all2 (file_holds crc db fs) (map snd l) ts"
      "list_all2 (\<lambda>l. list_all2 (file_holds crc db fs) (map snd l)) ls tss'"
    using assms(2) by (cases "lc_cache c") (auto simp: lc_holds_def list_all2_Cons1)
  have "list_all2 (file_holds crc db fs) (rev (map snd l)) (rev ts)" using c(3) by simp
  note A = scan_files_windows [OF assms(1,3,4) this assms(6), of seq]
  have "list_all2 (file_holds crc db fs) (map snd (concat ls)) (concat tss')"
    using c(4) by (induction ls tss' rule: list_all2_induct) (auto intro: list_all2_appendI)
  note B = scan_files_windows [OF assms(1,3,4) this, of "scan_tables seq K1 K2 (rev ts) m" seq]
  have "scan_tables seq K1 K2 (search_order tss) m = scan_tables seq K1 K2 (concat tss') (scan_tables seq K1 K2 (rev ts) m)"
    by (simp add: scan_tables_def search_order_def c(2))
  then show ?thesis using A B assms(5) c(1) by (simp add: lc_scan_def)
qed

text \<open>A key keeps the value it has in the map; any other gets the first visible version in the order of
  the search.\<close>

lemma map_of_scan_tables:
  assumes "map_ok m"
  shows "map_of (scan_tables seq K1 K2 ts m) u = (case map_of m u of Some v \<Rightarrow> Some v
     | None \<Rightarrow> map_option snd (find (\<lambda>e. user (fst e) = u \<and> visible seq e) (concat (map (scan_window K1 K2) ts))))"
  using assms
proof (induction ts arbitrary: m)
  case (Cons t ts)
  have "map_of (scan_tables seq K1 K2 (t # ts) m) u = map_of (scan_tables seq K1 K2 ts (collect seq (scan_window K1 K2 t) m)) u"
    by (simp add: scan_tables_def)
  also have "\<dots> = (case map_of (collect seq (scan_window K1 K2 t) m) u of Some v \<Rightarrow> Some v
     | None \<Rightarrow> map_option snd (find (\<lambda>e. user (fst e) = u \<and> visible seq e) (concat (map (scan_window K1 K2) ts))))"
    by (rule Cons.IH [OF map_ok_collect [OF Cons.prems]])
  finally show ?case unfolding map_of_collect [OF Cons.prems]
    by (auto simp: find_append split: option.splits)
qed (simp add: scan_tables_def split: option.splits)

section \<open>Properties\<close>

text \<open>C5. A lookup in the levels returns the newest version. When the files hold the tables their metadata
  describe, tables searched earlier have the newer versions of a key, no version is newer than the
  query and reads succeed, \<open>get\<close> answers OK with the value pointer of the newest version of the key
  (a zero pointer if that is a deletion), and not-found exactly if no table has the key: through the
  range test, the batch of one or several files, the filters and the order of the levels.\<close>

theorem level_get_newest:
  assumes "re_good re" "lc_holds crc db fs c tss" "newest_first (search_order tss)"
    and "length key + 12 < 2 ^ 32" "mk_QueryKey seq key = Some q" "internal_key q = Some k"
    and "\<forall>t \<in> set (concat tss). covers_versions k (entries t)"
  shows "\<exists>r. lc_get model db re fs q vi_zero c = Some (hit_result r) \<and>
    (case r of None \<Rightarrow> \<forall>t \<in> set (concat tss). \<forall>e \<in> set (entries t). user (fst e) \<noteq> key
     | Some e \<Rightarrow> user (fst e) = key \<and> (\<exists>t \<in> set (concat tss). e \<in> set (entries t)) \<and>
        (\<forall>t \<in> set (concat tss). \<forall>e' \<in> set (entries t). user (fst e') = key \<longrightarrow> ikey_cmp (fst e) (fst e') \<le> 0))"
proof -
  have q: "qk_user_key q = Some key" "k = key @ EncodeFixed64 (push_bit 8 seq)"
    using QueryKey_views [OF assms(4,5)] assms(6) by simp_all
  have "tss \<noteq> []" using assms(2) by (auto simp: lc_holds_def)
  then have s: "set (search_order tss) = set (concat tss)" by (cases tss) (simp_all add: search_order_def)
  have te: "\<forall>t \<in> set (search_order tss). table_entries (entries t)"
  proof
    fix t assume "t \<in> set (search_order tss)"
    then obtain m where "file_holds crc db fs m t" using lc_holds_table [OF assms(2)] unfolding s by blast
    then show "table_entries (entries t)" by (rule file_holds_entries(1))
  qed
  have "lc_get model db re fs q vi_zero c = Some (hit_result (first_hit key (search_order tss)))"
    by (rule lc_get_hit [OF assms(1,2) q(1) assms(6)]) (use q(2) assms(7) in simp_all)
  moreover note first_hit_newest [OF assms(3) te, of key, unfolded s]
  ultimately show ?thesis by blast
qed

text \<open>A cache with one table on level 0.\<close>

definition good_env :: read_env where
  "good_env = \<lparr>re_open = (\<lambda>_. True), re_reads = (\<lambda>_. []), re_seeks = (\<lambda>_. []), re_ring = (\<lambda>_. []), re_pread = (\<lambda>_. file_reader)\<rparr>"

definition sample_file :: SSTFileMeta where
  "sample_file = sample_meta\<lparr>smallest := ik_DecodeFrom (fst (hd sample_entries)), largest := ik_DecodeFrom (fst (last sample_entries))\<rparr>"

definition sample_fs :: FileSystem where
  "sample_fs = \<lparr>fs_names = [SSTFileName ''db'' 1 \<mapsto> 0], fs_data = (\<lambda>_. table_image (\<lambda>_. 0) sample_blocks sample_filter), fs_next = 1\<rparr>"

definition sample_cache :: LevelCache where
  "sample_cache = \<lparr>lc_cache = [[(1, sample_file)], []]\<rparr>"

lemma good_env_good: "re_good good_env"
  by (simp add: re_good_def good_env_def)

lemma sample_cache_holds: "lc_holds (\<lambda>_. 0) ''db'' sample_fs sample_cache [[(sample_blocks, sample_filter)], []]"
proof -
  have c: "concat sample_blocks = sample_entries" by (simp add: sample_blocks_def)
  have "fs_content (SSTFileName ''db'' 1) sample_fs = Some (table_image (\<lambda>_. 0) sample_blocks sample_filter)"
    by (simp add: fs_content_def sample_fs_def)
  moreover have "file_number sample_file = 1" "file_size sample_file = of_nat (length (table_image (\<lambda>_. 0) sample_blocks sample_filter))"
    by (simp_all add: sample_file_def sample_meta_def)
  moreover have "\<forall>e \<in> set sample_entries. length (snd e) = 16" by (simp add: sample_entries_def)
  ultimately have "file_holds (\<lambda>_. 0) ''db'' sample_fs sample_file (sample_blocks, sample_filter)"
    unfolding file_holds_def fst_conv snd_conv c using sample_iterable by (simp add: sample_file_def)
  then show ?thesis by (simp add: lc_holds_def sample_cache_def)
qed

theorem level_get_newest_witness:
  "\<exists>q. mk_QueryKey 10 [0x61] = Some q \<and>
     (\<exists>r. lc_get (\<lambda>_ _. (OK, be_zero)) ''db'' good_env sample_fs q vi_zero sample_cache = Some (hit_result r) \<and> r \<noteq> None)"
proof -
  have c: "concat sample_blocks = sample_entries" by (simp add: sample_blocks_def)
  obtain q where q: "mk_QueryKey 10 [0x61] = Some q" by (simp add: mk_QueryKey_eq)
  have k: "internal_key q = Some ([0x61] @ EncodeFixed64 (push_bit 8 10))" using QueryKey_views(2) [OF _ q] by simp
  have u: "user (0x61 # EncodeFixed64 t) = [0x61]" "user (0x62 # EncodeFixed64 t) = [0x62]" for t
    using user_append [of "[0x61]" t] user_append [of "[0x62]" t] by simp_all
  have i: "ikey_cmp (0x61 # EncodeFixed64 s) (0x61 # EncodeFixed64 t) = of_bool (s < t) - of_bool (t < s)" for s t
    using ikey_cmp_eq [of "[0x61]" s "[0x61]" t] by simp
  have "covers_versions ([0x61] @ EncodeFixed64 (push_bit 8 10)) sample_entries"
    by (simp add: covers_versions_def sample_entries_def u i pack_def push_bit_eq_mult)
  then obtain r where r: "lc_get (\<lambda>_ _. (OK, be_zero)) ''db'' good_env sample_fs q vi_zero sample_cache = Some (hit_result r)"
    "case r of None \<Rightarrow> \<forall>e \<in> set sample_entries. user (fst e) \<noteq> [0x61] | Some e \<Rightarrow> True"
    using level_get_newest [OF good_env_good sample_cache_holds _ _ q k, where model = "\<lambda>_ _. (OK, be_zero)"] c
    by (auto simp: search_order_def newest_first_def split: option.splits simp del: set_concat)
  have "r \<noteq> None" using r(2) by (cases r) (auto simp: sample_entries_def u)
  then show ?thesis using q r(1) by blast
qed

text \<open>C10. The operations on the levels implement a map from levels and file numbers to files, and keep
  the order of every level, the agreement of keys and file numbers, and that no number is in use on two
  levels: adding a file with a fresh number adds just it, a list of files likewise with the level
  written into each, removing one removes just it (a level out of range and an unknown number are
  reported and change nothing), and moving files takes them from one level to the other.\<close>

theorem level_cache_refines:
  assumes "lc_ok c"
  shows "(\<forall>level f. lc_fresh c (file_number f) \<longrightarrow> lc_ok (AddFile level f c) \<and>
      (\<forall>l n. lc_file (AddFile level f c) l n = (if l = level \<and> n = file_number f then Some f else lc_file c l n))) \<and>
    (\<forall>level fms. (\<forall>f \<in> set fms. lc_fresh c (file_number f)) \<and> distinct (map file_number fms) \<and>
        (level < kCompactionVLogLevel \<or> (\<forall>f \<in> set fms. vlog_file_no f \<noteq> 0)) \<longrightarrow>
      (\<exists>c'. AddFiles level fms c = Some c' \<and> lc_ok c' \<and> (\<forall>l k. lc_file c' l k =
        (if l = level \<and> k \<in> file_number ` set fms then map_of (map (\<lambda>f. (file_number f, f\<lparr>fm_level := of_nat level\<rparr>)) fms) k
         else lc_file c l k)))) \<and>
    (\<forall>level n. \<exists>st c'. RemoveFile level n c = (st, c') \<and> lc_ok c' \<and>
      st = (if length (lc_cache c) \<le> level then Corruption else if lc_file c level n = None then NotFound else OK) \<and>
      (\<forall>l k. lc_file c' l k = (if l = level \<and> k = n then None else lc_file c l k))) \<and>
    (\<forall>level fms new_level. (\<forall>f \<in> set fms. lc_file c level (file_number f) \<noteq> None) \<and> distinct (map file_number fms) \<and>
        level < length (lc_cache c) \<and> level \<noteq> new_level \<longrightarrow>
      (\<exists>c'. MoveFiles level fms new_level c = (OK, c') \<and> lc_ok c' \<and> (\<forall>l k. lc_file c' l k = (if k \<in> file_number ` set fms
         then if l = new_level then map_option (\<lambda>f. f\<lparr>fm_level := of_nat new_level\<rparr>) (lc_file c level k) else None
         else lc_file c l k))))"
proof (intro conjI allI impI)
  fix level n
  show "\<exists>st c'. RemoveFile level n c = (st, c') \<and> lc_ok c' \<and>
      st = (if length (lc_cache c) \<le> level then Corruption else if lc_file c level n = None then NotFound else OK) \<and>
      (\<forall>l k. lc_file c' l k = (if l = level \<and> k = n then None else lc_file c l k))"
    using RemoveFile_refines [OF assms, of level n] by blast
qed (use AddFile_refines [OF assms] AddFiles_refines [OF assms] MoveFiles_refines [OF assms] in blast)+

theorem level_cache_refines_witness:
  "lc_ok sample_cache \<and> (\<exists>c'. MoveFiles 0 [sample_file] 1 sample_cache = (OK, c') \<and> lc_ok c' \<and>
     lc_file c' 0 1 = None \<and> lc_file c' 1 1 = Some (sample_file\<lparr>fm_level := 1\<rparr>))"
proof -
  have n: "file_number sample_file = 1" by (simp add: sample_file_def sample_meta_def)
  have f: "lc_file sample_cache l k = (if l = 0 \<and> k = 1 then Some sample_file else None)" for l k
    by (auto simp: lc_file_def sample_cache_def nth_Cons')
  have o: "lc_ok sample_cache"
    unfolding lc_ok_def f using n by (auto simp: sample_cache_def level_ok_def split: if_splits)
  then show ?thesis
    using level_cache_refines [OF o, THEN conjunct2, THEN conjunct2, THEN conjunct2, rule_format, of "[sample_file]" 0 1] n f
    by (auto simp: sample_cache_def)
qed

end
