(* ===== verification/Compaction.thy ===== *)
theory Compaction
  imports Vlog Level_Cache
begin

text \<open>
  \<open>DoCompactionWork\<close> and \<open>BuildWhenCompaction\<close> of \<^verbatim>\<open>src/levelcache.cpp\<close>: merging tables of a level
  into new tables of the next one, with a new value log from level 3 on. The file that a value-log
  builder writes is an inode of the file system, which always holds what the operating system has been
  given.
\<close>

section \<open>The operating system\<close>

text \<open>For each table number how its ring will behave once it is opened for writing, for each log
  number the file that opening it for writing yields, which logs can be opened for reading, and what a
  positional read of given contents returns.\<close>

record os_env =
  oe_crc :: "bytes \<Rightarrow> u32"
  oe_read :: read_env
  oe_ring :: "u64 \<Rightarrow> ring_behaviour option"
  oe_new_log :: "u32 \<Rightarrow> PosixWritableFile option"
  oe_open_log :: "u32 \<Rightarrow> bool"
  oe_pread :: "bytes \<Rightarrow> nat \<Rightarrow> nat \<Rightarrow> bytes option"

section \<open>The value log on the file system\<close>

record log_writer =
  lw_builder :: VLogBuilder
  lw_inode :: nat

definition mk_log_writer :: log_writer where
  "mk_log_writer = \<lparr>lw_builder = mk_VLogBuilder, lw_inode = 0\<rparr>"

text \<open>What has been handed to the operating system.\<close>

definition log_store :: "log_writer \<Rightarrow> FileSystem \<Rightarrow> FileSystem" where
  "log_store w fs = (case vb_builder (lw_builder w) of
      None \<Rightarrow> fs
    | Some t \<Rightarrow> fs_store (lw_inode w) (fd_data (pf_fd (tb_file t))) fs)"

definition log_Open :: "os_env \<Rightarrow> string \<Rightarrow> u32 \<Rightarrow> log_writer \<Rightarrow> FileSystem \<Rightarrow> (Status \<times> log_writer \<times> FileSystem) option" where
  "log_Open oe db n w fs = do {
     (st, b) \<leftarrow> vb_Open (oe_new_log oe) n (lw_builder w);
     let w1 = w\<lparr>lw_builder := b\<rparr>;
     if ok st then (let (i, fs1) = fs_create (VLogFileName db (ucast n)) fs in Some (st, w1\<lparr>lw_inode := i\<rparr>, fs1))
     else Some (st, w1, fs) }"

definition log_Append_key ::
  "os_env \<Rightarrow> bytes \<Rightarrow> bytes \<Rightarrow> VLogEntryInfo \<Rightarrow> log_writer \<Rightarrow> FileSystem \<Rightarrow> (Status \<times> VLogEntryInfo \<times> log_writer \<times> FileSystem) option" where
  "log_Append_key oe ikey val info w fs = do {
     (st, info1, b) \<leftarrow> vb_Append_key (oe_crc oe) ikey val info (lw_builder w);
     let w1 = w\<lparr>lw_builder := b\<rparr>;
     Some (st, info1, w1, log_store w1 fs) }"

definition log_Append ::
  "os_env \<Rightarrow> u64 \<Rightarrow> bytes \<Rightarrow> bytes \<Rightarrow> VLogEntryInfo \<Rightarrow> log_writer \<Rightarrow> FileSystem \<Rightarrow> (Status \<times> VLogEntryInfo \<times> log_writer \<times> FileSystem) option" where
  "log_Append oe seq key val info w fs = log_Append_key oe (vb_EncodeKey key seq) val info w fs"

text \<open>Closing writes the tail of the file and gives the number back.\<close>

definition log_Close :: "os_env \<Rightarrow> log_writer \<Rightarrow> FileSystem \<Rightarrow> (Status \<times> log_writer \<times> FileSystem) option" where
  "log_Close oe w fs = do {
     (st, f, b) \<leftarrow> vb_Close (oe_crc oe) (lw_builder w);
     Some (st, w\<lparr>lw_builder := b\<rparr>, case f of None \<Rightarrow> fs | Some f \<Rightarrow> fs_store (lw_inode w) (fd_data (pf_fd f)) fs) }"

definition open_log :: "os_env \<Rightarrow> string \<Rightarrow> FileSystem \<Rightarrow> u32 \<Rightarrow> nat option" where
  "open_log oe db fs n = (if oe_open_log oe n then fs_names fs (VLogFileName db (ucast n)) else None)"

definition pread_log :: "os_env \<Rightarrow> FileSystem \<Rightarrow> nat \<Rightarrow> nat \<Rightarrow> nat \<Rightarrow> bytes option" where
  "pread_log oe fs i off n = oe_pread oe (fs_data fs i) off n"

definition log_Read ::
  "os_env \<Rightarrow> string \<Rightarrow> FileSystem \<Rightarrow> VLogEntryInfo \<Rightarrow> nat VLogReader \<Rightarrow> (Status \<times> bytes option \<times> nat VLogReader) option" where
  "log_Read oe db fs info r = vr_Read (oe_crc oe) (open_log oe db fs) (pread_log oe fs) info r"

section \<open>BuildWhenCompaction\<close>

text \<open>The local variables of the function: the table being written with its inode, the log builder,
  the reader, the metadata of the current table, the finished tables and the last key.\<close>

record compaction =
  co_version :: Version
  co_fs :: FileSystem
  co_table :: "(nat \<times> UringWritableFile option TableBuilder) option"
  co_log :: "log_writer option"
  co_reader :: "nat VLogReader"
  co_meta :: "SSTFileMeta option"
  co_new :: "SSTFileMeta list"
  co_key :: bytes

definition mk_compaction :: "Version \<Rightarrow> FileSystem \<Rightarrow> compaction" where
  "mk_compaction v fs = \<lparr>co_version = v, co_fs = fs, co_table = None, co_log = None, co_reader = mk_VLogReader None,
     co_meta = None, co_new = [], co_key = []\<rparr>"

text \<open>The destructors when the function returns: log builder, table builder, file.\<close>

definition abandon :: "os_env \<Rightarrow> compaction \<Rightarrow> compaction option" where
  "abandon oe st = do {
     fs1 \<leftarrow> (case co_log st of None \<Rightarrow> Some (co_fs st) | Some w \<Rightarrow> map_option (\<lambda>(_, _, fs). fs) (log_Close oe w (co_fs st)));
     fs2 \<leftarrow> (case co_table st of
         None \<Rightarrow> Some fs1
       | Some (i, b) \<Rightarrow> do {
           b1 \<leftarrow> (if tb_closed b then Some b else map_option snd (tb_Finish (uring_env (oe_crc oe)) b));
           f \<leftarrow> tb_file b1;
           (_, f1) \<leftarrow> ur_Close f;
           Some (fs_store i (ur_data f1) fs1) });
     Some (st\<lparr>co_fs := fs2, co_log := None, co_table := None\<rparr>) }"

text \<open>The log of a new table. A log that does not open gives its number back.\<close>

definition open_output_log :: "os_env \<Rightarrow> string \<Rightarrow> compaction \<Rightarrow> (Status \<times> compaction) option" where
  "open_output_log oe db st = do {
     let w = (case co_log st of None \<Rightarrow> mk_log_writer | Some w \<Rightarrow> w);
     let (f_no, v1) = NewVLogFileNumber (co_version st);
     (s, w1, fs1) \<leftarrow> log_Open oe db (ucast f_no) w (co_fs st);
     Some (s, st\<lparr>co_version := (if ok s then v1 else ReuseVLogFileNumber f_no v1), co_log := Some w1, co_fs := fs1\<rparr>) }"

text \<open>A table file that can not be created leaves a builder over a null file, whose destructor writes to
  it at the latest: \<open>None\<close>.\<close>

definition open_output :: "os_env \<Rightarrow> string \<Rightarrow> bool \<Rightarrow> compaction \<Rightarrow> (Status \<times> compaction) option" where
  "open_output oe db build_vlog st = (case co_table st of
       Some _ \<Rightarrow> Some (OK, st)
     | None \<Rightarrow> do {
         let n = NewSSTFileNumber (co_version st);
         (i, f, fs1) \<leftarrow> NewUringWritableFile (oe_ring oe n) (SSTFileName db n) (co_fs st);
         let st1 = st\<lparr>co_table := Some (i, mk_TableBuilder (Some f) True), co_fs := fs1\<rparr>;
         if build_vlog then open_output_log oe db st1 else Some (OK, st1) })"

text \<open>Adding one entry; \<open>Some s\<close> is a return with status \<open>s\<close>. A deletion is written with a zero
  pointer and without looking at the status of the builder.\<close>

definition copy_value :: "os_env \<Rightarrow> string \<Rightarrow> bytes \<Rightarrow> bytes \<Rightarrow> compaction \<Rightarrow> (Status \<times> bytes \<times> compaction) option" where
  "copy_value oe db key val st = do {
     (s, info) \<leftarrow> vi_Decode vi_zero val;
     if \<not> ok s then Some (s, val, st)
     else do {
       (s, buf, r) \<leftarrow> log_Read oe db (co_fs st) info (co_reader st);
       let st1 = st\<lparr>co_reader := r\<rparr>;
       if \<not> ok s then Some (s, val, st1)
       else do {
         v \<leftarrow> buf;
         w \<leftarrow> co_log st1;
         (s, info1, w1, fs1) \<leftarrow> log_Append_key oe key v info w (co_fs st1);
         Some (s, vi_Encode info1, st1\<lparr>co_log := Some w1, co_fs := fs1\<rparr>) } } }"

definition table_add :: "os_env \<Rightarrow> bytes \<Rightarrow> bytes \<Rightarrow> compaction \<Rightarrow> (Status \<times> compaction) option" where
  "table_add oe key val st = do {
     (i, b) \<leftarrow> co_table st;
     b1 \<leftarrow> tb_Add (uring_env (oe_crc oe)) key val b;
     _ \<leftarrow> tb_file b1;
     Some (tb_status b1, st\<lparr>co_table := Some (i, b1)\<rparr>) }"

definition add_output ::
  "os_env \<Rightarrow> string \<Rightarrow> bool \<Rightarrow> bytes \<Rightarrow> bytes \<Rightarrow> ValueType \<Rightarrow> compaction \<Rightarrow> (Status option \<times> compaction) option" where
  "add_output oe db build_vlog key val type st =
     (if type \<noteq> kTypeValue then do {
        (_, st1) \<leftarrow> table_add oe key (vi_Encode vi_zero) st;
        Some (None, st1) }
      else do {
        (s, val1, st1) \<leftarrow> (if build_vlog then copy_value oe db key val st else Some (OK, val, st));
        if \<not> ok s then Some (Some s, st1)
        else do {
          (s, st2) \<leftarrow> table_add oe key val1 st1;
          Some (if ok s then None else Some s, st2) } })"

text \<open>Finishing the current table.\<close>

definition finish_output :: "os_env \<Rightarrow> bool \<Rightarrow> compaction \<Rightarrow> (Status option \<times> compaction) option" where
  "finish_output oe build_vlog st = do {
     let f_number = NewSSTFileNumber (co_version st);
     meta \<leftarrow> co_meta st;
     let meta1 = meta\<lparr>file_number := f_number, largest := ik_DecodeFrom (co_key st)\<rparr>;
     (i, b) \<leftarrow> co_table st;
     (s, b1) \<leftarrow> tb_Finish (uring_env (oe_crc oe)) (tb_SetLastKey (co_key st) b);
     f1 \<leftarrow> tb_file b1;
     let st1 = st\<lparr>co_table := Some (i, b1)\<rparr>;
     if \<not> ok s then Some (Some s, st1)
     else do {
       let meta2 = meta1\<lparr>file_size := tb_FileSize b1\<rparr>;
       (s, f2) \<leftarrow> ur_Sync f1;
       if \<not> ok s then Some (Some s, st1\<lparr>co_table := Some (i, b1\<lparr>tb_file := Some f2\<rparr>)\<rparr>)
       else do {
         (s, f3) \<leftarrow> ur_Close f2;
         if \<not> ok s then Some (Some s, st1\<lparr>co_table := Some (i, b1\<lparr>tb_file := Some f3\<rparr>)\<rparr>)
         else do {
           let st2 = st1\<lparr>co_table := None, co_fs := fs_store i (ur_data f3) (co_fs st1),
                 co_version := SetSSTFileNumber (f_number + 1) (co_version st1)\<rparr>;
           if build_vlog then do {
             w \<leftarrow> co_log st2;
             let meta3 = meta2\<lparr>vlog_file_no := vb_file_no (lw_builder w)\<rparr>;
             (s, w1, fs1) \<leftarrow> log_Close oe w (co_fs st2);
             let st3 = st2\<lparr>co_log := Some w1, co_fs := fs1\<rparr>;
             if \<not> ok s then Some (Some s, st3)
             else Some (None, st3\<lparr>co_new := co_new st3 @ [meta3], co_meta := None\<rparr>) }
           else Some (None, st2\<lparr>co_new := co_new st2 @ [meta2], co_meta := None\<rparr>) } } } }"

text \<open>The body of the loop. An entry older than the last living sequence number is dropped, after it
  has become the smallest key of a new table.\<close>

definition compact_entry :: "os_env \<Rightarrow> string \<Rightarrow> bool \<Rightarrow> bytes \<Rightarrow> bytes \<Rightarrow> compaction \<Rightarrow> (Status option \<times> compaction) option" where
  "compact_entry oe db build_vlog key val st = do {
     let st1 = st\<lparr>co_key := key, co_meta := (case co_meta st of
           None \<Rightarrow> Some (fm_default\<lparr>smallest := ik_DecodeFrom key\<rparr>) | Some m \<Rightarrow> Some m)\<rparr>;
     seq_no \<leftarrow> ExtractSequenceNumber key;
     if seq_no < last_live_sequence (co_version st1) then Some (None, st1)
     else do {
       value_type \<leftarrow> ExtractValueType key;
       (s, st2) \<leftarrow> open_output oe db build_vlog st1;
       if \<not> ok s then Some (Some s, st2)
       else do {
         (r, st3) \<leftarrow> add_output oe db build_vlog key val value_type st2;
         case r of
           Some s \<Rightarrow> Some (Some s, st3)
         | None \<Rightarrow> do {
             (i, b) \<leftarrow> co_table st3;
             if of_nat sst_file_size \<le> tb_ApproximateFileSize b then finish_output oe build_vlog st3
             else Some (None, st3) } } } }"

partial_function (option) compact_loop ::
  "os_env \<Rightarrow> string \<Rightarrow> bool \<Rightarrow> LoserTree \<Rightarrow> compaction \<Rightarrow> (Status option \<times> compaction) option" where
  "compact_loop oe db build_vlog t st = do {
     e \<leftarrow> lt_end t;
     if e then Some (None, st)
     else do {
       it \<leftarrow> lt_top_iter t;
       k \<leftarrow> i_key it;
       v \<leftarrow> i_value it;
       (r, st1) \<leftarrow> compact_entry oe db build_vlog k v st;
       case r of
         Some s \<Rightarrow> Some (Some s, st1)
       | None \<Rightarrow> do {
           t1 \<leftarrow> lt_increment t;
           compact_loop oe db build_vlog t1 st1 } } }"

definition BuildWhenCompaction ::
  "os_env \<Rightarrow> string \<Rightarrow> bool \<Rightarrow> Iterator list \<Rightarrow> Version \<Rightarrow> FileSystem \<Rightarrow> (Status \<times> SSTFileMeta list \<times> Version \<times> FileSystem) option" where
  "BuildWhenCompaction oe db build_vlog ways v fs = do {
     t \<leftarrow> mk_LoserTree ways;
     (r, st1) \<leftarrow> compact_loop oe db build_vlog t (mk_compaction v fs);
     (r, st2) \<leftarrow> (if r = None \<and> co_table st1 \<noteq> None then do {
           (r, st2) \<leftarrow> finish_output oe build_vlog st1;
           Some (r, if r = None \<and> build_vlog then st2\<lparr>co_log := None\<rparr> else st2) }
         else Some (r, st1));
     if r = None \<and> (case co_log st2 of None \<Rightarrow> False | Some w \<Rightarrow> \<not> vb_Empty (lw_builder w)) then None
     else do {
       st3 \<leftarrow> abandon oe st2;
       Some (case r of None \<Rightarrow> OK | Some s \<Rightarrow> s, co_new st3, co_version st3, co_fs st3) } }"

section \<open>DoCompactionWork\<close>

fun open_ways :: "os_env \<Rightarrow> string \<Rightarrow> FileSystem \<Rightarrow> SSTFileMeta list \<Rightarrow> Iterator list option" where
  "open_ways oe db fs [] = Some []"
| "open_ways oe db fs (f # fms) = do {
     it \<leftarrow> NewIterator db (oe_read oe) fs f CInternalKey;
     it1 \<leftarrow> ti_seekToFirst it;
     its \<leftarrow> open_ways oe db fs fms;
     Some (ItTable it1 # its) }"

text \<open>The value logs to remove; the assertion that a file has one.\<close>

definition rm_logs :: "bool \<Rightarrow> SSTFileMeta list \<Rightarrow> u32 list option" where
  "rm_logs wanted fms = (if \<not> wanted then Some []
     else if \<exists>f \<in> set fms. vlog_file_no f = 0 then None else Some (map vlog_file_no fms))"

text \<open>The replaced files are removed later by the executor: the fourth component of the result is their
  names. Table numbers are cut to 32 bits on the way.\<close>

definition DoCompactionWork ::
  "os_env \<Rightarrow> string \<Rightarrow> CompactInfo \<Rightarrow> Version \<Rightarrow> FileSystem \<Rightarrow> LevelCache
   \<Rightarrow> (Status \<times> Version \<times> FileSystem \<times> LevelCache \<times> string list) option" where
  "DoCompactionWork oe db ci v fs c =
     (let level = ci_level ci; compact_vlog = (kCompactionVLogLevel \<le> level + 1) in
      if length (lc_cache c) \<le> level then Some (Corruption, v, fs, c, [])
      else if level \<noteq> 0 \<and> \<not> compact_vlog \<and> ci_overlap_files ci = [] then
        (let (s, c1) = MoveFiles level (ci_old_files ci) (level + 1) c in Some (s, v, fs, c1, []))
      else do {
        w1 \<leftarrow> open_ways oe db fs (ci_old_files ci);
        l1 \<leftarrow> rm_logs (kCompactionVLogLevel \<le> level) (ci_old_files ci);
        w2 \<leftarrow> open_ways oe db fs (ci_overlap_files ci);
        l2 \<leftarrow> rm_logs compact_vlog (ci_overlap_files ci);
        (s, new_files, v1, fs1) \<leftarrow> BuildWhenCompaction oe db compact_vlog (w1 @ w2) v fs;
        if \<not> ok s then Some (s, v1, fs1, c, [])
        else do {
          let c1 = snd (RemoveFileAtCompaction level (ci_old_files ci) c);
          let c2 = snd (RemoveFileAtCompaction (level + 1) (ci_overlap_files ci) c1);
          c3 \<leftarrow> AddFiles (level + 1) new_files c2;
          Some (OK, v1, fs1, c3,
            map (\<lambda>f. SSTFileName db (ucast (ucast (file_number f) :: u32))) (ci_old_files ci @ ci_overlap_files ci) @
            map (\<lambda>n. VLogFileName db (ucast n)) (l1 @ l2)) } })"

section \<open>The merge as a list of entries\<close>

fun compact_all ::
  "os_env \<Rightarrow> string \<Rightarrow> bool \<Rightarrow> (bytes \<times> bytes) list \<Rightarrow> compaction \<Rightarrow> (Status option \<times> compaction) option" where
  "compact_all oe db build_vlog [] st = Some (None, st)"
| "compact_all oe db build_vlog (e # es) st = do {
     (r, st1) \<leftarrow> compact_entry oe db build_vlog (fst e) (snd e) st;
     case r of Some s \<Rightarrow> Some (Some s, st1) | None \<Rightarrow> compact_all oe db build_vlog es st1 }"

lemma compact_loop_all: "lt_drain t = Some out \<Longrightarrow> compact_loop oe db bv t st = compact_all oe db bv out st"
proof (induction out arbitrary: t st)
  case Nil
  then have "lt_end t = Some True" by (subst (asm) lt_drain.simps) (auto split: bind_splits if_splits)
  then show ?case by (subst compact_loop.simps) simp
next
  case (Cons e out)
  obtain it k v t' where d: "lt_end t = Some False" "lt_top_iter t = Some it" "i_key it = Some k" "i_value it = Some v"
      "lt_increment t = Some t'" "lt_drain t' = Some out" "e = (k, v)"
    using Cons.prems by (subst (asm) lt_drain.simps) (auto split: bind_splits if_splits)
  show ?case
    using d Cons.IH [OF d(6)]
    by (subst compact_loop.simps, cases "compact_entry oe db bv k v st") (auto split: option.splits)
qed

section \<open>Sizes\<close>

text \<open>As long as the estimated size is below the limit there is room for one more entry.\<close>

definition short_entry :: "bytes \<times> bytes \<Rightarrow> bool" where
  "short_entry e \<longleftrightarrow> wf_ikey (fst e) \<and> length (fst e) + 24 \<le> sst_file_size \<and> length (snd e) = 16"

lemma block_of_short:
  "\<forall>e \<in> set kvs. length (snd e) = 16 \<Longrightarrow> length (block_of kvs) = (\<Sum>e\<leftarrow>kvs. length (fst e) + 24)"
  by (induction kvs) (auto simp: block_of_def split: prod.splits)

lemma fits_table_short:
  assumes "kvs \<noteq> []" "\<forall>e \<in> set kvs. short_entry e" "length (block_of kvs) < kWritableFileBufferSize"
  shows "fits_table kvs"
proof -
  have "\<forall>e \<in> set kvs. length (snd e) = 16" "\<forall>e \<in> set kvs. 8 \<le> length (fst e)" using assms(2) by (auto simp: short_entry_def)
  then show ?thesis using assms(1,3) block_of_short by (auto simp: fits_table_def)
qed

lemma approx_size:
  assumes "utable.tb_rep crc b bs c" "fits_table (concat bs @ c)"
  shows "length (block_of (concat bs @ c)) \<le> unat (tb_ApproximateFileSize b)"
proof -
  obtain fb where fb: "tb_filter_block b = Some fb" "length (fb_buffer fb) = bloom_size_opt"
    using assms(1) by (auto simp: utable.tb_rep_def filter_rep_def)
  have bl: "\<forall>l \<in> set bs. l \<noteq> []" "tb_offset b = of_nat (length (sealed crc bs))" "tb_data_block b = block_of c"
    using assms(1) by (simp_all add: utable.tb_rep_def)
  have s: "length (block_of (concat bs)) + length (block_of c) < 2 ^ 16"
      "(\<Sum>e\<leftarrow>concat bs. length (fst e) + 24) < 2 ^ 16"
    using assms(2) by (simp_all add: fits_table_def kWritableFileBufferSize_def)
  have sl: "length (sealed crc bs) = length (block_of (concat bs)) + 4 * length bs" by (rule length_sealed)
  have lb: "length bs \<le> length (block_of (concat bs))" by (rule length_blocks [OF bl(1)])
  have ix: "length (tb_index_block b) < 2 ^ 16"
  proof (cases "tb_need_next_index_entry b")
    case True
    then have "tb_index_block b = block_of (index_entries 0 (butlast bs))" "bs \<noteq> []" using assms(1) by (simp_all add: utable.tb_rep_def index_rep_def)
    moreover have "(\<Sum>e\<leftarrow>concat (butlast bs). length (fst e) + 24) \<le> (\<Sum>e\<leftarrow>concat bs. length (fst e) + 24)"
      by (cases bs rule: rev_cases) simp_all
    moreover have "\<forall>l \<in> set (butlast bs). l \<noteq> []" using bl(1) by (auto dest: in_set_butlastD)
    ultimately show ?thesis using length_index_block [of "butlast bs" 0] s(2) by simp
  next
    case False
    then have "tb_index_block b = block_of (index_entries 0 bs)" using assms(1) by (simp add: utable.tb_rep_def index_rep_def)
    then show ?thesis using length_index_block [OF bl(1), of 0] s(2) by simp
  qed
  define n where "n = length (sealed crc bs) + length (tb_index_block b) + length (block_of c) + 4 + bloom_size_opt"
  have "tb_ApproximateFileSize b = of_nat n"
    by (simp add: tb_ApproximateFileSize_def bl fb fb_BlockSize_def kBlockTrailerSize_def n_def)
  moreover have "n < 18446744073709551616" using s sl lb ix by (simp add: bloom_size_opt_def n_def)
  ultimately have "unat (tb_ApproximateFileSize b) = n" by (simp add: unat_of_nat_u64)
  then show ?thesis using sl by (simp add: n_def)
qed

section \<open>What a compaction writes\<close>

text \<open>The case without a new value log, on a kernel that completes writes, when no entry has expired.
  \<open>written\<close> says that a file holds a table of given entries, in whatever order they are.\<close>

definition written :: "(bytes \<Rightarrow> u32) \<Rightarrow> string \<Rightarrow> FileSystem \<Rightarrow> SSTFileMeta \<Rightarrow> table \<Rightarrow> bool" where
  "written crc db fs m t \<longleftrightarrow> fs_content (SSTFileName db (file_number m)) fs = Some (table_image crc (fst t) (snd t)) \<and>
     file_size m = of_nat (length (table_image crc (fst t) (snd t))) \<and> entries t \<noteq> [] \<and>
     smallest m = ik_DecodeFrom (fst (hd (entries t))) \<and> largest m = ik_DecodeFrom (fst (last (entries t))) \<and>
     (\<forall>l \<in> set (fst t). l \<noteq> []) \<and> length (snd t) = bloom_size_opt \<and> (\<forall>e \<in> set (entries t). has_key (snd t) (user (fst e)) \<and> short_entry e) \<and>
     length (table_image crc (fst t) (snd t)) < 2 ^ 20"

text \<open>If the entries are in the order of the internal keys, readers and iterators can use the table.\<close>

lemma written_file_holds:
  assumes "written crc db fs m t" "sorted_wrt (\<lambda>a b. ikey_cmp (fst a) (fst b) < 0) (entries t)"
  shows "file_holds crc db fs m t"
proof -
  have w: "\<forall>l \<in> set (fst t). l \<noteq> []" "length (snd t) = bloom_size_opt" "\<forall>e \<in> set (entries t). has_key (snd t) (user (fst e)) \<and> short_entry e"
      "length (table_image crc (fst t) (snd t)) < 2 ^ 20" "entries t \<noteq> []"
    using assms(1) unfolding written_def by blast+
  have sh: "small_entry e \<and> wf_ikey (fst e) \<and> length (fst e) + 24 < 2 ^ 32 \<and> length (snd e) = 16" if "e \<in> set (entries t)" for e
  proof -
    have "short_entry e" using w(3) that by blast
    then show ?thesis by (simp add: short_entry_def small_entry_def sst_file_size_def)
  qed
  have st: "stored_table crc (fst t) (snd t)"
    using w(1,2,4) sh w(3) assms(2) unfolding stored_table_def table_entries_def by (auto simp: bloom_size_opt_def)
  have "length (block_of (entries t)) \<le> length (table_image crc (fst t) (snd t))"
      "length (block_of (index_entries 0 (fst t))) \<le> length (table_image crc (fst t) (snd t))"
    by (simp_all add: table_image_eq length_sealed)
  then have "iterable crc (fst t) (snd t)" using st w(4,5) by (auto simp: iterable_def)
  then show ?thesis using assms(1) sh by (auto simp: file_holds_def written_def)
qed

definition out_entry :: "bytes \<times> bytes \<Rightarrow> bytes \<times> bytes" where
  "out_entry e = (fst e, if ExtractValueType (fst e) = Some kTypeValue then snd e else vi_Encode vi_zero)"

text \<open>The state between two entries: the current table has the entries \<open>kvs\<close>, the finished ones are \<open>ts\<close>.\<close>

definition table_open :: "os_env \<Rightarrow> string \<Rightarrow> compaction \<Rightarrow> (bytes \<times> bytes) list \<Rightarrow> bool" where
  "table_open oe db st kvs \<longleftrightarrow> (\<exists>i f0 b. co_table st = Some (i, b) \<and> ur_holds f0 [] \<and>
     tb_Add_all (uring_env (oe_crc oe)) kvs (mk_TableBuilder (Some f0) True) = Some b \<and>
     fs_names (co_fs st) (SSTFileName db (fileno (co_version st))) = Some i) \<and>
   co_meta st = Some (fm_default\<lparr>smallest := ik_DecodeFrom (fst (hd kvs))\<rparr>) \<and> co_key st = fst (last kvs) \<and> fits_table kvs"

definition compacting :: "os_env \<Rightarrow> string \<Rightarrow> Version \<Rightarrow> FileSystem \<Rightarrow> compaction \<Rightarrow> table list \<Rightarrow> (bytes \<times> bytes) list \<Rightarrow> bool" where
  "compacting oe db v fs st ts kvs \<longleftrightarrow>
     co_version st = v\<lparr>fileno := fileno v + of_nat (length ts)\<rparr> \<and> fs_ok (co_fs st) \<and> co_log st = None \<and>
     (\<forall>e \<in> set kvs. short_entry e) \<and>
     (if kvs = [] then co_table st = None \<and> co_meta st = None
      else table_open oe db st kvs) \<and>
     list_all2 (written (oe_crc oe) db (co_fs st)) (co_new st) ts \<and>
     map file_number (co_new st) = map (\<lambda>i. fileno v + of_nat i) [0..<length ts] \<and>
     (\<forall>name. (\<forall>i \<le> length ts. name \<noteq> SSTFileName db (fileno v + of_nat i)) \<longrightarrow> fs_content name (co_fs st) = fs_content name fs)"

lemma sst_name_eq: "SSTFileName db n = SSTFileName db m \<longleftrightarrow> n = m"
  using append_eq_sep [OF digits_no_dot digits_no_dot, of "unat n" "''sst''" "unat m" "''sst''"]
  by (auto simp: SSTFileName_def MakeFileName_def pad6_digits_inj word_unat_eq_iff)

lemma number_eq:
  assumes "unat (n :: u64) + i < 2 ^ 64" "unat n + j < 2 ^ 64"
  shows "n + of_nat i = n + of_nat j \<longleftrightarrow> i = j"
proof -
  have "i < 2 ^ 64" "j < 2 ^ 64" using assms by simp_all
  then have "unat (of_nat i :: u64) = i" "unat (of_nat j :: u64) = j" using unat_of_nat_u64 by simp_all
  then show ?thesis by (metis add_left_cancel)
qed

text \<open>Files written before stay as they are while another one is created or stored.\<close>

lemma written_other:
  assumes "written crc db fs m t" "\<forall>name. name \<noteq> other \<longrightarrow> fs_content name fs' = fs_content name fs" "SSTFileName db (file_number m) \<noteq> other"
  shows "written crc db fs' m t"
  using assms unfolding written_def by metis

lemma written_all_other:
  assumes "list_all2 (written crc db fs) ms ts" "\<forall>name. name \<noteq> other \<longrightarrow> fs_content name fs' = fs_content name fs"
    and "\<forall>m \<in> set ms. SSTFileName db (file_number m) \<noteq> other"
  shows "list_all2 (written crc db fs') ms ts"
  using assms(1,3) by (induction ms ts rule: list_all2_induct) (auto intro: written_other [OF _ assms(2)])

lemma compacting_numbers:
  assumes "compacting oe db v fs st ts kvs" "unat (fileno v) + length ts < 2 ^ 64" "m \<in> set (co_new st)"
  shows "SSTFileName db (file_number m) \<noteq> SSTFileName db (fileno v + of_nat (length ts))"
proof -
  have "file_number m \<in> set (map (\<lambda>i. fileno v + of_nat i) [0..<length ts])"
    using assms(1,3) unfolding compacting_def by (metis imageI set_map)
  then obtain i where "i < length ts" "file_number m = fileno v + of_nat i" by auto
  then show ?thesis using number_eq [of "fileno v" i "length ts"] assms(2) by (simp add: sst_name_eq)
qed

lemma finish_output_ok:
  assumes "compacting oe db v fs st ts kvs" "kvs \<noteq> []" "unat (fileno v) + length ts < 2 ^ 64"
  shows "\<exists>st' t. finish_output oe False st = Some (None, st') \<and> compacting oe db v fs st' (ts @ [t]) [] \<and> entries t = kvs"
proof -
  have c: "co_version st = v\<lparr>fileno := fileno v + of_nat (length ts)\<rparr>" "fs_ok (co_fs st)" "co_log st = None"
      "\<forall>e \<in> set kvs. short_entry e" "table_open oe db st kvs" "list_all2 (written (oe_crc oe) db (co_fs st)) (co_new st) ts"
      "map file_number (co_new st) = map (\<lambda>i. fileno v + of_nat i) [0..<length ts]"
    and frame: "\<And>name. \<forall>i \<le> length ts. name \<noteq> SSTFileName db (fileno v + of_nat i) \<Longrightarrow> fs_content name (co_fs st) = fs_content name fs"
    using assms(1,2) unfolding compacting_def by (simp_all del: set_map)
  let ?n = "fileno v + of_nat (length ts)" and ?crc = "oe_crc oe"
  obtain i f0 b where t: "co_table st = Some (i, b)" "ur_holds f0 []" "tb_Add_all (uring_env ?crc) kvs (mk_TableBuilder (Some f0) True) = Some b"
      "fs_names (co_fs st) (SSTFileName db ?n) = Some i"
    and m: "co_meta st = Some (fm_default\<lparr>smallest := ik_DecodeFrom (fst (hd kvs))\<rparr>)" "co_key st = fst (last kvs)" "fits_table kvs"
    using c(5) c(1) by (auto simp: table_open_def)
  obtain bs fl b3 f3 f4 f5 where fin: "tb_SetLastKey (fst (last kvs)) b = b" "tb_Finish (uring_env ?crc) b = Some (OK, b3)"
      "tb_FileSize b3 = of_nat (length (table_image ?crc bs fl))" "tb_file b3 = Some f3" "ur_Sync f3 = Some (OK, f4)"
      "ur_Close f4 = Some (OK, f5)" "ur_data f5 = table_image ?crc bs fl"
    and bs: "concat bs = kvs" "\<forall>l \<in> set bs. l \<noteq> []" "length fl = bloom_size_opt" "\<forall>e \<in> set kvs. has_key fl (user (fst e))"
      "length (table_image ?crc bs fl) < 2 ^ 20"
    using finished_table [OF t(2) m(3) t(3)] by blast
  define meta where "meta = fm_default\<lparr>smallest := ik_DecodeFrom (fst (hd kvs)), file_number := ?n,
    largest := ik_DecodeFrom (fst (last kvs)), file_size := of_nat (length (table_image ?crc bs fl))\<rparr>"
  define st' where "st' = st\<lparr>co_table := None, co_fs := fs_store i (table_image ?crc bs fl) (co_fs st),
    co_version := SetSSTFileNumber (?n + 1) (co_version st), co_new := co_new st @ [meta], co_meta := None\<rparr>"
  have r: "finish_output oe False st = Some (None, st')"
    using m t fin c(1) by (simp add: finish_output_def NewSSTFileNumber_def Let_def st'_def meta_def)
  have fc: "fs_content name (co_fs st') = (if name = SSTFileName db ?n then Some (table_image ?crc bs fl) else fs_content name (co_fs st))" for name
    using fs_content_store [OF c(2) t(4)] by (simp add: st'_def)
  have new: "written ?crc db (co_fs st') meta (bs, fl)"
    unfolding written_def fst_conv snd_conv bs(1) fc using bs c(4) assms(2) by (simp add: meta_def)
  have "list_all2 (written ?crc db (co_fs st')) (co_new st) ts"
    using written_all_other [OF c(6), of "SSTFileName db ?n" "co_fs st'"] fc compacting_numbers [OF assms(1,3)] by simp
  then have all: "list_all2 (written ?crc db (co_fs st')) (co_new st') (ts @ [(bs, fl)])"
    using new by (simp add: st'_def list_all2_appendI)
  have "compacting oe db v fs st' (ts @ [(bs, fl)]) []"
    unfolding compacting_def
  proof (intro conjI allI impI)
    show "co_version st' = v\<lparr>fileno := fileno v + of_nat (length (ts @ [(bs, fl)]))\<rparr>"
      by (simp add: st'_def c(1) SetSSTFileNumber_def algebra_simps)
    show "fs_ok (co_fs st')" using c(2) by (simp add: st'_def)
    show "map file_number (co_new st') = map (\<lambda>i. fileno v + of_nat i) [0..<length (ts @ [(bs, fl)])]"
      using c(7) by (simp add: st'_def meta_def)
    show "fs_content name (co_fs st') = fs_content name fs"
      if "\<forall>i \<le> length (ts @ [(bs, fl)]). name \<noteq> SSTFileName db (fileno v + of_nat i)" for name
      using that frame [of name] unfolding fc by simp
  qed (use all c(3) in \<open>simp_all add: st'_def\<close>)
  then show ?thesis using r bs(1) by (intro exI [of _ st'] exI [of _ "(bs, fl)"]) simp
qed

lemma tb_Add_all_snoc: "tb_Add_all env (kvs @ [(k, v)]) b = Option.bind (tb_Add_all env kvs b) (tb_Add env k v)"
  by (induction kvs arbitrary: b) (auto split: bind_splits)

text \<open>Opening the table if there is none yet.\<close>

lemma open_output_ok:
  assumes "compacting oe db v fs st0 ts kvs" "\<forall>n. reliable_ring (oe_ring oe n)" "unat (fileno v) + length ts < 2 ^ 64"
    and st: "st = st0\<lparr>co_key := key, co_meta := meta\<rparr>"
  shows "\<exists>st' i f0 b. open_output oe db False st = Some (OK, st') \<and>
    st' = st\<lparr>co_table := Some (i, b), co_fs := co_fs st'\<rparr> \<and> ur_holds f0 [] \<and>
    tb_Add_all (uring_env (oe_crc oe)) kvs (mk_TableBuilder (Some f0) True) = Some b \<and>
    fs_names (co_fs st') (SSTFileName db (fileno (co_version st))) = Some i \<and> fs_ok (co_fs st') \<and>
    list_all2 (written (oe_crc oe) db (co_fs st')) (co_new st) ts \<and>
    (\<forall>name. (\<forall>i \<le> length ts. name \<noteq> SSTFileName db (fileno v + of_nat i)) \<longrightarrow> fs_content name (co_fs st') = fs_content name fs)"
proof -
  let ?n = "fileno v + of_nat (length ts)" and ?crc = "oe_crc oe"
  have c: "co_version st0 = v\<lparr>fileno := ?n\<rparr>" "fs_ok (co_fs st0)" "list_all2 (written ?crc db (co_fs st0)) (co_new st0) ts"
    and frame: "\<And>name. \<forall>i \<le> length ts. name \<noteq> SSTFileName db (fileno v + of_nat i) \<Longrightarrow> fs_content name (co_fs st0) = fs_content name fs"
    using assms(1) unfolding compacting_def by (simp_all del: set_map)
  show ?thesis
  proof (cases "kvs = []")
    case False
    then have "table_open oe db st0 kvs" using assms(1) by (simp add: compacting_def)
    then obtain i f0 b where "co_table st0 = Some (i, b)" "ur_holds f0 []"
        "tb_Add_all (uring_env ?crc) kvs (mk_TableBuilder (Some f0) True) = Some b" "fs_names (co_fs st0) (SSTFileName db ?n) = Some i"
      using c(1) by (auto simp: table_open_def)
    then show ?thesis
      using c frame by (intro exI [of _ st] exI [of _ i] exI [of _ f0] exI [of _ b]) (simp add: open_output_def st)
  next
    case True
    then have none: "co_table st0 = None" using assms(1) by (simp add: compacting_def)
    obtain looks where ring: "oe_ring oe ?n = Some ([], looks)" "\<forall>l \<in> set looks. \<exists>cs. l = Reap cs \<and> (\<forall>c \<in> set cs. snd c = Full)"
      using assms(2) unfolding reliable_ring_def by blast
    define f0 where "f0 = mk_UringWritableFile [] looks"
    have h0: "ur_holds f0 []" unfolding f0_def by (rule mk_UringWritableFile_holds [OF ring(2)])
    obtain i fs1 where i: "fs_create (SSTFileName db ?n) (co_fs st0) = (i, fs1)" by (cases "fs_create (SSTFileName db ?n) (co_fs st0)")
    have fs1: "fs_ok fs1" "fs_names fs1 (SSTFileName db ?n) = Some i" using fs_ok_create [OF c(2) i] by simp_all
    have fc: "fs_content name fs1 = (if name = SSTFileName db ?n then Some [] else fs_content name (co_fs st0))" for name
      by (rule fs_content_create [OF c(2) i])
    define st' where "st' = st\<lparr>co_table := Some (i, mk_TableBuilder (Some f0) True), co_fs := fs1\<rparr>"
    have o: "open_output oe db False st = Some (OK, st')"
      using none c(1) ring(1) i by (simp add: open_output_def st NewSSTFileNumber_def NewUringWritableFile_def Let_def st'_def f0_def)
    have w: "list_all2 (written ?crc db fs1) (co_new st0) ts"
      using written_all_other [OF c(3), of "SSTFileName db ?n" fs1] fc compacting_numbers [OF assms(1,3)] by simp
    have fr: "fs_content name fs1 = fs_content name fs" if "\<forall>i \<le> length ts. name \<noteq> SSTFileName db (fileno v + of_nat i)" for name
      using that frame [of name] unfolding fc by simp
    show ?thesis
      using o h0 fs1 w fr c(1) True
      by (intro exI [of _ st'] exI [of _ i] exI [of _ f0] exI [of _ "mk_TableBuilder (Some f0) True"]) (simp add: st'_def st)
  qed
qed

lemma add_output_ok:
  assumes "co_table st = Some (i, b)" "ur_holds f0 []" "tb_Add_all (uring_env (oe_crc oe)) kvs (mk_TableBuilder (Some f0) True) = Some b"
    and "fits_table (kvs @ [out_entry e])" "ExtractValueType (fst e) = Some type"
  shows "\<exists>b'. add_output oe db False (fst e) (snd e) type st = Some (None, st\<lparr>co_table := Some (i, b')\<rparr>) \<and>
    tb_Add_all (uring_env (oe_crc oe)) (kvs @ [out_entry e]) (mk_TableBuilder (Some f0) True) = Some b' \<and>
    length (block_of (kvs @ [out_entry e])) \<le> unat (tb_ApproximateFileSize b')"
proof -
  obtain b' bs c where b': "tb_Add_all (uring_env (oe_crc oe)) (kvs @ [out_entry e]) (mk_TableBuilder (Some f0) True) = Some b'"
      "utable.fine b'" "utable.tb_rep (oe_crc oe) b' bs c" "concat bs @ c = kvs @ [out_entry e]"
    using added_table [OF assms(2,4)] by blast
  have "tb_Add_all (uring_env (oe_crc oe)) (kvs @ [(fst e, snd (out_entry e))]) (mk_TableBuilder (Some f0) True) = Some b'"
    using b'(1) by (simp add: out_entry_def)
  then have a: "tb_Add (uring_env (oe_crc oe)) (fst e) (snd (out_entry e)) b = Some b'"
    unfolding tb_Add_all_snoc assms(3) by simp
  have f: "tb_status b' = OK" "\<exists>f. tb_file b' = Some f" using b'(2) by (auto simp: utable.fine_def uw_ok_def)
  have "add_output oe db False (fst e) (snd e) type st = Some (None, st\<lparr>co_table := Some (i, b')\<rparr>)"
    using a f assms(1,5) by (auto simp: add_output_def table_add_def out_entry_def)
  then show ?thesis using b' approx_size [OF b'(3)] assms(4) by auto
qed

lemma length_block_snoc: "length (block_of (kvs @ [e])) = length (block_of kvs) + length (fst e) + length (snd e) + 8"
  by (cases e) simp

lemma short_out_entry: "short_entry e \<Longrightarrow> short_entry (out_entry e)"
  by (simp add: short_entry_def out_entry_def)

lemma fits_snoc:
  assumes "\<forall>e \<in> set kvs. short_entry e" "length (block_of kvs) < sst_file_size" "short_entry e"
  shows "fits_table (kvs @ [e])"
proof (rule fits_table_short)
  show "length (block_of (kvs @ [e])) < kWritableFileBufferSize"
    using assms(2,3) unfolding length_block_snoc by (simp add: short_entry_def sst_file_size_def kWritableFileBufferSize_def)
qed (use assms in auto)

lemma compact_entry_ok:
  assumes "compacting oe db v fs st ts kvs" "\<forall>n. reliable_ring (oe_ring oe n)" "unat (fileno v) + length ts < 2 ^ 64"
    and "length (block_of kvs) < sst_file_size" "short_entry e" "ExtractSequenceNumber (fst e) = Some s" "last_live_sequence v \<le> s"
  shows "\<exists>st' ts' kvs'. compact_entry oe db False (fst e) (snd e) st = Some (None, st') \<and> compacting oe db v fs st' ts' kvs' \<and>
    length (block_of kvs') < sst_file_size \<and> concat (map entries ts') @ kvs' = concat (map entries ts) @ kvs @ [out_entry e] \<and>
    length ts' \<le> Suc (length ts)"
proof -
  let ?n = "fileno v + of_nat (length ts)" and ?crc = "oe_crc oe" and ?kvs = "kvs @ [out_entry e]"
  have c: "co_version st = v\<lparr>fileno := ?n\<rparr>" "co_log st = None" "\<forall>e \<in> set kvs. short_entry e"
      "map file_number (co_new st) = map (\<lambda>i. fileno v + of_nat i) [0..<length ts]"
      "if kvs = [] then co_meta st = None else co_meta st = Some (fm_default\<lparr>smallest := ik_DecodeFrom (fst (hd kvs))\<rparr>)"
    using assms(1) unfolding compacting_def table_open_def by (simp_all del: set_map)
  define meta where "meta = (case co_meta st of None \<Rightarrow> Some (fm_default\<lparr>smallest := ik_DecodeFrom (fst e)\<rparr>) | Some m \<Rightarrow> Some m)"
  define st1 where "st1 = st\<lparr>co_key := fst e, co_meta := meta\<rparr>"
  have meta: "meta = Some (fm_default\<lparr>smallest := ik_DecodeFrom (fst (hd ?kvs))\<rparr>)"
    using c(5) by (cases "kvs = []") (simp_all add: meta_def out_entry_def)
  obtain type where ty: "ExtractValueType (fst e) = Some type"
    using assms(5) by (auto simp: short_entry_def ExtractValueType_def elim: ikey_cases)
  obtain st2 i f0 b where o: "open_output oe db False st1 = Some (OK, st2)" "st2 = st1\<lparr>co_table := Some (i, b), co_fs := co_fs st2\<rparr>"
      "ur_holds f0 []" "tb_Add_all (uring_env ?crc) kvs (mk_TableBuilder (Some f0) True) = Some b"
      "fs_names (co_fs st2) (SSTFileName db (fileno (co_version st1))) = Some i" "fs_ok (co_fs st2)"
      "list_all2 (written ?crc db (co_fs st2)) (co_new st1) ts"
    and frame: "\<forall>name. (\<forall>i \<le> length ts. name \<noteq> SSTFileName db (fileno v + of_nat i)) \<longrightarrow> fs_content name (co_fs st2) = fs_content name fs"
    using open_output_ok [OF assms(1-3) st1_def] by blast
  have fits: "fits_table ?kvs" by (rule fits_snoc [OF c(3) assms(4) short_out_entry [OF assms(5)]])
  obtain b' where b': "add_output oe db False (fst e) (snd e) type st2 = Some (None, st2\<lparr>co_table := Some (i, b')\<rparr>)"
      "tb_Add_all (uring_env ?crc) ?kvs (mk_TableBuilder (Some f0) True) = Some b'"
      "length (block_of ?kvs) \<le> unat (tb_ApproximateFileSize b')"
    using add_output_ok [OF _ o(3,4) fits ty, of st2 i] o(2) by (metis (no_types, lifting) compaction.select_convs(3) compaction.surjective compaction.update_convs(2,3))
  define st3 where "st3 = st2\<lparr>co_table := Some (i, b')\<rparr>"
  have s3: "co_version st3 = co_version st" "co_log st3 = co_log st" "co_new st3 = co_new st" "co_meta st3 = meta" "co_key st3 = fst e"
      "co_table st3 = Some (i, b')" "co_fs st3 = co_fs st2"
    unfolding st3_def by (subst o(2), simp add: st1_def)+
  have live: "\<not> s < last_live_sequence (co_version st1)" using assms(7) c(1) by (simp add: st1_def)
  have step: "compact_entry oe db False (fst e) (snd e) st =
      (if of_nat sst_file_size \<le> tb_ApproximateFileSize b' then finish_output oe False st3 else Some (None, st3))"
    using assms(6) ty o(1) b'(1) live s3(6)
    by (simp add: compact_entry_def Let_def st1_def [symmetric] meta_def [symmetric] st3_def [symmetric])
  have inv: "compacting oe db v fs st3 ts ?kvs"
    unfolding compacting_def
  proof (intro conjI)
    show "if ?kvs = [] then co_table st3 = None \<and> co_meta st3 = None else table_open oe db st3 ?kvs"
      using o(3,5) b'(2) fits meta by (auto simp: table_open_def s3 st1_def out_entry_def)
    show "\<forall>e \<in> set ?kvs. short_entry e" using c(3) short_out_entry [OF assms(5)] by simp
  qed (use c(1,2,4) o(6,7) frame in \<open>simp_all add: s3 st1_def\<close>)
  show ?thesis
  proof (cases "of_nat sst_file_size \<le> tb_ApproximateFileSize b'")
    case True
    obtain st' t where f: "finish_output oe False st3 = Some (None, st')" "compacting oe db v fs st' (ts @ [t]) []" "entries t = ?kvs"
      using finish_output_ok [OF inv _ assms(3)] by auto
    then show ?thesis using step True by (intro exI [of _ st'] exI [of _ "ts @ [t]"] exI [of _ "[]"]) (simp add: sst_file_size_def)
  next
    case False
    then have "unat (tb_ApproximateFileSize b') < sst_file_size" by (simp add: word_le_nat_alt sst_file_size_def)
    then have "length (block_of ?kvs) < sst_file_size" using b'(3) by linarith
    then show ?thesis using step False inv by (intro exI [of _ st3] exI [of _ ts] exI [of _ ?kvs]) simp
  qed
qed

lemma compact_all_ok:
  assumes "compacting oe db v fs st ts kvs" "\<forall>n. reliable_ring (oe_ring oe n)" "unat (fileno v) + length ts + length out < 2 ^ 64"
    and "length (block_of kvs) < sst_file_size" "\<forall>e \<in> set out. short_entry e \<and> last_live_sequence v \<le> the (ExtractSequenceNumber (fst e))"
  shows "\<exists>st' ts' kvs'. compact_all oe db False out st = Some (None, st') \<and> compacting oe db v fs st' ts' kvs' \<and>
    concat (map entries ts') @ kvs' = concat (map entries ts) @ kvs @ map out_entry out \<and> length ts' \<le> length ts + length out"
  using assms
proof (induction out arbitrary: st ts kvs)
  case Nil
  then show ?case by auto
next
  case (Cons e out)
  have se: "short_entry e" "last_live_sequence v \<le> the (ExtractSequenceNumber (fst e))" using Cons.prems(5) by simp_all
  obtain s where s: "ExtractSequenceNumber (fst e) = Some s" using wf_ikey_seq se(1) by (auto simp: short_entry_def)
  obtain st1 ts1 kvs1 where c: "compact_entry oe db False (fst e) (snd e) st = Some (None, st1)" "compacting oe db v fs st1 ts1 kvs1"
      "length (block_of kvs1) < sst_file_size" "concat (map entries ts1) @ kvs1 = concat (map entries ts) @ kvs @ [out_entry e]"
      "length ts1 \<le> Suc (length ts)"
    using compact_entry_ok [OF Cons.prems(1,2) _ Cons.prems(4) se(1) s] Cons.prems(3) se(2) s by auto
  obtain st' ts' kvs' where r: "compact_all oe db False out st1 = Some (None, st')" "compacting oe db v fs st' ts' kvs'"
      "concat (map entries ts') @ kvs' = concat (map entries ts1) @ kvs1 @ map out_entry out" "length ts' \<le> length ts1 + length out"
    using Cons.IH [OF c(2) Cons.prems(2) _ c(3)] Cons.prems(3,5) c(5) by auto
  have "concat (map entries ts1) @ kvs1 @ map out_entry out = (concat (map entries ts) @ kvs @ [out_entry e]) @ map out_entry out"
    by (metis append.assoc c(4))
  then show ?case using c(1,5) r by (intro exI [of _ st'] exI [of _ ts'] exI [of _ kvs']) simp
qed

lemma BuildWhenCompaction_ok:
  assumes "list_all2 i_delivers ways ess" "2 \<le> length ways" "fs_ok fs" "\<forall>n. reliable_ring (oe_ring oe n)"
    and "unat (fileno v) + length (concat ess) + 1 < 2 ^ 64"
    and "\<forall>e \<in> set (concat ess). short_entry e \<and> last_live_sequence v \<le> the (ExtractSequenceNumber (fst e))"
  shows "\<exists>out new ts fs'. BuildWhenCompaction oe db False ways v fs =
      Some (OK, new, v\<lparr>fileno := fileno v + of_nat (length new)\<rparr>, fs') \<and> merges ess out \<and>
    concat (map entries ts) = map out_entry out \<and> list_all2 (written (oe_crc oe) db fs') new ts \<and> fs_ok fs' \<and>
    map file_number new = map (\<lambda>i. fileno v + of_nat i) [0..<length new] \<and> length new \<le> Suc (length (concat ess)) \<and>
    (\<forall>name. (\<forall>i \<le> length new. name \<noteq> SSTFileName db (fileno v + of_nat i)) \<longrightarrow> fs_content name fs' = fs_content name fs)"
proof -
  have d: "delivers_all ways ess" "2 \<le> length ess" using assms(1,2) list_all2_lengthD [OF assms(1)] by (simp_all add: delivers_all_def)
  obtain t where t: "mk_LoserTree ways = Some t" "tree_rep t ess" using mk_LoserTree_rep [OF d] by blast
  obtain out where out: "lt_drain t = Some out" "merges ess out" using lt_drain_merges [OF t(2)] by blast
  have ms: "mset out = mset (concat ess)" by (rule merges_mset [OF out(2)])
  then have so: "set out = set (concat ess)" "length out = length (concat ess)" by (metis set_mset_mset, metis size_mset)
  have "compacting oe db v fs (mk_compaction v fs) [] []" using assms(3) by (simp add: compacting_def mk_compaction_def)
  then obtain st1 ts1 kvs1 where a: "compact_all oe db False out (mk_compaction v fs) = Some (None, st1)"
      "compacting oe db v fs st1 ts1 kvs1" "concat (map entries ts1) @ kvs1 = map out_entry out" "length ts1 \<le> length out"
    using compact_all_ok [of oe db v fs "mk_compaction v fs" "[]" "[]" out] assms(4-6) so by (auto simp: sst_file_size_def simp del: set_concat)
  have loop: "compact_loop oe db False t (mk_compaction v fs) = Some (None, st1)" using compact_loop_all [OF out(1)] a(1) by simp
  obtain st2 ts where s2: "(if co_table st1 \<noteq> None then finish_output oe False st1 else Some (None, st1)) = Some (None, st2)"
      "compacting oe db v fs st2 ts []" "concat (map entries ts) = map out_entry out" "length ts \<le> Suc (length out)"
  proof (cases "kvs1 = []")
    case True
    then have "co_table st1 = None" using a(2) by (simp add: compacting_def)
    then show thesis using that [of st1 ts1] a True by simp
  next
    case False
    then have ct: "co_table st1 \<noteq> None" using a(2) by (auto simp: compacting_def table_open_def)
    obtain st2 t' where "finish_output oe False st1 = Some (None, st2)" "compacting oe db v fs st2 (ts1 @ [t']) []" "entries t' = kvs1"
      using finish_output_ok [OF a(2) False] assms(5) a(4) so(2) by auto
    then show thesis using that [of st2 "ts1 @ [t']"] ct a(3,4) by simp
  qed
  have c: "co_version st2 = v\<lparr>fileno := fileno v + of_nat (length ts)\<rparr>" "fs_ok (co_fs st2)" "co_log st2 = None" "co_table st2 = None"
      "list_all2 (written (oe_crc oe) db (co_fs st2)) (co_new st2) ts"
      "map file_number (co_new st2) = map (\<lambda>i. fileno v + of_nat i) [0..<length ts]"
      "\<forall>name. (\<forall>i \<le> length ts. name \<noteq> SSTFileName db (fileno v + of_nat i)) \<longrightarrow> fs_content name (co_fs st2) = fs_content name fs"
    using s2(2) by (simp_all add: compacting_def)
  have ln: "length (co_new st2) = length ts" by (rule list_all2_lengthD [OF c(5)])
  have ab: "abandon oe st2 = Some (st2\<lparr>co_fs := co_fs st2, co_log := None, co_table := None\<rparr>)" using c(3,4) by (simp add: abandon_def)
  have "BuildWhenCompaction oe db False ways v fs = Some (OK, co_new st2, co_version st2, co_fs st2)"
    using t(1) loop s2(1) c(3) ab by (cases "co_table st1") (auto simp: BuildWhenCompaction_def)
  then show ?thesis using out(2) s2(3,4) c ln so(2)
    by (intro exI [of _ out] exI [of _ "co_new st2"] exI [of _ ts] exI [of _ "co_fs st2"]) simp
qed

lemma open_ways_delivers:
  assumes "list_all2 (file_holds crc db fs) fms tbs" "re_good (oe_read oe)"
  shows "\<exists>its. open_ways oe db fs fms = Some its \<and> list_all2 i_delivers its (map entries tbs)"
  using assms(1)
proof (induction fms tbs rule: list_all2_induct)
  case (Cons f fms t ts)
  let ?R = "file_reader (table_image crc (fst t) (snd t))"
  have it: "iterable crc (fst t) (snd t)" "file_size f = of_nat (length (table_image crc (fst t) (snd t)))"
      "open_reader db (oe_read oe) fs (file_number f) = Some ?R"
    using assms(2) Cons(1) by (simp_all add: file_holds_def open_reader_def sst_content_def re_good_def)
  define i0 where "i0 = \<lparr>ti_file = Some ?R, ti_block = bi_default CInternalKey,
    ti_index = mk_BlockIterator (block_of (index_entries 0 (fst t))) CInternalKey, ti_cmp = CInternalKey\<rparr>"
  have n: "NewIterator db (oe_read oe) fs f CInternalKey = Some i0"
    unfolding NewIterator_def i0_def
    by (rule mk_TableIterator_stored [where open_file = "open_reader db (oe_read oe) fs" and meta = f, OF it(1,3,2)])
  obtain i1 where i1: "ti_seekToFirst i0 = Some i1" "ti_delivers i1 (entries t)"
    using ti_seekToFirst_stored [OF it(1), of i0] by (auto simp: i0_def mk_BlockIterator_def bi_seekToFirst_def)
  then show ?case using n Cons(3) by auto
qed simp

lemma replace_files:
  assumes "lc_ok c" "picked c ci" "\<forall>f \<in> set new. lc_fresh c (file_number f)" "distinct (map file_number new)"
    and "ci_level ci + 1 < kCompactionVLogLevel"
  shows "\<exists>c'. AddFiles (ci_level ci + 1) new (snd (RemoveFileAtCompaction (ci_level ci + 1) (ci_overlap_files ci)
        (snd (RemoveFileAtCompaction (ci_level ci) (ci_old_files ci) c)))) = Some c' \<and> lc_ok c' \<and>
    (\<forall>l n. lc_file c' l n =
      (if l = ci_level ci + 1 \<and> n \<in> file_number ` set new then map_of (map (\<lambda>f. (file_number f, f\<lparr>fm_level := of_nat (ci_level ci + 1)\<rparr>)) new) n
       else if l = ci_level ci \<and> n \<in> file_number ` set (ci_old_files ci) \<or> l = ci_level ci + 1 \<and> n \<in> file_number ` set (ci_overlap_files ci)
       then None else lc_file c l n))"
proof -
  let ?l = "ci_level ci" and ?o = "ci_old_files ci" and ?v = "ci_overlap_files ci"
  have p: "\<forall>f \<in> set ?o. lc_file c ?l (file_number f) \<noteq> None" "\<forall>f \<in> set ?v. lc_file c (?l + 1) (file_number f) \<noteq> None"
      "distinct (map file_number ?o)" "distinct (map file_number ?v)"
    using assms(2) unfolding picked_def by blast+
  obtain c1 where c1: "RemoveFileAtCompaction ?l ?o c = (OK, c1)" "lc_ok c1"
      "\<forall>l k. lc_file c1 l k = (if l = ?l \<and> k \<in> file_number ` set ?o then None else lc_file c l k)"
    using RemoveFileAtCompaction_refines [OF assms(1) p(1,3)] by blast
  have "\<forall>f \<in> set ?v. lc_file c1 (?l + 1) (file_number f) \<noteq> None" using p(2) by (simp add: c1(3))
  then obtain c2 where c2: "RemoveFileAtCompaction (?l + 1) ?v c1 = (OK, c2)" "lc_ok c2"
      "\<forall>l k. lc_file c2 l k = (if l = ?l + 1 \<and> k \<in> file_number ` set ?v then None else lc_file c1 l k)"
    using RemoveFileAtCompaction_refines [OF c1(2) _ p(4)] by blast
  have "\<forall>f \<in> set new. lc_fresh c2 (file_number f)" using assms(3) by (auto simp: lc_fresh_def c2(3) c1(3))
  from AddFiles_refines [OF c2(2) this assms(4), of "?l + 1"] assms(5) obtain c3 where
    c3: "AddFiles (?l + 1) new c2 = Some c3" "lc_ok c3" "\<forall>l k. lc_file c3 l k =
      (if l = ?l + 1 \<and> k \<in> file_number ` set new then map_of (map (\<lambda>f. (file_number f, f\<lparr>fm_level := of_nat (?l + 1)\<rparr>)) new) k
       else lc_file c2 l k)" by blast
  show ?thesis
  proof (intro exI [of _ c3] conjI allI)
    show "AddFiles (?l + 1) new (snd (RemoveFileAtCompaction (?l + 1) ?v (snd (RemoveFileAtCompaction ?l ?o c)))) = Some c3"
      using c1(1) c2(1) c3(1) by simp
    show "lc_ok c3" by fact
    fix l n
    show "lc_file c3 l n =
      (if l = ?l + 1 \<and> n \<in> file_number ` set new then map_of (map (\<lambda>f. (file_number f, f\<lparr>fm_level := of_nat (?l + 1)\<rparr>)) new) n
       else if l = ?l \<and> n \<in> file_number ` set ?o \<or> l = ?l + 1 \<and> n \<in> file_number ` set ?v then None else lc_file c l n)"
      unfolding c3(3) [rule_format] c2(3) [rule_format] c1(3) [rule_format] by argo
  qed
qed

lemma written_sorted_holds:
  assumes "list_all2 (written crc db fs) new ts" "concat (map entries ts) = map out_entry out"
    and "sorted_wrt (\<lambda>a b. ikey_cmp (fst a) (fst b) < 0) out"
  shows "list_all2 (file_holds crc db fs) new ts"
proof (rule list.rel_mono_strong [OF assms(1)])
  fix m t assume mt: "t \<in> set ts" "written crc db fs m t"
  then obtain as bs where "ts = as @ t # bs" by (metis split_list)
  then have out: "map out_entry out = concat (map entries as) @ entries t @ concat (map entries bs)" using assms(2) by simp
  have "sorted_wrt (\<lambda>a b. ikey_cmp (fst a) (fst b) < 0) (map out_entry out)" using assms(3) by (simp add: sorted_wrt_map out_entry_def)
  then have "sorted_wrt (\<lambda>a b. ikey_cmp (fst a) (fst b) < 0) (entries t)" unfolding out by (simp only: sorted_wrt_append)
  then show "file_holds crc db fs m t" by (rule written_file_holds [OF mt(2)])
qed

text \<open>A compaction that rewrites the value log: moving one value. It is read through its old pointer and
  appended to the new log; the pointer that is stored instead leads to the same value in the new log,
  and pointers that were handed out before stay good, since the log only grows. Everything but the
  reader's cache, the log builder and the file of the new log is as before.\<close>

lemma copy_value_moves:
  assumes src: "points_to (oe_crc oe) info (fs_data (co_fs st) i) key v" "length (fs_data (co_fs st) i) < 2 ^ 64"
      "length key + length v + 12 < 2 ^ 32" "wf_ikey key" "open_log oe db (co_fs st) (vi_file_no info) = Some i"
    and rd: "\<forall>d off n. oe_pread oe d off n = Some (take n (drop off d))"
      "reader_sound (open_log oe db (co_fs st)) (co_reader st)" "vr_live (co_reader st) = None"
    and dst: "co_log st = Some w" "vb_holds (lw_builder w) C" "vb_builder (lw_builder w) = Some t" "pgood.fine t"
  shows "\<exists>info' st' w' r' t'. copy_value oe db key (vi_Encode info) st = Some (OK, vi_Encode info', st') \<and>
    st' = st\<lparr>co_reader := r', co_log := Some w', co_fs := fs_store (lw_inode w) (C @ seal (oe_crc oe) (block_entry key v)) (co_fs st)\<rparr> \<and>
    vi_file_no info' = vb_file_no (lw_builder w) \<and> points_to (oe_crc oe) info' (fs_data (co_fs st') (lw_inode w)) key v \<and>
    lw_inode w' = lw_inode w \<and> vb_file_no (lw_builder w') = vb_file_no (lw_builder w) \<and>
    vb_holds (lw_builder w') (C @ seal (oe_crc oe) (block_entry key v)) \<and> vb_builder (lw_builder w') = Some t' \<and> pgood.fine t' \<and>
    reader_sound (open_log oe db (co_fs st')) r' \<and> vr_live r' = None"
proof -
  let ?D = "C @ seal (oe_crc oe) (block_entry key v)"
  have pr: "pread_log oe (co_fs st) i off n = Some (take n (drop off (fs_data (co_fs st) i)))" for off n
    using rd(1) by (simp add: pread_log_def)
  obtain r' where r': "log_Read oe db (co_fs st) info (co_reader st) = Some (OK, Some v, r')"
      "reader_sound (open_log oe db (co_fs st)) r'" "vr_live r' = None"
    using vr_Read_points_to [where pread = "pread_log oe (co_fs st)", OF src(1-4) rd(2) src(5) pr] rd(3) by (auto simp: log_Read_def)
  let ?info = "\<lparr>vi_offset = of_nat (length C), vi_file_no = vb_file_no (lw_builder w), vi_length = of_nat (length v + length key + 8)\<rparr>"
  have kl: "length key < 2 ^ 32" using src(3) by simp
  obtain s b' where ap: "vb_Append_key (oe_crc oe) key v info (lw_builder w) = Some (s, ?info, b')"
      "vb_file_no b' = vb_file_no (lw_builder w)" "s = OK \<longrightarrow> vb_holds b' ?D"
    using vb_Append_key_holds [OF dst(2) src(4) kl] by blast
  obtain t' where t': "s = OK" "vb_builder b' = Some t'" "pgood.fine t'" using vb_Append_key_fine [OF dst(3,4) ap(1)] by blast
  have h: "vb_holds b' ?D" "fd_data (pf_fd (tb_file t')) = ?D" using ap(3) t' by (auto simp: vb_holds_def)
  define w' where "w' = w\<lparr>lw_builder := b'\<rparr>"
  define st' where "st' = st\<lparr>co_reader := r', co_log := Some w', co_fs := fs_store (lw_inode w) ?D (co_fs st)\<rparr>"
  have "log_Append_key oe key v info w (co_fs st) = Some (OK, ?info, w', fs_store (lw_inode w) ?D (co_fs st))"
    using ap(1) t' h(2) by (simp add: log_Append_key_def log_store_def w'_def Let_def)
  then have "copy_value oe db key (vi_Encode info) st = Some (OK, vi_Encode ?info, st')"
    using r'(1) dst(1) by (simp add: copy_value_def st'_def Let_def)
  moreover have "points_to (oe_crc oe) ?info (fs_data (co_fs st') (lw_inode w)) key v"
    by (simp add: points_to_def st'_def fs_store_def) (rule exI [of _ C], simp)
  moreover have "open_log oe db (co_fs st') = open_log oe db (co_fs st)" by (auto simp: open_log_def st'_def fs_store_def)
  ultimately show ?thesis using st'_def w'_def ap(2) t'(2,3) h(1) r'(2,3)
    by (intro exI [of _ ?info] exI [of _ st'] exI [of _ w'] exI [of _ r'] exI [of _ t']) simp
qed

section \<open>Properties\<close>

text \<open>C4. A compaction of at least two tables into a level below \<open>kCompactionVLogLevel\<close> (that is, from level
  0 or 1; a compaction into level 3 or deeper also rewrites the value log and changes the pointers, and is
  outside this statement; \<open>copy_value_moves\<close> is what is shown of it) loses and invents nothing. When the
  picked files hold tables of entries that fit a table, a compaction of a level above 0 has
  overlapping files (otherwise the files are only moved), the file numbers from the next one on are not
  in use, no entry has expired and writes and reads succeed, \<open>DoCompactionWork\<close> ends with OK. The new tables
  contain, one behind the other, a merge of the entries of all picked tables, each exactly once (a
  deletion with a zero pointer); every new file holds its table and its metadata describes it. In the
  cache the picked files are replaced by the new ones on the next level, every other file of the cache
  and of the disk is unchanged, and the removal of exactly the replaced files is scheduled. If the
  merge is in the order of the internal keys the new files can be searched and iterated.\<close>

theorem compaction_merges:
  assumes "lc_ok c" "picked c ci" "fs_ok fs" "ci_level ci + 1 < kCompactionVLogLevel"
    and "ci_level ci = 0 \<or> ci_overlap_files ci \<noteq> []" "2 \<le> length (ci_old_files ci @ ci_overlap_files ci)"
    and "list_all2 (file_holds (oe_crc oe) db fs) (ci_old_files ci @ ci_overlap_files ci) tbs"
    and "re_good (oe_read oe)" "\<forall>n. reliable_ring (oe_ring oe n)"
    and "\<forall>e \<in> set (concat (map entries tbs)). short_entry e \<and> last_live_sequence v \<le> the (ExtractSequenceNumber (fst e))"
    and "unat (fileno v) + length (concat (map entries tbs)) + 1 < 2 ^ 64" "\<forall>n \<ge> fileno v. lc_fresh c n"
  shows "\<exists>v' fs' c' rm new ts out. DoCompactionWork oe db ci v fs c = Some (OK, v', fs', c', rm) \<and>
    mset out = mset (concat (map entries tbs)) \<and> merges (map entries tbs) out \<and> concat (map entries ts) = map out_entry out \<and>
    list_all2 (written (oe_crc oe) db fs') new ts \<and>
    (sorted_wrt (\<lambda>a b. ikey_cmp (fst a) (fst b) < 0) out \<longrightarrow> list_all2 (file_holds (oe_crc oe) db fs') new ts) \<and>
    v' = v\<lparr>fileno := fileno v + of_nat (length new)\<rparr> \<and> fs_ok fs' \<and> lc_ok c' \<and> (\<forall>l n. lc_file c' l n =
      (if l = ci_level ci + 1 \<and> n \<in> file_number ` set new then map_of (map (\<lambda>f. (file_number f, f\<lparr>fm_level := of_nat (ci_level ci + 1)\<rparr>)) new) n
       else if l = ci_level ci \<and> n \<in> file_number ` set (ci_old_files ci) \<or> l = ci_level ci + 1 \<and> n \<in> file_number ` set (ci_overlap_files ci)
       then None else lc_file c l n)) \<and>
    (\<forall>name. (\<forall>i \<le> length new. name \<noteq> SSTFileName db (fileno v + of_nat i)) \<longrightarrow> fs_content name fs' = fs_content name fs) \<and>
    rm = map (\<lambda>f. SSTFileName db (ucast (ucast (file_number f) :: u32))) (ci_old_files ci @ ci_overlap_files ci)"
proof -
  let ?o = "ci_old_files ci" and ?v = "ci_overlap_files ci" and ?crc = "oe_crc oe"
  obtain tb1 tb2 where tb: "tbs = tb1 @ tb2" "list_all2 (file_holds ?crc db fs) ?o tb1" "list_all2 (file_holds ?crc db fs) ?v tb2"
    using assms(7) by (auto simp: list_all2_append1)
  obtain w1 where w1: "open_ways oe db fs ?o = Some w1" "list_all2 i_delivers w1 (map entries tb1)"
    using open_ways_delivers [OF tb(2) assms(8)] by blast
  obtain w2 where w2: "open_ways oe db fs ?v = Some w2" "list_all2 i_delivers w2 (map entries tb2)"
    using open_ways_delivers [OF tb(3) assms(8)] by blast
  have w: "list_all2 i_delivers (w1 @ w2) (map entries tbs)" using list_all2_appendI [OF w1(2) w2(2)] tb(1) by simp
  have "length (w1 @ w2) = length (?o @ ?v)" using list_all2_lengthD [OF w] list_all2_lengthD [OF assms(7)] by simp
  then have n2: "2 \<le> length (w1 @ w2)" using assms(6) by simp
  obtain out new ts fs' where b: "BuildWhenCompaction oe db False (w1 @ w2) v fs =
      Some (OK, new, v\<lparr>fileno := fileno v + of_nat (length new)\<rparr>, fs')" "merges (map entries tbs) out"
      "concat (map entries ts) = map out_entry out" "list_all2 (written ?crc db fs') new ts" "fs_ok fs'"
      "map file_number new = map (\<lambda>i. fileno v + of_nat i) [0..<length new]" "length new \<le> Suc (length (concat (map entries tbs)))"
      "\<forall>name. (\<forall>i \<le> length new. name \<noteq> SSTFileName db (fileno v + of_nat i)) \<longrightarrow> fs_content name fs' = fs_content name fs"
    using BuildWhenCompaction_ok [OF w n2 assms(3,9) assms(11,10), of db] by blast
  have nb: "unat (fileno v) + i < 2 ^ 64" if "i < length new" for i using that b(7) assms(11) by linarith
  have "distinct (map file_number new)"
    unfolding b(6) distinct_map using number_eq [OF nb nb] by (auto intro!: inj_onI)
  moreover have "\<forall>f \<in> set new. lc_fresh c (file_number f)"
  proof
    fix f assume "f \<in> set new"
    then have "file_number f \<in> set (map file_number new)" by simp
    then obtain i where i: "i < length new" "file_number f = fileno v + of_nat i" unfolding b(6) by auto
    have "unat (of_nat i :: u64) = i" using nb [OF i(1)] unat_of_nat_u64 by simp
    then have "fileno v \<le> file_number f" unfolding i(2) using nb [OF i(1)] by (simp add: word_le_nat_alt unat_word_ariths)
    then show "lc_fresh c (file_number f)" using assms(12) by blast
  qed
  ultimately obtain c' where c': "AddFiles (ci_level ci + 1) new (snd (RemoveFileAtCompaction (ci_level ci + 1) ?v
        (snd (RemoveFileAtCompaction (ci_level ci) ?o c)))) = Some c'" "lc_ok c'" "\<forall>l n. lc_file c' l n =
      (if l = ci_level ci + 1 \<and> n \<in> file_number ` set new then map_of (map (\<lambda>f. (file_number f, f\<lparr>fm_level := of_nat (ci_level ci + 1)\<rparr>)) new) n
       else if l = ci_level ci \<and> n \<in> file_number ` set ?o \<or> l = ci_level ci + 1 \<and> n \<in> file_number ` set ?v then None else lc_file c l n)"
    using replace_files [OF assms(1,2) _ _ assms(4)] by blast
  have lv: "\<not> kCompactionVLogLevel \<le> ci_level ci + 1" "\<not> kCompactionVLogLevel \<le> ci_level ci" "\<not> length (lc_cache c) \<le> ci_level ci"
    using assms(2,4) by (simp_all add: picked_def)
  have run: "DoCompactionWork oe db ci v fs c = Some (OK, v\<lparr>fileno := fileno v + of_nat (length new)\<rparr>, fs', c',
      map (\<lambda>f. SSTFileName db (ucast (ucast (file_number f) :: u32))) (?o @ ?v))"
    using assms(5) lv w1(1) w2(1) b(1) c'(1) by (auto simp: DoCompactionWork_def Let_def rm_logs_def)
  show ?thesis
    by (intro exI conjI impI, rule run, rule merges_mset [OF b(2)], rule b(2), rule b(3), rule b(4), erule written_sorted_holds [OF b(4,3)])
      (use b(5,8) c'(2,3) in simp_all)
qed

text \<open>Two tables on level 0.\<close>

definition sample_os :: os_env where
  "sample_os = \<lparr>oe_crc = (\<lambda>_. 0), oe_read = good_env, oe_ring = (\<lambda>_. Some ([], [])), oe_new_log = (\<lambda>_. Some empty_file),
     oe_open_log = (\<lambda>_. True), oe_pread = (\<lambda>d off n. Some (take n (drop off d)))\<rparr>"

definition sample_file2 :: SSTFileMeta where
  "sample_file2 = sample_file\<lparr>file_number := 2\<rparr>"

definition sample_fs2 :: FileSystem where
  "sample_fs2 = \<lparr>fs_names = [SSTFileName ''db'' 1 \<mapsto> 0, SSTFileName ''db'' 2 \<mapsto> 1],
     fs_data = (\<lambda>_. table_image (\<lambda>_. 0) sample_blocks sample_filter), fs_next = 2\<rparr>"

definition sample_cache2 :: LevelCache where
  "sample_cache2 = \<lparr>lc_cache = [[(1, sample_file), (2, sample_file2)], []]\<rparr>"

definition sample_pick :: CompactInfo where
  "sample_pick = (mk_CompactInfo 0)\<lparr>ci_old_files := [sample_file, sample_file2]\<rparr>"

lemma sample_holds2:
  "list_all2 (file_holds (\<lambda>_. 0) ''db'' sample_fs2) [sample_file, sample_file2] [(sample_blocks, sample_filter), (sample_blocks, sample_filter)]"
proof -
  have c: "concat sample_blocks = sample_entries" by (simp add: sample_blocks_def)
  have "fs_content (SSTFileName ''db'' 1) sample_fs2 = Some (table_image (\<lambda>_. 0) sample_blocks sample_filter)"
    "fs_content (SSTFileName ''db'' 2) sample_fs2 = Some (table_image (\<lambda>_. 0) sample_blocks sample_filter)"
    by (simp_all add: fs_content_def sample_fs2_def)
  moreover have "file_number sample_file = 1" "file_size sample_file = of_nat (length (table_image (\<lambda>_. 0) sample_blocks sample_filter))"
    by (simp_all add: sample_file_def sample_meta_def)
  moreover have "\<forall>e \<in> set sample_entries. length (snd e) = 16" by (simp add: sample_entries_def)
  ultimately show ?thesis
    unfolding file_holds_def fst_conv snd_conv c list_all2_Cons using sample_iterable
    by (simp add: sample_file2_def c) (simp add: sample_file_def)
qed

lemma sample_cache2_file:
  "lc_file sample_cache2 l n = (if l = 0 \<and> n = 1 then Some sample_file else if l = 0 \<and> n = 2 then Some sample_file2 else None)"
  by (auto simp: lc_file_def sample_cache2_def nth_Cons')

lemma sample_cache2_ok: "lc_ok sample_cache2" "picked sample_cache2 sample_pick" "\<forall>n \<ge> 3. lc_fresh sample_cache2 n"
proof -
  have n: "file_number sample_file = 1" "file_number sample_file2 = 2" by (simp_all add: sample_file2_def sample_file_def sample_meta_def)
  show "lc_ok sample_cache2"
  proof (rule lc_okI)
    show "\<forall>m \<in> set (lc_cache sample_cache2). level_ok m" by (simp add: sample_cache2_def level_ok_def)
  qed (use n in \<open>auto simp: sample_cache2_file split: if_splits\<close>)
  show "picked sample_cache2 sample_pick"
    using n by (simp add: picked_def sample_pick_def mk_CompactInfo_def sample_cache2_file) (simp add: sample_cache2_def)
  show "\<forall>n \<ge> 3. lc_fresh sample_cache2 n" by (auto simp: lc_fresh_def sample_cache2_file word_le_nat_alt)
qed

theorem compaction_merges_witness:
  "\<exists>v' fs' c' rm. DoCompactionWork sample_os ''db'' sample_pick (mk_Version\<lparr>fileno := 3\<rparr>) sample_fs2 sample_cache2 =
     Some (OK, v', fs', c', rm) \<and> lc_file c' 0 1 = None \<and> length rm = 2"
proof -
  have ci: "ci_old_files sample_pick @ ci_overlap_files sample_pick = [sample_file, sample_file2]" "ci_level sample_pick = 0"
      "ci_old_files sample_pick = [sample_file, sample_file2]" "file_number sample_file = 1"
    by (simp_all add: sample_pick_def mk_CompactInfo_def sample_file_def sample_meta_def)
  have c: "concat sample_blocks = sample_entries" by (simp add: sample_blocks_def)
  have fs: "fs_ok sample_fs2" by (auto simp: fs_ok_def sample_fs2_def split: if_splits)
  have os: "oe_crc sample_os = (\<lambda>_. 0)" "re_good (oe_read sample_os)" "\<forall>n. reliable_ring (oe_ring sample_os n)"
    using good_env_good by (simp_all add: sample_os_def reliable_ring_def)
  have se: "\<forall>e \<in> set sample_entries. short_entry e" by (simp add: sample_entries_def short_entry_def sst_file_size_def)
  have l: "length sample_entries = 3" by (simp add: sample_entries_def)
  show ?thesis
    using compaction_merges [OF sample_cache2_ok(1,2) fs, of sample_os "''db''" "[(sample_blocks, sample_filter), (sample_blocks, sample_filter)]"
        "mk_Version\<lparr>fileno := 3\<rparr>"] sample_holds2 os se sample_cache2_ok(3) ci l
    by (auto simp: c kCompactionVLogLevel_def mk_Version_def)
qed

end
