(* ===== verification/Kvstore.thy ===== *)
theory Kvstore
  imports Compaction
begin

text \<open>
  \<^verbatim>\<open>src/kvstore.cc\<close> and \<^verbatim>\<open>src/include/kvstore.h\<close>: the store. One record holds the memtables, the
  levels, the value log with its reader, the counters, the flags and the file system. A client call is
  one transition (it holds the reader-writer lock); the background thread runs between calls and
  wherever a writer waits or sleeps, as the schedule in the environment says. \<open>None\<close> is undefined
  behaviour, a failed assertion or waiting forever.
\<close>

section \<open>The store\<close>

record KVStore =
  kv_version :: Version
  kv_fs :: FileSystem
  kv_mem :: MemTable
  kv_imm :: "MemTable option"
  kv_kc :: LevelCache
  kv_vlog :: log_writer
  kv_reader :: "nat VLogReader"
  kv_scheduled :: bool
  kv_error :: bool
  kv_shutting_down :: bool
  kv_trigger :: bool
  kv_jobs :: nat
  kv_removals :: "string list"

text \<open>What a call meets: the operating system, the learned-index search, the allocations and random
  level of a memtable insertion, the first block of a new memtable, the bytes of fresh buffers, and
  whether the background thread runs at the \<open>n\<close>-th place the call gives way.\<close>

record kv_env =
  ke_os :: os_env
  ke_model :: "bytes \<Rightarrow> bytes \<Rightarrow> Status \<times> BlockEntryInfo"
  ke_put :: put_env
  ke_mem :: nat
  ke_junk :: "nat \<Rightarrow> u8"
  ke_sched :: "nat \<Rightarrow> bool"

definition enable_fixed_length :: int where "enable_fixed_length = 0"

definition CheckFixedSize :: "bytes \<Rightarrow> bool" where
  "CheckFixedSize key = (if 0 < enable_fixed_length \<and> enable_fixed_length < 64 then int (length key) = enable_fixed_length else True)"

text \<open>The constructor. The status of opening the value log is dropped. The counters' constructor creates
  the redo log, which is never written.\<close>

definition mk_KVStore :: "kv_env \<Rightarrow> bool \<Rightarrow> string \<Rightarrow> FileSystem \<Rightarrow> KVStore option" where
  "mk_KVStore ke opens db fs = do {
     let fs0 = (if opens then snd (fs_create (db @ ''/redo.log'') fs) else fs);
     let (vlog_no, v) = NewVLogFileNumber mk_Version;
     (_, w, fs1) \<leftarrow> log_Open (ke_os ke) db (ucast vlog_no) mk_log_writer fs0;
     let (c, fs2) = mk_LevelCache opens db fs1;
     Some \<lparr>kv_version = v, kv_fs = fs2, kv_mem = mk_MemTable (ke_mem ke), kv_imm = None, kv_kc = c, kv_vlog = w,
       kv_reader = mk_VLogReader (Some (last_live_sequence v)), kv_scheduled = False, kv_error = False, kv_shutting_down = False,
       kv_trigger = False, kv_jobs = 0, kv_removals = []\<rparr> }"

text \<open>The destructor: jobs that still run see the flag and do nothing; the log is closed.\<close>

definition kv_destroy :: "kv_env \<Rightarrow> KVStore \<Rightarrow> KVStore option" where
  "kv_destroy ke s = do {
     (_, w, fs) \<leftarrow> log_Close (ke_os ke) (kv_vlog s) (kv_fs s);
     Some (s\<lparr>kv_shutting_down := True, kv_scheduled := False, kv_jobs := 0, kv_imm := None, kv_vlog := w, kv_fs := fs\<rparr>) }"

section \<open>The background thread\<close>

definition MaybeScheduleCompaction :: "KVStore \<Rightarrow> KVStore" where
  "MaybeScheduleCompaction s =
     (if kv_scheduled s then s
      else if kv_shutting_down s then s
      else if kv_error s then s
      else if kv_imm s = None then s
      else s\<lparr>kv_scheduled := True, kv_jobs := kv_jobs s + 1\<rparr>)"

text \<open>The error flag is read here but never set.\<close>

definition RecordBackgroundError :: "KVStore \<Rightarrow> KVStore" where
  "RecordBackgroundError s = (if \<not> kv_error s then s\<lparr>kv_scheduled := False\<rparr> else s)"

definition WriteLevel0Table :: "kv_env \<Rightarrow> string \<Rightarrow> MemTable \<Rightarrow> KVStore \<Rightarrow> (Status \<times> KVStore) option" where
  "WriteLevel0Table ke db imm s = do {
     it \<leftarrow> mti_seekToFirst (mti_new imm);
     let v = kv_version s;
     (st, v1, meta, fs1) \<leftarrow> BuildTable (oe_crc (ke_os ke)) db (oe_ring (ke_os ke) (NewSSTFileNumber v)) v it fm_default (kv_fs s);
     let s1 = s\<lparr>kv_version := v1, kv_fs := fs1\<rparr>;
     if ok st \<and> file_size meta > 0 then do {
       _ \<leftarrow> ik_user_key (smallest meta);
       _ \<leftarrow> ik_user_key (largest meta);
       Some (st, s1\<lparr>kv_version := SetSSTFileNumber (file_number meta + 1) v1, kv_kc := AddFile 0 meta (kv_kc s1)\<rparr>) }
     else Some (st, s1) }"

definition CompactMemTable :: "kv_env \<Rightarrow> string \<Rightarrow> MemTable \<Rightarrow> KVStore \<Rightarrow> KVStore option" where
  "CompactMemTable ke db imm s = do {
     (st, s1) \<leftarrow> WriteLevel0Table ke db imm s;
     let st1 = (if ok st \<and> kv_shutting_down s1 then IOError else st);
     Some (if ok st1 then s1\<lparr>kv_imm := None\<rparr> else (RecordBackgroundError s1)\<lparr>kv_scheduled := False\<rparr>) }"

lemma PickCompaction_level: "PickCompaction c (mk_CompactInfo level) = Some (st, ci) \<Longrightarrow> ci_old_files ci \<noteq> [] \<Longrightarrow> level < 10"
  by (auto simp: PickCompaction_def PickSSTFileNum_def mk_CompactInfo_def split: if_splits bind_splits)

text \<open>Compacting level after level ends: above level 9 nothing is picked.\<close>

function CompactSSTFile :: "kv_env \<Rightarrow> string \<Rightarrow> nat \<Rightarrow> KVStore \<Rightarrow> (Status \<times> KVStore) option" where
  "CompactSSTFile ke db level s =
     (if kv_shutting_down s then Some (OK, s)
      else case PickCompaction (kv_kc s) (mk_CompactInfo level) of
        None \<Rightarrow> None
      | Some (st, ci) \<Rightarrow>
          if \<not> ok st then Some (st, s)
          else if ci_old_files ci = [] then Some (st, s)
          else case DoCompactionWork (ke_os ke) db ci (kv_version s) (kv_fs s) (kv_kc s) of
            None \<Rightarrow> None
          | Some (st1, v, fs, c, rm) \<Rightarrow>
              let s1 = s\<lparr>kv_version := v, kv_fs := fs, kv_kc := c, kv_removals := kv_removals s @ rm\<rparr> in
              if \<not> ok st1 then Some (st1, s1) else CompactSSTFile ke db (level + 1) s1)"
  by pat_completeness auto

termination
  by (relation "measure (\<lambda>(ke, db, level, s). 10 - level)") (auto dest!: PickCompaction_level)

declare CompactSSTFile.simps [simp del]

definition BackgroundCompaction :: "kv_env \<Rightarrow> string \<Rightarrow> KVStore \<Rightarrow> KVStore option" where
  "BackgroundCompaction ke db s = do {
     s1 \<leftarrow> (case kv_imm s of None \<Rightarrow> Some s | Some imm \<Rightarrow> CompactMemTable ke db imm s);
     if NumLevelFilesEx 0 (kv_kc s1) < of_nat kL0_CompactionTrigger \<and> \<not> kv_trigger s1 then Some s1
     else do {
       (st, s2) \<leftarrow> CompactSSTFile ke db 0 s1;
       Some (if ok st then s2 else (RecordBackgroundError s2)\<lparr>kv_scheduled := False\<rparr>) } }"

definition BackgroundCall :: "kv_env \<Rightarrow> string \<Rightarrow> KVStore \<Rightarrow> KVStore option" where
  "BackgroundCall ke db s = do {
     s1 \<leftarrow> (if kv_shutting_down s then Some s else BackgroundCompaction ke db s);
     Some (MaybeScheduleCompaction (s1\<lparr>kv_scheduled := False\<rparr>)) }"

text \<open>A worker takes a job if there is one.\<close>

definition run_job :: "kv_env \<Rightarrow> string \<Rightarrow> KVStore \<Rightarrow> KVStore option" where
  "run_job ke db s = (if kv_jobs s = 0 then Some s else BackgroundCall ke db (s\<lparr>kv_jobs := kv_jobs s - 1\<rparr>))"

text \<open>The executor removes the files a compaction has replaced.\<close>

definition run_removals :: "KVStore \<Rightarrow> KVStore" where
  "run_removals s = s\<lparr>kv_fs := fold rmfile (kv_removals s) (kv_fs s), kv_removals := []\<rparr>"

section \<open>Writing\<close>

definition give_way :: "kv_env \<Rightarrow> string \<Rightarrow> nat \<Rightarrow> KVStore \<Rightarrow> KVStore option" where
  "give_way ke db n s = (if ke_sched ke n then run_job ke db s else Some s)"

text \<open>\<open>Prepare\<close>: make room in the memtable. The writer sleeps once if level 0 is full, and waits for the
  background thread while the old memtable is not written or level 0 is full.\<close>

partial_function (option) Prepare_loop :: "kv_env \<Rightarrow> string \<Rightarrow> nat \<Rightarrow> bool \<Rightarrow> KVStore \<Rightarrow> (Status \<times> KVStore) option" where
  "Prepare_loop ke db n allow_delay s =
     (if kv_error s then Some (BGError, s)
      else if allow_delay \<and> of_nat kL0_CompactionTrigger \<le> NumLevelFiles 0 (kv_kc s) then do {
        s1 \<leftarrow> give_way ke db n s;
        Prepare_loop ke db (n + 1) False s1 }
      else if unat (mt_memoryUsage (kv_mem s)) \<le> mem_max_size then Some (OK, s)
      else if kv_imm s \<noteq> None then do {
        s1 \<leftarrow> give_way ke db n s;
        Prepare_loop ke db (n + 1) allow_delay s1 }
      else if of_nat kL0_CompactionTrigger \<le> NumLevelFiles 0 (kv_kc s) then do {
        s1 \<leftarrow> give_way ke db n s;
        Prepare_loop ke db (n + 1) allow_delay s1 }
      else Prepare_loop ke db n allow_delay
        (MaybeScheduleCompaction (s\<lparr>kv_imm := Some (kv_mem s), kv_mem := mk_MemTable (ke_mem ke)\<rparr>)))"

definition Prepare :: "kv_env \<Rightarrow> string \<Rightarrow> KVStore \<Rightarrow> (Status \<times> KVStore) option" where
  "Prepare ke db s = Prepare_loop ke db 0 True s"

text \<open>A full log is closed and the next one opened; the status of opening it is dropped and a log that
  did not open is a null pointer at the next append.\<close>

definition change_log :: "kv_env \<Rightarrow> string \<Rightarrow> KVStore \<Rightarrow> (Status \<times> KVStore) option" where
  "change_log ke db s = do {
     (st, w, fs) \<leftarrow> log_Close (ke_os ke) (kv_vlog s) (kv_fs s);
     let (vlog_no, v) = NewVLogFileNumber (kv_version s);
     let s1 = s\<lparr>kv_vlog := w, kv_fs := fs, kv_version := v\<rparr>;
     if ok st then do {
       (_, w1, fs1) \<leftarrow> log_Open (ke_os ke) db (ucast vlog_no) w fs;
       Some (st, s1\<lparr>kv_vlog := w1, kv_fs := fs1\<rparr>) }
     else Some (st, s1\<lparr>kv_version := ReuseVLogFileNumber vlog_no v\<rparr>) }"

definition WriteImpl :: "kv_env \<Rightarrow> string \<Rightarrow> bytes \<Rightarrow> bytes \<Rightarrow> ValueType \<Rightarrow> KVStore \<Rightarrow> (Status \<times> KVStore) option" where
  "WriteImpl ke db key val type s = do {
     let last_seq = last_sequence (kv_version s);
     let seq = push_bit 8 last_seq OR type_code type;
     full \<leftarrow> vb_Full (of_nat (length val)) (lw_builder (kv_vlog s));
     (st, s1) \<leftarrow> (if full then change_log ke db s else Some (OK, s));
     if \<not> ok st then Some (st, s1)
     else do {
       (st, info, w, fs) \<leftarrow> log_Append (ke_os ke) seq key val vi_zero (kv_vlog s1) (kv_fs s1);
       let s2 = s1\<lparr>kv_vlog := w, kv_fs := fs\<rparr>;
       if \<not> ok st then Some (st, s2)
       else do {
         (st, m) \<leftarrow> mt_put (ke_put ke) seq key (if type = kTypeDeletion then [] else vi_Encode info) (kv_mem s2);
         let s3 = s2\<lparr>kv_mem := m\<rparr>;
         if ok st then do {
           v \<leftarrow> SetLastSequence (last_seq + 1) (kv_version s3);
           Some (st, s3\<lparr>kv_version := v\<rparr>) }
         else Some (st, s3) } } }"

definition kv_put :: "kv_env \<Rightarrow> string \<Rightarrow> bytes \<Rightarrow> bytes \<Rightarrow> KVStore \<Rightarrow> (Status \<times> KVStore) option" where
  "kv_put ke db key val s =
     (if \<not> CheckFixedSize key then Some (NotFound, s)
      else do {
        (st, s1) \<leftarrow> Prepare ke db s;
        if \<not> ok st then Some (st, s1) else WriteImpl ke db key val kTypeValue s1 })"

section \<open>Reading\<close>

text \<open>The reader asks the counters for the last living sequence number at each read.\<close>

definition read_value :: "kv_env \<Rightarrow> string \<Rightarrow> VLogEntryInfo \<Rightarrow> KVStore \<Rightarrow> (Status \<times> bytes option \<times> KVStore) option" where
  "read_value ke db info s = do {
     (st, val, r) \<leftarrow> log_Read (ke_os ke) db (kv_fs s) info ((kv_reader s)\<lparr>vr_live := Some (last_live_sequence (kv_version s))\<rparr>);
     Some (st, val, s\<lparr>kv_reader := r\<rparr>) }"

text \<open>The value pointer is assigned (\<open>Some\<close>) or left alone. A hit in the old memtable assigns the empty
  string and returns.\<close>

definition finish_get :: "kv_env \<Rightarrow> string \<Rightarrow> Status \<Rightarrow> VLogEntryInfo \<Rightarrow> KVStore \<Rightarrow> (Status \<times> bytes option \<times> KVStore) option" where
  "finish_get ke db st rep s =
     (if ok st then if vi_length rep = 0 then Some (NotFound, None, s) else read_value ke db rep s
      else Some (st, None, s))"

definition GetImpl :: "kv_env \<Rightarrow> string \<Rightarrow> bytes \<Rightarrow> KVStore \<Rightarrow> (Status \<times> bytes option \<times> KVStore) option" where
  "GetImpl ke db key s = do {
     query_key \<leftarrow> mk_QueryKey (last_sequence (kv_version s)) key;
     (found, rep, st) \<leftarrow> mt_get (kv_mem s) query_key vi_zero OK;
     if found then finish_get ke db st rep s
     else do {
       (found, rep, st) \<leftarrow> (case kv_imm s of None \<Rightarrow> Some (False, rep, st) | Some imm \<Rightarrow> mt_get imm query_key rep st);
       if found then Some (st, Some [], s)
       else if lc_empty (kv_kc s) then Some (NotFound, None, s)
       else do {
         (st, rep) \<leftarrow> lc_get (ke_model ke) db (oe_read (ke_os ke)) (kv_fs s) query_key rep (kv_kc s);
         finish_get ke db st rep s } } }"

definition kv_get :: "kv_env \<Rightarrow> string \<Rightarrow> bytes \<Rightarrow> KVStore \<Rightarrow> (Status \<times> bytes option \<times> KVStore) option" where
  "kv_get ke db key s = (if \<not> CheckFixedSize key then Some (NotFound, None, s) else GetImpl ke db key s)"

text \<open>The variant that returns a string: empty unless the status is OK.\<close>

definition kv_get_string :: "kv_env \<Rightarrow> string \<Rightarrow> bytes \<Rightarrow> KVStore \<Rightarrow> (bytes \<times> KVStore) option" where
  "kv_get_string ke db key s = do {
     (st, val, s1) \<leftarrow> kv_get ke db key s;
     Some (if ok st then (case val of None \<Rightarrow> [] | Some v \<Rightarrow> v) else [], s1) }"

definition kv_del :: "kv_env \<Rightarrow> string \<Rightarrow> bytes \<Rightarrow> KVStore \<Rightarrow> (Status \<times> KVStore) option" where
  "kv_del ke db key s = do {
     (st, _, s1) \<leftarrow> GetImpl ke db key s;
     if IsNotFound st then Some (st, s1)
     else if \<not> ok st then Some (st, s1)
     else do {
       (st, s2) \<leftarrow> Prepare ke db s1;
       if \<not> ok st then Some (st, s2) else WriteImpl ke db key [] kTypeDeletion s2 } }"

section \<open>Scanning\<close>

definition scan_mem :: "bytes \<Rightarrow> bytes \<Rightarrow> u64 \<Rightarrow> MemTable \<Rightarrow> str_map \<Rightarrow> str_map option" where
  "scan_mem k1 k2 seq m sm = do {
     it \<leftarrow> mti_seek2 k1 k2 (mti_new m);
     (_, sm1) \<leftarrow> Scan sm (ItMem it) seq;
     Some sm1 }"

definition scan_map :: "kv_env \<Rightarrow> string \<Rightarrow> bytes \<Rightarrow> bytes \<Rightarrow> KVStore \<Rightarrow> str_map option" where
  "scan_map ke db key1 key2 s = do {
     let seq = last_sequence (kv_version s);
     q1 \<leftarrow> mk_QueryKey seq key1;
     q2 \<leftarrow> mk_QueryKey seq key2;
     m1 \<leftarrow> mem_key q1;
     m2 \<leftarrow> mem_key q2;
     sm1 \<leftarrow> scan_mem m1 m2 seq (kv_mem s) [];
     sm2 \<leftarrow> (case kv_imm s of None \<Rightarrow> Some sm1 | Some imm \<Rightarrow> scan_mem m1 m2 seq imm sm1);
     k1 \<leftarrow> internal_key q1;
     k2 \<leftarrow> internal_key q2;
     lc_scan db (oe_read (ke_os ke)) (kv_fs s) k1 k2 sm2 (kv_kc s) }"

text \<open>The loop that replaces pointers by values. It stops at an error; an expired element is erased but
  its status is the result if it is the last one.\<close>

fun read_list :: "kv_env \<Rightarrow> string \<Rightarrow> Status \<Rightarrow> (bytes \<times> bytes) list \<Rightarrow> KVStore \<Rightarrow> (Status \<times> (bytes \<times> bytes) list \<times> KVStore) option" where
  "read_list ke db status [] s = Some (status, [], s)"
| "read_list ke db status ((k, v) # l) s =
     (if v = [] then read_list ke db status l s
      else do {
        (st, info) \<leftarrow> vi_Decode vi_zero v;
        if \<not> ok st then Some (st, (k, v) # l, s)
        else do {
          (st, val, s1) \<leftarrow> read_value ke db info s;
          if \<not> ok st then
            if IsExpired st then read_list ke db st l s1
            else Some (st, (k, case val of None \<Rightarrow> v | Some x \<Rightarrow> x) # l, s1)
          else do {
            (st2, l1, s2) \<leftarrow> read_list ke db st l s1;
            Some (st2, (k, case val of None \<Rightarrow> v | Some x \<Rightarrow> x) # l1, s2) } } })"

definition kv_scan ::
  "kv_env \<Rightarrow> string \<Rightarrow> bytes \<Rightarrow> bytes \<Rightarrow> (bytes \<times> bytes) list \<Rightarrow> KVStore \<Rightarrow> (Status \<times> (bytes \<times> bytes) list \<times> KVStore) option" where
  "kv_scan ke db key1 key2 l s = do {
     m \<leftarrow> scan_map ke db key1 key2 s;
     read_list ke db OK (l @ m) s }"

definition kv_scan_w_cro ::
  "kv_env \<Rightarrow> string \<Rightarrow> bytes \<Rightarrow> bytes \<Rightarrow> (bytes \<times> bytes) list \<Rightarrow> KVStore \<Rightarrow> (Status \<times> (bytes \<times> bytes) list) option" where
  "kv_scan_w_cro ke db key1 key2 l s = do {
     m \<leftarrow> scan_map ke db key1 key2 s;
     ReadList (coro_ReadOne (oe_crc (ke_os ke)) (open_log (ke_os ke) db (kv_fs s)) (pread_log (ke_os ke) (kv_fs s)) (ke_junk ke)
       (Some (last_live_sequence (kv_version s)))) (l @ m) }"

section \<open>Maintenance\<close>

definition kv_reset :: "kv_env \<Rightarrow> string \<Rightarrow> KVStore \<Rightarrow> KVStore option" where
  "kv_reset ke db s = do {
     let fs1 = rmfiles db (kv_fs s);
     let v1 = v_reset (kv_version s);
     (f, b) \<leftarrow> vb_reset (oe_crc (ke_os ke)) (lw_builder (kv_vlog s));
     let fs2 = (case f of None \<Rightarrow> fs1 | Some f \<Rightarrow> fs_store (lw_inode (kv_vlog s)) (fd_data (pf_fd f)) fs1);
     let (vlog_no, v2) = NewVLogFileNumber v1;
     (_, w, fs3) \<leftarrow> log_Open (ke_os ke) db (ucast vlog_no) ((kv_vlog s)\<lparr>lw_builder := b\<rparr>) fs2;
     Some (s\<lparr>kv_imm := None, kv_fs := fs3, kv_version := v2, kv_vlog := w, kv_kc := lc_reset (kv_kc s),
       kv_mem := mk_MemTable (ke_mem ke)\<rparr>) }"

definition kv_gc :: "KVStore \<Rightarrow> Status \<times> KVStore" where
  "kv_gc s = (let (st, c) = lc_gc (kv_kc s) in (st, s\<lparr>kv_kc := c\<rparr>))"

fun vlog_sizes :: "string \<Rightarrow> FileSystem \<Rightarrow> nat \<Rightarrow> u64" where
  "vlog_sizes db fs 0 = 0"
| "vlog_sizes db fs (Suc i) =
     (let fname = VLogFileName db (of_nat (Suc i)) in
      (if FileExists fname fs \<and> GetFileSize fname fs > 0 then of_int (GetFileSize fname fs) else 0) + vlog_sizes db fs i)"

definition ApproximateVLogFileSize :: "string \<Rightarrow> KVStore \<Rightarrow> u64" where
  "ApproximateVLogFileSize db s = vlog_sizes db (kv_fs s) (unat (last_vlog_file_no (kv_version s)))"

definition ExpireAt :: "u64 \<Rightarrow> KVStore \<Rightarrow> Status \<times> KVStore" where
  "ExpireAt seq s =
     (if seq > last_sequence (kv_version s) then (Corruption, s)
      else if seq < last_live_sequence (kv_version s) then (OK, s)
      else (OK, s\<lparr>kv_version := SetLastLivingSequence (seq + 1) (kv_version s)\<rparr>))"

end
