(* ===== verification/Store_Spec.thy ===== *)
theory Store_Spec
  imports Kvstore
begin

text \<open>
  What the store promises: a map from keys to their last write. \<open>kv_rep\<close> relates it to the memtables,
  the tables on the levels and the value log; the lemmas show that the operations of the store refine
  the operations of the map.
\<close>

section \<open>The specification\<close>

text \<open>The last write of a key: its sequence number and its value, or \<open>None\<close> for a deletion.\<close>

record abs_store =
  as_map :: "bytes \<Rightarrow> (u64 \<times> bytes option) option"
  as_next :: u64
  as_live :: u64

definition spec_write :: "bytes \<Rightarrow> bytes option \<Rightarrow> abs_store \<Rightarrow> abs_store" where
  "spec_write k w A = A\<lparr>as_map := (as_map A)(k \<mapsto> (as_next A, w)), as_next := as_next A + 1\<rparr>"

definition spec_get :: "bytes \<Rightarrow> abs_store \<Rightarrow> Status \<times> bytes option" where
  "spec_get k A = (case as_map A k of
       None \<Rightarrow> (NotFound, None)
     | Some (q, None) \<Rightarrow> (NotFound, None)
     | Some (q, Some v) \<Rightarrow> if q < as_live A then (Expired, None) else (OK, Some v))"

section \<open>The representation\<close>

text \<open>A memtable as a table, so that the sources are searched one behind the other.\<close>

definition mem_source :: "entry list \<Rightarrow> table" where
  "mem_source es = ([kv_of es], [])"

definition sources :: "entry list \<Rightarrow> entry list \<Rightarrow> table list list \<Rightarrow> table list" where
  "sources es is tss = mem_source es # mem_source is # search_order tss"

definition value_at :: "(bytes \<Rightarrow> u32) \<Rightarrow> string \<Rightarrow> FileSystem \<Rightarrow> bytes \<Rightarrow> bytes \<Rightarrow> bytes \<Rightarrow> bool" where
  "value_at crc db fs ik p v \<longleftrightarrow> (\<exists>info C. vi_Decode vi_zero p = Some (OK, info) \<and>
     fs_content (VLogFileName db (ucast (vi_file_no info))) fs = Some C \<and> length C < 2 ^ 64 \<and> points_to crc info C ik v \<and>
     length ik + length v + 12 < 2 ^ 32)"

definition entry_means :: "(bytes \<Rightarrow> u32) \<Rightarrow> string \<Rightarrow> FileSystem \<Rightarrow> bytes \<times> bytes \<Rightarrow> u64 \<times> bytes option \<Rightarrow> bool" where
  "entry_means crc db fs e w \<longleftrightarrow> ExtractSequenceNumber (fst e) = Some (fst w) \<and> (case snd w of
       None \<Rightarrow> ExtractValueType (fst e) = Some kTypeDeletion
     | Some v \<Rightarrow> ExtractValueType (fst e) = Some kTypeValue \<and> value_at crc db fs (fst e) (snd e) v)"

text \<open>An operating system that does what it is asked.\<close>

definition os_good :: "os_env \<Rightarrow> bool" where
  "os_good oe \<longleftrightarrow> re_good (oe_read oe) \<and> (\<forall>n. reliable_ring (oe_ring oe n)) \<and> (\<forall>n. oe_open_log oe n) \<and>
     (\<forall>d off n. oe_pread oe d off n = Some (take n (drop off d))) \<and>
     (\<forall>n. \<exists>f. oe_new_log oe n = Some f \<and> fd_data (pf_fd f) = [] \<and> pf_buf f = [] \<and> pf_good f)"

text \<open>The open value log: its file has exactly what was appended.\<close>

definition log_rep :: "string \<Rightarrow> log_writer \<Rightarrow> FileSystem \<Rightarrow> bytes \<Rightarrow> bool" where
  "log_rep db w fs C \<longleftrightarrow> vb_holds (lw_builder w) C \<and> (\<exists>t. vb_builder (lw_builder w) = Some t \<and> pgood.fine t) \<and>
     fs_names fs (VLogFileName db (ucast (vb_file_no (lw_builder w)))) = Some (lw_inode w) \<and> fs_data fs (lw_inode w) = C"

text \<open>A memtable with the memory its entries take.\<close>

definition mem_holds :: "MemTable \<Rightarrow> entry list \<Rightarrow> bool" where
  "mem_holds m es \<longleftrightarrow> mt_holds m es \<and> (\<Sum>e\<leftarrow>es. length (fst e) + 32) \<le> unat (allocs (mt_arena m)) \<and> unat (allocs (mt_arena m)) < 2 ^ 32 \<and>
     (es = [] \<longrightarrow> unat (allocs (mt_arena m)) \<le> mem_max_size)"

definition imm_holds :: "MemTable option \<Rightarrow> entry list \<Rightarrow> bool" where
  "imm_holds imm is \<longleftrightarrow> (case imm of None \<Rightarrow> is = [] | Some m \<Rightarrow> mem_holds m is \<and> is \<noteq> [])"

definition older_than :: "u64 \<Rightarrow> table \<Rightarrow> bool" where
  "older_than seq t \<longleftrightarrow> (\<forall>e \<in> set (entries t). wf_ikey (fst e) \<and> the (trailer (fst e)) < push_bit 8 seq)"

definition kv_rep :: "os_env \<Rightarrow> string \<Rightarrow> KVStore \<Rightarrow> abs_store \<Rightarrow> bool" where
  "kv_rep oe db s A \<longleftrightarrow> (\<exists>es is tss C. mem_holds (kv_mem s) es \<and> imm_holds (kv_imm s) is \<and>
     lc_ok (kv_kc s) \<and> lc_holds (oe_crc oe) db (kv_fs s) (kv_kc s) tss \<and>
     (\<forall>n \<ge> fileno (kv_version s). lc_fresh (kv_kc s) n) \<and>
     newest_first (sources es is tss) \<and> (\<forall>t \<in> set (sources es is tss). older_than (as_next A) t) \<and>
     (\<forall>key. rel_option (entry_means (oe_crc oe) db (kv_fs s)) (first_hit key (sources es is tss)) (as_map A key)) \<and>
     fs_ok (kv_fs s) \<and> log_rep db (kv_vlog s) (kv_fs s) C \<and>
     reader_sound (open_log oe db (kv_fs s)) (kv_reader s) \<and>
     as_next A = last_sequence (kv_version s) \<and> as_live A = last_live_sequence (kv_version s) \<and>
     as_next A \<le> kMaxSequenceNumber \<and> \<not> kv_error s)"

section \<open>Looking into a memtable\<close>

text \<open>What an iterator delivers is determined, so a memtable holds just one list of entries.\<close>

context iterator
begin

lemma delivers_unique: "delivers it es \<Longrightarrow> delivers it es' \<Longrightarrow> es = es'"
proof (induction es arbitrary: it es')
  case Nil
  then show ?case using valid_iff by blast
next
  case (Cons e es)
  obtain k v where e: "e = (k, v)" by (cases e)
  obtain k' v' es'' where e': "es' = (k', v') # es''" using valid_iff [OF Cons.prems(1)] valid_iff [OF Cons.prems(2)] by (cases es') auto
  have "k = k'" "v = v'"
    using key_hd [of it k v es] key_hd [of it k' v' es''] val_hd [of it k v es] val_hd [of it k' v' es''] Cons.prems e e' by simp_all
  moreover obtain it' where "nxt it = Some it'" "delivers it' es" "delivers it' es''"
    using nxt_tl [of it k v es] nxt_tl [of it k' v' es''] Cons.prems e e' by auto
  ultimately show ?case using Cons.IH e e' by blast
qed

end

lemma mt_holds_unique: "mt_holds m es \<Longrightarrow> mt_holds m es' \<Longrightarrow> kv_of es = kv_of es'"
  using mti_seekToFirst_delivers [of m es] mti_seekToFirst_delivers [of m es'] mem_it.delivers_unique
  unfolding kv_of_def by fastforce

lemma mt_lookup_table:
  assumes "sorted_wrt e_lt es" "\<forall>e \<in> set es. fst (snd e) < push_bit 8 seq"
  shows "table_lookup (kv_of es) u = map_option (\<lambda>e. (e_ikey e, snd (snd e))) (mt_lookup es u seq)"
  using assms
proof (induction es)
  case Nil
  then show ?case by (simp add: table_lookup_def kv_of_def mt_lookup_def)
next
  case (Cons a es)
  let ?q = "(u, push_bit 8 seq, [] :: bytes)"
  have u: "user (e_ikey e) = fst e" for e by (simp add: e_ikey_def user_append)
  have lt: "e_lt e ?q \<longleftrightarrow> StrComparator_compare (fst e) u < 0" if "e \<in> set (a # es)" for e
    using that Cons.prems(2) by (auto simp: e_lt_def)
  have IH: "table_lookup (kv_of es) u = map_option (\<lambda>e. (e_ikey e, snd (snd e))) (mt_lookup es u seq)" using Cons by simp
  consider "e_lt a ?q" | "fst a = u" "\<not> e_lt a ?q" | "fst a \<noteq> u" "\<not> e_lt a ?q" by blast
  then show ?case
  proof cases
    case 1
    then have "fst a \<noteq> u" using lt [of a] Str_refl by auto
    then show ?thesis using 1 IH by (simp add: table_lookup_def kv_of_def mt_lookup_def u)
  next
    case 2
    then show ?thesis by (simp add: table_lookup_def kv_of_def mt_lookup_def u)
  next
    case 3
    then have "StrComparator_compare (fst a) u \<noteq> 0" "\<not> StrComparator_compare (fst a) u < 0"
      using lt [of a] Str_eq_0_iff [of "fst a" u] by simp_all
    then have gt: "StrComparator_compare u (fst a) < 0" using Str_neg [of u "fst a"] by linarith
    have "fst e \<noteq> u" if "e \<in> set es" for e
    proof -
      have "e_lt a e" using Cons.prems(1) that by simp
      then show ?thesis using gt Str_refl str.cmp_lt_trans [of u "fst a" u] by (auto simp: e_lt_def)
    qed
    then have "find (\<lambda>e. user (fst e) = u) (kv_of (a # es)) = None" using 3 by (auto simp: find_None_iff kv_of_def u)
    then show ?thesis using 3 by (simp add: table_lookup_def mt_lookup_def)
  qed
qed

section \<open>Reading\<close>

lemma read_value_at:
  assumes "os_good (ke_os ke)" "value_at (oe_crc (ke_os ke)) db (kv_fs s) ik p v" "vi_Decode vi_zero p = Some (OK, info)" "wf_ikey ik"
    and "reader_sound (open_log (ke_os ke) db (kv_fs s)) (kv_reader s)"
  shows "\<exists>r. reader_sound (open_log (ke_os ke) db (kv_fs s)) r \<and> vi_length info \<noteq> 0 \<and> read_value ke db info s =
    Some (if the (ExtractSequenceNumber ik) < last_live_sequence (kv_version s) then (Expired, None, s\<lparr>kv_reader := r\<rparr>)
          else (OK, Some v, s\<lparr>kv_reader := r\<rparr>))"
proof -
  obtain C where C: "fs_content (VLogFileName db (ucast (vi_file_no info))) (kv_fs s) = Some C" "length C < 2 ^ 64"
      "points_to (oe_crc (ke_os ke)) info C ik v" "length ik + length v + 12 < 2 ^ 32"
    using assms(2,3) by (auto simp: value_at_def)
  obtain h where h: "fs_names (kv_fs s) (VLogFileName db (ucast (vi_file_no info))) = Some h" "fs_data (kv_fs s) h = C"
    using C(1) by (auto simp: fs_content_def)
  let ?r = "(kv_reader s)\<lparr>vr_live := Some (last_live_sequence (kv_version s))\<rparr>"
  have rs: "reader_sound (open_log (ke_os ke) db (kv_fs s)) ?r" using assms(5) by (simp add: reader_sound_def)
  have o: "open_log (ke_os ke) db (kv_fs s) (vi_file_no info) = Some h" using assms(1) h(1) by (simp add: open_log_def os_good_def)
  have pr: "pread_log (ke_os ke) (kv_fs s) h off n = Some (take n (drop off C))" for off n
    using assms(1) h(2) by (simp add: pread_log_def os_good_def)
  have "unat (of_nat (length v + length ik + 8) :: u32) = length v + length ik + 8" using C(4) by (intro unat_of_nat_u32) simp
  moreover have "vi_length info = of_nat (length v + length ik + 8)" using C(3) unfolding points_to_def by blast
  ultimately have "vi_length info \<noteq> 0" by (metis add_is_0 unat_0 zero_neq_numeral)
  moreover obtain r where r: "reader_sound (open_log (ke_os ke) db (kv_fs s)) r" "log_Read (ke_os ke) db (kv_fs s) info ?r =
      Some (if the (ExtractSequenceNumber ik) < last_live_sequence (kv_version s) then (Expired, None, r) else (OK, Some v, r))"
    using vr_Read_points_to [OF C(3,2,4) assms(4) rs o, of "pread_log (ke_os ke) (kv_fs s)"] pr unfolding log_Read_def by auto
  ultimately show ?thesis by (auto simp: read_value_def)
qed

text \<open>A search of the memtables: the memtable, then the old one, then the levels.\<close>

lemma mt_get_source:
  assumes "mt_holds m es" "older_than seq (mem_source es)" "length u + 12 < 2 ^ 32" "mk_QueryKey seq u = Some q"
  shows "mt_get m q res st = (case table_lookup (kv_of es) u of
      None \<Rightarrow> Some (False, res, st)
    | Some e \<Rightarrow> (case the (ExtractValueType (fst e)) of
        kTypeValue \<Rightarrow> do { (st, i) \<leftarrow> vi_Decode res (snd e); Some (True, i, st) }
      | kTypeDeletion \<Rightarrow> Some (True, res, NotFound)
      | kTypeOther _ \<Rightarrow> Some (False, res, st)))"
proof -
  have "\<forall>e \<in> set es. fst (snd e) < push_bit 8 seq"
    using assms(2) by (auto simp: older_than_def mem_source_def kv_of_def e_ikey_parts)
  note l = mt_lookup_table [OF mt_holds_sorted [OF assms(1)] this, of u]
  have t: "the (ExtractValueType (e_ikey e)) = to_ValueType (fst (snd e) AND 0xff)" for e
    by (simp add: ExtractValueType_def e_ikey_parts)
  show ?thesis
    unfolding mt_get_correct [OF assms(1,3,4)] get_result_def l
    by (cases "mt_lookup es u seq") (simp_all add: t split: ValueType.split)
qed

definition get_outcome :: "Status \<times> bytes option \<Rightarrow> KVStore \<Rightarrow> nat VLogReader \<Rightarrow> (Status \<times> bytes option \<times> KVStore) option" where
  "get_outcome r s rd = Some (fst r, snd r, s\<lparr>kv_reader := rd\<rparr>)"

text \<open>The end of a lookup, given the entry that decides.\<close>

lemma finish_get_entry:
  assumes "os_good (ke_os ke)" "entry_means (oe_crc (ke_os ke)) db (kv_fs s) e (q, w)" "wf_ikey (fst e)" "length (snd e) = 16"
    and "reader_sound (open_log (ke_os ke) db (kv_fs s)) (kv_reader s)"
    and "as_live A = last_live_sequence (kv_version s)" "as_map A key = Some (q, w)"
  shows "\<exists>rd. reader_sound (open_log (ke_os ke) db (kv_fs s)) rd \<and>
    finish_get ke db OK (snd (the (entry_result vi_zero e))) s = get_outcome (spec_get key A) s rd"
proof (cases w)
  case None
  then have "entry_result vi_zero e = Some (OK, vi_zero)" using assms(2) by (simp add: entry_means_def entry_result_def)
  then show ?thesis using None assms(5,7)
    by (intro exI [of _ "kv_reader s"]) (simp add: finish_get_def get_outcome_def spec_get_def vi_zero_def)
next
  case (Some v)
  have m: "ExtractSequenceNumber (fst e) = Some q" "ExtractValueType (fst e) = Some kTypeValue"
      "value_at (oe_crc (ke_os ke)) db (kv_fs s) (fst e) (snd e) v"
    using assms(2) Some by (auto simp: entry_means_def)
  obtain info where i: "vi_Decode vi_zero (snd e) = Some (OK, info)" using m(3) by (auto simp: value_at_def)
  have er: "entry_result vi_zero e = Some (OK, info)" using m(2) i by (simp add: entry_result_def)
  obtain r where r: "reader_sound (open_log (ke_os ke) db (kv_fs s)) r" "vi_length info \<noteq> 0" "read_value ke db info s =
      Some (if q < last_live_sequence (kv_version s) then (Expired, None, s\<lparr>kv_reader := r\<rparr>) else (OK, Some v, s\<lparr>kv_reader := r\<rparr>))"
    using read_value_at [OF assms(1) m(3) i assms(3,5)] m(1) by auto
  then show ?thesis using er Some assms(6,7)
    by (intro exI [of _ r]) (simp add: finish_get_def get_outcome_def spec_get_def)
qed

lemma sources_lookup:
  "first_hit key (sources es is tss) = (case table_lookup (kv_of es) key of Some e \<Rightarrow> Some e
     | None \<Rightarrow> (case table_lookup (kv_of is) key of Some e \<Rightarrow> Some e | None \<Rightarrow> first_hit key (search_order tss)))"
  by (simp add: sources_def mem_source_def split: option.split)

lemma older_covers:
  assumes "older_than seq t"
  shows "covers_versions (key @ EncodeFixed64 (push_bit 8 seq)) (entries t)"
  unfolding covers_versions_def
proof (intro ballI impI)
  fix e assume e: "e \<in> set (entries t)" "user (fst e) = user (key @ EncodeFixed64 (push_bit 8 seq))"
  then obtain u T where k: "fst e = u @ EncodeFixed64 T" using assms ikey_cases [of "fst e"] unfolding older_than_def by blast
  have "T < push_bit 8 seq" using assms e(1) k unfolding older_than_def by fastforce
  then show "ikey_cmp (key @ EncodeFixed64 (push_bit 8 seq)) (fst e) \<le> 0" using e(2) by (simp add: k ikey_cmp_eq)
qed

lemma first_hit_in: "first_hit u ts = Some e \<Longrightarrow> \<exists>t \<in> set ts. e \<in> set (entries t)"
proof (induction ts)
  case (Cons t ts)
  then show ?case using table_lookup_in [of "entries t" u e] by (cases "table_lookup (entries t) u") auto
qed simp

text \<open>A hit in the memtable.\<close>

lemma GetImpl_mem:
  assumes "os_good (ke_os ke)" "mt_holds (kv_mem s) es" "older_than (last_sequence (kv_version s)) (mem_source es)" "length key + 12 < 2 ^ 32"
    and "table_lookup (kv_of es) key = Some e" "as_map A key = Some (q, w)" "entry_means (oe_crc (ke_os ke)) db (kv_fs s) e (q, w)"
    and "reader_sound (open_log (ke_os ke) db (kv_fs s)) (kv_reader s)" "as_live A = last_live_sequence (kv_version s)"
  shows "\<exists>rd. reader_sound (open_log (ke_os ke) db (kv_fs s)) rd \<and> GetImpl ke db key s = get_outcome (spec_get key A) s rd"
proof -
  obtain qk where qk: "mk_QueryKey (last_sequence (kv_version s)) key = Some qk" using mk_QueryKey_eq [OF assms(4)] by simp
  note mget = mt_get_source [OF assms(2,3,4) qk, of vi_zero OK, unfolded assms(5) option.case]
  have wf: "wf_ikey (fst e)" "length (snd e) = 16"
    using table_lookup_in [OF assms(5)] assms(2) by (auto simp: kv_of_def mt_holds_def e_ok_def)
  show ?thesis
  proof (cases w)
    case None
    then have "ExtractValueType (fst e) = Some kTypeDeletion" using assms(7) by (simp add: entry_means_def)
    then have "GetImpl ke db key s = Some (NotFound, None, s)" using qk mget by (simp add: GetImpl_def finish_get_def)
    then show ?thesis using assms(6,8) None by (intro exI [of _ "kv_reader s"]) (simp add: get_outcome_def spec_get_def)
  next
    case (Some v)
    then have "ExtractValueType (fst e) = Some kTypeValue" "\<exists>i. vi_Decode vi_zero (snd e) = Some (OK, i)"
      using assms(7) by (auto simp: entry_means_def value_at_def)
    then have "GetImpl ke db key s = finish_get ke db OK (snd (the (entry_result vi_zero e))) s"
      using qk mget by (auto simp: GetImpl_def entry_result_def)
    then show ?thesis using finish_get_entry [OF assms(1,7) wf assms(8,9,6)] by simp
  qed
qed

text \<open>A lookup in the levels.\<close>

lemma GetImpl_levels:
  assumes "os_good (ke_os ke)" "lc_holds (oe_crc (ke_os ke)) db (kv_fs s) (kv_kc s) tss" "length key + 12 < 2 ^ 32"
    and "\<forall>t \<in> set (search_order tss). older_than (last_sequence (kv_version s)) t"
    and "mk_QueryKey (last_sequence (kv_version s)) key = Some qk" "mt_get (kv_mem s) qk vi_zero OK = Some (False, vi_zero, OK)"
    and "\<And>m. kv_imm s = Some m \<Longrightarrow> mt_get m qk vi_zero OK = Some (False, vi_zero, OK)"
    and "rel_option (entry_means (oe_crc (ke_os ke)) db (kv_fs s)) (first_hit key (search_order tss)) (as_map A key)"
    and "reader_sound (open_log (ke_os ke) db (kv_fs s)) (kv_reader s)" "as_live A = last_live_sequence (kv_version s)"
  shows "\<exists>rd. reader_sound (open_log (ke_os ke) db (kv_fs s)) rd \<and> GetImpl ke db key s = get_outcome (spec_get key A) s rd"
proof -
  note v = QueryKey_views [OF assms(3,5)]
  have "tss \<noteq> []" using assms(2) by (auto simp: lc_holds_def)
  then have so: "set (search_order tss) = set (concat tss)" by (cases tss) (simp_all add: search_order_def)
  have lg: "lc_get (ke_model ke) db (oe_read (ke_os ke)) (kv_fs s) qk vi_zero (kv_kc s) = Some (hit_result (first_hit key (search_order tss)))"
    by (rule lc_get_hit [OF _ assms(2) v(1,2)]) (use assms(1,4) older_covers so in \<open>auto simp: os_good_def\<close>)
  have ne: "\<not> lc_empty (kv_kc s)" using assms(2) by (simp add: lc_holds_def lc_empty_def)
  have iget: "(case kv_imm s of None \<Rightarrow> Some (False, vi_zero, OK) | Some imm \<Rightarrow> mt_get imm qk vi_zero OK) = Some (False, vi_zero, OK)"
    using assms(7) by (auto split: option.split)
  have g: "GetImpl ke db key s = finish_get ke db (fst (hit_result (first_hit key (search_order tss)))) (snd (hit_result (first_hit key (search_order tss)))) s"
    using assms(5,6) lg ne iget by (simp add: GetImpl_def split: prod.split)
  show ?thesis
  proof (cases "first_hit key (search_order tss)")
    case None
    then show ?thesis using g assms(8,9) by (intro exI [of _ "kv_reader s"]) (simp add: hit_result_def finish_get_def get_outcome_def spec_get_def)
  next
    case (Some e)
    then obtain q w where w: "as_map A key = Some (q, w)" "entry_means (oe_crc (ke_os ke)) db (kv_fs s) e (q, w)"
      using assms(8) by (auto simp: option_rel_Some1)
    obtain t where t: "t \<in> set (concat tss)" "e \<in> set (entries t)" using first_hit_in [OF Some] so by blast
    then obtain m where m: "file_holds (oe_crc (ke_os ke)) db (kv_fs s) m t" using lc_holds_table [OF assms(2)] by blast
    have "wf_ikey (fst e)" "length (snd e) = 16" using t(2) file_holds_entries(3) [OF m] m unfolding file_holds_def by blast+
    from finish_get_entry [OF assms(1) w(2) this assms(9,10) w(1)] show ?thesis using g Some by (simp add: hit_result_def)
  qed
qed

lemma mem_holds_mt: "mem_holds m es \<Longrightarrow> mt_holds m es"
  by (simp add: mem_holds_def)

lemma imm_holds_mt: "imm_holds imm is \<Longrightarrow> case imm of None \<Rightarrow> is = [] | Some m \<Rightarrow> mt_holds m is"
  by (auto simp: imm_holds_def mem_holds_def split: option.splits)

lemma GetImpl_spec:
  assumes "os_good (ke_os ke)" "kv_rep (ke_os ke) db s A" "length key + 12 < 2 ^ 32"
    and "\<And>m is. kv_imm s = Some m \<Longrightarrow> mt_holds m is \<Longrightarrow> table_lookup (kv_of is) key = None"
  shows "\<exists>rd. reader_sound (open_log (ke_os ke) db (kv_fs s)) rd \<and> GetImpl ke db key s = get_outcome (spec_get key A) s rd"
proof -
  obtain es "is" tss C where h: "mem_holds (kv_mem s) es" "imm_holds (kv_imm s) is"
    and r: "lc_holds (oe_crc (ke_os ke)) db (kv_fs s) (kv_kc s) tss" "\<forall>t \<in> set (sources es is tss). older_than (last_sequence (kv_version s)) t"
      "rel_option (entry_means (oe_crc (ke_os ke)) db (kv_fs s)) (first_hit key (sources es is tss)) (as_map A key)"
      "reader_sound (open_log (ke_os ke) db (kv_fs s)) (kv_reader s)" "as_live A = last_live_sequence (kv_version s)"
    using assms(2) unfolding kv_rep_def by metis
  note m = mem_holds_mt [OF h(1)] imm_holds_mt [OF h(2)]
  obtain qk where qk: "mk_QueryKey (last_sequence (kv_version s)) key = Some qk" using mk_QueryKey_eq [OF assms(3)] by simp
  have o: "older_than (last_sequence (kv_version s)) (mem_source es)" "older_than (last_sequence (kv_version s)) (mem_source is)"
      "\<forall>t \<in> set (search_order tss). older_than (last_sequence (kv_version s)) t"
    using r(2) by (simp_all add: sources_def)
  show ?thesis
  proof (cases "table_lookup (kv_of es) key")
    case (Some e)
    then obtain q w where w: "as_map A key = Some (q, w)" "entry_means (oe_crc (ke_os ke)) db (kv_fs s) e (q, w)"
      using r(3) by (auto simp: sources_lookup option_rel_Some1)
    show ?thesis by (rule GetImpl_mem [OF assms(1) m(1) o(1) assms(3) Some w r(4,5)])
  next
    case None
    have il: "table_lookup (kv_of is) key = None" using m(2) assms(4) by (cases "kv_imm s") (auto simp: table_lookup_def kv_of_def)
    show ?thesis
    proof (rule GetImpl_levels [OF assms(1) r(1) assms(3) o(3) qk])
      show "mt_get (kv_mem s) qk vi_zero OK = Some (False, vi_zero, OK)" using mt_get_source [OF m(1) o(1) assms(3) qk, of vi_zero OK] None by simp
      show "mt_get im qk vi_zero OK = Some (False, vi_zero, OK)" if "kv_imm s = Some im" for im
        using mt_get_source [OF _ o(2) assms(3) qk, of im vi_zero OK] m(2) il that by simp
    qed (use r(3-5) None il in \<open>simp_all add: sources_lookup\<close>)
  qed
qed

section \<open>Writing\<close>

text \<open>Appending to the log extends its file and touches no other.\<close>

lemma log_Append_rep:
  fixes seq :: u64 and val :: bytes and oe :: os_env
  assumes "log_rep db w fs C" "fs_ok fs" "length key + 8 < 2 ^ 32"
  defines "ik \<equiv> vb_EncodeKey key seq"
  defines "info \<equiv> \<lparr>vi_offset = of_nat (length C), vi_file_no = vb_file_no (lw_builder w), vi_length = of_nat (length val + length ik + 8)\<rparr>"
  defines "D \<equiv> seal (oe_crc oe) (block_entry ik val)"
  shows "\<exists>w' fs'. log_Append oe seq key val vi_zero w fs = Some (OK, info, w', fs') \<and> log_rep db w' fs' (C @ D) \<and> fs_ok fs' \<and>
    fs_names fs' = fs_names fs \<and> vb_file_no (lw_builder w') = vb_file_no (lw_builder w) \<and>
    (\<forall>name. fs_content name fs' = (if name = VLogFileName db (ucast (vb_file_no (lw_builder w))) then Some (C @ D) else fs_content name fs))"
proof -
  obtain t where h: "vb_holds (lw_builder w) C" "vb_builder (lw_builder w) = Some t" "pgood.fine t"
      "fs_names fs (VLogFileName db (ucast (vb_file_no (lw_builder w)))) = Some (lw_inode w)" "fs_data fs (lw_inode w) = C"
    using assms(1) by (auto simp: log_rep_def)
  have ik: "wf_ikey ik" "length ik < 2 ^ 32" using assms(3) by (simp_all add: ik_def vb_EncodeKey_def)
  obtain st b' where b: "vb_Append_key (oe_crc oe) ik val vi_zero (lw_builder w) = Some (st, info, b')"
      "vb_file_no b' = vb_file_no (lw_builder w)" "st = OK \<longrightarrow> vb_holds b' (C @ D)"
    using vb_Append_key_holds [OF h(1) ik, of "oe_crc oe" val vi_zero] by (auto simp: info_def D_def)
  obtain t' where t': "st = OK" "vb_builder b' = Some t'" "pgood.fine t'"
    using vb_Append_key_fine [OF h(2,3) b(1)] by blast
  then have hb: "vb_holds b' (C @ D)" "fd_data (pf_fd (tb_file t')) = C @ D" using b(3) by (auto simp: vb_holds_def)
  let ?w = "w\<lparr>lw_builder := b'\<rparr>" and ?fs = "fs_store (lw_inode w) (C @ D) fs"
  have "log_Append oe seq key val vi_zero w fs = Some (OK, info, ?w, ?fs)"
    using b(1) t' hb(2) by (simp add: log_Append_def log_Append_key_def log_store_def ik_def)
  moreover have "log_rep db ?w ?fs (C @ D)"
    using hb(1) t'(2,3) h(4) b(2) by (simp add: log_rep_def) (simp add: fs_store_def)
  ultimately show ?thesis
    using assms(2) b(2) fs_content_store [OF assms(2) h(4)] by (intro exI [of _ ?w] exI [of _ ?fs]) simp
qed

text \<open>Growing log files keep every value.\<close>

definition logs_grow :: "string \<Rightarrow> FileSystem \<Rightarrow> FileSystem \<Rightarrow> bool" where
  "logs_grow db fs fs' \<longleftrightarrow> (\<forall>n C. fs_content (VLogFileName db n) fs = Some C \<longrightarrow> length C < 2 ^ 64 \<longrightarrow>
     (\<exists>D. fs_content (VLogFileName db n) fs' = Some (C @ D) \<and> length (C @ D) < 2 ^ 64))"

lemma value_at_grow: "logs_grow db fs fs' \<Longrightarrow> value_at crc db fs ik p v \<Longrightarrow> value_at crc db fs' ik p v"
proof -
  assume g: "logs_grow db fs fs'" and "value_at crc db fs ik p v"
  then obtain info C where c: "vi_Decode vi_zero p = Some (OK, info)" "fs_content (VLogFileName db (ucast (vi_file_no info))) fs = Some C"
      "length C < 2 ^ 64" "points_to crc info C ik v" "length ik + length v + 12 < 2 ^ 32"
    by (auto simp: value_at_def)
  obtain D where "fs_content (VLogFileName db (ucast (vi_file_no info))) fs' = Some (C @ D)" "length (C @ D) < 2 ^ 64"
    using g c(2,3) unfolding logs_grow_def by blast
  then show ?thesis using c points_to_extend [OF c(4), of D] unfolding value_at_def by blast
qed

lemma entry_means_grow: "logs_grow db fs fs' \<Longrightarrow> entry_means crc db fs e w \<Longrightarrow> entry_means crc db fs' e w"
  using value_at_grow by (auto simp: entry_means_def split: option.splits)

lemma rel_entry_means_grow:
  "logs_grow db fs fs' \<Longrightarrow> rel_option (entry_means crc db fs) x y \<Longrightarrow> rel_option (entry_means crc db fs') x y"
  by (cases x; cases y) (auto intro: entry_means_grow)

text \<open>Inserting the newest version of a key.\<close>

lemma insert_lookup:
  assumes "sorted_wrt e_lt es" "\<forall>x \<in> set es. fst x = fst e \<longrightarrow> fst (snd x) < fst (snd e)"
  shows "table_lookup (kv_of (takeWhile (\<lambda>x. e_lt x e) es @ e # dropWhile (\<lambda>x. e_lt x e) es)) key =
    (if key = fst e then Some (e_ikey e, snd (snd e)) else table_lookup (kv_of es) key)"
proof -
  have u: "user (e_ikey x) = fst x" for x by (simp add: e_ikey_def)
  let ?p = "\<lambda>x. user (fst x) = key"
  have split: "kv_of es = kv_of (takeWhile (\<lambda>x. e_lt x e) es) @ kv_of (dropWhile (\<lambda>x. e_lt x e) es)"
    unfolding kv_of_def map_append [symmetric] by simp
  have "fst x \<noteq> fst e" if "x \<in> set (takeWhile (\<lambda>x. e_lt x e) es)" for x
  proof
    assume eq: "fst x = fst e"
    have "e_lt x e" "x \<in> set es" using that by (auto dest: set_takeWhileD)
    then show False using assms(2) eq Str_refl [of "fst e"] by (auto simp: e_lt_def)
  qed
  then have "find ?p (kv_of (takeWhile (\<lambda>x. e_lt x e) es)) = None" if "key = fst e"
    using that by (auto simp: find_None_iff kv_of_def u)
  then show ?thesis
    unfolding table_lookup_def split find_append
    by (auto simp: kv_of_def u find_append split: option.split)
qed

text \<open>The trailers of a sequence number lie between those of its neighbours.\<close>

lemma unat_push8:
  assumes "seq \<le> kMaxSequenceNumber"
  shows "unat (push_bit 8 seq :: u64) = unat seq * 256"
proof -
  have "unat seq \<le> 72057594037927935" using assms unfolding word_le_nat_alt by (simp add: kMaxSequenceNumber_def)
  then have "unat seq * 256 < 2 ^ 64" by simp
  then show ?thesis by (simp add: push_bit_eq_mult unat_word_ariths(2) mult.commute)
qed

lemma next_less: "seq < kMaxSequenceNumber \<Longrightarrow> seq < seq + 1"
  by (simp add: word_less_nat_alt unat_word_ariths(1) kMaxSequenceNumber_def)

lemma pack_between:
  assumes "seq < kMaxSequenceNumber" "t \<in> {kTypeDeletion, kTypeValue}"
  shows "push_bit 8 seq \<le> pack seq t" "pack seq t < push_bit 8 (seq + 1)"
proof -
  have s: "unat seq < 72057594037927935" using assms(1) unfolding word_less_nat_alt by (simp add: kMaxSequenceNumber_def)
  then have u: "unat (push_bit 8 seq) = unat seq * 256" by (intro unat_push8) (simp add: word_le_nat_alt kMaxSequenceNumber_def)
  have s1: "unat (seq + 1) = unat seq + 1" using s by (simp add: unat_word_ariths(1))
  then have u1: "unat (push_bit 8 (seq + 1)) = unat seq * 256 + 256" using s by (subst unat_push8) (simp_all add: word_le_nat_alt kMaxSequenceNumber_def)
  have "pack seq t = push_bit 8 seq + type_code t \<and> unat (type_code t) \<le> 1"
    using assms(2) by (auto simp: pack_def or_one_eq)
  moreover have "unat (push_bit 8 seq + type_code t) = unat seq * 256 + unat (type_code t)" if "unat (type_code t) \<le> 1"
    using that s by (simp add: unat_word_ariths(1) u)
  ultimately have "unat (pack seq t) = unat seq * 256 + unat (type_code t)" "unat (type_code t) \<le> 1" by simp_all
  then show "push_bit 8 seq \<le> pack seq t" "pack seq t < push_bit 8 (seq + 1)" by (simp_all add: word_le_nat_alt word_less_nat_alt u u1)
qed

lemma sources_insert:
  assumes "newest_first (sources es is tss)" "\<forall>t \<in> set (sources es is tss). older_than seq t"
    and "push_bit 8 seq \<le> fst (snd e)" "fst (snd e) < push_bit 8 (seq + 1)"
    and "set es' = insert e (set es)"
  shows "newest_first (sources es' is tss)" "\<forall>t \<in> set (sources es' is tss). older_than (seq + 1) t"
proof -
  have old: "the (trailer (fst x)) < push_bit 8 seq" "wf_ikey (fst x)" if "x \<in> set (entries t)" "t \<in> set (sources es is tss)" for x t
    using assms(2) that unfolding older_than_def by blast+
  have newer: "ikey_cmp (e_ikey e) (fst x) < 0" if x: "x \<in> set (entries t)" "t \<in> set (sources es is tss)" "user (fst x) = fst e" for x t
  proof -
    obtain u T where k: "fst x = u @ EncodeFixed64 T" using old(2) [OF x(1,2)] ikey_cases by blast
    then have "T < fst (snd e)" using old(1) [OF x(1,2)] assms(3) by simp
    then show ?thesis using x(3) by (simp add: k e_ikey_def ikey_cmp_eq)
  qed
  have u: "user (e_ikey e) = fst e" by (simp add: e_ikey_def)
  let ?R = "mem_source is # search_order tss"
  have cons: "newest_first (mem_source xs # ts) \<longleftrightarrow> (\<forall>t \<in> set ts. \<forall>x \<in> set (kv_of xs). \<forall>y \<in> set (entries t).
      user (fst x) = user (fst y) \<longrightarrow> ikey_cmp (fst x) (fst y) < 0) \<and> newest_first ts" for xs ts
    by (simp add: newest_first_def mem_source_def del: set_concat)
  have R: "set ?R \<subseteq> set (sources es is tss)" by (auto simp: sources_def)
  have "set (kv_of es') = insert (e_ikey e, snd (snd e)) (set (kv_of es))" using assms(5) by (simp add: kv_of_def)
  then show "newest_first (sources es' is tss)"
    using assms(1) newer R unfolding sources_def cons [of _ ?R] by (simp add: u del: set_concat)
  have lt: "push_bit 8 seq < push_bit 8 (seq + 1)" using assms(3,4) by (rule order.strict_trans1)
  have mono: "older_than (seq + 1) t" if "older_than seq t" for t
    unfolding older_than_def
  proof
    fix x assume "x \<in> set (entries t)"
    then have "wf_ikey (fst x)" "the (trailer (fst x)) < push_bit 8 seq" using that unfolding older_than_def by blast+
    then show "wf_ikey (fst x) \<and> the (trailer (fst x)) < push_bit 8 (seq + 1)" using order.strict_trans [OF _ lt] by blast
  qed
  have "older_than (seq + 1) (mem_source es')"
    using mono [of "mem_source es"] assms(2,4)
    by (simp add: sources_def older_than_def mem_source_def kv_of_def assms(5) e_ikey_parts)
  then show "\<forall>t \<in> set (sources es' is tss). older_than (seq + 1) t" using assms(2) mono by (auto simp: sources_def)
qed

text \<open>There is room for a write: the log is not full, its file stays addressable, the allocator has
  fresh blocks, sizes fit their fields and sequence numbers are left.\<close>

definition write_room :: "kv_env \<Rightarrow> string \<Rightarrow> bytes \<Rightarrow> bytes \<Rightarrow> KVStore \<Rightarrow> bool" where
  "write_room ke db key val s \<longleftrightarrow> vb_Full (of_nat (length val)) (lw_builder (kv_vlog s)) = Some False \<and>
     GetFileSize (VLogFileName db (ucast (vb_file_no (lw_builder (kv_vlog s))))) (kv_fs s) + int (length key + length val + 20) < 2 ^ 64 \<and>
     env_ok (ke_put ke) key (kv_mem s) \<and> length key + length val + 2 ^ 16 < 2 ^ 32 \<and> last_sequence (kv_version s) < kMaxSequenceNumber"

lemma lc_holds_grow:
  assumes "lc_holds crc db fs c tss" "\<And>n. fs_content (SSTFileName db n) fs' = fs_content (SSTFileName db n) fs"
  shows "lc_holds crc db fs' c tss"
proof -
  have f: "file_holds crc db fs m t \<Longrightarrow> file_holds crc db fs' m t" for m t using assms(2) by (simp add: file_holds_def)
  have "list_all2 (file_holds crc db fs) ms ts \<Longrightarrow> list_all2 (file_holds crc db fs') ms ts" for ms ts
    by (erule list_all2_mono) (rule f)
  then show ?thesis using assms(1) unfolding lc_holds_def by (auto elim: list_all2_mono)
qed

lemma log_name_eq: "VLogFileName db n = VLogFileName db m \<longleftrightarrow> n = m" "SSTFileName db n \<noteq> VLogFileName db m"
  using append_eq_sep [OF digits_no_dot digits_no_dot, of "unat n" "''vlog''" "unat m" "''vlog''"]
    append_eq_sep [OF digits_no_dot digits_no_dot, of "unat n" "''sst''" "unat m" "''vlog''"]
  by (auto simp: SSTFileName_def VLogFileName_def MakeFileName_def pad6_digits_inj word_unat_eq_iff)

text \<open>The state after a write, with the new contents of its parts.\<close>

lemma kv_rep_write:
  assumes "mem_holds (kv_mem s) es" "imm_holds (kv_imm s) is"
    and "lc_ok (kv_kc s)" "lc_holds (oe_crc oe) db (kv_fs s) (kv_kc s) tss"
    and "\<forall>n \<ge> fileno (kv_version s). lc_fresh (kv_kc s) n"
    and "newest_first (sources es is tss)" "\<forall>t \<in> set (sources es is tss). older_than (as_next A) t"
    and "\<forall>key. rel_option (entry_means (oe_crc oe) db (kv_fs s)) (first_hit key (sources es is tss)) (as_map A key)"
    and "reader_sound (open_log oe db (kv_fs s)) (kv_reader s)" "as_next A = last_sequence (kv_version s)"
    and "as_live A = last_live_sequence (kv_version s)" "as_next A < kMaxSequenceNumber" "\<not> kv_error s"
    and "ty \<in> {kTypeDeletion, kTypeValue}" "e = (key, pack (as_next A) ty, p)" "entry_means (oe_crc oe) db fs' (e_ikey e, p) (as_next A, w)"
    and "mem_holds m' (takeWhile (\<lambda>x. e_lt x e) es @ e # dropWhile (\<lambda>x. e_lt x e) es)"
    and "log_rep db lw' fs' C'" "fs_ok fs'" "fs_names fs' = fs_names (kv_fs s)" "logs_grow db (kv_fs s) fs'"
    and "\<And>n. fs_content (SSTFileName db n) fs' = fs_content (SSTFileName db n) (kv_fs s)"
  shows "kv_rep oe db (s\<lparr>kv_vlog := lw', kv_fs := fs', kv_mem := m', kv_version := (kv_version s)\<lparr>last_sequence := as_next A + 1\<rparr>\<rparr>)
    (spec_write key w A)"
proof -
  let ?es = "takeWhile (\<lambda>x. e_lt x e) es @ e # dropWhile (\<lambda>x. e_lt x e) es"
  have es: "set ?es = insert e (set es)" using set_append [of "takeWhile (\<lambda>x. e_lt x e) es" "dropWhile (\<lambda>x. e_lt x e) es"] by auto
  note b = pack_between [OF assms(12,14)]
  note ins = sources_insert [OF assms(6,7) _ _ es, unfolded assms(15) fst_conv snd_conv, OF b, folded assms(15)]
  have "older_than (as_next A) (mem_source es)" using assms(7) by (simp add: sources_def)
  then have "\<forall>x \<in> set es. fst (snd x) < push_bit 8 (as_next A)" by (auto simp: older_than_def mem_source_def kv_of_def e_ikey_parts)
  then have "\<forall>x \<in> set es. fst x = fst e \<longrightarrow> fst (snd x) < fst (snd e)" using b(1) assms(15) by auto
  note lk = insert_lookup [OF mt_holds_sorted [OF mem_holds_mt [OF assms(1)]] this]
  have fh: "first_hit k (sources ?es is tss) = (if k = key then Some (e_ikey e, p) else first_hit k (sources es is tss))" for k
    unfolding sources_lookup lk using assms(15) by simp
  have rel: "rel_option (entry_means (oe_crc oe) db fs') (first_hit k (sources ?es is tss)) (as_map (spec_write key w A) k)" for k
    unfolding fh using assms(16) rel_entry_means_grow [OF assms(21)] assms(8) by (simp add: spec_write_def)
  have ol: "open_log oe db fs' = open_log oe db (kv_fs s)" using assms(20) by (simp add: open_log_def fun_eq_iff)
  have "as_next A + 1 \<le> kMaxSequenceNumber" using assms(12) by (metis inc_le)
  then show ?thesis
    unfolding kv_rep_def
    using assms(2,3,5,9-11,13,17-19) ins rel ol lc_holds_grow [OF assms(4,22)]
    by (intro exI [of _ ?es] exI [of _ "is"] exI [of _ tss] exI [of _ C']) (simp add: spec_write_def)
qed

text \<open>The bytes after an append contain the new value; every other log is unchanged.\<close>

lemma append_grows:
  assumes "fs_content (VLogFileName db n) fs = Some C" "length (C @ D) < 2 ^ 64"
    and "\<forall>name. fs_content name fs' = (if name = VLogFileName db n then Some (C @ D) else fs_content name fs)"
  shows "logs_grow db fs fs'"
proof -
  have "\<exists>E. fs_content (VLogFileName db m) fs' = Some (B @ E) \<and> length (B @ E) < 2 ^ 64"
    if "fs_content (VLogFileName db m) fs = Some B" "length B < 2 ^ 64" for m B
    using that assms by (cases "m = n") (auto simp: log_name_eq intro!: exI [of _ "[]"])
  then show ?thesis unfolding logs_grow_def by blast
qed

lemma vi_Encode_not_Nil: "vi_Encode info \<noteq> []"
  using length_vi_Encode [of info] by (metis list.size(3) zero_neq_numeral)

lemma points_to_new:
  "points_to crc \<lparr>vi_offset = of_nat (length C), vi_file_no = n, vi_length = of_nat (length val + length ik + 8)\<rparr>
     (C @ seal crc (block_entry ik val)) ik val"
  unfolding points_to_def by (intro conjI exI [of _ C] exI [of _ "[]"]) simp_all

lemma appended_means:
  assumes "ty \<in> {kTypeDeletion, kTypeValue}" "seq \<le> kMaxSequenceNumber" "ik = mk_ikey key seq ty" "length key + length val + 20 < 2 ^ 32"
    and "fs_content (VLogFileName db (ucast n)) fs = Some (C @ seal crc (block_entry ik val))" "length (C @ seal crc (block_entry ik val)) < 2 ^ 64"
    and "ty = kTypeValue \<longrightarrow> p = vi_Encode \<lparr>vi_offset = of_nat (length C), vi_file_no = n, vi_length = of_nat (length val + length ik + 8)\<rparr>"
  shows "entry_means crc db fs (ik, p) (seq, if ty = kTypeDeletion then None else Some val)"
proof -
  have "ExtractSequenceNumber ik = Some seq" "ExtractValueType ik = Some ty"
    using mk_ikey_sequence [OF assms(1,2)] mk_ikey_type [OF assms(1)] assms(3) by simp_all
  moreover have "value_at crc db fs ik p val" if "ty = kTypeValue"
  proof -
    have "length ik + length val + 12 < 2 ^ 32" using assms(3,4) by simp
    then show ?thesis unfolding value_at_def using assms(5-7) that points_to_new [of crc C n val ik]
      by (intro exI [of _ "\<lparr>vi_offset = of_nat (length C), vi_file_no = n, vi_length = of_nat (length val + length ik + 8)\<rparr>"]
          exI [of _ "C @ seal crc (block_entry ik val)"] conjI) (simp_all del: of_nat_add)
  qed
  ultimately show ?thesis using assms(1) by (auto simp: entry_means_def)
qed

text \<open>The memory a write takes.\<close>

lemma mt_put_allocs:
  assumes "mt_put env seq key val m = Some (st, m')"
  shows "allocs (mt_arena m') = allocs (mt_arena m) + of_nat (length key + 28 + node_bytes (random_level (pe_rnd env)))"
proof -
  have al: "allocs a = allocs (mt_arena m) + of_nat n" if "allocate b n (mt_arena m) = Some (p, a)" for b n p a
    using that by (auto simp: allocate_def allocateFallBack_def allocatePtr_def allocateNewBlock_def Let_def split: if_splits)
  have aa: "allocs (snd (allocateAligned b n a)) = allocs a + of_nat n" for b n a
    by (auto simp: allocateAligned_def allocateAlignFallBack_def allocatePtr_def allocateNewBlock_def Let_def)
  obtain p a where a: "allocate (pe_block env) (length key + 28) (mt_arena m) = Some (p, a)"
      "mt_arena m' = snd (allocateAligned (pe_node_block env) (node_bytes (random_level (pe_rnd env))) a)"
    using assms by (auto simp: mt_put_def Let_def add.commute split: if_splits bind_splits)
  show ?thesis by (simp add: a(2) aa al [OF a(1)])
qed

lemma mem_holds_usage:
  "mem_holds m es \<Longrightarrow> unat (mt_memoryUsage m) = unat (allocs (mt_arena m))"
  by (simp add: mem_holds_def mt_memoryUsage_def getUsed_def unsigned_ucast_eq take_bit_nat_eq_self)

lemma mem_holds_put:
  assumes "mem_holds m es" "length key + 2 ^ 16 < 2 ^ 32" "unat (mt_memoryUsage m) \<le> mem_max_size"
    and "mt_put env seq key val m = Some (OK, m')" "mt_holds m' (takeWhile P es @ e # dropWhile P es)" "fst e = key"
  shows "mem_holds m' (takeWhile P es @ e # dropWhile P es)"
proof -
  let ?n = "length key + 28 + node_bytes (random_level (pe_rnd env))"
  have u: "unat (allocs (mt_arena m)) \<le> 24544"
    using assms(3) mem_holds_usage [OF assms(1)] by (simp add: mem_max_size_def sst_file_size_def bloom_size_opt_def sst_footer_size_ik_def)
  have nb: "24 \<le> node_bytes (random_level (pe_rnd env))" "node_bytes (random_level (pe_rnd env)) \<le> 1024"
    using random_node_size by (simp_all add: node_bytes_def)
  have "unat (of_nat ?n :: u64) = ?n" by (rule unat_of_nat_u64) (use assms(2) nb in simp)
  then have "unat (allocs (mt_arena m')) = unat (allocs (mt_arena m)) + ?n"
    unfolding mt_put_allocs [OF assms(4)] using u nb assms(2) by (simp add: unat_word_ariths(1) del: of_nat_add)
  moreover have "(\<Sum>x\<leftarrow>takeWhile P es @ e # dropWhile P es. length (fst x) + 32) = (\<Sum>x\<leftarrow>es. length (fst x) + 32) + length key + 32"
    by (subst (3) takeWhile_dropWhile_id [of P es, symmetric]) (simp only: map_append sum_list_append list.map sum_list.Cons assms(6))
  ultimately show ?thesis using assms(1,2,5) u nb by (simp add: mem_holds_def)
qed

text \<open>The memtable takes the entry.\<close>

lemma mt_put_newest:
  fixes info :: VLogEntryInfo
  assumes "mem_holds m es" "older_than seq (mem_source es)" "seq < kMaxSequenceNumber" "ty \<in> {kTypeDeletion, kTypeValue}"
    and "env_ok env key m" "length key + 2 ^ 16 < 2 ^ 32" "unat (mt_memoryUsage m) \<le> mem_max_size"
  defines "p \<equiv> if ty = kTypeDeletion then [] else vi_Encode info"
  defines "e \<equiv> put_entry env (pack seq ty) key p"
  shows "\<exists>m'. mt_put env (pack seq ty) key p m = Some (OK, m') \<and> mem_holds m' (takeWhile (\<lambda>x. e_lt x e) es @ e # dropWhile (\<lambda>x. e_lt x e) es)"
proof -
  have "fst (snd x) \<noteq> pack seq ty" if "x \<in> set es" for x
  proof -
    have "fst (snd x) < push_bit 8 seq" using assms(2) that by (auto simp: older_than_def mem_source_def kv_of_def e_ikey_parts)
    then show ?thesis using pack_between(1) [OF assms(3,4)] by auto
  qed
  moreover have "pack seq ty AND 0xff = type_code ty" using assms(4) by (auto intro!: pack_and_ff)
  moreover have "p = [] \<or> length p = 16" by (simp add: p_def)
  moreover note vi_Encode_not_Nil
  ultimately obtain m' where m': "mt_put env (pack seq ty) key p m = Some (OK, m')"
      "mt_holds m' (takeWhile (\<lambda>x. e_lt x e) es @ e # dropWhile (\<lambda>x. e_lt x e) es)"
    using mt_put_correct [OF mem_holds_mt [OF assms(1)] assms(5), of p "pack seq ty"] assms(4,6) unfolding e_def by (auto simp: p_def)
  moreover have "fst e = key" by (simp add: e_def put_entry_def)
  ultimately show ?thesis using mem_holds_put [OF assms(1,6,7) m'(1) m'(2)] by blast
qed

text \<open>The file stays addressable.\<close>

lemma appended_length:
  assumes "fs_content name fs = Some C" "GetFileSize name fs + int (length key + length val + 20) < 2 ^ 64"
  shows "length (C @ seal crc (block_entry (vb_EncodeKey key T) val)) < 2 ^ 64"
proof -
  have "int (length C) + int (length key + length val + 20) < 2 ^ 64" using assms by (simp add: GetFileSize_def)
  moreover have "length (seal crc (block_entry (vb_EncodeKey key T) val)) = length key + length val + 20"
    by (simp add: vb_EncodeKey_def)
  ultimately show ?thesis by simp
qed

text \<open>The memtable may grow and level 0 is not full.\<close>

definition mem_room :: "KVStore \<Rightarrow> bool" where
  "mem_room s \<longleftrightarrow> unat (mt_memoryUsage (kv_mem s)) \<le> mem_max_size \<and> NumLevelFiles 0 (kv_kc s) < of_nat kL0_CompactionTrigger"

text \<open>What a write leaves alone.\<close>

definition only_writes :: "bytes \<Rightarrow> KVStore \<Rightarrow> KVStore \<Rightarrow> bool" where
  "only_writes key s s' \<longleftrightarrow> s' = s\<lparr>kv_vlog := kv_vlog s', kv_fs := kv_fs s', kv_mem := kv_mem s', kv_version := kv_version s', kv_reader := kv_reader s'\<rparr> \<and>
     fileno (kv_version s') = fileno (kv_version s) \<and>
     (\<exists>n \<le> 1024. allocs (mt_arena (kv_mem s')) = allocs (mt_arena (kv_mem s)) + of_nat (length key + 28 + n))"

lemma only_writes_frame:
  assumes "only_writes key s s'"
  shows "kv_imm s' = kv_imm s" "kv_kc s' = kv_kc s" "kv_scheduled s' = kv_scheduled s" "kv_jobs s' = kv_jobs s" "kv_trigger s' = kv_trigger s"
    "kv_shutting_down s' = kv_shutting_down s"
proof -
  have e: "s' = s\<lparr>kv_vlog := kv_vlog s', kv_fs := kv_fs s', kv_mem := kv_mem s', kv_version := kv_version s', kv_reader := kv_reader s'\<rparr>"
    using assms by (simp add: only_writes_def)
  show "kv_imm s' = kv_imm s" "kv_kc s' = kv_kc s" "kv_scheduled s' = kv_scheduled s" "kv_jobs s' = kv_jobs s" "kv_trigger s' = kv_trigger s"
    "kv_shutting_down s' = kv_shutting_down s"
    by (subst e, simp)+
qed

lemma WriteImpl_spec:
  assumes "kv_rep (ke_os ke) db s A" "write_room ke db key val s" "mem_room s" "ty \<in> {kTypeDeletion, kTypeValue}"
  shows "\<exists>s'. WriteImpl ke db key val ty s = Some (OK, s') \<and>
    kv_rep (ke_os ke) db s' (spec_write key (if ty = kTypeDeletion then None else Some val) A) \<and>
    only_writes key s s'"
proof -
  let ?crc = "oe_crc (ke_os ke)" and ?T = "pack (as_next A) ty" and ?w = "if ty = kTypeDeletion then None else Some val"
  obtain es "is" tss C where r: "mem_holds (kv_mem s) es" "imm_holds (kv_imm s) is" "lc_ok (kv_kc s)"
      "lc_holds ?crc db (kv_fs s) (kv_kc s) tss" "\<forall>n \<ge> fileno (kv_version s). lc_fresh (kv_kc s) n" "newest_first (sources es is tss)"
      "\<forall>t \<in> set (sources es is tss). older_than (as_next A) t"
      "\<forall>key. rel_option (entry_means ?crc db (kv_fs s)) (first_hit key (sources es is tss)) (as_map A key)"
      "reader_sound (open_log (ke_os ke) db (kv_fs s)) (kv_reader s)" "as_next A = last_sequence (kv_version s)"
      "as_live A = last_live_sequence (kv_version s)" "\<not> kv_error s" "fs_ok (kv_fs s)" "log_rep db (kv_vlog s) (kv_fs s) C"
    using assms(1) unfolding kv_rep_def by blast
  note room = assms(2) [unfolded write_room_def]
  define info where "info = \<lparr>vi_offset = of_nat (length C), vi_file_no = vb_file_no (lw_builder (kv_vlog s)),
    vi_length = of_nat (length val + length (vb_EncodeKey key ?T) + 8)\<rparr>"
  define D where "D = seal ?crc (block_entry (vb_EncodeKey key ?T) val)"
  have lk: "length key + 8 < 2 ^ 32" using room by simp
  obtain lw' fs' where a: "log_Append (ke_os ke) ?T key val vi_zero (kv_vlog s) (kv_fs s) = Some (OK, info, lw', fs')"
      "log_rep db lw' fs' (C @ D)" "fs_ok fs'" "fs_names fs' = fs_names (kv_fs s)"
      "\<forall>name. fs_content name fs' = (if name = VLogFileName db (ucast (vb_file_no (lw_builder (kv_vlog s)))) then Some (C @ D) else fs_content name (kv_fs s))"
    using log_Append_rep [OF r(14,13) lk, where seq = ?T and val = val and oe = "ke_os ke"] unfolding info_def D_def by blast
  define p where "p = (if ty = kTypeDeletion then [] else vi_Encode info)"
  define e where "e = put_entry (ke_put ke) ?T key p"
  have e: "e = (key, ?T, snd (snd e))" by (simp add: e_def put_entry_def)
  have nx: "as_next A < kMaxSequenceNumber" and om: "older_than (as_next A) (mem_source es)" using room r(7,10) by (simp_all add: sources_def)
  obtain m' where m: "mt_put (ke_put ke) ?T key p (kv_mem s) = Some (OK, m')"
      "mem_holds m' (takeWhile (\<lambda>x. e_lt x e) es @ e # dropWhile (\<lambda>x. e_lt x e) es)"
    using mt_put_newest [OF r(1) om nx assms(4), of "ke_put ke" key info] room assms(3) unfolding e_def p_def mem_room_def by auto
  have cn: "fs_content (VLogFileName db (ucast (vb_file_no (lw_builder (kv_vlog s))))) (kv_fs s) = Some C"
    using r(14) by (simp add: log_rep_def fs_content_def)
  have lC: "length (C @ D) < 2 ^ 64" unfolding D_def using appended_length [OF cn] room by blast
  have grow: "logs_grow db (kv_fs s) fs'" by (rule append_grows [OF cn lC a(5)])
  have ek: "e_ikey e = mk_ikey key (as_next A) ty" by (simp add: e_def put_entry_def e_ikey_def mk_ikey_def)
  have em: "entry_means ?crc db fs' (e_ikey e, snd (snd e)) (as_next A, ?w)"
    unfolding ek
  proof (rule appended_means [OF assms(4) _ refl])
    show "as_next A \<le> kMaxSequenceNumber" using nx by simp
  qed (use room a(5) lC in \<open>auto simp: D_def info_def e_def put_entry_def p_def vb_EncodeKey_def mk_ikey_def vi_Encode_not_Nil\<close>)
  let ?s = "s\<lparr>kv_vlog := lw', kv_fs := fs', kv_mem := m', kv_version := (kv_version s)\<lparr>last_sequence := as_next A + 1\<rparr>\<rparr>"
  have "kv_rep (ke_os ke) db ?s (spec_write key ?w A)"
    by (rule kv_rep_write [OF r(1-11) nx r(12) assms(4) e em m(2) a(2,3,4) grow]) (use a(5) log_name_eq(2) in simp)
  moreover have "WriteImpl ke db key val ty s = Some (OK, ?s)"
    using room a(1) m(1) r(10) next_less [OF nx] unfolding WriteImpl_def p_def pack_def by (simp add: SetLastSequence_def)
  moreover have "only_writes key s ?s"
    using mt_put_allocs [OF m(1)] random_node_size [of "pe_rnd (ke_put ke)"] unfolding only_writes_def by (auto simp: algebra_simps)
  ultimately show ?thesis by blast
qed

section \<open>The operations\<close>

lemma Prepare_room: "mem_room s \<Longrightarrow> \<not> kv_error s \<Longrightarrow> Prepare ke db s = Some (OK, s)"
  unfolding Prepare_def by (subst Prepare_loop.simps) (auto simp: mem_room_def)

lemma fixed_size [simp]: "CheckFixedSize key"
  by (simp add: CheckFixedSize_def enable_fixed_length_def)

lemma kv_rep_reader:
  "kv_rep oe db s A \<Longrightarrow> reader_sound (open_log oe db (kv_fs s)) rd \<Longrightarrow> kv_rep oe db (s\<lparr>kv_reader := rd\<rparr>) A"
  by (auto simp: kv_rep_def)

lemma kv_rep_error: "kv_rep oe db s A \<Longrightarrow> \<not> kv_error s"
  by (auto simp: kv_rep_def)

lemma kv_put_spec:
  assumes "kv_rep (ke_os ke) db s A" "mem_room s" "write_room ke db key val s"
  shows "\<exists>s'. kv_put ke db key val s = Some (OK, s') \<and> kv_rep (ke_os ke) db s' (spec_write key (Some val) A) \<and> only_writes key s s'"
  using WriteImpl_spec [OF assms(1,3,2), of kTypeValue] Prepare_room [OF assms(2) kv_rep_error [OF assms(1)]]
  by (auto simp: kv_put_def)

definition imm_free :: "bytes \<Rightarrow> KVStore \<Rightarrow> bool" where
  "imm_free key s \<longleftrightarrow> (\<forall>m is. kv_imm s = Some m \<and> mt_holds m is \<longrightarrow> table_lookup (kv_of is) key = None)"

lemma kv_get_spec:
  assumes "os_good (ke_os ke)" "kv_rep (ke_os ke) db s A" "length key + 12 < 2 ^ 32" "imm_free key s"
  shows "\<exists>rd. kv_get ke db key s = Some (fst (spec_get key A), snd (spec_get key A), s\<lparr>kv_reader := rd\<rparr>) \<and>
    kv_rep (ke_os ke) db (s\<lparr>kv_reader := rd\<rparr>) A"
  using GetImpl_spec [OF assms(1-3)] assms(4) kv_rep_reader [OF assms(2)]
  by (auto simp: kv_get_def get_outcome_def imm_free_def)

lemma kv_del_spec:
  assumes "os_good (ke_os ke)" "kv_rep (ke_os ke) db s A" "imm_free key s" "mem_room s" "write_room ke db key [] s"
  shows "\<exists>s'. kv_imm s' = kv_imm s \<and> (if fst (spec_get key A) = OK
    then kv_del ke db key s = Some (OK, s') \<and> kv_rep (ke_os ke) db s' (spec_write key None A)
    else kv_del ke db key s = Some (fst (spec_get key A), s') \<and> kv_rep (ke_os ke) db s' A)"
proof -
  have k: "length key + 12 < 2 ^ 32" using assms(5) by (simp add: write_room_def)
  obtain rd where rd: "reader_sound (open_log (ke_os ke) db (kv_fs s)) rd" "GetImpl ke db key s = get_outcome (spec_get key A) s rd"
    using GetImpl_spec [OF assms(1,2) k] assms(3) unfolding imm_free_def by blast
  let ?s = "s\<lparr>kv_reader := rd\<rparr>"
  have rep: "kv_rep (ke_os ke) db ?s A" by (rule kv_rep_reader [OF assms(2) rd(1)])
  have "Prepare ke db ?s = Some (OK, ?s)" using Prepare_room [of ?s] assms(4) kv_rep_error [OF rep] by (simp add: mem_room_def)
  moreover obtain s' where "WriteImpl ke db key [] kTypeDeletion ?s = Some (OK, s')" "kv_rep (ke_os ke) db s' (spec_write key None A)" "kv_imm s' = kv_imm s"
    using WriteImpl_spec [OF rep, of key "[]" kTypeDeletion] assms(4,5) by (auto simp: write_room_def mem_room_def dest: only_writes_frame(1))
  ultimately show ?thesis
    using rd(2) rep by (cases "fst (spec_get key A) = OK") (auto simp: kv_del_def get_outcome_def)
qed

section \<open>From the memtable to level 0\<close>

lemma BuildTable_names:
  assumes "BuildTable crc db ring v it meta fs = Some (st, v', meta', fs')" "name \<noteq> SSTFileName db (fileno v)"
  shows "fs_names fs' name = fs_names fs name"
proof -
  have "fs_names fs1 name = fs_names fs name" if "NewUringWritableFile ring (SSTFileName db (fileno v)) fs = Some (i, f, fs1)" for i f fs1
    using that fs_create_frame(1) assms(2) by (auto simp: NewUringWritableFile_def split: option.splits prod.splits)
  then show ?thesis
    using assms(1) unfolding BuildTable_def NewSSTFileNumber_def Let_def
    by (auto split: bind_splits if_splits option.splits prod.splits)
qed

lemma BuildTable_again:
  assumes "mti_seekToFirst (mti_new m) = Some it"
  shows "BuildTable crc db ring v it meta fs = BuildTable crc db ring v (mti_new m) meta fs"
proof -
  have "mti_seekToFirst it = mti_seekToFirst (mti_new m)"
    using assms by (auto simp: mti_seekToFirst_def it_seekToFirst_def mti_new_def mk_sl_iter_def split: bind_splits)
  then show ?thesis unfolding BuildTable_def by simp
qed

lemma lm_emplace_end: "\<forall>k' \<in> fst ` set m. k' < k \<Longrightarrow> lm_emplace k f m = m @ [(k, f)]"
  by (induction m) auto

lemma lm_emplace_fresh:
  assumes "lc_cache c \<noteq> []" "\<forall>n \<ge> file_number f. lc_fresh c n"
  shows "lm_emplace (file_number f) f (lc_cache c ! 0) = lc_cache c ! 0 @ [(file_number f, f)]"
proof (rule lm_emplace_end)
  have "lc_file c 0 k' \<noteq> None" if "k' \<in> fst ` set (lc_cache c ! 0)" for k'
    using that assms(1) by (auto simp: lc_file_def map_of_eq_None_iff)
  then show "\<forall>k' \<in> fst ` set (lc_cache c ! 0). k' < file_number f" using assms(2) by (meson lc_fresh_def not_le)
qed

text \<open>A table with a fresh number becomes the last one of level 0, which is searched first.\<close>

lemma AddFile_newest:
  assumes "lc_ok c" "lc_holds crc db fs c tss" "\<forall>n \<ge> file_number f. lc_fresh c n" "file_holds crc db fs f t"
  shows "lc_holds crc db fs (AddFile 0 f c) ((hd tss @ [t]) # tl tss)" "search_order ((hd tss @ [t]) # tl tss) = t # search_order tss"
proof -
  obtain l ls ts tss' where c: "lc_cache c = l # ls" "tss = ts # tss'" "list_all2 (file_holds crc db fs) (map snd l) ts"
      "list_all2 (\<lambda>l. list_all2 (file_holds crc db fs) (map snd l)) ls tss'"
    using assms(2) by (cases "lc_cache c") (auto simp: lc_holds_def list_all2_Cons1)
  have "lm_emplace (file_number f) f l = l @ [(file_number f, f)]" using lm_emplace_fresh [of c f] assms(3) c(1) by simp
  then have "lc_cache (AddFile 0 f c) = (l @ [(file_number f, f)]) # ls" by (simp add: AddFile_def grow_levels_def c(1) Let_def)
  then show "lc_holds crc db fs (AddFile 0 f c) ((hd tss @ [t]) # tl tss)"
    using c assms(4) by (simp add: lc_holds_def list_all2_appendI)
  show "search_order ((hd tss @ [t]) # tl tss) = t # search_order tss" by (simp add: search_order_def c(2))
qed

text \<open>The entries of the old memtable move behind the memtable, before the older tables.\<close>

lemma sources_flush:
  assumes "entries t = kv_of is" "search_order tss' = t # search_order tss"
  shows "first_hit key (sources es [] tss') = first_hit key (sources es is tss)"
    "newest_first (sources es [] tss') \<longleftrightarrow> newest_first (sources es is tss)"
    "(\<forall>t \<in> set (sources es [] tss'). older_than seq t) \<longleftrightarrow> (\<forall>t \<in> set (sources es is tss). older_than seq t)"
proof -
  have e: "entries (mem_source xs) = kv_of xs" "kv_of [] = []" for xs by (simp_all add: mem_source_def kv_of_def)
  show "first_hit key (sources es [] tss') = first_hit key (sources es is tss)"
    unfolding sources_lookup assms(2) by (simp add: assms(1) e table_lookup_def split: option.split)
  show "newest_first (sources es [] tss') \<longleftrightarrow> newest_first (sources es is tss)"
    unfolding sources_def assms(2) newest_first_def sorted_wrt.simps list.set ball_simps assms(1) e by auto
  show "(\<forall>t \<in> set (sources es [] tss'). older_than seq t) \<longleftrightarrow> (\<forall>t \<in> set (sources es is tss). older_than seq t)"
    unfolding sources_def assms(2) list.set ball_simps older_than_def assms(1) e by auto
qed

lemma sources_switch:
  "first_hit key (sources [] es tss) = first_hit key (sources es [] tss)"
  "newest_first (sources [] es tss) \<longleftrightarrow> newest_first (sources es [] tss)"
  "(\<forall>t \<in> set (sources [] es tss). older_than seq t) \<longleftrightarrow> (\<forall>t \<in> set (sources es [] tss). older_than seq t)"
  by (auto simp: sources_lookup sources_def mem_source_def newest_first_def older_than_def kv_of_def table_lookup_def split: option.split)

text \<open>Writing the old memtable as a table of level 0.\<close>

lemma flushed_file_holds:
  assumes "stored_table crc bs fl" "concat bs = kv_of is" "fits_table (kv_of is)" "\<forall>e \<in> set is. e_ok e"
    and "fs_content (SSTFileName db n) fs = Some (table_image crc bs fl)"
  shows "file_holds crc db fs (fm_default\<lparr>file_number := n, smallest := ik_DecodeFrom (e_ikey (hd is)), largest := ik_DecodeFrom (e_ikey (last is)),
      fm_level := 0, file_size := of_nat (length (table_image crc bs fl))\<rparr>) (bs, fl)"
proof -
  have ne: "is \<noteq> []" using assms(3) by (auto simp: fits_table_def kv_of_def)
  have b: "length (block_of (kv_of is)) < 2 ^ 32" "(\<Sum>e\<leftarrow>kv_of is. length (fst e) + 24) < 2 ^ 32"
    using assms(3) by (simp_all add: fits_table_def kWritableFileBufferSize_def)
  have "\<forall>l \<in> set bs. l \<noteq> []" using assms(1) by (simp add: stored_table_def)
  from length_index_block [OF this, of 0] have "length (block_of (index_entries 0 bs)) < 2 ^ 32" using b(2) assms(2) by simp
  then have "iterable crc bs fl" using assms(1,2) b(1) ne by (auto simp: iterable_def kv_of_def)
  moreover have "fst (hd (kv_of is)) = e_ikey (hd is)" "fst (last (kv_of is)) = e_ikey (last is)" using ne by (simp_all add: kv_of_def hd_map last_map)
  moreover have "\<forall>e \<in> set (kv_of is). length (snd e) = 16" using assms(4) by (auto simp: kv_of_def e_ok_def)
  ultimately show ?thesis using assms(2,5) unfolding file_holds_def by simp
qed

lemma lc_holds_other:
  assumes "lc_ok c" "lc_holds crc db fs c tss" "lc_fresh c k" "\<And>n. n \<noteq> k \<Longrightarrow> fs_content (SSTFileName db n) fs' = fs_content (SSTFileName db n) fs"
  shows "lc_holds crc db fs' c tss"
proof -
  have "file_holds crc db fs' (snd (lc_cache c ! i ! j)) (tss ! i ! j)"
    if ij: "i < length (lc_cache c)" "j < length (lc_cache c ! i)" for i j
  proof -
    let ?p = "lc_cache c ! i ! j"
    have "?p \<in> set (lc_cache c ! i)" "distinct (map fst (lc_cache c ! i))"
      using ij level_ok_distinct [OF lc_ok_levels [OF assms(1)]] by auto
    then have "lc_file c i (fst ?p) = Some (snd ?p)" using ij(1) by (simp add: lc_file_def)
    then have "file_number (snd ?p) \<noteq> k" using lc_ok_number [OF assms(1)] assms(3) by (auto simp: lc_fresh_def)
    moreover have "file_holds crc db fs (snd ?p) (tss ! i ! j)"
      using assms(2) ij by (auto simp: lc_holds_def list_all2_conv_all_nth)
    ultimately show ?thesis using assms(4) by (simp add: file_holds_def)
  qed
  then show ?thesis using assms(2) by (auto simp: lc_holds_def list_all2_conv_all_nth)
qed

text \<open>Another file is written: the log and the values stay.\<close>

lemma log_rep_other:
  assumes "log_rep db w fs C" "\<And>n. fs_names fs' (VLogFileName db n) = fs_names fs (VLogFileName db n)"
    and "\<And>n. fs_content (VLogFileName db n) fs' = fs_content (VLogFileName db n) fs"
  shows "log_rep db w fs' C" "logs_grow db fs fs'" "open_log oe db fs' = open_log oe db fs"
proof -
  have "fs_content (VLogFileName db (ucast (vb_file_no (lw_builder w)))) fs' = Some C"
    using assms(1,3) by (simp add: log_rep_def fs_content_def)
  then show "log_rep db w fs' C" using assms(1,2) by (auto simp: log_rep_def fs_content_def)
  show "logs_grow db fs fs'" using assms(3) by (auto simp: logs_grow_def intro!: exI [of _ "[]"])
  show "open_log oe db fs' = open_log oe db fs" using assms(2) by (simp add: open_log_def fun_eq_iff)
qed

lemma flushed_meta:
  assumes "file_holds crc db fs f t"
  shows "0 < file_size f" "\<exists>u. ik_user_key (smallest f) = Some u" "\<exists>u. ik_user_key (largest f) = Some u"
proof -
  note e = file_holds_entries [OF assms]
  have "hd (entries t) \<in> set (entries t)" "last (entries t) \<in> set (entries t)" using hd_in_set [OF e(2)] last_in_set [OF e(2)] by blast+
  then show "\<exists>u. ik_user_key (smallest f) = Some u" "\<exists>u. ik_user_key (largest f) = Some u"
    using assms e(3) by (auto simp: file_holds_def ik_user_key_DecodeFrom simp del: set_concat)
  have "length (table_image crc (fst t) (snd t)) < 2 ^ 63" using e(4) by (simp add: stored_table_def)
  then have "unat (of_nat (length (table_image crc (fst t) (snd t))) :: u64) = length (table_image crc (fst t) (snd t))"
    by (intro unat_of_nat_u64) simp
  moreover have "0 < length (table_image crc (fst t) (snd t))" by (simp add: table_image_eq)
  ultimately show "0 < file_size f" using assms by (auto simp: file_holds_def word_gt_0 simp del: length_0_conv length_greater_0_conv)
qed

lemma succ_gt: "(x :: u64) + 1 \<noteq> 0 \<Longrightarrow> x < x + 1"
proof -
  assume "x + 1 \<noteq> 0"
  then have "(unat x + 1) mod 2 ^ 64 \<noteq> 0" by (simp add: word_unat_eq_iff unat_word_ariths(1))
  moreover have "unat x < 2 ^ 64" using unsigned_less [of x, where 'a = nat] by simp
  ultimately have "unat x + 1 < 2 ^ 64" by (cases "unat x + 1 = 2 ^ 64") auto
  then show ?thesis by (simp add: word_less_nat_alt unat_word_ariths(1))
qed

lemma mem_holds_fits:
  assumes "mem_holds m es" "es \<noteq> []" "unat (mt_memoryUsage m) < kWritableFileBufferSize"
  shows "fits_table (kv_of es)"
proof -
  have "\<forall>e \<in> set (kv_of es). length (snd e) = 16" using assms(1) by (auto simp: mem_holds_def mt_holds_def kv_of_def e_ok_def)
  then have "length (block_of (kv_of es)) = (\<Sum>e\<leftarrow>kv_of es. length (fst e) + 24)" by (rule block_of_short)
  moreover have "(\<Sum>e\<leftarrow>kv_of es. length (fst e) + 24) = (\<Sum>e\<leftarrow>es. length (fst e) + 32)"
    by (simp add: kv_of_def comp_def add.commute)
  moreover have "(\<Sum>e\<leftarrow>es. length (fst e) + 32) < kWritableFileBufferSize"
    using assms(1,3) mem_holds_usage [OF assms(1)] by (simp add: mem_holds_def)
  ultimately show ?thesis using assms(2) by (auto simp: fits_table_def kv_of_def)
qed

lemma WriteLevel0Table_spec:
  assumes "os_good (ke_os ke)" "kv_rep (ke_os ke) db s A" "kv_imm s = Some imm"
    and "unat (mt_memoryUsage imm) < kWritableFileBufferSize" "fileno (kv_version s) + 1 \<noteq> 0"
  shows "\<exists>s'. WriteLevel0Table ke db imm s = Some (OK, s') \<and> kv_rep (ke_os ke) db (s'\<lparr>kv_imm := None\<rparr>) A \<and>
    s' = s\<lparr>kv_version := kv_version s', kv_fs := kv_fs s', kv_kc := kv_kc s'\<rparr> \<and>
    (\<exists>f. kv_kc s' = AddFile 0 f (kv_kc s) \<and> file_number f = fileno (kv_version s))"
proof -
  let ?crc = "oe_crc (ke_os ke)" and ?v = "kv_version s"
  obtain es "is" tss C where r: "mem_holds (kv_mem s) es" "mem_holds imm is \<and> is \<noteq> []" "lc_ok (kv_kc s)"
      "lc_holds ?crc db (kv_fs s) (kv_kc s) tss" "\<forall>n \<ge> fileno ?v. lc_fresh (kv_kc s) n" "newest_first (sources es is tss)"
      "\<forall>t \<in> set (sources es is tss). older_than (as_next A) t"
      "\<forall>key. rel_option (entry_means ?crc db (kv_fs s)) (first_hit key (sources es is tss)) (as_map A key)"
      "reader_sound (open_log (ke_os ke) db (kv_fs s)) (kv_reader s)" "as_next A = last_sequence ?v"
      "as_live A = last_live_sequence ?v" "\<not> kv_error s" "fs_ok (kv_fs s)" "log_rep db (kv_vlog s) (kv_fs s) C"
      "as_next A \<le> kMaxSequenceNumber"
    using assms(2,3) unfolding kv_rep_def imm_holds_def by auto
  have mi: "mt_holds imm is" using r(2) by (simp add: mem_holds_def)
  have fits: "fits_table (kv_of is)" using r(2) assms(4) mem_holds_fits by blast
  obtain it where it: "mti_seekToFirst (mti_new imm) = Some it" using mti_seekToFirst_delivers [OF mi] by auto
  have ring: "reliable_ring (oe_ring (ke_os ke) (NewSSTFileNumber ?v))" using assms(1) by (simp add: os_good_def)
  define meta where "meta bs fl = fm_default\<lparr>file_number := fileno ?v, smallest := ik_DecodeFrom (e_ikey (hd is)), largest := ik_DecodeFrom (e_ikey (last is)),
      fm_level := 0, file_size := of_nat (length (table_image ?crc bs fl))\<rparr>" for bs fl
  obtain bs fl fs' where b: "BuildTable ?crc db (oe_ring (ke_os ke) (NewSSTFileNumber ?v)) ?v (mti_new imm) fm_default (kv_fs s) =
        Some (OK, SetSSTFileNumber (fileno ?v + 1) ?v, meta bs fl, fs')"
      "concat bs = kv_of is" "stored_table ?crc bs fl" "fs_ok fs'"
      "\<forall>name. fs_content name fs' = (if name = SSTFileName db (fileno ?v) then Some (table_image ?crc bs fl) else fs_content name (kv_fs s))"
    using BuildTable_stored [OF mi fits ring r(13), of ?crc db ?v fm_default] unfolding meta_def by blast
  let ?f = "meta bs fl" and ?c = "AddFile 0 (meta bs fl) (kv_kc s)"
  have names: "fs_names fs' name = fs_names (kv_fs s) name" if "name \<noteq> SSTFileName db (fileno ?v)" for name
    by (rule BuildTable_names [OF b(1) that])
  have fh: "file_holds ?crc db fs' ?f (bs, fl)"
    unfolding meta_def by (rule flushed_file_holds [OF b(3,2) fits]) (use mi b(5) in \<open>auto simp: mt_holds_def\<close>)
  have fresh: "lc_fresh (kv_kc s) (fileno ?v)" "lc_fresh (kv_kc s) (file_number ?f)" using r(5) by (simp_all add: meta_def)
  have lch: "lc_holds ?crc db fs' (kv_kc s) tss" by (rule lc_holds_other [OF r(3,4) fresh(1)]) (use b(5) sst_name_eq in auto)
  have fr: "\<forall>n \<ge> file_number ?f. lc_fresh (kv_kc s) n" using r(5) by (simp add: meta_def)
  note add = AddFile_newest [OF r(3) lch fr fh] AddFile_refines [OF r(3) fresh(2), of 0]
  let ?tss = "(hd tss @ [(bs, fl)]) # tl tss"
  have e: "entries (bs, fl) = kv_of is" using b(2) by simp
  note src = sources_flush [OF e add(2)]
  have "fs_names fs' (VLogFileName db n) = fs_names (kv_fs s) (VLogFileName db n)"
    "fs_content (VLogFileName db n) fs' = fs_content (VLogFileName db n) (kv_fs s)" for n
    using names b(5) log_name_eq(2) by (metis, metis)
  note oth = log_rep_other [OF r(14) this]
  have ge: "n \<ge> fileno ?v \<and> n \<noteq> fileno ?v" if "n \<ge> fileno ?v + 1" for n
    using that succ_gt [OF assms(5)] by auto
  have fr': "\<forall>n \<ge> fileno ?v + 1. lc_fresh ?c n" using ge r(5) by (simp add: lc_fresh_def add(3)) (simp add: meta_def)
  let ?s = "s\<lparr>kv_version := SetSSTFileNumber (fileno ?v + 1) ?v, kv_fs := fs', kv_kc := ?c\<rparr>"
  have "kv_rep (ke_os ke) db (?s\<lparr>kv_imm := None\<rparr>) A"
    unfolding kv_rep_def
    using r(1,6-12,15) b(4) add(1,4) fr' oth rel_entry_means_grow [OF oth(2)] src
    by (intro exI [of _ es] exI [of _ "[]"] exI [of _ ?tss] exI [of _ C]) (simp add: SetSSTFileNumber_def imm_holds_def)
  moreover have "WriteLevel0Table ke db imm s = Some (OK, ?s)"
    using it b(1) BuildTable_again [OF it] flushed_meta [OF fh]
    by (simp add: WriteLevel0Table_def Let_def SetSSTFileNumber_def) (auto simp: meta_def)
  moreover have "file_number ?f = fileno ?v" by (simp add: meta_def)
  ultimately show ?thesis by (intro exI [of _ ?s] conjI exI [of _ ?f]) simp_all
qed

text \<open>Level 0 exists, and a new table makes it longer by one.\<close>

lemma kv_rep_first_level:
  assumes "kv_rep oe db s A"
  shows "lc_cache (kv_kc s) \<noteq> []"
    "file_number f = fileno (kv_version s) \<Longrightarrow> lc_cache (AddFile 0 f (kv_kc s)) \<noteq> [] \<and>
       length (lc_cache (AddFile 0 f (kv_kc s)) ! 0) = length (lc_cache (kv_kc s) ! 0) + 1"
proof -
  have c: "lc_cache (kv_kc s) \<noteq> []" "\<forall>n \<ge> fileno (kv_version s). lc_fresh (kv_kc s) n"
    using assms by (auto simp: kv_rep_def lc_holds_def)
  then show "lc_cache (kv_kc s) \<noteq> []" by simp
  assume n: "file_number f = fileno (kv_version s)"
  have "lm_emplace (file_number f) f (lc_cache (kv_kc s) ! 0) = lc_cache (kv_kc s) ! 0 @ [(file_number f, f)]"
    using lm_emplace_fresh [of "kv_kc s" f] c n by simp
  then show "lc_cache (AddFile 0 f (kv_kc s)) \<noteq> [] \<and> length (lc_cache (AddFile 0 f (kv_kc s)) ! 0) = length (lc_cache (kv_kc s) ! 0) + 1"
    using c(1) by (simp add: AddFile_def grow_levels_def Let_def)
qed

text \<open>The background job: the old memtable becomes a table of level 0 and its place is free again.\<close>

lemma run_job_flush:
  assumes "os_good (ke_os ke)" "kv_rep (ke_os ke) db s A" "kv_imm s = Some imm" "unat (mt_memoryUsage imm) < kWritableFileBufferSize"
    and "fileno (kv_version s) + 1 \<noteq> 0" "kv_jobs s \<noteq> 0" "\<not> kv_shutting_down s" "\<not> kv_trigger s"
    and "length (lc_cache (kv_kc s) ! 0) + 1 < kL0_CompactionTrigger"
  shows "\<exists>s'. run_job ke db s = Some s' \<and> kv_rep (ke_os ke) db s' A \<and> kv_imm s' = None \<and> kv_jobs s' = kv_jobs s - 1 \<and> \<not> kv_scheduled s' \<and>
    kv_mem s' = kv_mem s \<and> NumLevelFiles 0 (kv_kc s') = NumLevelFiles 0 (kv_kc s) + 1"
proof -
  let ?s = "s\<lparr>kv_jobs := kv_jobs s - 1\<rparr>"
  have rep: "kv_rep (ke_os ke) db ?s A" using assms(2) by (simp add: kv_rep_def)
  obtain s' f where w: "WriteLevel0Table ke db imm ?s = Some (OK, s')" "kv_rep (ke_os ke) db (s'\<lparr>kv_imm := None\<rparr>) A"
      "s' = ?s\<lparr>kv_version := kv_version s', kv_fs := kv_fs s', kv_kc := kv_kc s'\<rparr>"
      "kv_kc s' = AddFile 0 f (kv_kc s)" "file_number f = fileno (kv_version s)"
    using WriteLevel0Table_spec [OF assms(1) rep _ assms(4)] assms(3,5) by auto
  have f: "kv_shutting_down s' = kv_shutting_down s" "kv_trigger s' = kv_trigger s" "kv_error s' = kv_error s" "kv_jobs s' = kv_jobs s - 1" "kv_mem s' = kv_mem s"
    by (subst w(3), simp)+
  have n: "length (lc_cache (kv_kc s') ! 0) = length (lc_cache (kv_kc s) ! 0) + 1" "lc_cache (kv_kc s) \<noteq> []" "lc_cache (kv_kc s') \<noteq> []"
    using kv_rep_first_level [OF assms(2)] w(4,5) by auto
  then have n0: "NumLevelFilesEx 0 (kv_kc s') < of_nat kL0_CompactionTrigger"
    using assms(9) by (simp add: NumLevelFilesEx_def kL0_CompactionTrigger_def unat_of_nat_u32 word_less_nat_alt del: of_nat_Suc of_nat_add)
  have "CompactMemTable ke db imm ?s = Some (s'\<lparr>kv_imm := None\<rparr>)" using w(1) f(1) assms(7) by (simp add: CompactMemTable_def)
  then have "BackgroundCompaction ke db ?s = Some (s'\<lparr>kv_imm := None\<rparr>)" using n0 f(2) assms(3,8) by (simp add: BackgroundCompaction_def)
  then have "run_job ke db s = Some (s'\<lparr>kv_imm := None, kv_scheduled := False\<rparr>)"
    using assms(6,7) by (simp add: run_job_def BackgroundCall_def MaybeScheduleCompaction_def)
  moreover have "kv_rep (ke_os ke) db (s'\<lparr>kv_imm := None, kv_scheduled := False\<rparr>) A" using w(2) by (simp add: kv_rep_def)
  ultimately show ?thesis using f n by (intro exI [of _ "s'\<lparr>kv_imm := None, kv_scheduled := False\<rparr>"]) (simp add: NumLevelFiles_def)
qed

text \<open>A full memtable becomes the old one, and a job is scheduled.\<close>

lemma new_memtable_holds: "mem_holds (mk_MemTable b) []"
proof -
  have "allocs (snd (allocateAligned b (node_bytes MAX_LEVEL) mk_Arena)) = of_nat (node_bytes MAX_LEVEL)"
    by (simp add: allocateAligned_def allocateAlignFallBack_def allocatePtr_def allocateNewBlock_def mk_Arena_def Let_def)
  then show ?thesis
    using mk_MemTable_holds by (simp add: mem_holds_def)
      (simp add: mk_MemTable_def node_bytes_def MAX_LEVEL_def mem_max_size_def sst_file_size_def bloom_size_opt_def sst_footer_size_ik_def)
qed

lemma new_memtable_room: "unat (mt_memoryUsage (mk_MemTable b)) \<le> mem_max_size"
  using mem_holds_usage [OF new_memtable_holds [of b]] new_memtable_holds [of b] by (simp add: mem_holds_def)

lemma Prepare_switch:
  assumes "kv_rep oe db s A" "kv_imm s = None" "mem_max_size < unat (mt_memoryUsage (kv_mem s))" "NumLevelFiles 0 (kv_kc s) < of_nat kL0_CompactionTrigger"
    and "\<not> kv_shutting_down s" "\<not> kv_scheduled s"
  shows "\<exists>s'. Prepare ke db s = Some (OK, s') \<and> kv_rep oe db s' A \<and> kv_imm s' = Some (kv_mem s) \<and> mem_room s' \<and> kv_jobs s' = kv_jobs s + 1 \<and> kv_scheduled s' \<and>
    kv_mem s' = mk_MemTable (ke_mem ke) \<and> kv_kc s' = kv_kc s \<and> kv_version s' = kv_version s \<and> kv_trigger s' = kv_trigger s \<and> \<not> kv_shutting_down s'"
proof -
  let ?s = "s\<lparr>kv_imm := Some (kv_mem s), kv_mem := mk_MemTable (ke_mem ke), kv_scheduled := True, kv_jobs := kv_jobs s + 1\<rparr>"
  note ne = kv_rep_error [OF assms(1)]
  have full: "\<not> of_nat kL0_CompactionTrigger \<le> NumLevelFiles 0 (kv_kc s)" using assms(4) by simp
  have room: "mem_room ?s" using assms(4) new_memtable_room by (simp add: mem_room_def)
  have "MaybeScheduleCompaction (s\<lparr>kv_imm := Some (kv_mem s), kv_mem := mk_MemTable (ke_mem ke)\<rparr>) = ?s"
    using assms(5,6) ne by (simp add: MaybeScheduleCompaction_def)
  then have "Prepare ke db s = Prepare ke db ?s"
    unfolding Prepare_def using assms(2,3) full ne by (subst Prepare_loop.simps) (simp del: not_le)
  then have "Prepare ke db s = Some (OK, ?s)" using Prepare_room [OF room] ne by simp
  moreover have "kv_rep oe db ?s A"
  proof -
    from assms(1,2) obtain es tss C where r: "mem_holds (kv_mem s) es" "lc_ok (kv_kc s)" "lc_holds (oe_crc oe) db (kv_fs s) (kv_kc s) tss"
      "\<forall>n \<ge> fileno (kv_version s). lc_fresh (kv_kc s) n" "newest_first (sources es [] tss)" "\<forall>t \<in> set (sources es [] tss). older_than (as_next A) t"
      "\<forall>key. rel_option (entry_means (oe_crc oe) db (kv_fs s)) (first_hit key (sources es [] tss)) (as_map A key)"
      "fs_ok (kv_fs s)" "log_rep db (kv_vlog s) (kv_fs s) C" "reader_sound (open_log oe db (kv_fs s)) (kv_reader s)"
      "as_next A = last_sequence (kv_version s)" "as_live A = last_live_sequence (kv_version s)" "as_next A \<le> kMaxSequenceNumber"
      unfolding kv_rep_def imm_holds_def by auto
    have "es \<noteq> []" using r(1) assms(3) mem_holds_usage [OF r(1)] by (auto simp: mem_holds_def)
    with r show ?thesis
      unfolding kv_rep_def
      using ne new_memtable_holds [of "ke_mem ke"] sources_switch(1) [of _ es tss] sources_switch(2) [of es tss] sources_switch(3) [of es tss "as_next A"]
      by (intro exI [of _ "[]"] exI [of _ es] exI [of _ tss] exI [of _ C]) (simp add: imm_holds_def)
  qed
  ultimately show ?thesis using room assms(5) by (intro exI [of _ ?s]) simp
qed

section \<open>The constructor\<close>

definition spec_empty :: abs_store where
  "spec_empty = \<lparr>as_map = Map.empty, as_next = 0, as_live = 0\<rparr>"

lemma version_name: "VersionFileName db \<noteq> VLogFileName db n"
proof
  assume "VersionFileName db = VLogFileName db n"
  then have "CHR ''.'' \<in> set (pad6 (digits (unat n)))"
    using digits_not_Nil [of "unat n"] by (cases "pad6 (digits (unat n))") (auto simp: VersionFileName_def VLogFileName_def MakeFileName_def pad6_def)
  then show False using digits_no_dot by blast
qed

lemma log_Open_rep:
  assumes "os_good oe" "fs_ok fs" "vb_builder (lw_builder w) = None"
  shows "\<exists>w' fs'. log_Open oe db n w fs = Some (OK, w', fs') \<and> log_rep db w' fs' [] \<and> fs_ok fs' \<and> vb_file_no (lw_builder w') = n \<and>
    (\<exists>f. vb_builder (lw_builder w') = Some (mk_TableBuilder f True))"
proof -
  obtain f where f: "oe_new_log oe n = Some f" "fd_data (pf_fd f) = []" "pf_buf f = []" "pf_good f" using assms(1) unfolding os_good_def by blast
  obtain b where b: "vb_Open (oe_new_log oe) n (lw_builder w) = Some (OK, b)" "vb_holds b []" "vb_file_no b = n"
    using vb_Open_holds [where new_file = "oe_new_log oe" and n = n, OF f(1-3) assms(3)] by blast
  have tb: "vb_builder b = Some (mk_TableBuilder f True)" using b(1) f(1) by (auto simp: vb_Open_def split: if_splits)
  with f(4) have fine: "\<exists>t. vb_builder b = Some t \<and> pgood.fine t" by (simp add: pgood.fine_def mk_TableBuilder_def)
  obtain i fs' where c: "fs_create (VLogFileName db (ucast n)) fs = (i, fs')" by (cases "fs_create (VLogFileName db (ucast n)) fs")
  have "fs_data fs' i = []" using c by (auto simp: fs_create_def split: option.splits)
  then show ?thesis
    using b fine c fs_ok_create [OF assms(2) c] tb by (auto simp: log_Open_def log_rep_def)
qed

lemma no_files: "first_hit key (sources [] [] (replicate 8 [])) = None" "newest_first (sources [] [] (replicate 8 []))"
  "\<forall>t \<in> set (sources [] [] (replicate 8 [])). older_than seq t"
  by (simp_all add: sources_def search_order_def mem_source_def kv_of_def table_lookup_def newest_first_def older_than_def numeral_eq_Suc)

lemma mk_KVStore_spec:
  assumes "os_good (ke_os ke)" "fs_ok fs"
  shows "\<exists>s. mk_KVStore ke opens db fs = Some s \<and> kv_rep (ke_os ke) db s spec_empty \<and> kv_imm s = None \<and> mem_room s \<and>
    kv_mem s = mk_MemTable (ke_mem ke) \<and> vb_file_no (lw_builder (kv_vlog s)) = 0 \<and> fs_content (VLogFileName db 0) (kv_fs s) = Some [] \<and>
    (\<exists>f. vb_builder (lw_builder (kv_vlog s)) = Some (mk_TableBuilder f True)) \<and> last_sequence (kv_version s) = 0 \<and>
    \<not> kv_scheduled s \<and> \<not> kv_shutting_down s \<and> kv_jobs s = 0 \<and> \<not> kv_trigger s \<and> fileno (kv_version s) = 0 \<and> lc_cache (kv_kc s) = replicate 8 []"
proof -
  define fs0 where "fs0 = (if opens then snd (fs_create (db @ ''/redo.log'') fs) else fs)"
  have "fs_ok fs0" using assms(2) fs_ok_create [OF assms(2)] by (auto simp: fs0_def split: prod.splits) (metis prod.collapse)
  then obtain w fs1 where o: "log_Open (ke_os ke) db 0 mk_log_writer fs0 = Some (OK, w, fs1)" "log_rep db w fs1 []" "fs_ok fs1" "vb_file_no (lw_builder w) = 0"
      "\<exists>f. vb_builder (lw_builder w) = Some (mk_TableBuilder f True)"
    using log_Open_rep [OF assms(1), of fs0 mk_log_writer db 0] by (auto simp: mk_log_writer_def mk_VLogBuilder_def)
  define fs2 where "fs2 = fs_open_append opens (VersionFileName db) fs1"
  obtain i fs3 where i: "fs_create (VersionFileName db) fs1 = (i, fs3)" by (cases "fs_create (VersionFileName db) fs1")
  have same: "fs_names fs2 (VLogFileName db n) = fs_names fs1 (VLogFileName db n)" "fs_content (VLogFileName db n) fs2 = fs_content (VLogFileName db n) fs1" "fs_ok fs2" for n
    using fs_create_frame(1) [OF i] fs_content_create [OF o(3) i] fs_ok_create [OF o(3) i] version_name [of db n] o(3)
    by (auto simp: fs2_def fs_open_append_def i)
  have lr: "log_rep db w fs2 []" using log_rep_other(1) [OF o(2) same(1,2)] .
  let ?v = "mk_Version\<lparr>last_vlog_file_no := 1\<rparr>"
  let ?s = "\<lparr>kv_version = ?v, kv_fs = fs2, kv_mem = mk_MemTable (ke_mem ke), kv_imm = None, kv_kc = \<lparr>lc_cache = replicate 8 []\<rparr>, kv_vlog = w,
       kv_reader = mk_VLogReader (Some 0), kv_scheduled = False, kv_error = False, kv_shutting_down = False,
       kv_trigger = False, kv_jobs = 0, kv_removals = []\<rparr>"
  have "mk_KVStore ke opens db fs = Some ?s"
    using o(1) by (simp add: mk_KVStore_def Let_def fs0_def [symmetric] NewVLogFileNumber_def mk_LevelCache_def fs2_def [symmetric] mk_Version_def)
  moreover have lc: "lc_file \<lparr>lc_cache = replicate 8 []\<rparr> l n = None" for l n by (simp add: lc_file_def)
  have "kv_rep (ke_os ke) db ?s spec_empty"
    unfolding kv_rep_def
    using lr same(3) new_memtable_holds no_files lc mk_VLogReader_sound [of _ "Some 0"]
    by (intro exI [of _ "[]"] exI [of _ "replicate 8 []"] conjI)
      (auto simp: spec_empty_def imm_holds_def lc_ok_def lc_fresh_def lc_holds_def mk_Version_def level_ok_def kMaxSequenceNumber_def list_all2_conv_all_nth)
  moreover have "mem_room ?s" using new_memtable_room by (simp add: mem_room_def NumLevelFiles_def kL0_CompactionTrigger_def)
  moreover have "fs_content (VLogFileName db 0) fs2 = Some []" using lr o(4) by (simp add: log_rep_def fs_content_def)
  ultimately show ?thesis using o(4,5) by (intro exI [of _ ?s]) (simp add: mk_Version_def)
qed

section \<open>Properties\<close>

text \<open>Expiring, on the specification.\<close>

definition spec_expire :: "u64 \<Rightarrow> abs_store \<Rightarrow> Status \<times> abs_store" where
  "spec_expire seq A =
     (if seq > as_next A then (Corruption, A) else if seq < as_live A then (OK, A) else (OK, A\<lparr>as_live := seq + 1\<rparr>))"

lemma ExpireAt_spec:
  assumes "kv_rep oe db s A"
  shows "fst (ExpireAt seq s) = fst (spec_expire seq A)" "kv_rep oe db (snd (ExpireAt seq s)) (snd (spec_expire seq A))"
  using assms by (auto simp: ExpireAt_def spec_expire_def SetLastLivingSequence_def kv_rep_def)

text \<open>C1. The store is a map from keys to their last write. On an operating system that does what it
  is asked, the constructor yields the empty map over any file system; \<open>put\<close> with room in the memtable
  and in the log maps the key to the value under the next sequence number; \<open>get\<close> returns the last
  write of the key, not-found if there is none or it is a deletion, or reports it expired, as long as
  the old memtable does not have the key: through the memtable, the tables of all levels with their
  filters and indexes, and the value log with its checksums and the cache of open files; \<open>del\<close> maps an
  existing key to a deletion and reports a missing one; \<open>ExpireAt\<close> moves the expiry bound. None of the
  calls crashes or waits.\<close>

theorem store_refines:
  assumes "os_good (ke_os ke)"
  shows "(\<forall>opens fs. fs_ok fs \<longrightarrow> (\<exists>s. mk_KVStore ke opens db fs = Some s \<and> kv_rep (ke_os ke) db s spec_empty \<and> kv_imm s = None)) \<and>
    (\<forall>s A key val. kv_rep (ke_os ke) db s A \<and> mem_room s \<and> write_room ke db key val s \<longrightarrow>
      (\<exists>s'. kv_put ke db key val s = Some (OK, s') \<and> kv_rep (ke_os ke) db s' (spec_write key (Some val) A) \<and> kv_imm s' = kv_imm s)) \<and>
    (\<forall>s A key. kv_rep (ke_os ke) db s A \<and> length key + 12 < 2 ^ 32 \<and> imm_free key s \<longrightarrow>
      (\<exists>s'. kv_get ke db key s = Some (fst (spec_get key A), snd (spec_get key A), s') \<and> kv_rep (ke_os ke) db s' A \<and> kv_imm s' = kv_imm s)) \<and>
    (\<forall>s A key. kv_rep (ke_os ke) db s A \<and> imm_free key s \<and> mem_room s \<and> write_room ke db key [] s \<longrightarrow>
      (\<exists>s'. kv_del ke db key s = Some (fst (spec_get key A), s') \<and> kv_imm s' = kv_imm s \<and>
        kv_rep (ke_os ke) db s' (if fst (spec_get key A) = OK then spec_write key None A else A))) \<and>
    (\<forall>s A seq. kv_rep (ke_os ke) db s A \<longrightarrow>
      fst (ExpireAt seq s) = fst (spec_expire seq A) \<and> kv_rep (ke_os ke) db (snd (ExpireAt seq s)) (snd (spec_expire seq A)))"
proof (intro conjI allI impI; (elim conjE)?)
  show "\<exists>s. mk_KVStore ke opens db fs = Some s \<and> kv_rep (ke_os ke) db s spec_empty \<and> kv_imm s = None" if "fs_ok fs" for opens fs
    using mk_KVStore_spec [OF assms that] by blast
  show "\<exists>s'. kv_get ke db key s = Some (fst (spec_get key A), snd (spec_get key A), s') \<and> kv_rep (ke_os ke) db s' A \<and> kv_imm s' = kv_imm s"
    if "kv_rep (ke_os ke) db s A" "length key + 12 < 2 ^ 32" "imm_free key s" for s A key
    using kv_get_spec [OF assms that] by force
  show "\<exists>s'. kv_del ke db key s = Some (fst (spec_get key A), s') \<and> kv_imm s' = kv_imm s \<and>
      kv_rep (ke_os ke) db s' (if fst (spec_get key A) = OK then spec_write key None A else A)"
    if "kv_rep (ke_os ke) db s A" "imm_free key s" "mem_room s" "write_room ke db key [] s" for s A key
    using kv_del_spec [OF assms that] by (auto split: if_splits)
  show "\<exists>s'. kv_put ke db key val s = Some (OK, s') \<and> kv_rep (ke_os ke) db s' (spec_write key (Some val) A) \<and> kv_imm s' = kv_imm s"
    if "kv_rep (ke_os ke) db s A" "mem_room s" "write_room ke db key val s" for s A key val
    using kv_put_spec [OF that] by (auto dest: only_writes_frame(1))
qed (use ExpireAt_spec in blast)+

definition sample_kv :: kv_env where
  "sample_kv = \<lparr>ke_os = sample_os, ke_model = (\<lambda>_ _. (OK, be_zero)), ke_put = sample_env\<lparr>pe_node_block := 100000\<rparr>, ke_mem = 8000, ke_junk = (\<lambda>_. 0), ke_sched = (\<lambda>_. True)\<rparr>"

lemma sample_kv_good: "os_good (ke_os sample_kv)"
  by (simp add: os_good_def sample_kv_def sample_os_def empty_file_def pf_good_def good_env_good reliable_ring_def)

text \<open>A key so long that one write fills the memtable.\<close>

definition long_key :: bytes where
  "long_key = replicate 25000 7"

lemma sample_put_env: "env_ok (ke_put sample_kv) [7] (mk_MemTable 8000)" "env_ok (ke_put sample_kv) long_key (mk_MemTable 8000)"
  by (simp_all add: env_ok_def mk_MemTable_def allocate_def allocateAligned_def allocateAlignFallBack_def allocateFallBack_def allocateNewBlock_def
      mk_Arena_def Let_def node_bytes_def MAX_LEVEL_def ARENA_BLOCK_SIZE_def fresh_block_def region_def
      sample_env_def long_key_def sample_kv_def)

lemma sample_start:
  "\<exists>s. mk_KVStore sample_kv True ''db'' empty_fs = Some s \<and> kv_rep (ke_os sample_kv) ''db'' s spec_empty \<and> kv_imm s = None \<and> mem_room s \<and>
     write_room sample_kv ''db'' [7] [1, 2, 3] s \<and> write_room sample_kv ''db'' long_key [1, 2, 3] s \<and> \<not> kv_scheduled s \<and> \<not> kv_shutting_down s \<and>
     kv_mem s = mk_MemTable 8000 \<and> kv_jobs s = 0 \<and> \<not> kv_trigger s \<and> fileno (kv_version s) = 0 \<and> lc_cache (kv_kc s) = replicate 8 []"
proof -
  obtain s where s: "mk_KVStore sample_kv True ''db'' empty_fs = Some s" "kv_rep (ke_os sample_kv) ''db'' s spec_empty" "kv_imm s = None" "mem_room s"
      "kv_mem s = mk_MemTable 8000" "vb_file_no (lw_builder (kv_vlog s)) = 0" "fs_content (VLogFileName ''db'' 0) (kv_fs s) = Some []"
      "\<exists>f. vb_builder (lw_builder (kv_vlog s)) = Some (mk_TableBuilder f True)" "last_sequence (kv_version s) = 0"
      "\<not> kv_scheduled s" "\<not> kv_shutting_down s" "kv_jobs s = 0" "\<not> kv_trigger s" "fileno (kv_version s) = 0" "lc_cache (kv_kc s) = replicate 8 []"
    using mk_KVStore_spec [OF sample_kv_good empty_fs_ok, of True "''db''"] by (auto simp: sample_kv_def)
  have "write_room sample_kv ''db'' key [1, 2, 3] s" if "env_ok (ke_put sample_kv) key (mk_MemTable 8000)" "length key \<le> 25000" for key
    using s(5-9) that
    by (auto simp: write_room_def vb_Full_def tb_ApproximateFileSize_def mk_TableBuilder_def GetFileSize_def kMaxSequenceNumber_def
        kMaxVLogSize_def mk_FilterBlockBuilder_def fb_BlockSize_def bloom_size_opt_def kBlockTrailerSize_def)
  then have "write_room sample_kv ''db'' [7] [1, 2, 3] s" "write_room sample_kv ''db'' long_key [1, 2, 3] s"
    using sample_put_env by (simp_all add: long_key_def)
  then show ?thesis using s by blast
qed

text \<open>The store after a write that fills the memtable.\<close>

lemma sample_full:
  "\<exists>s0 s. mk_KVStore sample_kv True ''db'' empty_fs = Some s0 \<and> kv_put sample_kv ''db'' long_key [1, 2, 3] s0 = Some (OK, s) \<and>
     kv_rep (ke_os sample_kv) ''db'' s (spec_write long_key (Some [1, 2, 3]) spec_empty) \<and> kv_imm s = None \<and>
     mem_max_size < unat (mt_memoryUsage (kv_mem s)) \<and> unat (mt_memoryUsage (kv_mem s)) < kWritableFileBufferSize \<and>
     NumLevelFiles 0 (kv_kc s) < of_nat kL0_CompactionTrigger \<and> lc_cache (kv_kc s) = replicate 8 [] \<and>
     \<not> kv_scheduled s \<and> \<not> kv_shutting_down s \<and> kv_jobs s = 0 \<and> \<not> kv_trigger s \<and> fileno (kv_version s) = 0"
proof -
  obtain s0 where s0: "mk_KVStore sample_kv True ''db'' empty_fs = Some s0" "kv_rep (ke_os sample_kv) ''db'' s0 spec_empty" "kv_imm s0 = None" "mem_room s0"
      "write_room sample_kv ''db'' long_key [1, 2, 3] s0" "\<not> kv_scheduled s0" "\<not> kv_shutting_down s0" "kv_mem s0 = mk_MemTable 8000"
      "kv_jobs s0 = 0" "\<not> kv_trigger s0" "fileno (kv_version s0) = 0" "lc_cache (kv_kc s0) = replicate 8 []"
    using sample_start by blast
  obtain s where s: "kv_put sample_kv ''db'' long_key [1, 2, 3] s0 = Some (OK, s)"
      "kv_rep (ke_os sample_kv) ''db'' s (spec_write long_key (Some [1, 2, 3]) spec_empty)" "only_writes long_key s0 s"
    using kv_put_spec [OF s0(2,4,5)] by blast
  note f = only_writes_frame [OF s(3)]
  obtain es where es: "mem_holds (kv_mem s) es" using s(2) by (auto simp: kv_rep_def)
  obtain n where n: "n \<le> 1024" "allocs (mt_arena (kv_mem s)) = allocs (mt_arena (mk_MemTable 8000)) + of_nat (25028 + n)"
    using s(3) s0(8) by (auto simp: only_writes_def long_key_def)
  have "allocs (mt_arena (mk_MemTable 8000)) = of_nat (node_bytes MAX_LEVEL)"
    by (simp add: mk_MemTable_def allocateAligned_def allocateAlignFallBack_def allocatePtr_def allocateNewBlock_def mk_Arena_def Let_def)
  then have "allocs (mt_arena (kv_mem s)) = of_nat (node_bytes MAX_LEVEL + 25028 + n)" using n(2) by simp
  moreover have "unat (of_nat (node_bytes MAX_LEVEL + 25028 + n) :: u64) = node_bytes MAX_LEVEL + 25028 + n"
    by (rule unat_of_nat_u64) (use n(1) in \<open>simp add: node_bytes_def MAX_LEVEL_def\<close>)
  ultimately have "unat (mt_memoryUsage (kv_mem s)) = node_bytes MAX_LEVEL + 25028 + n" using mem_holds_usage [OF es] by simp
  then have "mem_max_size < unat (mt_memoryUsage (kv_mem s))" "unat (mt_memoryUsage (kv_mem s)) < kWritableFileBufferSize"
    using n(1) by (simp_all add: node_bytes_def MAX_LEVEL_def mem_max_size_def sst_file_size_def bloom_size_opt_def sst_footer_size_ik_def kWritableFileBufferSize_def)
  moreover have "NumLevelFiles 0 (kv_kc s) < of_nat kL0_CompactionTrigger" using s0(12) f(2) by (simp add: NumLevelFiles_def kL0_CompactionTrigger_def)
  moreover have "fileno (kv_version s) = 0" using s(3) s0(11) by (simp add: only_writes_def)
  ultimately show ?thesis using s0 s(1,2) f by auto
qed

theorem store_refines_witness:
  "\<exists>s0 s1 s2. mk_KVStore sample_kv True ''db'' empty_fs = Some s0 \<and> kv_put sample_kv ''db'' [7] [1, 2, 3] s0 = Some (OK, s1) \<and>
     kv_get sample_kv ''db'' [7] s1 = Some (OK, Some [1, 2, 3], s2)"
proof -
  note R = store_refines [OF sample_kv_good, of "''db''"]
  obtain s0 where s0: "mk_KVStore sample_kv True ''db'' empty_fs = Some s0" "kv_rep (ke_os sample_kv) ''db'' s0 spec_empty" "kv_imm s0 = None" "mem_room s0"
      "write_room sample_kv ''db'' [7] [1, 2, 3] s0"
    using sample_start by blast
  obtain s1 where s1: "kv_put sample_kv ''db'' [7] [1, 2, 3] s0 = Some (OK, s1)"
      "kv_rep (ke_os sample_kv) ''db'' s1 (spec_write [7] (Some [1, 2, 3]) spec_empty)" "kv_imm s1 = None"
    using R [THEN conjunct2, THEN conjunct1, rule_format, of s0 spec_empty "[7]" "[1, 2, 3]"] s0 by auto
  have g: "spec_get [7] (spec_write [7] (Some [1, 2, 3]) spec_empty) = (OK, Some [1, 2, 3])"
    by (simp add: spec_get_def spec_write_def spec_empty_def)
  have "imm_free [7] s1" using s1(3) by (simp add: imm_free_def)
  then have "\<exists>s2. kv_get sample_kv ''db'' [7] s1 = Some (OK, Some [1, 2, 3], s2)"
    using R [THEN conjunct2, THEN conjunct2, THEN conjunct1, rule_format, of s1 "spec_write [7] (Some [1, 2, 3]) spec_empty" "[7]"] s1(2) g by auto
  then show ?thesis using s0(1) s1(1) by blast
qed

text \<open>C3. Making room loses nothing. When the memtable has outgrown its limit, \<open>Prepare\<close> makes it the old
  memtable, puts a new one in its place and schedules a job; the job writes the old memtable as one
  table of level 0, which is searched before the older ones, and frees the place. Both keep the map
  from keys to their last writes, and after them there is room for writes again (provided the old
  memtable is smaller than 64 KB, level 0 stays below its limit and file numbers are left).\<close>

theorem store_keeps_when_flushing:
  assumes "os_good (ke_os ke)" "kv_rep (ke_os ke) db s A" "\<not> kv_shutting_down s"
  shows "(kv_imm s = None \<and> mem_max_size < unat (mt_memoryUsage (kv_mem s)) \<and> NumLevelFiles 0 (kv_kc s) < of_nat kL0_CompactionTrigger \<and>
      \<not> kv_scheduled s \<longrightarrow>
      (\<exists>s'. Prepare ke db s = Some (OK, s') \<and> kv_rep (ke_os ke) db s' A \<and> kv_imm s' = Some (kv_mem s) \<and> mem_room s' \<and>
        kv_jobs s' = kv_jobs s + 1 \<and> kv_scheduled s')) \<and>
    (\<forall>imm. kv_imm s = Some imm \<and> unat (mt_memoryUsage imm) < kWritableFileBufferSize \<and> fileno (kv_version s) + 1 \<noteq> 0 \<and> kv_jobs s \<noteq> 0 \<and>
      \<not> kv_trigger s \<and> length (lc_cache (kv_kc s) ! 0) + 1 < kL0_CompactionTrigger \<longrightarrow>
      (\<exists>s'. run_job ke db s = Some s' \<and> kv_rep (ke_os ke) db s' A \<and> kv_imm s' = None \<and> kv_jobs s' = kv_jobs s - 1 \<and> \<not> kv_scheduled s' \<and>
        kv_mem s' = kv_mem s \<and> NumLevelFiles 0 (kv_kc s') = NumLevelFiles 0 (kv_kc s) + 1))"
  using Prepare_switch [OF assms(2), where ke = ke] run_job_flush [OF assms(1,2)] assms(3) by blast

text \<open>The store of the sample with its full memtable set aside.\<close>

lemma sample_waiting:
  "\<exists>s0 s1 s. mk_KVStore sample_kv True ''db'' empty_fs = Some s0 \<and> kv_put sample_kv ''db'' long_key [1, 2, 3] s0 = Some (OK, s1) \<and>
     Prepare sample_kv ''db'' s1 = Some (OK, s) \<and> kv_rep (ke_os sample_kv) ''db'' s (spec_write long_key (Some [1, 2, 3]) spec_empty) \<and>
     kv_imm s = Some (kv_mem s1) \<and> unat (mt_memoryUsage (kv_mem s1)) < kWritableFileBufferSize \<and> kv_mem s = mk_MemTable 8000 \<and>
     lc_cache (kv_kc s) = replicate 8 [] \<and> \<not> kv_shutting_down s \<and> kv_jobs s = 1 \<and> \<not> kv_trigger s \<and> fileno (kv_version s) = 0"
proof -
  obtain s0 s1 where s1: "mk_KVStore sample_kv True ''db'' empty_fs = Some s0" "kv_put sample_kv ''db'' long_key [1, 2, 3] s0 = Some (OK, s1)"
     "kv_rep (ke_os sample_kv) ''db'' s1 (spec_write long_key (Some [1, 2, 3]) spec_empty)" "kv_imm s1 = None"
     "mem_max_size < unat (mt_memoryUsage (kv_mem s1))" "NumLevelFiles 0 (kv_kc s1) < of_nat kL0_CompactionTrigger" "\<not> kv_shutting_down s1" "\<not> kv_scheduled s1"
     "unat (mt_memoryUsage (kv_mem s1)) < kWritableFileBufferSize" "lc_cache (kv_kc s1) = replicate 8 []" "kv_jobs s1 = 0" "\<not> kv_trigger s1" "fileno (kv_version s1) = 0"
    using sample_full by blast
  have "ke_mem sample_kv = 8000" by (simp add: sample_kv_def)
  then show ?thesis using Prepare_switch [OF s1(3-8), where ke = sample_kv] s1 by fastforce
qed

theorem store_keeps_when_flushing_witness:
  "\<exists>s0 s1 s2 s3 s4. mk_KVStore sample_kv True ''db'' empty_fs = Some s0 \<and> kv_put sample_kv ''db'' long_key [1, 2, 3] s0 = Some (OK, s1) \<and>
     Prepare sample_kv ''db'' s1 = Some (OK, s2) \<and> run_job sample_kv ''db'' s2 = Some s3 \<and> kv_imm s3 = None \<and>
     kv_get sample_kv ''db'' long_key s3 = Some (OK, Some [1, 2, 3], s4)"
proof -
  let ?A = "spec_write long_key (Some [1, 2, 3]) spec_empty"
  obtain s0 s1 s2 where s: "mk_KVStore sample_kv True ''db'' empty_fs = Some s0" "kv_put sample_kv ''db'' long_key [1, 2, 3] s0 = Some (OK, s1)"
      "Prepare sample_kv ''db'' s1 = Some (OK, s2)" "kv_rep (ke_os sample_kv) ''db'' s2 ?A"
      "kv_imm s2 = Some (kv_mem s1)" "unat (mt_memoryUsage (kv_mem s1)) < kWritableFileBufferSize"
      "lc_cache (kv_kc s2) = replicate 8 []" "\<not> kv_shutting_down s2" "kv_jobs s2 = 1" "\<not> kv_trigger s2" "fileno (kv_version s2) = 0"
    using sample_waiting by blast
  obtain s3 where s3: "run_job sample_kv ''db'' s2 = Some s3" "kv_rep (ke_os sample_kv) ''db'' s3 ?A" "kv_imm s3 = None"
    using store_keeps_when_flushing [OF sample_kv_good s(4,8), THEN conjunct2, rule_format, of "kv_mem s1"] s by (auto simp: kL0_CompactionTrigger_def)
  have "spec_get long_key ?A = (OK, Some [1, 2, 3])" by (simp add: spec_get_def spec_write_def spec_empty_def)
  then obtain s4 where "kv_get sample_kv ''db'' long_key s3 = Some (OK, Some [1, 2, 3], s4)"
    using kv_get_spec [OF sample_kv_good s3(2), of long_key] s3(3) by (auto simp: imm_free_def long_key_def)
  then show ?thesis using s(1-3) s3 by blast
qed

lemma old_hit:
  assumes "mt_holds m is" "older_than seq (mem_source is)" "length u + 12 < 2 ^ 32" "mk_QueryKey seq u = Some qk"
    and "table_lookup (kv_of is) u = Some e" "entry_means crc db fs e (q, Some v)"
  shows "\<exists>i. mt_get m qk vi_zero OK = Some (True, i, OK)"
proof -
  have "ExtractValueType (fst e) = Some kTypeValue" "\<exists>i. vi_Decode vi_zero (snd e) = Some (OK, i)"
    using assms(6) by (auto simp: entry_means_def value_at_def)
  then show ?thesis using mt_get_source [OF assms(1-4), of vi_zero OK] assms(5) by auto
qed

text \<open>C39. A value that is only in the old memtable is read as the empty string. While a full memtable waits
  to be written, \<open>get\<close> of a key whose last write is in it reports success and hands out an empty value,
  whatever was written: the branch returns before the value log is read.\<close>

theorem old_memtable_hit_is_empty:
  assumes "kv_rep (ke_os ke) db s A" "length key + 12 < 2 ^ 32" "as_map A key = Some (q, Some v)" "as_live A \<le> q"
    and "kv_imm s = Some imm" "mt_holds (kv_mem s) es" "table_lookup (kv_of es) key = None"
    and "mt_holds imm is" "table_lookup (kv_of is) key \<noteq> None"
  shows "kv_get ke db key s = Some (OK, Some [], s) \<and> spec_get key A = (OK, Some v)"
proof -
  obtain es' is' tss where r: "mem_holds (kv_mem s) es'" "imm_holds (kv_imm s) is'" "\<forall>t \<in> set (sources es' is' tss). older_than (last_sequence (kv_version s)) t"
      "rel_option (entry_means (oe_crc (ke_os ke)) db (kv_fs s)) (first_hit key (sources es' is' tss)) (as_map A key)"
    using assms(1) unfolding kv_rep_def by metis
  have m: "mt_holds (kv_mem s) es'" "mt_holds imm is'" using r(1,2) assms(5) by (simp_all add: mem_holds_def imm_holds_def)
  have l: "table_lookup (kv_of es') key = None" using mt_holds_unique [OF m(1) assms(6)] assms(7) by simp
  obtain e where e: "table_lookup (kv_of is') key = Some e" using mt_holds_unique [OF m(2) assms(8)] assms(9) by auto
  have o: "older_than (last_sequence (kv_version s)) (mem_source es')" "older_than (last_sequence (kv_version s)) (mem_source is')"
    using r(3) by (simp_all add: sources_def)
  have em: "entry_means (oe_crc (ke_os ke)) db (kv_fs s) e (q, Some v)" using r(4) l e assms(3) by (simp add: sources_lookup)
  obtain qk where qk: "mk_QueryKey (last_sequence (kv_version s)) key = Some qk" using mk_QueryKey_eq [OF assms(2)] by simp
  have "mt_get (kv_mem s) qk vi_zero OK = Some (False, vi_zero, OK)" using mt_get_source [OF m(1) o(1) assms(2) qk, of vi_zero OK] l by simp
  moreover obtain i where "mt_get imm qk vi_zero OK = Some (True, i, OK)" using old_hit [OF m(2) o(2) assms(2) qk e em] by blast
  ultimately have "kv_get ke db key s = Some (OK, Some [], s)" using qk assms(5) by (simp add: kv_get_def GetImpl_def)
  then show ?thesis using assms(3,4) by (simp add: spec_get_def)
qed

theorem old_memtable_hit_is_empty_witness:
  "\<exists>s0 s1 s2. mk_KVStore sample_kv True ''db'' empty_fs = Some s0 \<and> kv_put sample_kv ''db'' long_key [1, 2, 3] s0 = Some (OK, s1) \<and>
     Prepare sample_kv ''db'' s1 = Some (OK, s2) \<and> kv_get sample_kv ''db'' long_key s2 = Some (OK, Some [], s2)"
proof -
  let ?A = "spec_write long_key (Some [1, 2, 3]) spec_empty"
  obtain s0 s1 s2 where s: "mk_KVStore sample_kv True ''db'' empty_fs = Some s0" "kv_put sample_kv ''db'' long_key [1, 2, 3] s0 = Some (OK, s1)"
      "Prepare sample_kv ''db'' s1 = Some (OK, s2)" "kv_rep (ke_os sample_kv) ''db'' s2 ?A"
      "kv_imm s2 = Some (kv_mem s1)" "kv_mem s2 = mk_MemTable 8000" "lc_cache (kv_kc s2) = replicate 8 []"
    using sample_waiting by blast
  have m: "as_map ?A long_key = Some (0, Some [1, 2, 3])" "as_live ?A \<le> 0" by (simp_all add: spec_write_def spec_empty_def)
  obtain es "is" tss where r: "mem_holds (kv_mem s2) es" "imm_holds (kv_imm s2) is" "lc_holds (oe_crc (ke_os sample_kv)) ''db'' (kv_fs s2) (kv_kc s2) tss"
      "rel_option (entry_means (oe_crc (ke_os sample_kv)) ''db'' (kv_fs s2)) (first_hit long_key (sources es is tss)) (as_map ?A long_key)"
    using s(4) unfolding kv_rep_def by blast
  have e: "mt_holds (kv_mem s2) []" "mt_holds (kv_mem s1) is" "kv_of es = []"
    using mk_MemTable_holds [of 8000] s(5,6) r(1,2) mt_holds_unique [of "kv_mem s2" es "[]"] by (auto simp: mem_holds_def imm_holds_def kv_of_def)
  have "\<forall>ts \<in> set tss. ts = []" "tss \<noteq> []" using r(3) s(7) by (auto simp: lc_holds_def list_all2_conv_all_nth in_set_conv_nth)
  then have "search_order tss = []" by (cases tss) (simp_all add: search_order_def)
  then have "table_lookup (kv_of is) long_key \<noteq> None"
    using r(4) e(3) m(1) by (auto simp: sources_lookup table_lookup_def split: option.splits)
  then show ?thesis
    using old_memtable_hit_is_empty [OF s(4) _ m s(5) e(1) _ e(2)] s(1-3) by (auto simp: long_key_def kv_of_def table_lookup_def)
qed

text \<open>C40. Expiring everything written so far also expires the next write: after \<open>ExpireAt\<close> with the
  store's current sequence number, which it accepts, a put is acknowledged and a get of the same key
  reports it expired.\<close>

theorem expire_takes_next_write:
  assumes "os_good (ke_os ke)" "kv_rep (ke_os ke) db s A" "as_live A \<le> as_next A" "kv_imm s = None" "mem_room s" "write_room ke db key val s"
  shows "\<exists>s1 s2 s3. ExpireAt (as_next A) s = (OK, s1) \<and> kv_put ke db key val s1 = Some (OK, s2) \<and>
    kv_get ke db key s2 = Some (Expired, None, s3)"
proof -
  let ?A = "A\<lparr>as_live := as_next A + 1\<rparr>" and ?s = "snd (ExpireAt (as_next A) s)"
  have sp: "spec_expire (as_next A) A = (OK, ?A)" using assms(3) by (auto simp: spec_expire_def)
  note ex = ExpireAt_spec [OF assms(2), of "as_next A", unfolded sp]
  have "mem_room ?s" "write_room ke db key val ?s" "kv_imm ?s = None"
    using assms(4-6) by (auto simp: ExpireAt_def mem_room_def write_room_def SetLastLivingSequence_def)
  then obtain s2 where s2: "kv_put ke db key val ?s = Some (OK, s2)" "kv_rep (ke_os ke) db s2 (spec_write key (Some val) ?A)" "kv_imm s2 = None"
    using kv_put_spec [of ke db ?s ?A key val] ex(2) by (auto dest: only_writes_frame(1))
  have nx: "as_next A < as_next A + 1" using assms(2,6) next_less by (auto simp: write_room_def kv_rep_def)
  then have "spec_get key (spec_write key (Some val) ?A) = (Expired, None)" by (simp add: spec_get_def spec_write_def)
  moreover have "length key + 12 < 2 ^ 32" using assms(6) by (simp add: write_room_def)
  ultimately obtain s3 where "kv_get ke db key s2 = Some (Expired, None, s3)"
    using kv_get_spec [OF assms(1) s2(2), of key] s2(3) by (auto simp: imm_free_def)
  then show ?thesis using ex(1) s2(1) by (metis prod.collapse fst_conv)
qed

theorem expire_takes_next_write_witness:
  "\<exists>s0 s1 s2 s3. mk_KVStore sample_kv True ''db'' empty_fs = Some s0 \<and> ExpireAt 0 s0 = (OK, s1) \<and>
     kv_put sample_kv ''db'' [7] [1, 2, 3] s1 = Some (OK, s2) \<and> kv_get sample_kv ''db'' [7] s2 = Some (Expired, None, s3)"
proof -
  obtain s0 where s0: "mk_KVStore sample_kv True ''db'' empty_fs = Some s0" "kv_rep (ke_os sample_kv) ''db'' s0 spec_empty" "kv_imm s0 = None" "mem_room s0"
      "write_room sample_kv ''db'' [7] [1, 2, 3] s0"
    using sample_start by blast
  then show ?thesis
    using expire_takes_next_write [OF sample_kv_good s0(2) _ s0(3,4,5)] by (auto simp: spec_empty_def)
qed

end
