(* ===== verification/Store_Scan.thy ===== *)
theory Store_Scan
  imports Store_Spec
begin

text \<open>
  Range queries of the store: what the memtables, the levels and the value log contribute to
  \<open>KVStore::scan\<close>, against the map of the specification.
\<close>

section \<open>Lists in order\<close>

lemma ordered_while_filter:
  "sorted_wrt (\<lambda>a b. P b \<longrightarrow> P a) xs \<Longrightarrow> takeWhile P xs = filter P xs"
  "sorted_wrt (\<lambda>a b. P b \<longrightarrow> P a) xs \<Longrightarrow> dropWhile P xs = filter (\<lambda>x. \<not> P x) xs"
  by (induction xs) (auto simp: filter_empty_conv intro!: filter_True [symmetric])

lemma find_filter: "(\<And>x. x \<in> set xs \<Longrightarrow> Q x \<Longrightarrow> R x) \<Longrightarrow> find Q (filter R xs) = find Q xs"
  by (induction xs) auto

lemma find_map_option: "find Q (map f xs) = map_option f (find (\<lambda>x. Q (f x)) xs)"
  by (induction xs) auto

definition between :: "bytes \<Rightarrow> bytes \<Rightarrow> bytes \<Rightarrow> bool" where
  "between k1 k2 u \<longleftrightarrow> StrComparator_compare k1 u \<le> 0 \<and> StrComparator_compare u k2 \<le> 0"

section \<open>A table\<close>

lemma in_range_lookup:
  assumes "table_entries es" "wf_ikey K1" "wf_ikey K2"
  shows "find (\<lambda>e. user (fst e) = u) (in_range K1 K2 es) = (if between (user K1) (user K2) u then table_lookup es u else None)"
proof -
  have mono: "StrComparator_compare (user (fst a)) (user (fst b)) \<le> 0" if "ikey_cmp (fst a) (fst b) < 0" "a \<in> set es" "b \<in> set es" for a b
    using that assms(1) by (intro ikey_user_le) (auto simp: table_entries_def)
  have s: "sorted_wrt (\<lambda>a b. StrComparator_compare (user (fst a)) (user (fst b)) \<le> 0) es"
    by (rule sorted_wrt_mono_rel [where P = "\<lambda>a b. ikey_cmp (fst a) (fst b) < 0"]) (use assms(1) mono in \<open>auto simp: table_entries_def\<close>)
  have lo: "sorted_wrt (\<lambda>a b. before_lo K1 b \<longrightarrow> before_lo K1 a) es"
    by (rule sorted_wrt_mono_rel [OF _ s]) (use str.cmp_trans in \<open>auto simp: before_lo_def\<close>)
  have uh: "upto_hi K2 e \<longleftrightarrow> StrComparator_compare (user (fst e)) (user K2) \<le> 0" for e
    using str.cmp_le_iff [of "user (fst e)" "user K2"] by (simp add: upto_hi_def)
  have "sorted_wrt (\<lambda>a b. upto_hi K2 b \<longrightarrow> upto_hi K2 a) es"
    by (rule sorted_wrt_mono_rel [OF _ s]) (use str.cmp_trans in \<open>auto simp: uh\<close>)
  then have hi: "sorted_wrt (\<lambda>a b. upto_hi K2 b \<longrightarrow> upto_hi K2 a) (filter (\<lambda>x. \<not> before_lo K1 x) es)" by (rule sorted_wrt_filter)
  have r: "in_range K1 K2 es = filter (upto_hi K2) (filter (\<lambda>x. \<not> before_lo K1 x) es)"
    unfolding in_range_def ordered_while_filter(2) [OF lo] ordered_while_filter(1) [OF hi] ..
  have b: "between (user K1) (user K2) (user (fst e)) \<longleftrightarrow> \<not> before_lo K1 e \<and> upto_hi K2 e" for e
    by (auto simp: between_def before_lo_def uh)
  show ?thesis
  proof (cases "between (user K1) (user K2) u")
    case True
    have "find (\<lambda>e. user (fst e) = u) (in_range K1 K2 es) = find (\<lambda>e. user (fst e) = u) es"
      unfolding r by (subst find_filter, use True b in blast, subst find_filter, use True b in blast, rule refl)
    then show ?thesis using True by (simp add: table_lookup_def)
  next
    case False
    then have "find (\<lambda>e. user (fst e) = u) (in_range K1 K2 es) = None" unfolding r find_None_iff by (auto simp: b [symmetric])
    then show ?thesis using False by simp
  qed
qed

section \<open>A memtable\<close>

definition mem_window :: "u64 \<Rightarrow> bytes \<Rightarrow> bytes \<Rightarrow> entry list \<Rightarrow> entry list" where
  "mem_window seq k1 k2 es = dropWhile (\<lambda>e. e_lt e (k1, push_bit 8 seq, [])) (takeWhile (\<lambda>e. e_lt e (k2, push_bit 8 seq, [])) es @
     (case dropWhile (\<lambda>e. e_lt e (k2, push_bit 8 seq, [])) es of [] \<Rightarrow> [] | x # _ \<Rightarrow> if fst x = k2 then [x] else []))"

lemma window_end:
  assumes "sorted_wrt (\<lambda>a b. StrComparator_compare (fst a) (fst b) \<le> 0) es" "StrComparator_compare u k2 \<le> 0"
  shows "find (\<lambda>e. fst e = u) (filter (\<lambda>e. StrComparator_compare (fst e) k2 < 0) es @
    (case filter (\<lambda>e. \<not> StrComparator_compare (fst e) k2 < 0) es of [] \<Rightarrow> [] | x # _ \<Rightarrow> if fst x = k2 then [x] else [])) = find (\<lambda>e. fst e = u) es"
proof (cases "u = k2")
  case True
  define D where "D = filter (\<lambda>e. \<not> StrComparator_compare (fst e) k2 < 0) es"
  have e: "find (\<lambda>e. fst e = u) es = find (\<lambda>e. fst e = u) D" unfolding D_def using True Str_refl by (intro find_filter [symmetric]) auto
  have n: "find (\<lambda>e. fst e = u) (filter (\<lambda>e. StrComparator_compare (fst e) k2 < 0) es) = None" using True Str_refl by (auto simp: find_None_iff)
  have sD: "sorted_wrt (\<lambda>a b. StrComparator_compare (fst a) (fst b) \<le> 0) D" unfolding D_def using assms(1) by (rule sorted_wrt_filter)
  have "find (\<lambda>e. fst e = u) D = None" if "D = x # xs" "fst x \<noteq> k2" for x xs
  proof -
    have "\<not> StrComparator_compare (fst x) k2 < 0" using that(1) unfolding D_def filter_eq_Cons_iff by blast
    then have "StrComparator_compare k2 (fst x) \<le> 0" using str.cmp_le_iff [of k2 "fst x"] by simp
    moreover have "StrComparator_compare k2 (fst x) \<noteq> 0" using Str_eq_0_iff [of k2 "fst x"] that(2) by metis
    ultimately have x: "StrComparator_compare k2 (fst x) < 0" by linarith
    have "fst y \<noteq> u" if "y \<in> set D" for y
      using sD \<open>D = x # xs\<close> that x True str.cmp_lt_le_trans [of k2 "fst x" "fst y"] Str_refl [of k2] by auto
    then show ?thesis unfolding find_None_iff by blast
  qed
  then show ?thesis unfolding find_append n e D_def [symmetric] by (cases D) (auto simp: True)
next
  case False
  then have "StrComparator_compare u k2 < 0" using assms(2) Str_eq_0_iff [of u k2] by linarith
  then have "find (\<lambda>e. fst e = u) (filter (\<lambda>e. StrComparator_compare (fst e) k2 < 0) es) = find (\<lambda>e. fst e = u) es" by (intro find_filter) auto
  then show ?thesis using False by (auto simp: find_append split: option.split list.split)
qed

lemma mem_window_lookup:
  assumes "sorted_wrt e_lt es" "\<forall>e \<in> set es. fst (snd e) < push_bit 8 seq" "StrComparator_compare k1 k2 \<le> 0"
  shows "find (\<lambda>e. fst e = u) (mem_window seq k1 k2 es) = (if between k1 k2 u then find (\<lambda>e. fst e = u) es else None)"
proof -
  let ?P = "\<lambda>k e. StrComparator_compare (fst e) k < 0"
  have lt: "e_lt e (k, push_bit 8 seq, []) \<longleftrightarrow> ?P k e" if "e \<in> set es" for e k using that assms(2) by (auto simp: e_lt_def)
  have s: "sorted_wrt (\<lambda>a b. StrComparator_compare (fst a) (fst b) \<le> 0) es"
    by (rule sorted_wrt_mono_rel [OF _ assms(1)]) (auto simp: e_lt_def Str_refl)
  have ord: "sorted_wrt (\<lambda>a b. ?P k b \<longrightarrow> ?P k a) es" for k
    by (rule sorted_wrt_mono_rel [OF _ s]) (use str.cmp_le_lt_trans in blast)
  define D where "D = filter (\<lambda>e. \<not> ?P k2 e) es"
  define X where "X = (case D of [] \<Rightarrow> [] | x # _ \<Rightarrow> if fst x = k2 then [x] else [])"
  have tw: "takeWhile (\<lambda>e. e_lt e (k2, push_bit 8 seq, [])) es = filter (?P k2) es" "dropWhile (\<lambda>e. e_lt e (k2, push_bit 8 seq, [])) es = D"
    using ordered_while_filter [OF ord [of k2]] lt by (simp_all add: D_def cong: takeWhile_cong dropWhile_cong)
  define L where "L = filter (?P k2) es @ X"
  have X: "x \<in> set es \<and> fst x = k2" if "x \<in> set X" for x
  proof -
    have "x \<in> set D" "fst x = k2" using that by (auto simp: X_def split: list.splits if_splits)
    then show ?thesis by (simp add: D_def)
  qed
  have "sorted_wrt (\<lambda>a b. StrComparator_compare (fst a) (fst b) \<le> 0) (filter (?P k2) es)" using s by (rule sorted_wrt_filter)
  moreover have "sorted_wrt (\<lambda>a b. StrComparator_compare (fst a) (fst b) \<le> 0) X" by (auto simp: X_def split: list.split)
  ultimately have sL: "sorted_wrt (\<lambda>a b. StrComparator_compare (fst a) (fst b) \<le> 0) L" using X by (auto simp: L_def sorted_wrt_append)
  have Les: "x \<in> set es" if "x \<in> set L" for x using that X [of x] by (auto simp: L_def)
  have "sorted_wrt (\<lambda>a b. ?P k1 b \<longrightarrow> ?P k1 a) L"
    by (rule sorted_wrt_mono_rel [OF _ sL]) (use str.cmp_le_lt_trans in blast)
  note dL = ordered_while_filter(2) [OF this]
  have W: "mem_window seq k1 k2 es = filter (\<lambda>e. \<not> ?P k1 e) L"
    unfolding mem_window_def tw X_def [symmetric] L_def [symmetric] dL [symmetric] using Les lt by (intro dropWhile_cong) auto
  show ?thesis
  proof (cases "between k1 k2 u")
    case False
    have "\<not> (\<exists>x \<in> set (mem_window seq k1 k2 es). fst x = u)"
    proof
      assume "\<exists>x \<in> set (mem_window seq k1 k2 es). fst x = u"
      then obtain x where x: "x \<in> set L" "\<not> ?P k1 x" "fst x = u" unfolding W by auto
      have "StrComparator_compare (fst x) k2 \<le> 0" using x(1) X [of x] Str_refl by (auto simp: L_def)
      moreover have "StrComparator_compare k1 (fst x) \<le> 0" using x(2) str.cmp_le_iff [of k1 "fst x"] by simp
      ultimately show False using False x(3) by (simp add: between_def)
    qed
    then show ?thesis using False by (auto simp: find_None_iff)
  next
    case True
    then have "find (\<lambda>e. fst e = u) (mem_window seq k1 k2 es) = find (\<lambda>e. fst e = u) L"
      unfolding W using str.cmp_le_iff [of k1 u] by (intro find_filter) (auto simp: between_def)
    also have "\<dots> = find (\<lambda>e. fst e = u) es"
      by (rule window_end [OF s, of u k2, folded D_def, folded X_def, folded L_def]) (use True in \<open>simp add: between_def\<close>)
    finally show ?thesis using True by simp
  qed
qed

lemma compare_user_key_wf: "wf_mem a \<Longrightarrow> wf_mem b \<Longrightarrow> compare_user_key a b = Some (StrComparator_compare (user (ikey_of a)) (user (ikey_of b)))"
  by (simp add: compare_user_key_def wf_mem_ikey ExtractUserKey_user)

lemma mti_seek2_delivers:
  fixes seq :: u64
  assumes "mt_holds m es" "length k1 + 8 < 2 ^ 32" "length k2 + 8 < 2 ^ 32" "StrComparator_compare k1 k2 \<le> 0"
  defines "q \<equiv> \<lambda>k. mem_buf (k @ EncodeFixed64 (push_bit 8 seq)) []"
  shows "\<exists>it. mti_seek2 (q k1) (q k2) (mti_new m) = Some it \<and> mti_delivers it (kv_of (mem_window seq k1 k2 es))"
proof -
  have h: "sl_holds mem_cmp wf_mem (mt_table m) (map e_buf es)" and ok: "\<forall>e \<in> set es. e_ok e"
    using assms(1) by (auto simp: mt_holds_def)
  define e where "e k = (k, push_bit 8 seq, [] :: bytes)" for k :: bytes
  have q: "q k = mem_buf (e_ikey (e k)) []" for k by (simp add: q_def e_def e_ikey_def)
  have wf: "wf_mem (q k1)" "wf_mem (q k2)" unfolding q_def using assms(2,3) by simp_all
  have le: "mem_cmp (q k1) (q k2) \<le> 0"
    using mem_cmp_e_lt(1) [of "e k2" "e k1" "[]" "[]"] assms(2-4) mem.cmp_le_iff [OF wf] str.cmp_le_iff [of k1 k2]
    unfolding q by (auto simp: e_def e_lt_def)
  let ?u = "\<lambda>a b. StrComparator_compare (user (ikey_of a)) (user (ikey_of b))"
  obtain it where it: "it_seek2 MemKeyComporator_compare compare_user_key (mt_table m) (q k1) (q k2) mk_sl_iter = Some it"
      "mem.it_delivers (mt_table m) it (dropWhile (\<lambda>x. mem_cmp x (q k1) < 0) (mem.upto ?u (q k2) (map e_buf es)))"
    using mem.it_seek2_delivers [OF h wf le, of compare_user_key ?u] compare_user_key_wf by blast
  have lk: "length (fst (e k1)) + 8 < 2 ^ 32" "length (fst (e k2)) + 8 < 2 ^ 32" using assms(2,3) by (simp_all add: e_def)
  note w2 = e_lt_dropWhile [OF ok lk(2), of "[]", folded q]
  have u: "?u (e_buf x) (q k2) = 0 \<longleftrightarrow> fst x = k2" if "x \<in> set es" for x
    using that ok lk(2) Str_eq_0_iff by (auto simp: q e_buf_def e_ok_def) (simp_all add: e_ikey_def e_def)
  define d where "d = dropWhile (\<lambda>x. e_lt x (e k2)) es"
  have d: "set d \<subseteq> set es" unfolding d_def by (auto dest: set_dropWhileD)
  define L where "L = takeWhile (\<lambda>x. e_lt x (e k2)) es @ (case d of [] \<Rightarrow> [] | x # _ \<Rightarrow> if fst x = k2 then [x] else [])"
  have up: "mem.upto ?u (q k2) (map e_buf es) = map e_buf L"
    unfolding mem.upto_def w2 L_def d_def [symmetric] using u d by (cases d) auto
  have okL: "\<forall>x \<in> set L. e_ok x" unfolding L_def using ok d by (cases d) (auto dest: set_takeWhileD)
  have "dropWhile (\<lambda>x. mem_cmp x (q k1) < 0) (map e_buf L) = map e_buf (mem_window seq k1 k2 es)"
    using e_lt_dropWhile(2) [OF okL lk(1), of "[]", folded q] by (simp add: mem_window_def L_def d_def e_def)
  moreover have "\<forall>x \<in> set (mem_window seq k1 k2 es). e_ok x"
    using okL by (auto simp: mem_window_def L_def d_def e_def dest!: set_dropWhileD)
  ultimately show ?thesis
    using it unfolding up by (auto simp: mti_seek2_def mti_new_def mti_delivers_def kv_of_def)
qed

section \<open>All sources\<close>

text \<open>A range scan of a table misses entries unless some block ends inside the range or there is just
  one block.\<close>

definition scannable :: "bytes \<Rightarrow> bytes \<Rightarrow> table \<Rightarrow> bool" where
  "scannable K1 K2 t \<longleftrightarrow> covering_block K1 K2 (fst t) \<or> (\<exists>b. fst t = [b])"

lemma scannable_window: "scannable K1 K2 t \<Longrightarrow> scan_window K1 K2 t = in_range K1 K2 (entries t)"
  by (auto simp: scannable_def scan_window_def)

lemma older_visible:
  assumes "older_than seq t" "seq \<le> kMaxSequenceNumber" "e \<in> set (entries t)"
  shows "visible seq e"
proof -
  have wf: "wf_ikey (fst e)" "the (trailer (fst e)) < push_bit 8 seq" using assms(1,3) unfolding older_than_def by blast+
  obtain u T where k: "fst e = u @ EncodeFixed64 T" using wf(1) ikey_cases by blast
  have "drop_bit 8 T \<le> drop_bit 8 (push_bit 8 seq)" using wf(2) k by (intro drop_bit_mono) simp
  then show ?thesis using drop_bit8_push_bit8 [OF assms(2)] by (simp add: visible_def k ExtractSequenceNumber_def)
qed

lemma find_visible: "(\<And>e. e \<in> set es \<Longrightarrow> visible seq e) \<Longrightarrow> find (\<lambda>e. P e \<and> visible seq e) es = find P es"
  by (induction es) auto

text \<open>Scanning one memtable adds its newest versions of the keys in the range.\<close>

lemma scan_mem_spec:
  assumes "mt_holds m es" "older_than seq (mem_source es)" "seq \<le> kMaxSequenceNumber" "length k1 + 8 < 2 ^ 32" "length k2 + 8 < 2 ^ 32"
    and "StrComparator_compare k1 k2 \<le> 0" "map_ok sm"
  defines "q \<equiv> \<lambda>k. mem_buf (k @ EncodeFixed64 (push_bit 8 seq)) []"
  shows "\<exists>sm'. scan_mem (q k1) (q k2) seq m sm = Some sm' \<and> map_ok sm' \<and> (\<forall>u. map_of sm' u = (case map_of sm u of Some v \<Rightarrow> Some v
    | None \<Rightarrow> if between k1 k2 u then map_option snd (table_lookup (kv_of es) u) else None))"
proof -
  let ?W = "kv_of (mem_window seq k1 k2 es)"
  have old: "\<forall>e \<in> set es. fst (snd e) < push_bit 8 seq" using assms(2) by (auto simp: older_than_def mem_source_def kv_of_def e_ikey_parts)
  obtain it where it: "mti_seek2 (q k1) (q k2) (mti_new m) = Some it" "mti_delivers it ?W"
    using mti_seek2_delivers [OF assms(1,4-6), of seq] unfolding q_def by blast
  have sub: "set (mem_window seq k1 k2 es) \<subseteq> set es"
    unfolding mem_window_def by (auto dest!: set_dropWhileD set_takeWhileD split: list.splits if_splits) (metis list.set_intros(1) set_dropWhileD)
  then have W: "set ?W \<subseteq> set (entries (mem_source es))" by (auto simp: kv_of_def mem_source_def)
  have vis: "visible seq e" if "e \<in> set ?W" for e using older_visible [OF assms(2,3)] W that by blast
  have wf: "\<forall>e \<in> set ?W. wf_ikey (fst e)" by (simp add: kv_of_def)
  have "Scan sm (ItMem it) seq = Some (OK, collect seq ?W sm)" by (rule Scan_delivers) (use it(2) wf assms(7) in simp_all)
  moreover have "find (\<lambda>e. user (fst e) = u \<and> visible seq e) ?W = (if between k1 k2 u then table_lookup (kv_of es) u else None)" for u
  proof -
    have ui: "user (e_ikey e) = fst e" for e by (simp add: e_ikey_def)
    have "find (\<lambda>e. user (fst e) = u) (kv_of es) = map_option (\<lambda>e. (e_ikey e, snd (snd e))) (find (\<lambda>e. fst e = u) es)" for es
      by (simp add: kv_of_def find_map_option ui)
    then show ?thesis using mem_window_lookup [OF mt_holds_sorted [OF assms(1)] old assms(6), of u]
      by (simp add: find_visible [OF vis] table_lookup_def)
  qed
  ultimately show ?thesis using it(1) map_of_collect [OF assms(7)] map_ok_collect [OF assms(7)] by (simp add: scan_mem_def) (auto split: option.split)
qed

lemma scan_tables_lookup:
  assumes "\<forall>t \<in> set ts. scannable K1 K2 t \<and> table_entries (entries t) \<and> older_than seq t" "seq \<le> kMaxSequenceNumber" "wf_ikey K1" "wf_ikey K2"
  shows "find (\<lambda>e. user (fst e) = u \<and> visible seq e) (concat (map (scan_window K1 K2) ts)) =
    (if between (user K1) (user K2) u then first_hit u ts else None)"
  using assms(1)
proof (induction ts)
  case (Cons t ts)
  have t: "scan_window K1 K2 t = in_range K1 K2 (entries t)" "table_entries (entries t)" "older_than seq t"
    using Cons.prems scannable_window by simp_all
  have "visible seq e" if "e \<in> set (in_range K1 K2 (entries t))" for e
    using older_visible [OF t(3) assms(2)] that unfolding in_range_def by (meson set_takeWhileD set_dropWhileD)
  then have "find (\<lambda>e. user (fst e) = u \<and> visible seq e) (scan_window K1 K2 t) = (if between (user K1) (user K2) u then table_lookup (entries t) u else None)"
    unfolding t(1) by (simp only: find_visible in_range_lookup [OF t(2) assms(3,4)])
  then show ?case using Cons by (simp add: find_append split: option.split)
qed simp

definition store_scannable :: "os_env \<Rightarrow> string \<Rightarrow> bytes \<Rightarrow> bytes \<Rightarrow> KVStore \<Rightarrow> bool" where
  "store_scannable oe db key1 key2 s \<longleftrightarrow> (\<forall>f t. file_holds (oe_crc oe) db (kv_fs s) f t \<longrightarrow> (\<exists>l n. lc_file (kv_kc s) l n = Some f) \<longrightarrow>
     scannable (key1 @ EncodeFixed64 (push_bit 8 (last_sequence (kv_version s)))) (key2 @ EncodeFixed64 (push_bit 8 (last_sequence (kv_version s)))) t)"

lemma lc_holds_file:
  assumes "lc_ok c" "lc_holds crc db fs c tss" "t \<in> set (concat tss)"
  shows "\<exists>l n f. lc_file c l n = Some f \<and> file_holds crc db fs f t"
proof -
  obtain ts where ts: "ts \<in> set tss" "t \<in> set ts" using assms(3) by auto
  then obtain i where i: "i < length tss" "tss ! i = ts" by (auto simp: in_set_conv_nth)
  then obtain j where j: "j < length ts" "ts ! j = t" using ts(2) by (auto simp: in_set_conv_nth)
  have c: "i < length (lc_cache c)" "length (lc_cache c ! i) = length ts" "file_holds crc db fs (snd (lc_cache c ! i ! j)) t"
    using assms(2) i j by (auto simp: lc_holds_def list_all2_conv_all_nth)
  have "lc_cache c ! i ! j \<in> set (lc_cache c ! i)" "distinct (map fst (lc_cache c ! i))"
    using c(1,2) j(1) level_ok_distinct [OF lc_ok_levels [OF assms(1)]] by auto
  then have "lc_file c i (fst (lc_cache c ! i ! j)) = Some (snd (lc_cache c ! i ! j))" using c(1) by (simp add: lc_file_def)
  then show ?thesis using c(3) by blast
qed

lemma scan_map_spec:
  assumes "os_good (ke_os ke)" "mem_holds (kv_mem s) es" "imm_holds (kv_imm s) is" "lc_ok (kv_kc s)"
    and "lc_holds (oe_crc (ke_os ke)) db (kv_fs s) (kv_kc s) tss" "\<forall>t \<in> set (sources es is tss). older_than (last_sequence (kv_version s)) t"
    and "last_sequence (kv_version s) \<le> kMaxSequenceNumber" "store_scannable (ke_os ke) db key1 key2 s"
    and "length key1 + 12 < 2 ^ 32" "length key2 + 12 < 2 ^ 32" "StrComparator_compare key1 key2 \<le> 0"
  shows "\<exists>sm. scan_map ke db key1 key2 s = Some sm \<and> map_ok sm \<and>
    (\<forall>u. map_of sm u = (if between key1 key2 u then map_option snd (first_hit u (sources es is tss)) else None))"
proof -
  let ?seq = "last_sequence (kv_version s)"
  let ?K = "\<lambda>k. k @ EncodeFixed64 (push_bit 8 ?seq)"
  let ?q = "\<lambda>k. mem_buf (?K k) []"
  obtain q1 q2 where q: "mk_QueryKey ?seq key1 = Some q1" "mk_QueryKey ?seq key2 = Some q2"
    using mk_QueryKey_eq [OF assms(9)] mk_QueryKey_eq [OF assms(10)] by simp
  note v1 = QueryKey_views [OF assms(9) q(1)] and v2 = QueryKey_views [OF assms(10) q(2)]
  have mk: "mem_key q1 = Some (?q key1)" "mem_key q2 = Some (?q key2)" using v1(3) v2(3) by (simp_all add: mem_buf_def)
  have o: "older_than ?seq (mem_source es)" "older_than ?seq (mem_source is)" "\<forall>t \<in> set (search_order tss). older_than ?seq t"
    using assms(6) by (simp_all add: sources_def)
  have l: "length key1 + 8 < 2 ^ 32" "length key2 + 8 < 2 ^ 32" using assms(9,10) by simp_all
  obtain m1 where m1: "scan_mem (?q key1) (?q key2) ?seq (kv_mem s) [] = Some m1" "map_ok m1"
      "\<And>u. map_of m1 u = (if between key1 key2 u then map_option snd (table_lookup (kv_of es) u) else None)"
    using scan_mem_spec [OF mem_holds_mt [OF assms(2)] o(1) assms(7) l assms(11), of "[]"] by (auto simp: map_ok_def)
  obtain m2 where m2: "(case kv_imm s of None \<Rightarrow> Some m1 | Some imm \<Rightarrow> scan_mem (?q key1) (?q key2) ?seq imm m1) = Some m2" "map_ok m2"
      "\<And>u. map_of m2 u = (case map_of m1 u of Some v \<Rightarrow> Some v | None \<Rightarrow> if between key1 key2 u then map_option snd (table_lookup (kv_of is) u) else None)"
  proof (cases "kv_imm s")
    case None
    then have "is = []" using assms(3) by (simp add: imm_holds_def)
    then show ?thesis using that [of m1] None m1(2) by (simp add: table_lookup_def kv_of_def split: option.split)
  next
    case (Some imm)
    then have "mt_holds imm is" using imm_holds_mt [OF assms(3)] by simp
    from scan_mem_spec [OF this o(2) assms(7) l assms(11) m1(2)] show ?thesis using that Some by auto
  qed
  have wf: "wf_ikey (?K key1)" "wf_ikey (?K key2)" by simp_all
  have sq: "ExtractSequenceNumber (?K key1) = Some ?seq" using drop_bit8_push_bit8 [OF assms(7)] by (simp add: ExtractSequenceNumber_def)
  have re: "re_good (oe_read (ke_os ke))" using assms(1) by (simp add: os_good_def)
  define m3 where "m3 = scan_tables ?seq (?K key1) (?K key2) (search_order tss) m2"
  have m3: "lc_scan db (oe_read (ke_os ke)) (kv_fs s) (?K key1) (?K key2) m2 (kv_kc s) = Some m3" "map_ok m3"
    using lc_scan_windows [OF re assms(5) wf sq m2(2)] by (simp_all add: m3_def)
  have ts: "scannable (?K key1) (?K key2) t \<and> table_entries (entries t) \<and> older_than ?seq t" if "t \<in> set (search_order tss)" for t
  proof -
    have "tss \<noteq> []" using assms(5) by (auto simp: lc_holds_def)
    then have "t \<in> set (concat tss)" using that by (cases tss) (auto simp: search_order_def)
    from lc_holds_file [OF assms(4,5) this] obtain l n f where "lc_file (kv_kc s) l n = Some f" "file_holds (oe_crc (ke_os ke)) db (kv_fs s) f t" by blast
    then show ?thesis using assms(8) o(3) that file_holds_entries(1) unfolding store_scannable_def by blast
  qed
  have lk: "find (\<lambda>e. user (fst e) = u \<and> visible ?seq e) (concat (map (scan_window (?K key1) (?K key2)) (search_order tss))) =
      (if between key1 key2 u then first_hit u (search_order tss) else None)" for u
    using scan_tables_lookup [of "search_order tss", OF _ assms(7) wf, of u] ts by simp
  have "map_of m3 u = (if between key1 key2 u then map_option snd (first_hit u (sources es is tss)) else None)" for u
    unfolding m3_def map_of_scan_tables [OF m2(2)] m2(3) m1(3) lk sources_lookup
    by (auto split: option.split)
  moreover have "scan_map ke db key1 key2 s = Some m3" using q mk m1(1) m2(1) v1(2) v2(2) m3(1) by (simp add: scan_map_def Let_def)
  ultimately show ?thesis using m3(2) by blast
qed

section \<open>Replacing pointers by values\<close>

text \<open>An element of the list: its pointer leads to the value \<open>V k\<close>, written with sequence number \<open>Q k\<close>.\<close>

definition element_ok :: "kv_env \<Rightarrow> string \<Rightarrow> FileSystem \<Rightarrow> (bytes \<Rightarrow> u64) \<Rightarrow> (bytes \<Rightarrow> bytes) \<Rightarrow> bytes \<times> bytes \<Rightarrow> bool" where
  "element_ok ke db fs Q V x \<longleftrightarrow> snd x \<noteq> [] \<and> (\<exists>ik. wf_ikey ik \<and> ExtractSequenceNumber ik = Some (Q (fst x)) \<and>
     value_at (oe_crc (ke_os ke)) db fs ik (snd x) (V (fst x)))"

lemma read_list_spec:
  assumes "os_good (ke_os ke)" "\<forall>x \<in> set l. element_ok ke db (kv_fs s) Q V x" "reader_sound (open_log (ke_os ke) db (kv_fs s)) (kv_reader s)"
  shows "\<exists>rd. reader_sound (open_log (ke_os ke) db (kv_fs s)) rd \<and> read_list ke db st l s =
    Some (if l = [] then st else if Q (fst (last l)) < last_live_sequence (kv_version s) then Expired else OK,
      map (\<lambda>x. (fst x, V (fst x))) (filter (\<lambda>x. \<not> Q (fst x) < last_live_sequence (kv_version s)) l), s\<lparr>kv_reader := rd\<rparr>)"
  using assms(2,3)
proof (induction l arbitrary: st s)
  case Nil
  then show ?case by (intro exI [of _ "kv_reader s"]) simp
next
  case (Cons x l)
  obtain k p where x: "x = (k, p)" by (cases x)
  obtain ik where ik: "p \<noteq> []" "wf_ikey ik" "ExtractSequenceNumber ik = Some (Q k)" "value_at (oe_crc (ke_os ke)) db (kv_fs s) ik p (V k)"
    using Cons.prems(1) x by (auto simp: element_ok_def)
  obtain info where i: "vi_Decode vi_zero p = Some (OK, info)" using ik(4) by (auto simp: value_at_def)
  obtain r where r: "reader_sound (open_log (ke_os ke) db (kv_fs s)) r" "read_value ke db info s =
      Some (if Q k < last_live_sequence (kv_version s) then (Expired, None, s\<lparr>kv_reader := r\<rparr>) else (OK, Some (V k), s\<lparr>kv_reader := r\<rparr>))"
    using read_value_at [OF assms(1) ik(4) i ik(2) Cons.prems(2)] ik(3) by auto
  let ?s = "s\<lparr>kv_reader := r\<rparr>"
  have IH: "\<exists>rd. reader_sound (open_log (ke_os ke) db (kv_fs s)) rd \<and> read_list ke db st l ?s =
    Some (if l = [] then st else if Q (fst (last l)) < last_live_sequence (kv_version s) then Expired else OK,
      map (\<lambda>x. (fst x, V (fst x))) (filter (\<lambda>x. \<not> Q (fst x) < last_live_sequence (kv_version s)) l), s\<lparr>kv_reader := rd\<rparr>)" for st
    using Cons.IH [of ?s st] Cons.prems(1) r(1) by (simp split del: if_split cong: if_cong)
  show ?case
  proof (cases "Q k < last_live_sequence (kv_version s)")
    case True
    then show ?thesis using IH [of Expired] x ik(1) i r(2) by auto
  next
    case False
    then show ?thesis using IH [of OK] x ik(1) i r(2) by auto
  qed
qed

text \<open>What the specification says of the elements of the scan.\<close>

lemma map_ok_distinct: "map_ok m \<Longrightarrow> distinct (map fst m)"
proof (induction m)
  case (Cons a m)
  then show ?case using Str_refl [of "fst a"] by (auto simp: map_ok_def)
qed simp

lemma map_of_kept:
  assumes "distinct (map fst sm)"
  shows "map_of (map (\<lambda>x. (fst x, V (fst x))) (filter (\<lambda>x. P (fst x)) sm)) u = (if map_of sm u \<noteq> None \<and> P u then Some (V u) else None)"
  using assms by (induction sm) (auto simp: map_of_eq_None_iff image_iff)

text \<open>C2. A range query returns the map between its bounds. When there is no deleted key in the range, every
  table either has a block that ends in the range or is one block, and the operating system does what
  it is asked, \<open>scan\<close> ends, leaves the store as it was, and appends to the empty list exactly the keys
  between the bounds whose last write has not expired, with their values, in ascending order. It
  reports OK unless the last key has expired.\<close>

theorem store_scan:
  assumes "os_good (ke_os ke)" "kv_rep (ke_os ke) db s A" "store_scannable (ke_os ke) db key1 key2 s"
    and "length key1 + 12 < 2 ^ 32" "length key2 + 12 < 2 ^ 32" "StrComparator_compare key1 key2 \<le> 0"
    and "\<forall>k q. between key1 key2 k \<longrightarrow> as_map A k \<noteq> Some (q, None)"
  shows "\<exists>st l s'. kv_scan ke db key1 key2 [] s = Some (st, l, s') \<and> kv_rep (ke_os ke) db s' A \<and>
    sorted_wrt (\<lambda>a b. StrComparator_compare (fst a) (fst b) < 0) l \<and>
    (\<forall>k. map_of l k = (if between key1 key2 k then snd (spec_get k A) else None)) \<and>
    ((\<forall>k. between key1 key2 k \<longrightarrow> fst (spec_get k A) \<noteq> Expired) \<longrightarrow> st = OK)"
proof -
  let ?crc = "oe_crc (ke_os ke)" and ?live = "last_live_sequence (kv_version s)"
  obtain es "is" tss where r: "mem_holds (kv_mem s) es" "imm_holds (kv_imm s) is" "lc_ok (kv_kc s)" "lc_holds ?crc db (kv_fs s) (kv_kc s) tss"
      "\<forall>t \<in> set (sources es is tss). older_than (last_sequence (kv_version s)) t" "last_sequence (kv_version s) \<le> kMaxSequenceNumber"
      "\<And>k. rel_option (entry_means ?crc db (kv_fs s)) (first_hit k (sources es is tss)) (as_map A k)"
      "reader_sound (open_log (ke_os ke) db (kv_fs s)) (kv_reader s)" "as_live A = ?live"
    using assms(2) unfolding kv_rep_def by metis
  obtain sm where sm: "scan_map ke db key1 key2 s = Some sm" "map_ok sm"
      "\<And>u. map_of sm u = (if between key1 key2 u then map_option snd (first_hit u (sources es is tss)) else None)"
    using scan_map_spec [OF assms(1) r(1-6) assms(3-6)] by blast
  define Q where "Q k = fst (the (as_map A k))" for k
  define V where "V k = the (snd (the (as_map A k)))" for k
  have el: "element_ok ke db (kv_fs s) Q V x \<and> between key1 key2 (fst x) \<and> as_map A (fst x) = Some (Q (fst x), Some (V (fst x)))" if "x \<in> set sm" for x
  proof -
    have "map_of sm (fst x) = Some (snd x)" using that map_ok_distinct [OF sm(2)] by simp
    then obtain e where e: "between key1 key2 (fst x)" "first_hit (fst x) (sources es is tss) = Some e" "snd e = snd x"
      using sm(3) [of "fst x"] by (auto split: if_splits)
    then obtain q w where w: "as_map A (fst x) = Some (q, w)" "entry_means ?crc db (kv_fs s) e (q, w)"
      using r(7) [of "fst x"] by (auto simp: option_rel_Some1)
    then obtain v where v: "w = Some v" using assms(7) e(1) by (cases w) auto
    obtain t where "t \<in> set (sources es is tss)" "e \<in> set (entries t)" using first_hit_in [OF e(2)] by blast
    then have "wf_ikey (fst e)" using r(5) unfolding older_than_def by blast
    moreover have "snd x \<noteq> []" using w(2) v e(3) by (auto simp: entry_means_def value_at_def vi_Decode_def)
    ultimately show ?thesis using w v e by (auto simp: element_ok_def entry_means_def Q_def V_def)
  qed
  obtain rd where rd: "reader_sound (open_log (ke_os ke) db (kv_fs s)) rd" "read_list ke db OK sm s =
      Some (if sm = [] then OK else if Q (fst (last sm)) < ?live then Expired else OK,
        map (\<lambda>x. (fst x, V (fst x))) (filter (\<lambda>x. \<not> Q (fst x) < ?live) sm), s\<lparr>kv_reader := rd\<rparr>)"
    using read_list_spec [OF assms(1) _ r(8), of sm Q V OK] el by blast
  let ?l = "map (\<lambda>x. (fst x, V (fst x))) (filter (\<lambda>x. \<not> Q (fst x) < ?live) sm)"
  have "sorted_wrt (\<lambda>a b. StrComparator_compare (fst a) (fst b) < 0) ?l"
    using sorted_wrt_filter [OF sm(2) [unfolded map_ok_def]] by (simp add: sorted_wrt_map)
  moreover have "map_of ?l k = (if between key1 key2 k then snd (spec_get k A) else None)" for k
    unfolding map_of_kept [OF map_ok_distinct [OF sm(2)], of V "\<lambda>k. \<not> Q k < ?live"] sm(3)
    using r(7) [of k] assms(7) r(9)
    by (cases "first_hit k (sources es is tss)"; cases "as_map A k") (auto simp: spec_get_def Q_def V_def split: option.splits)
  moreover have "(if sm = [] then OK else if Q (fst (last sm)) < ?live then Expired else OK) = OK"
    if "\<forall>k. between key1 key2 k \<longrightarrow> fst (spec_get k A) \<noteq> Expired"
  proof (cases "sm = []")
    case False
    then have "last sm \<in> set sm" by simp
    note e = el [OF this]
    then show ?thesis using that r(9) by (auto simp: spec_get_def split: if_splits)
  qed simp
  ultimately show ?thesis
    using sm(1) rd(2) kv_rep_reader [OF assms(2) rd(1)] by (auto simp: kv_scan_def simp del: map_map split del: if_split)
qed

theorem store_scan_witness:
  "\<exists>s0 s1 l s2. mk_KVStore sample_kv True ''db'' empty_fs = Some s0 \<and> kv_put sample_kv ''db'' [7] [1, 2, 3] s0 = Some (OK, s1) \<and>
     kv_scan sample_kv ''db'' [] [9] [] s1 = Some (OK, l, s2) \<and> map_of l [7] = Some [1, 2, 3] \<and> map_of l [8] = None"
proof -
  let ?A = "spec_write [7] (Some [1, 2, 3]) spec_empty"
  obtain s0 where s0: "mk_KVStore sample_kv True ''db'' empty_fs = Some s0" "kv_rep (ke_os sample_kv) ''db'' s0 spec_empty" "mem_room s0"
      "write_room sample_kv ''db'' [7] [1, 2, 3] s0" "lc_cache (kv_kc s0) = replicate 8 []"
    using sample_start by blast
  obtain s1 where s1: "kv_put sample_kv ''db'' [7] [1, 2, 3] s0 = Some (OK, s1)" "kv_rep (ke_os sample_kv) ''db'' s1 ?A" "only_writes [7] s0 s1"
    using kv_put_spec [OF s0(2-4)] by blast
  have "lc_file (kv_kc s1) l n = None" for l n using only_writes_frame(2) [OF s1(3)] s0(5) by (simp add: lc_file_def)
  then have sc: "store_scannable (ke_os sample_kv) ''db'' [] [9] s1" by (simp add: store_scannable_def)
  have m: "as_map ?A k = (if k = [7] then Some (0, Some [1, 2, 3]) else None)" "as_live ?A = 0" for k by (simp_all add: spec_write_def spec_empty_def)
  have b: "between [] [9] [7]" "between [] [9] [8]" "StrComparator_compare [] [9] \<le> 0" by (simp_all add: between_def)
  have g: "spec_get [7] ?A = (OK, Some [1, 2, 3])" "spec_get [8] ?A = (NotFound, None)" "fst (spec_get k ?A) \<noteq> Expired" for k
    using m by (simp_all add: spec_get_def)
  have nd: "\<forall>k q. between [] [9] k \<longrightarrow> as_map ?A k \<noteq> Some (q, None)" using m by simp
  obtain st l s2 where "kv_scan sample_kv ''db'' [] [9] [] s1 = Some (st, l, s2)"
      "\<forall>k. map_of l k = (if between [] [9] k then snd (spec_get k ?A) else None)"
      "(\<forall>k. between [] [9] k \<longrightarrow> fst (spec_get k ?A) \<noteq> Expired) \<longrightarrow> st = OK"
    using store_scan [OF sample_kv_good s1(2) sc _ _ b(3) nd] by auto
  then show ?thesis using s0(1) s1(1) b g by auto
qed

end
