(* ===== verification/Rwlock.thy ===== *)
theory Rwlock
  imports Lsmkv_Prelude
begin

text \<open>
  \<^verbatim>\<open>utils/rwlock.h\<close> and the wait of \<^verbatim>\<open>utils/cond_var.h\<close>: the reader-writer lock of the store, as a
  step relation over the program counters of its threads. A step is one access to the mutex, to the
  atomic word or to the flag; loads and read-modify-writes of the word are atomic and in one order.
  Waiting for the word to change or on a condition variable may end at any time, as the standard
  allows, and the code checks again. Notifications are therefore not modelled: that a waiting call can
  go on does not say that it is woken.
\<close>

section \<open>The lock\<close>

text \<open>Where a thread is. \<open>Up\<close> marks the writer path of \<open>try_upgrade_to_writer\<close>.\<close>

datatype rw_pc =
  Idle
  | SCas u32      \<comment> \<open>\<open>shared_lock_inner\<close>: at the exchange, with the expected word\<close>
  | SMtx          \<comment> \<open>\<open>shared_lock_wait\<close>: before the mutex\<close>
  | SAdd          \<comment> \<open>adding the reader\<close>
  | SRel          \<comment> \<open>releasing the mutex\<close>
  | Reading
  | WMtx          \<comment> \<open>\<open>lock\<close>: before the mutex\<close>
  | WChk          \<comment> \<open>looking at \<open>writer_waiting_\<close>\<close>
  | WCond         \<comment> \<open>on the condition variable\<close>
  | WAdd bool     \<comment> \<open>\<open>lock_inner\<close>\<close>
  | WWait bool u32 \<comment> \<open>\<open>lock_inner_wait\<close>: waiting for the word to change\<close>
  | WLoad bool    \<comment> \<open>loading it\<close>
  | Writing
  | UClear        \<comment> \<open>\<open>unlock\<close>: clearing the flag\<close>
  | URel          \<comment> \<open>releasing the mutex\<close>
  | BStore        \<comment> \<open>\<open>before_wait\<close>: giving the word back\<close>
  | BRel          \<comment> \<open>releasing the mutex\<close>
  | BBlocked      \<comment> \<open>waiting\<close>
  | BMtx          \<comment> \<open>taking the mutex again\<close>
  | BAfter        \<comment> \<open>the assertion of \<open>after_wait\<close>\<close>
  | TDrop         \<comment> \<open>\<open>try_upgrade_to_writer\<close>: giving up the read lock\<close>
  | Upgraded      \<comment> \<open>it has returned false and holds the lock\<close>

record RWLock =
  rw_mtx :: "nat option"
  rw_readers :: u32
  rw_waiting :: bool
  rw_pc :: "nat \<Rightarrow> rw_pc"

definition rw_X :: u32 where "rw_X = 0x80000000"

definition goto :: "nat \<Rightarrow> rw_pc \<Rightarrow> RWLock \<Rightarrow> RWLock" where
  "goto t p s = s\<lparr>rw_pc := (rw_pc s)(t := p)\<rparr>"

definition mk_RWLock :: RWLock where
  "mk_RWLock = \<lparr>rw_mtx = None, rw_readers = 0, rw_waiting = False, rw_pc = (\<lambda>_. Idle)\<rparr>"

text \<open>The steps of thread \<open>t\<close>; \<open>up\<close> says whether threads use \<open>try_upgrade_to_writer\<close>.\<close>

inductive rw_step :: "bool \<Rightarrow> nat \<Rightarrow> RWLock \<Rightarrow> RWLock \<Rightarrow> bool" for up t where
  lock_shared: "rw_pc s t = Idle \<Longrightarrow> rw_step up t s (goto t (SCas 0) s)"
| cas_ok: "rw_pc s t = SCas lk \<Longrightarrow> rw_readers s = lk \<Longrightarrow> rw_step up t s (goto t Reading (s\<lparr>rw_readers := lk + 1\<rparr>))"
| cas_fail: "rw_pc s t = SCas lk \<Longrightarrow> rw_readers s AND rw_X = 0 \<Longrightarrow> rw_step up t s (goto t (SCas (rw_readers s)) s)"
| cas_locked: "rw_pc s t = SCas lk \<Longrightarrow> rw_readers s AND rw_X \<noteq> 0 \<Longrightarrow> rw_step up t s (goto t SMtx s)"
| shared_mtx: "rw_pc s t = SMtx \<Longrightarrow> rw_mtx s = None \<Longrightarrow> rw_step up t s (goto t SAdd (s\<lparr>rw_mtx := Some t\<rparr>))"
| shared_add: "rw_pc s t = SAdd \<Longrightarrow> rw_step up t s (goto t SRel (s\<lparr>rw_readers := rw_readers s + 1\<rparr>))"
| shared_rel: "rw_pc s t = SRel \<Longrightarrow> rw_step up t s (goto t Reading (s\<lparr>rw_mtx := None\<rparr>))"
| unlock_shared: "rw_pc s t = Reading \<Longrightarrow> rw_readers s AND NOT rw_X \<noteq> 0 \<Longrightarrow>
    rw_step up t s (goto t Idle (s\<lparr>rw_readers := rw_readers s - 1\<rparr>))"
| lock: "rw_pc s t = Idle \<Longrightarrow> rw_step up t s (goto t WMtx s)"
| lock_mtx: "rw_pc s t = WMtx \<Longrightarrow> rw_mtx s = None \<Longrightarrow> rw_step up t s (goto t WChk (s\<lparr>rw_mtx := Some t\<rparr>))"
| lock_wait: "rw_pc s t = WChk \<Longrightarrow> rw_waiting s \<Longrightarrow> rw_step up t s (goto t WCond (s\<lparr>rw_mtx := None\<rparr>))"
| lock_wake: "rw_pc s t = WCond \<Longrightarrow> rw_mtx s = None \<Longrightarrow> rw_step up t s (goto t WChk (s\<lparr>rw_mtx := Some t\<rparr>))"
| lock_go: "rw_pc s t = WChk \<Longrightarrow> \<not> rw_waiting s \<Longrightarrow> rw_step up t s (goto t (WAdd False) s)"
| lock_add: "rw_pc s t = WAdd b \<Longrightarrow> rw_step up t s (goto t
    (if rw_readers s = 0 then if b then Upgraded else Writing else WWait b (rw_readers s OR rw_X)) (s\<lparr>rw_readers := rw_readers s + rw_X\<rparr>))"
| inner_wait: "rw_pc s t = WWait b lk \<Longrightarrow> rw_readers s \<noteq> lk \<Longrightarrow> rw_step up t s (goto t (WLoad b) s)"
| inner_load: "rw_pc s t = WLoad b \<Longrightarrow>
    rw_step up t s (goto t (if rw_readers s = rw_X then if b then Upgraded else Writing else WWait b (rw_readers s)) s)"
| unlock: "rw_pc s t = Writing \<Longrightarrow> rw_step up t s (goto t UClear (s\<lparr>rw_readers := 0\<rparr>))"
| unlock_clear: "rw_pc s t = UClear \<Longrightarrow> rw_step up t s (goto t URel (s\<lparr>rw_waiting := False\<rparr>))"
| unlock_rel: "rw_pc s t = URel \<Longrightarrow> rw_step up t s (goto t Idle (s\<lparr>rw_mtx := None\<rparr>))"
| before_wait: "rw_pc s t = Writing \<Longrightarrow> rw_step up t s (goto t BStore (s\<lparr>rw_waiting := True\<rparr>))"
| before_store: "rw_pc s t = BStore \<Longrightarrow> rw_step up t s (goto t BRel (s\<lparr>rw_readers := 0\<rparr>))"
| before_rel: "rw_pc s t = BRel \<Longrightarrow> rw_step up t s (goto t BBlocked (s\<lparr>rw_mtx := None\<rparr>))"
| wait_ends: "rw_pc s t = BBlocked \<Longrightarrow> rw_step up t s (goto t BMtx s)"
| wait_mtx: "rw_pc s t = BMtx \<Longrightarrow> rw_mtx s = None \<Longrightarrow> rw_step up t s (goto t BAfter (s\<lparr>rw_mtx := Some t\<rparr>))"
| after_wait: "rw_pc s t = BAfter \<Longrightarrow> rw_waiting s \<Longrightarrow> rw_step up t s (goto t (WAdd False) s)"
| upgrade_no: "up \<Longrightarrow> rw_pc s t = Reading \<Longrightarrow> rw_mtx s \<noteq> None \<Longrightarrow> rw_step up t s s"
| upgrade_mtx: "up \<Longrightarrow> rw_pc s t = Reading \<Longrightarrow> rw_mtx s = None \<Longrightarrow> rw_step up t s (goto t TDrop (s\<lparr>rw_mtx := Some t\<rparr>))"
| upgrade_drop: "rw_pc s t = TDrop \<Longrightarrow> rw_step up t s (goto t (WAdd True) (s\<lparr>rw_readers := rw_readers s - 1\<rparr>))"

text \<open>\<open>n\<close> threads in any interleaving.\<close>

inductive rw_reach :: "bool \<Rightarrow> nat \<Rightarrow> RWLock \<Rightarrow> bool" for up n where
  start: "rw_reach up n mk_RWLock"
| step: "rw_reach up n s \<Longrightarrow> t < n \<Longrightarrow> rw_step up t s s' \<Longrightarrow> rw_reach up n s'"

section \<open>The invariant\<close>

text \<open>Threads that own the mutex, that are counted as readers, that have added \<open>X\<close>, that will come back
  from a wait, and that are past the check of the flag.\<close>

fun owns :: "rw_pc \<Rightarrow> bool" where
  "owns SAdd = True" | "owns SRel = True" | "owns WChk = True" | "owns (WAdd b) = True" | "owns (WWait b lk) = True" | "owns (WLoad b) = True"
| "owns Writing = True" | "owns UClear = True" | "owns URel = True" | "owns BStore = True" | "owns BRel = True" | "owns BAfter = True"
| "owns TDrop = True" | "owns Upgraded = True" | "owns _ = False"

fun counted :: "rw_pc \<Rightarrow> bool" where
  "counted SRel = True" | "counted Reading = True" | "counted _ = False"

fun has_X :: "rw_pc \<Rightarrow> bool" where
  "has_X (WWait b lk) = True" | "has_X (WLoad b) = True" | "has_X Writing = True" | "has_X BStore = True" | "has_X _ = False"

fun away :: "rw_pc \<Rightarrow> bool" where
  "away BStore = True" | "away BRel = True" | "away BBlocked = True" | "away BMtx = True" | "away BAfter = True" | "away _ = False"

fun passed :: "rw_pc \<Rightarrow> bool" where
  "passed (WAdd b) = True" | "passed (WWait b lk) = True" | "passed (WLoad b) = True" | "passed Writing = True" | "passed UClear = True"
| "passed p = away p"


definition n_readers :: "nat \<Rightarrow> RWLock \<Rightarrow> nat" where
  "n_readers n s = card {t. t < n \<and> counted (rw_pc s t)}"

text \<open>Whether the owner of the mutex has added \<open>X\<close>.\<close>

definition held :: "RWLock \<Rightarrow> bool" where
  "held s = (case rw_mtx s of None \<Rightarrow> False | Some t \<Rightarrow> has_X (rw_pc s t))"

text \<open>What is known of a thread where it stands.\<close>

fun local_inv :: "bool \<Rightarrow> nat \<Rightarrow> rw_pc \<Rightarrow> bool" where
  "local_inv w r (SCas lk) = (lk AND rw_X = 0)"
| "local_inv w r (WAdd b) = (\<not> b)"
| "local_inv w r (WWait b lk) = (\<not> b \<and> lk \<noteq> rw_X)"
| "local_inv w r (WLoad b) = (\<not> b)"
| "local_inv w r Writing = (r = 0)"
| "local_inv w r BStore = (w \<and> r = 0)"
| "local_inv w r TDrop = False"
| "local_inv w r Upgraded = False"
| "local_inv w r p = (away p \<longrightarrow> w)"

definition rw_inv :: "nat \<Rightarrow> RWLock \<Rightarrow> bool" where
  "rw_inv n s \<longleftrightarrow> (\<forall>t \<ge> n. rw_pc s t = Idle) \<and> (\<forall>t. owns (rw_pc s t) = (rw_mtx s = Some t)) \<and>
     (\<forall>t. local_inv (rw_waiting s) (n_readers n s) (rw_pc s t)) \<and>
     rw_readers s = of_nat (n_readers n s) + (if held s then rw_X else 0) \<and>
     (\<forall>t u. away (rw_pc s t) \<and> passed (rw_pc s u) \<longrightarrow> t = u) \<and>
     (rw_waiting s \<longrightarrow> (\<exists>t. passed (rw_pc s t)))"

lemma goto_simps [simp]:
  "rw_pc (goto t p s) = (rw_pc s)(t := p)" "rw_mtx (goto t p s) = rw_mtx s" "rw_readers (goto t p s) = rw_readers s"
  "rw_waiting (goto t p s) = rw_waiting s"
  by (simp_all add: goto_def)

lemma n_readers_cong: "rw_pc s = rw_pc s' \<Longrightarrow> n_readers n s = n_readers n s'"
  by (simp add: n_readers_def)

lemma n_readers_le: "n_readers n s \<le> n"
  using card_mono [of "{..<n}" "{t. t < n \<and> counted (rw_pc s t)}"] by (auto simp: n_readers_def)

lemma n_readers_pos: "t < n \<Longrightarrow> counted (rw_pc s t) \<Longrightarrow> 0 < n_readers n s"
  by (auto simp: n_readers_def card_gt_0_iff)

lemma n_readers_less: "t < n \<Longrightarrow> \<not> counted (rw_pc s t) \<Longrightarrow> n_readers n s < n"
  using psubset_card_mono [of "{..<n}" "{t. t < n \<and> counted (rw_pc s t)}"] by (auto simp: n_readers_def)

lemma n_readers_goto:
  assumes "t < n" "rw_pc s' = (rw_pc s)(t := p)"
  shows "n_readers n s' = (if counted p = counted (rw_pc s t) then n_readers n s else if counted p then n_readers n s + 1 else n_readers n s - 1)"
proof -
  let ?S = "{u. u < n \<and> counted (rw_pc s u)}"
  have "{u. u < n \<and> counted (rw_pc s' u)} = (if counted p then insert t ?S else ?S - {t})"
    using assms by auto
  then show ?thesis using assms by (auto simp: n_readers_def card_insert_if insert_absorb)
qed

section \<open>The word\<close>

lemma rw_X_bit: "bit rw_X i \<longleftrightarrow> i = 31"
proof -
  have "rw_X = 2 ^ 31" by (simp add: rw_X_def)
  also have "bit (2 ^ 31 :: u32) i \<longleftrightarrow> i = 31" by (simp only: bit_exp_iff possible_bit_word) auto
  finally show ?thesis .
qed

lemma small_bit: "m < 2147483648 \<Longrightarrow> \<not> bit (of_nat m :: u32) 31"
proof -
  assume "m < 2147483648"
  then have "\<not> bit m 31" by (simp add: bit_iff_odd)
  then show ?thesis by (simp only: bit_of_nat_iff simp_thms)
qed

lemma small_and_X: "m < 2 ^ 31 \<Longrightarrow> of_nat m AND rw_X = (0 :: u32)"
  by (rule bit_eqI) (auto simp: bit_and_iff rw_X_bit dest: small_bit)

lemma small_add_X: "m < 2 ^ 31 \<Longrightarrow> of_nat m + rw_X = (of_nat m OR rw_X :: u32)"
  by (rule disjunctive_add) (auto simp: rw_X_bit dest: small_bit)

lemma small_word_facts:
  assumes "m < 2 ^ 31"
  shows "of_nat m AND rw_X = (0 :: u32)" "(of_nat m + rw_X) AND rw_X = rw_X" "of_nat m AND NOT rw_X = (of_nat m :: u32)"
    "(of_nat m + rw_X) AND NOT rw_X = of_nat m" "of_nat m = (0 :: u32) \<longleftrightarrow> m = 0" "of_nat m + rw_X = rw_X \<longleftrightarrow> m = 0" "rw_X \<noteq> 0"
    "(of_nat m OR rw_X) = of_nat m + rw_X"
proof -
  show "of_nat m AND rw_X = (0 :: u32)" using assms by (rule small_and_X)
  show "(of_nat m + rw_X) AND rw_X = rw_X" unfolding small_add_X [OF assms]
    by (rule bit_eqI) (auto simp: bit_and_iff bit_or_iff)
  show "of_nat m AND NOT rw_X = (of_nat m :: u32)"
    by (rule bit_eqI) (use assms in \<open>auto simp: bit_and_iff bit_not_iff rw_X_bit dest: small_bit\<close>)
  show "(of_nat m + rw_X) AND NOT rw_X = of_nat m" unfolding small_add_X [OF assms]
    by (rule bit_eqI) (use assms in \<open>auto simp: bit_and_iff bit_or_iff bit_not_iff rw_X_bit dest: small_bit\<close>)
  show z: "of_nat m = (0 :: u32) \<longleftrightarrow> m = 0" using assms by (auto simp: word_of_nat_eq_0_iff dest: dvd_imp_le)
  show "of_nat m + rw_X = rw_X \<longleftrightarrow> m = 0" using z by simp
  show "rw_X \<noteq> 0" by (simp add: rw_X_def)
  show "(of_nat m OR rw_X) = of_nat m + rw_X" using small_add_X [OF assms] by simp
qed

section \<open>The invariant is kept\<close>

lemma rw_inv_init: "rw_inv n mk_RWLock"
  by (simp add: rw_inv_def mk_RWLock_def n_readers_def held_def)

lemma held_iff:
  assumes "rw_inv n s" "n < 2 ^ 31"
  shows "rw_readers s AND rw_X = (if held s then rw_X else 0)" "rw_readers s AND NOT rw_X = of_nat (n_readers n s)"
    "\<not> held s \<Longrightarrow> rw_readers s = of_nat (n_readers n s)" "rw_readers s = rw_X \<longleftrightarrow> held s \<and> n_readers n s = 0" 
proof -
  have m: "n_readers n s < 2 ^ 31" using n_readers_le [of n s] assms(2) by linarith
  have r: "rw_readers s = of_nat (n_readers n s) + (if held s then rw_X else 0)" using assms(1) by (simp add: rw_inv_def)
  note w = small_word_facts [OF m]
  show "rw_readers s AND rw_X = (if held s then rw_X else 0)" "rw_readers s AND NOT rw_X = of_nat (n_readers n s)" 
    "\<not> held s \<Longrightarrow> rw_readers s = of_nat (n_readers n s)" using r w by auto
  have "of_nat (n_readers n s) \<noteq> rw_X" using w(1,7) by force
  then show "rw_readers s = rw_X \<longleftrightarrow> held s \<and> n_readers n s = 0" using r w by auto
qed

lemma passed_owns: "passed p \<Longrightarrow> owns p \<or> away p"
  by (cases p) auto

lemma local_inv_away: "local_inv w r p \<Longrightarrow> away p \<Longrightarrow> w"
  by (cases p) auto

lemma local_inv_mono:
  "local_inv w r p \<Longrightarrow> (away p \<Longrightarrow> w \<Longrightarrow> w') \<Longrightarrow> (owns p \<Longrightarrow> has_X p \<Longrightarrow> r' \<le> r) \<Longrightarrow> local_inv w' r' p"
  by (cases p) auto

lemma counted_not_X: "counted p \<Longrightarrow> \<not> has_X p"
  by (cases p) auto

text \<open>A move of one thread: what has to be checked where it goes to.\<close>

lemma rw_inv_move:
  assumes "rw_inv n s" "t < n" "s' = goto t p s0" "rw_pc s0 = rw_pc s"
    and mtx: "owns p = (rw_mtx s' = Some t)" "\<And>u. u \<noteq> t \<Longrightarrow> (rw_mtx s' = Some u) = (rw_mtx s = Some u)"
    and loc: "local_inv (rw_waiting s') (n_readers n s') p"
    and more: "\<not> counted (rw_pc s t) \<Longrightarrow> counted p \<Longrightarrow> owns (rw_pc s t) \<or> \<not> held s"
    and clear: "rw_waiting s \<Longrightarrow> \<not> rw_waiting s' \<Longrightarrow> passed (rw_pc s t) \<and> \<not> away (rw_pc s t)"
    and word: "rw_readers s' = of_nat (n_readers n s') + (if if owns p then has_X p else held s \<and> \<not> owns (rw_pc s t) then rw_X else 0)"
    and aw: "away p \<Longrightarrow> passed (rw_pc s t) \<and> owns (rw_pc s t) \<or> away (rw_pc s t)"
    and pass: "passed p \<Longrightarrow> passed (rw_pc s t) \<or> \<not> rw_waiting s"
    and stay: "rw_waiting s' \<Longrightarrow> passed (rw_pc s t) \<longrightarrow> passed p" "rw_waiting s' \<Longrightarrow> rw_waiting s \<or> passed p"
  shows "rw_inv n s'"
proof -
  note i = assms(1) [unfolded rw_inv_def]
  have pc: "rw_pc s' = (rw_pc s)(t := p)" using assms(3,4) by simp
  have own: "owns (rw_pc s u) = (rw_mtx s = Some u)" for u using i by blast
  have uniq: "away (rw_pc s u) \<Longrightarrow> passed (rw_pc s v) \<Longrightarrow> u = v" for u v using i by blast
  have li: "local_inv (rw_waiting s) (n_readers n s) (rw_pc s u)" for u using i by blast
  have h: "held s' = (if owns p then has_X p else held s \<and> \<not> owns (rw_pc s t))"
    using mtx pc own [of t] by (cases "rw_mtx s'"; cases "rw_mtx s") (auto simp: held_def split: if_splits)
  have l: "local_inv (rw_waiting s') (n_readers n s') (rw_pc s u)" if u: "u \<noteq> t" for u
  proof (rule local_inv_mono [OF li])
    show "rw_waiting s'" if "away (rw_pc s u)" "rw_waiting s" using clear that uniq [of u t] u by blast
    show "n_readers n s' \<le> n_readers n s" if "owns (rw_pc s u)" "has_X (rw_pc s u)"
    proof -
      have "held s" "\<not> owns (rw_pc s t)" using own u that by (auto simp: held_def)
      then show ?thesis using more n_readers_goto [OF assms(2) pc] by auto
    qed
  qed
  have free: "\<not> passed (rw_pc s v)" if "away p" "v \<noteq> t" for v
    using aw [OF that(1)] that(2) uniq [of v t] uniq [of t v] passed_owns [of "rw_pc s v"] own [of v] own [of t] by auto
  have quiet: "\<not> away (rw_pc s u)" if "passed p" "u \<noteq> t" for u
    using pass [OF that(1)] that(2) uniq [of u t] local_inv_away [OF li [of u]] by auto
  show ?thesis unfolding rw_inv_def
  proof (intro conjI allI impI)
    show "rw_pc s' u = Idle" if "n \<le> u" for u using i assms(2) pc that by auto
    show "owns (rw_pc s' u) = (rw_mtx s' = Some u)" for u using own mtx pc by auto
    show "local_inv (rw_waiting s') (n_readers n s') (rw_pc s' u)" for u using l loc pc by auto
    show "rw_readers s' = of_nat (n_readers n s') + (if held s' then rw_X else 0)" using word h by simp
    show "u = v" if "away (rw_pc s' u) \<and> passed (rw_pc s' v)" for u v
      using that free [of v] quiet [of u] uniq [of u v] pc by (auto split: if_splits)
    show "\<exists>u. passed (rw_pc s' u)" if w: "rw_waiting s'"
    proof (cases "passed p")
      case True then show ?thesis using pc by (intro exI [of _ t]) simp
    next
      case False
      then obtain u where "passed (rw_pc s u)" using stay(2) [OF w] i by blast
      then show ?thesis using stay(1) [OF w] False pc by (intro exI [of _ u]) auto
    qed
  qed
qed

lemma rw_step_inv:
  assumes "rw_step False t s s'" "rw_inv n s" "t < n" "n < 2 ^ 31"
  shows "rw_inv n s'"
proof -
  have own: "owns (rw_pc s u) = (rw_mtx s = Some u)" for u using assms(2) by (simp add: rw_inv_def)
  have li: "local_inv (rw_waiting s) (n_readers n s) (rw_pc s t)" using assms(2) by (simp add: rw_inv_def)
  have r: "rw_readers s = of_nat (n_readers n s) + (if held s then rw_X else 0)" using assms(2) by (simp add: rw_inv_def)
  have m: "n_readers n s < 2 ^ 31" using n_readers_le [of n s] assms(4) by linarith
  have h: "owns (rw_pc s t) \<Longrightarrow> held s = has_X (rw_pc s t)" "rw_mtx s = None \<Longrightarrow> \<not> held s" using own [of t] by (auto simp: held_def)
  note pos = n_readers_pos [OF assms(3), of s]
  note rules = n_readers_goto [OF assms(3), of _ s] held_iff [OF assms(2,4)] small_word_facts [OF m]
  from assms(1) show ?thesis
    by cases ((frule rw_inv_move [OF assms(2,3)]; use own [of t] li r h pos in \<open>auto simp: rules\<close>) | simp)+
qed

lemma rw_reach_inv: "rw_reach False n s \<Longrightarrow> n < 2 ^ 31 \<Longrightarrow> rw_inv n s"
  by (induction rule: rw_reach.induct) (auto intro: rw_inv_init rw_step_inv)

section \<open>Progress\<close>

text \<open>Some call that has begun can go on.\<close>

definition can_move :: "nat \<Rightarrow> RWLock \<Rightarrow> bool" where
  "can_move n s \<longleftrightarrow> (\<exists>u s'. u < n \<and> rw_pc s u \<noteq> Idle \<and> rw_step False u s s' \<and> s' \<noteq> s)"

lemma can_moveI:
  assumes "u < n" "rw_pc s u \<noteq> Idle" "rw_step False u s (goto u p s')" "rw_pc s' = rw_pc s" "p \<noteq> rw_pc s u"
  shows "can_move n s"
proof -
  have "goto u p s' \<noteq> s" using assms(4,5) by (metis fun_upd_same goto_simps(1))
  then show ?thesis using assms(1-3) by (auto simp: can_move_def)
qed

text \<open>The owner of the mutex can go on, unless it is a writer that waits for readers; then one of them can.\<close>

lemma owner_moves:
  assumes "rw_inv n s" "n < 2 ^ 31" "rw_mtx s = Some t"
  shows "can_move n s"
proof -
  have own: "owns (rw_pc s u) = (rw_mtx s = Some u)" for u using assms(1) by (simp add: rw_inv_def)
  have li: "local_inv (rw_waiting s) (n_readers n s) (rw_pc s t)" using assms(1) by (simp add: rw_inv_def)
  have o: "owns (rw_pc s t)" using own assms(3) by simp
  have out: "rw_pc s u = Idle" if "n \<le> u" for u using assms(1) that by (simp add: rw_inv_def)
  have tn: "t < n" using out [of t] o by (cases "t < n") auto
  have "rw_pc s t \<noteq> Idle" using o by auto
  note move = can_moveI [OF tn this]
  show ?thesis
  proof (cases "rw_pc s t")
    case (WWait b lk)
    show ?thesis
    proof (cases "rw_readers s = lk")
      case True
      have "rw_readers s \<noteq> rw_X" "held s" using li WWait True assms(3) by (auto simp: held_def)
      then have "n_readers n s \<noteq> 0" using held_iff(4) [OF assms(1,2)] by simp
      then obtain u where u: "u < n" "counted (rw_pc s u)" by (auto simp: n_readers_def card_eq_0_iff)
      have "\<not> owns (rw_pc s u)" using own [of u] assms(3) u(2) WWait by auto
      then have r: "rw_pc s u = Reading" using u(2) by (cases "rw_pc s u") auto
      have "n_readers n s < 2 ^ 31" using n_readers_le [of n s] assms(2) by linarith
      then have "rw_readers s AND NOT rw_X \<noteq> 0"
        using held_iff(2) [OF assms(1,2)] small_word_facts(5) \<open>n_readers n s \<noteq> 0\<close> by simp
      then show ?thesis using u(1) r by (intro can_moveI [OF _ _ rw_step.unlock_shared]) auto
    next
      case False then show ?thesis using WWait by (intro move [OF rw_step.inner_wait]) auto
    qed
  next
    case WChk then show ?thesis by (cases "rw_waiting s") (auto intro: move [OF rw_step.lock_wait] move [OF rw_step.lock_go])
  next
    case BAfter then show ?thesis using li by (intro move [OF rw_step.after_wait]) auto
  next
    case (WAdd b) then show ?thesis by (intro move [OF rw_step.lock_add]) auto
  next
    case (WLoad b) then show ?thesis by (intro move [OF rw_step.inner_load]) auto
  qed (use o li in \<open>auto intro: move [OF rw_step.shared_add] move [OF rw_step.shared_rel] move [OF rw_step.unlock] move [OF rw_step.unlock_clear]
      move [OF rw_step.unlock_rel] move [OF rw_step.before_store] move [OF rw_step.before_rel]\<close>)
qed

lemma waiting_moves:
  assumes "rw_inv n s" "n < 2 ^ 31" "rw_mtx s = None" "rw_pc s t \<noteq> Idle"
  shows "can_move n s"
proof -
  have tn: "t < n" using assms(1,4) by (cases "t < n") (auto simp: rw_inv_def)
  have o: "\<not> owns (rw_pc s t)" using assms(1,3) by (simp add: rw_inv_def)
  note move = can_moveI [OF tn assms(4)]
  show ?thesis
  proof (cases "rw_pc s t")
    case (SCas lk)
    consider "rw_readers s = lk" | "rw_readers s \<noteq> lk" "rw_readers s AND rw_X = 0" | "rw_readers s AND rw_X \<noteq> 0" by blast
    then show ?thesis using SCas
      by cases (auto intro: move [OF rw_step.cas_ok] move [OF rw_step.cas_fail] move [OF rw_step.cas_locked])
  next
    case Reading
    have "n_readers n s \<noteq> 0" "n_readers n s < 2 ^ 31"
      using n_readers_pos [OF tn, of s] Reading n_readers_le [of n s] assms(2) by auto
    then have "rw_readers s AND NOT rw_X \<noteq> 0" using held_iff(2) [OF assms(1,2)] small_word_facts(5) by simp
    then show ?thesis using Reading by (intro move [OF rw_step.unlock_shared]) auto
  qed (use o assms(3,4) in \<open>auto intro: move [OF rw_step.shared_mtx] move [OF rw_step.lock_mtx] move [OF rw_step.lock_wake]
      move [OF rw_step.wait_ends] move [OF rw_step.wait_mtx]\<close>)
qed

section \<open>What the lock promises\<close>

text \<open>C18. The reader-writer lock is safe and does not get stuck. However the threads interleave, a thread that
  writes excludes every other writer and every reader; the assertion of \<open>shared_unlock_inner\<close> holds for
  every thread that is about to give up a read lock, and that of \<open>after_wait\<close> for every writer that comes
  back from a wait; the flag that holds other writers back is only up while a writer is in its wait or
  on its way to \<open>unlock\<close>, which clears it; and whenever a call is under way, some call can go on (a
  wait may end at any time; wake-ups are not part of this). There are fewer than 2^31 threads and none upgrades.\<close>

theorem rwlock_safe:
  assumes "rw_reach False n s" "n < 2 ^ 31"
  shows "(\<forall>t u. rw_pc s t = Writing \<and> t \<noteq> u \<longrightarrow> rw_pc s u \<noteq> Writing \<and> rw_pc s u \<noteq> Reading) \<and>
    (\<forall>t. rw_pc s t = Reading \<longrightarrow> rw_readers s AND NOT rw_X \<noteq> 0) \<and> (\<forall>t. rw_pc s t = BAfter \<longrightarrow> rw_waiting s) \<and>
    (rw_waiting s \<longrightarrow> (\<exists>t < n. passed (rw_pc s t))) \<and>
    ((\<exists>t. rw_pc s t \<noteq> Idle) \<longrightarrow> can_move n s)"
proof (intro conjI allI impI; (elim conjE exE)?)
  note inv = rw_reach_inv [OF assms]
  have own: "owns (rw_pc s u) = (rw_mtx s = Some u)" for u using inv by (simp add: rw_inv_def)
  have li: "local_inv (rw_waiting s) (n_readers n s) (rw_pc s u)" for u using inv by (simp add: rw_inv_def)
  have lt: "t < n" if "rw_pc s t \<noteq> Idle" for t using inv that by (cases "t < n") (auto simp: rw_inv_def)
  show "rw_pc s u \<noteq> Writing" if "rw_pc s t = Writing" "t \<noteq> u" for t u using own [of t] own [of u] that by auto
  show "rw_pc s u \<noteq> Reading" if "rw_pc s t = Writing" "t \<noteq> u" for t u
    using li [of t] that(1) n_readers_pos [of u n s] lt [of u] by auto
  show "rw_readers s AND NOT rw_X \<noteq> 0" if "rw_pc s t = Reading" for t
  proof -
    have "n_readers n s \<noteq> 0" "n_readers n s < 2 ^ 31"
      using n_readers_pos [of t n s] lt [of t] that n_readers_le [of n s] assms(2) by auto
    then show ?thesis using held_iff(2) [OF inv assms(2)] small_word_facts(5) by simp
  qed
  show "rw_waiting s" if "rw_pc s t = BAfter" for t using li [of t] that by simp
  show "\<exists>t < n. passed (rw_pc s t)" if w: "rw_waiting s"
  proof -
    obtain t where "passed (rw_pc s t)" using inv w by (auto simp: rw_inv_def)
    then show ?thesis using lt [of t] by force
  qed
  show "can_move n s" if "rw_pc s t \<noteq> Idle" for t
    using owner_moves [OF inv assms(2)] waiting_moves [OF inv assms(2) _ that] by (cases "rw_mtx s") auto
qed

text \<open>Two threads: one writes, the other wants to read and has found the word taken.\<close>

definition sample_lock :: RWLock where
  "sample_lock = \<lparr>rw_mtx = Some 0, rw_readers = rw_X, rw_waiting = False, rw_pc = (\<lambda>_. Idle)(1 := SMtx, 0 := Writing)\<rparr>"

lemmas rw_reach_step = rw_reach.step [OF _ _ rw_step.lock_shared] rw_reach.step [OF _ _ rw_step.cas_locked]
  rw_reach.step [OF _ _ rw_step.lock] rw_reach.step [OF _ _ rw_step.lock_mtx] rw_reach.step [OF _ _ rw_step.lock_go]
  rw_reach.step [OF _ _ rw_step.lock_add]

lemma writing_reachable: "0 < n \<Longrightarrow> rw_reach up n (mk_RWLock\<lparr>rw_mtx := Some 0, rw_readers := rw_X, rw_pc := (\<lambda>_. Idle)(0 := Writing)\<rparr>)"
proof -
  assume n: "0 < n"
  note r = rw_reach.start [of up n]
  note r = rw_reach_step(3) [OF r n]
  have "rw_reach up n (goto 0 WMtx mk_RWLock)" by (intro r) (simp add: mk_RWLock_def)
  note r = rw_reach_step(4) [OF this n]
  have "rw_reach up n (goto 0 WChk (goto 0 WMtx mk_RWLock\<lparr>rw_mtx := Some 0\<rparr>))"
    by (rule r) (simp_all add: mk_RWLock_def goto_def)
  note r = rw_reach_step(5) [OF this n]
  have "rw_reach up n (goto 0 (WAdd False) (goto 0 WChk (goto 0 WMtx mk_RWLock\<lparr>rw_mtx := Some 0\<rparr>)))"
    by (rule r) (simp_all add: mk_RWLock_def goto_def)
  note r = rw_reach_step(6) [OF this n]
  show ?thesis using r [of False] by (simp add: mk_RWLock_def goto_def)
qed

lemma sample_lock_reachable: "rw_reach False 2 sample_lock"
proof -
  let ?s = "mk_RWLock\<lparr>rw_mtx := Some 0, rw_readers := rw_X, rw_pc := (\<lambda>_. Idle)(0 := Writing)\<rparr>"
  have "rw_reach False 2 (goto 1 (SCas 0) ?s)" using rw_reach_step(1) [OF writing_reachable, of 2 1] by simp
  note r = rw_reach_step(2) [OF this, of 1 0]
  have "rw_reach False 2 (goto 1 SMtx (goto 1 (SCas 0) ?s))" by (rule r) (simp_all add: rw_X_def)
  then show ?thesis by (simp add: sample_lock_def mk_RWLock_def goto_def fun_upd_twist)
qed

theorem rwlock_safe_witness:
  "rw_reach False 2 sample_lock \<and> rw_pc sample_lock 0 = Writing \<and> rw_pc sample_lock 1 = SMtx \<and> can_move 2 sample_lock"
proof -
  have pc: "rw_pc sample_lock 0 = Writing" "rw_pc sample_lock 1 = SMtx" by (simp_all add: sample_lock_def)
  then have "\<exists>t. rw_pc sample_lock t \<noteq> Idle" by (intro exI [of _ 0]) simp
  then show ?thesis using rwlock_safe [OF sample_lock_reachable] sample_lock_reachable pc by simp
qed

text \<open>\<open>try_upgrade_to_writer\<close> returns false also when it has taken the lock: its caller holds the mutex and the
  word says that nobody reads, so giving up the read lock the caller believes to hold would fail the
  assertion of \<open>shared_unlock_inner\<close>.\<close>

lemma upgrade_returns_false_with_lock:
  "\<exists>s. rw_reach True 1 s \<and> rw_pc s 0 = Upgraded \<and> rw_mtx s = Some 0 \<and> rw_readers s AND NOT rw_X = 0"
proof -
  note r = rw_reach.start [of True 1]
  have "rw_reach True 1 (goto 0 (SCas 0) mk_RWLock)"
    using rw_reach_step(1) [OF r, of 0] by (simp add: mk_RWLock_def)
  note r = rw_reach.step [OF this _ rw_step.cas_ok, of 0 0]
  have "rw_reach True 1 (goto 0 Reading (goto 0 (SCas 0) mk_RWLock\<lparr>rw_readers := 0 + 1\<rparr>))"
    by (rule r) (simp_all add: mk_RWLock_def goto_def)
  note r = rw_reach.step [OF this _ rw_step.upgrade_mtx]
  have "rw_reach True 1 (goto 0 TDrop (goto 0 Reading (goto 0 (SCas 0) mk_RWLock\<lparr>rw_readers := 0 + 1\<rparr>)\<lparr>rw_mtx := Some 0\<rparr>))" (is "rw_reach _ _ ?s")
    by (rule r) (simp_all add: mk_RWLock_def goto_def)
  note r = rw_reach.step [OF this _ rw_step.upgrade_drop]
  have "rw_reach True 1 (goto 0 (WAdd True) (?s\<lparr>rw_readers := rw_readers ?s - 1\<rparr>))" by (rule r) (simp_all add: goto_def)
  note r = rw_reach_step(6) [OF this, of 0 True]
  show ?thesis
    by (rule exI, rule conjI [OF r]) (simp_all add: mk_RWLock_def goto_def rw_X_def)
qed

end
