(* ===== verification/Concurrent_Queue.thy ===== *)
theory Concurrent_Queue
  imports Lsmkv_Prelude
begin

text \<open>
  \<^verbatim>\<open>utils/concurrent_queue.h\<close>: the lock-free queue of background jobs, as a step relation over its
  threads. A step is one access to shared memory, in one order for all threads. The hazard pointers
  of \<^verbatim>\<open>utils/hazard_ptr.h\<close> appear as the two holders of a thread: \<open>protect\<close> loads a pointer and then stores
  it in a holder. Retired nodes are deleted by reclaimers (\<open>rc_step\<close>), which run beside the threads and
  read the holders one by one. A parameter of the runs says whose holders are on the list they walk;
  the safety of the queue has the hypothesis that it is everybody's, which \<open>Hazard_Ptr\<close> shows the code can
  break. That one order exists is an assumption too: \<open>protect\<close> stores with release order and has no fence
  before the load that checks it. Addresses of deleted nodes are not given out again.
\<close>

section \<open>The queue\<close>

datatype qop = Push nat \<comment> \<open>with the new node\<close> | Pop

datatype 'v qpc =
  QIdle
  | Load1 qop                        \<comment> \<open>\<open>get_node_and_next\<close>: loading the end of the queue\<close>
  | Store1 qop nat                   \<comment> \<open>storing it in the holder\<close>
  | Load2 qop nat                    \<comment> \<open>loading it again\<close>
  | Load3 qop nat                    \<comment> \<open>loading the successor of the node\<close>
  | Store3 qop nat "nat option"
  | Load4 qop nat "nat option"
  | Chk qop nat "nat option"         \<comment> \<open>back in the loop of \<open>push\<close> or \<open>pop\<close>: is the node still the end?\<close>
  | PushCas nat nat                  \<comment> \<open>linking the new node\<close>
  | PushHelp nat nat nat             \<comment> \<open>moving the tail that lags\<close>
  | PushSwing nat nat                \<comment> \<open>moving the tail to the new node\<close>
  | PushSize
  | PushDone
  | PopTail nat "nat option"         \<comment> \<open>comparing with the tail\<close>
  | PopHelp nat nat
  | PopNext nat "nat option"         \<comment> \<open>loading the successor once more\<close>
  | PopCas nat nat                   \<comment> \<open>moving the head\<close>
  | PopRead nat nat                  \<comment> \<open>moving the value out\<close>
  | PopRetire nat 'v
  | PopSize 'v
  | PopDone 'v
  | PopEmpty

record 'v CQueue =
  q_data :: "nat \<Rightarrow> 'v option"
  q_next :: "nat \<Rightarrow> nat option"
  q_fresh :: nat
  q_head :: nat
  q_tail :: nat
  q_size :: u64
  q_hp0 :: "nat \<Rightarrow> nat option"
  q_hp1 :: "nat \<Rightarrow> nat option"
  q_retired :: "nat list"
  q_freed :: "nat set"
  q_pc :: "nat \<Rightarrow> 'v qpc"

definition mk_CQueue :: "'v CQueue" where
  "mk_CQueue = \<lparr>q_data = (\<lambda>_. None), q_next = (\<lambda>_. None), q_fresh = 1, q_head = 0, q_tail = 0, q_size = 0,
     q_hp0 = (\<lambda>_. None), q_hp1 = (\<lambda>_. None), q_retired = [], q_freed = {}, q_pc = (\<lambda>_. QIdle)\<rparr>"

definition qgoto :: "nat \<Rightarrow> 'v qpc \<Rightarrow> 'v CQueue \<Rightarrow> 'v CQueue" where
  "qgoto t p s = s\<lparr>q_pc := (q_pc s)(t := p)\<rparr>"

text \<open>Which end \<open>get_node_and_next\<close> is given.\<close>

fun q_end :: "qop \<Rightarrow> 'v CQueue \<Rightarrow> nat" where
  "q_end (Push n) s = q_tail s"
| "q_end Pop s = q_head s"

text \<open>What a client sees: calls and returns.\<close>

datatype 'v label = Tau | CallPush 'v | RetPush | CallPop | RetPop 'v | RetEmpty

definition unmark :: "nat \<Rightarrow> 'v CQueue \<Rightarrow> 'v CQueue" where
  "unmark t s = s\<lparr>q_hp0 := (q_hp0 s)(t := None), q_hp1 := (q_hp1 s)(t := None)\<rparr>"

inductive cq_step :: "nat \<Rightarrow> 'v label \<Rightarrow> 'v CQueue \<Rightarrow> 'v CQueue \<Rightarrow> bool" for t where
  call_push: "q_pc s t = QIdle \<Longrightarrow> n = q_fresh s \<Longrightarrow> cq_step t (CallPush v) s (qgoto t (Load1 (Push n))
    (s\<lparr>q_fresh := n + 1, q_data := (q_data s)(n := Some v), q_next := (q_next s)(n := None)\<rparr>))"
| call_pop: "q_pc s t = QIdle \<Longrightarrow> cq_step t CallPop s (qgoto t (Load1 Pop) s)"
| protect_load: "q_pc s t = Load1 op \<Longrightarrow> cq_step t Tau s (qgoto t (Store1 op (q_end op s)) s)"
| protect_store: "q_pc s t = Store1 op y \<Longrightarrow> cq_step t Tau s (qgoto t (Load2 op y) (s\<lparr>q_hp0 := (q_hp0 s)(t := Some y)\<rparr>))"
| node_same: "q_pc s t = Load2 op y \<Longrightarrow> q_end op s = y \<Longrightarrow> cq_step t Tau s (qgoto t (Load3 op y) s)"
| node_moved: "q_pc s t = Load2 op y \<Longrightarrow> q_end op s \<noteq> y \<Longrightarrow> cq_step t Tau s (qgoto t (Load1 op) s)"
| next_load: "q_pc s t = Load3 op y \<Longrightarrow> cq_step t Tau s (qgoto t (Store3 op y (q_next s y)) s)"
| next_store: "q_pc s t = Store3 op y x \<Longrightarrow> cq_step t Tau s (qgoto t (Load4 op y x) (s\<lparr>q_hp1 := (q_hp1 s)(t := x)\<rparr>))"
| next_same: "q_pc s t = Load4 op y x \<Longrightarrow> q_next s y = x \<Longrightarrow> cq_step t Tau s (qgoto t (Chk op y x) s)"
| next_moved: "q_pc s t = Load4 op y x \<Longrightarrow> q_next s y \<noteq> x \<Longrightarrow> cq_step t Tau s (qgoto t (Load1 op) s)"
| chk_moved: "q_pc s t = Chk op y x \<Longrightarrow> q_end op s \<noteq> y \<Longrightarrow> cq_step t Tau s (qgoto t (Load1 op) s)"
| push_last: "q_pc s t = Chk (Push n) y None \<Longrightarrow> q_tail s = y \<Longrightarrow> cq_step t Tau s (qgoto t (PushCas n y) s)"
| push_behind: "q_pc s t = Chk (Push n) y (Some x) \<Longrightarrow> q_tail s = y \<Longrightarrow> cq_step t Tau s (qgoto t (PushHelp n y x) s)"
| link: "q_pc s t = PushCas n y \<Longrightarrow> q_next s y = None \<Longrightarrow>
    cq_step t Tau s (qgoto t (PushSwing n y) (s\<lparr>q_next := (q_next s)(y := Some n)\<rparr>))"
| link_fail: "q_pc s t = PushCas n y \<Longrightarrow> q_next s y \<noteq> None \<Longrightarrow> cq_step t Tau s (qgoto t (Load1 (Push n)) s)"
| push_help: "q_pc s t = PushHelp n y x \<Longrightarrow> q_tail s = y \<Longrightarrow> cq_step t Tau s (qgoto t (Load1 (Push n)) (s\<lparr>q_tail := x\<rparr>))"
| push_help_fail: "q_pc s t = PushHelp n y x \<Longrightarrow> cq_step t Tau s (qgoto t (Load1 (Push n)) s)"
| swing: "q_pc s t = PushSwing n y \<Longrightarrow> q_tail s = y \<Longrightarrow> cq_step t Tau s (qgoto t PushSize (s\<lparr>q_tail := n\<rparr>))"
| swing_fail: "q_pc s t = PushSwing n y \<Longrightarrow> cq_step t Tau s (qgoto t PushSize s)"
| push_size: "q_pc s t = PushSize \<Longrightarrow> cq_step t Tau s (qgoto t PushDone (s\<lparr>q_size := q_size s + 1\<rparr>))"
| ret_push: "q_pc s t = PushDone \<Longrightarrow> cq_step t RetPush s (qgoto t QIdle (unmark t s))"
| pop_front: "q_pc s t = Chk Pop y x \<Longrightarrow> q_head s = y \<Longrightarrow> cq_step t Tau s (qgoto t (PopTail y x) s)"
| pop_none: "q_pc s t = PopTail y None \<Longrightarrow> q_tail s = y \<Longrightarrow> cq_step t Tau s (qgoto t PopEmpty s)"
| pop_behind: "q_pc s t = PopTail y (Some x) \<Longrightarrow> q_tail s = y \<Longrightarrow> cq_step t Tau s (qgoto t (PopHelp y x) s)"
| pop_help: "q_pc s t = PopHelp y x \<Longrightarrow> q_tail s = y \<Longrightarrow> cq_step t Tau s (qgoto t (Load1 Pop) (s\<lparr>q_tail := x\<rparr>))"
| pop_help_fail: "q_pc s t = PopHelp y x \<Longrightarrow> cq_step t Tau s (qgoto t (Load1 Pop) s)"
| pop_more: "q_pc s t = PopTail y x \<Longrightarrow> q_tail s \<noteq> y \<Longrightarrow> cq_step t Tau s (qgoto t (PopNext y x) s)"
| pop_stale: "q_pc s t = PopNext y x \<Longrightarrow> q_next s y \<noteq> x \<Longrightarrow> cq_step t Tau s (qgoto t (Load1 Pop) s)"
| pop_current: "q_pc s t = PopNext y (Some x) \<Longrightarrow> q_next s y = Some x \<Longrightarrow> cq_step t Tau s (qgoto t (PopCas y x) s)"
| pop_cas: "q_pc s t = PopCas y x \<Longrightarrow> q_head s = y \<Longrightarrow> cq_step t Tau s (qgoto t (PopRead y x) (s\<lparr>q_head := x\<rparr>))"
| pop_cas_fail: "q_pc s t = PopCas y x \<Longrightarrow> q_head s \<noteq> y \<Longrightarrow> cq_step t Tau s (qgoto t (Load1 Pop) s)"
| pop_read: "q_pc s t = PopRead y x \<Longrightarrow> q_data s x = Some v \<Longrightarrow>
    cq_step t Tau s (qgoto t (PopRetire y v) (s\<lparr>q_data := (q_data s)(x := None)\<rparr>))"
| pop_retire: "q_pc s t = PopRetire y v \<Longrightarrow> cq_step t Tau s (qgoto t (PopSize v) (s\<lparr>q_retired := y # q_retired s\<rparr>))"
| pop_size: "q_pc s t = PopSize v \<Longrightarrow> cq_step t Tau s (qgoto t (PopDone v) (s\<lparr>q_size := q_size s - 1\<rparr>))"
| ret_pop: "q_pc s t = PopDone v \<Longrightarrow> cq_step t (RetPop v) s (qgoto t QIdle (unmark t s))"
| ret_empty: "q_pc s t = PopEmpty \<Longrightarrow> cq_step t RetEmpty s (qgoto t QIdle (unmark t s))"

text \<open>The reclaimer of \<^verbatim>\<open>utils/hazard_ptr.h\<close> (\<open>do_reclamation\<close>), which any thread may run at any time, several at
  once: it takes retired nodes off the list, then walks the holders, reading one at a time while the
  others go on, and then deletes the nodes it has not met and puts the others back. \<open>ls\<close> are the threads whose
  holders are on the list that is walked; a thread that has reserved none yet has nothing in them.\<close>

record Walk =
  w_taken :: "nat set"
  w_visited :: "(nat \<times> bool) set"   \<comment> \<open>the holders that have been read\<close>
  w_found :: "nat set"              \<comment> \<open>what was in them\<close>

definition no_walk :: Walk where
  "no_walk = \<lparr>w_taken = {}, w_visited = {}, w_found = {}\<rparr>"

inductive rc_step :: "nat list \<Rightarrow> nat \<Rightarrow> 'v CQueue \<Rightarrow> (nat \<Rightarrow> Walk) \<Rightarrow> 'v CQueue \<Rightarrow> (nat \<Rightarrow> Walk) \<Rightarrow> bool" for ls r where
  rc_take: "w_visited (W r) = {} \<Longrightarrow> y \<in> set (q_retired s) \<Longrightarrow> \<forall>r'. y \<notin> w_taken (W r') \<Longrightarrow>
    rc_step ls r s W s (W(r := (W r)\<lparr>w_taken := insert y (w_taken (W r))\<rparr>))"
| rc_visit0: "u \<in> set ls \<Longrightarrow> rc_step ls r s W s
    (W(r := (W r)\<lparr>w_visited := insert (u, False) (w_visited (W r)), w_found := w_found (W r) \<union> set_option (q_hp0 s u)\<rparr>))"
| rc_visit1: "u \<in> set ls \<Longrightarrow> rc_step ls r s W s
    (W(r := (W r)\<lparr>w_visited := insert (u, True) (w_visited (W r)), w_found := w_found (W r) \<union> set_option (q_hp1 s u)\<rparr>))"
| rc_delete: "set ls \<times> UNIV \<subseteq> w_visited (W r) \<Longrightarrow> y \<in> w_taken (W r) \<Longrightarrow> y \<notin> w_found (W r) \<Longrightarrow>
    rc_step ls r s W (s\<lparr>q_retired := remove1 y (q_retired s), q_freed := insert y (q_freed s)\<rparr>)
      (W(r := (W r)\<lparr>w_taken := w_taken (W r) - {y}\<rparr>))"
| rc_keep: "set ls \<times> UNIV \<subseteq> w_visited (W r) \<Longrightarrow> y \<in> w_taken (W r) \<Longrightarrow> y \<in> w_found (W r) \<Longrightarrow>
    rc_step ls r s W s (W(r := (W r)\<lparr>w_taken := w_taken (W r) - {y}\<rparr>))"
| rc_end: "w_taken (W r) = {} \<Longrightarrow> rc_step ls r s W s (W(r := no_walk))"

text \<open>Runs of \<open>n\<close> threads and any number of reclaimers, with the calls and returns so far.\<close>

inductive cq_run :: "nat \<Rightarrow> nat list \<Rightarrow> (nat \<times> 'v label) list \<Rightarrow> 'v CQueue \<Rightarrow> (nat \<Rightarrow> Walk) \<Rightarrow> bool" for n ls where
  start: "cq_run n ls [] mk_CQueue (\<lambda>_. no_walk)"
| step: "cq_run n ls tr s W \<Longrightarrow> t < n \<Longrightarrow> cq_step t l s s' \<Longrightarrow> cq_run n ls (if l = Tau then tr else tr @ [(t, l)]) s' W"
| reclaim: "cq_run n ls tr s W \<Longrightarrow> rc_step ls r s W s' W' \<Longrightarrow> cq_run n ls tr s' W'"

text \<open>The destructor, which runs when no other thread uses the queue: the private \<open>pop\<close> until it finds nothing, and
  retiring the last node. A failed exchange is retried with the same values.\<close>

partial_function (option) pop_alone :: "'v CQueue \<Rightarrow> (bool \<times> 'v CQueue) option" where
  "pop_alone s = (let head = q_head s; next = q_next s head in
     if head = q_tail s then (case next of None \<Rightarrow> Some (False, s) | Some x \<Rightarrow> pop_alone (s\<lparr>q_tail := x\<rparr>))
     else (case next of None \<Rightarrow> None
       | Some x \<Rightarrow> Some (True, s\<lparr>q_head := x, q_retired := head # q_retired s, q_size := q_size s - 1\<rparr>)))"

partial_function (option) pop_all :: "'v CQueue \<Rightarrow> 'v CQueue option" where
  "pop_all s = (case pop_alone s of None \<Rightarrow> None | Some (again, s') \<Rightarrow> if again then pop_all s' else Some s')"

definition cq_destroy :: "'v CQueue \<Rightarrow> 'v CQueue option" where
  "cq_destroy s = map_option (\<lambda>s'. s'\<lparr>q_retired := q_head s' # q_retired s'\<rparr>) (pop_all s)"

text \<open>The nodes a thread reads or writes in its next step.\<close>

fun derefs :: "'v qpc \<Rightarrow> nat list" where
  "derefs (Load3 op y) = [y]" | "derefs (Load4 op y x) = [y]" | "derefs (PushCas n y) = [y]" | "derefs (PopNext y x) = [y]"
| "derefs (PopRead y x) = [x]" | "derefs _ = []"

section \<open>What a queue promises\<close>

text \<open>Each call takes effect in one step between its call and its return. A \<open>pop\<close> that finds nothing needs the
  queue to have been empty at some time in between; a thread that pops remembers whether it has been.\<close>

datatype 'v status = SIdle | SPushing 'v | SPushed | SPopping bool | SPopped 'v

record 'v queue_spec =
  sq :: "'v list"
  st :: "nat \<Rightarrow> 'v status"

fun note_empty :: "bool \<Rightarrow> 'v status \<Rightarrow> 'v status" where
  "note_empty b (SPopping e) = SPopping (e \<or> b)"
| "note_empty b x = x"

inductive spec_step :: "nat \<Rightarrow> 'v label \<Rightarrow> 'v queue_spec \<Rightarrow> 'v queue_spec \<Rightarrow> bool" for t where
  s_stutter: "spec_step t Tau A A"
| s_call_push: "st A t = SIdle \<Longrightarrow> spec_step t (CallPush v) A (A\<lparr>st := (st A)(t := SPushing v)\<rparr>)"
| s_push: "st A t = SPushing v \<Longrightarrow> spec_step t Tau A (A\<lparr>sq := sq A @ [v], st := (st A)(t := SPushed)\<rparr>)"
| s_ret_push: "st A t = SPushed \<Longrightarrow> spec_step t RetPush A (A\<lparr>st := (st A)(t := SIdle)\<rparr>)"
| s_call_pop: "st A t = SIdle \<Longrightarrow> spec_step t CallPop A (A\<lparr>st := (st A)(t := SPopping (sq A = []))\<rparr>)"
| s_pop: "st A t = SPopping e \<Longrightarrow> sq A = v # vs \<Longrightarrow>
    spec_step t Tau A \<lparr>sq = vs, st = (\<lambda>u. if u = t then SPopped v else note_empty (vs = []) (st A u))\<rparr>"
| s_ret_pop: "st A t = SPopped v \<Longrightarrow> spec_step t (RetPop v) A (A\<lparr>st := (st A)(t := SIdle)\<rparr>)"
| s_ret_empty: "st A t = SPopping True \<Longrightarrow> spec_step t RetEmpty A (A\<lparr>st := (st A)(t := SIdle)\<rparr>)"

inductive spec_run :: "(nat \<times> 'v label) list \<Rightarrow> 'v queue_spec \<Rightarrow> bool" where
  s_start: "spec_run [] \<lparr>sq = [], st = (\<lambda>_. SIdle)\<rparr>"
| s_step: "spec_run tr A \<Longrightarrow> spec_step t l A A' \<Longrightarrow> spec_run (if l = Tau then tr else tr @ [(t, l)]) A'"

section \<open>The simulation relation\<close>

text \<open>\<open>c\<close> is the list of all nodes that have been linked, in order; the head is at \<open>h\<close> and the tail at \<open>k\<close>.\<close>

definition before :: "nat list \<Rightarrow> nat \<Rightarrow> nat \<Rightarrow> bool" where
  "before c m y \<longleftrightarrow> (\<exists>i. i < m \<and> i < length c \<and> c ! i = y)"

definition chain :: "nat list \<Rightarrow> nat \<Rightarrow> nat \<Rightarrow> 'v CQueue \<Rightarrow> bool" where
  "chain c h k s \<longleftrightarrow> distinct c \<and> (\<forall>i. Suc i < length c \<longrightarrow> q_next s (c ! i) = Some (c ! Suc i)) \<and> q_next s (last c) = None \<and>
     (\<forall>y \<in> set c. y < q_fresh s) \<and> h \<le> k \<and> k < length c \<and> length c \<le> k + 2 \<and> q_head s = c ! h \<and> q_tail s = c ! k \<and>
     (\<forall>i. h < i \<and> i < length c \<longrightarrow> q_data s (c ! i) \<noteq> None) \<and>
     (\<forall>y \<in> set (q_retired s) \<union> q_freed s. before c h y) \<and> distinct (q_retired s) \<and> set (q_retired s) \<inter> q_freed s = {}"

text \<open>What is known of a thread where it stands.\<close>

fun op_ok :: "nat list \<Rightarrow> 'v CQueue \<Rightarrow> 'v status \<Rightarrow> qop \<Rightarrow> bool" where
  "op_ok c s a (Push n) \<longleftrightarrow> n \<notin> set c \<and> n < q_fresh s \<and> q_next s n = None \<and> (\<exists>v. a = SPushing v \<and> q_data s n = Some v)"
| "op_ok c s a Pop \<longleftrightarrow> (\<exists>e. a = SPopping e)"

definition seen :: "nat list \<Rightarrow> nat \<Rightarrow> 'v CQueue \<Rightarrow> nat \<Rightarrow> nat \<Rightarrow> bool" where
  "seen c m s t y \<longleftrightarrow> before c (Suc m) y \<and> q_hp0 s t = Some y \<and> y \<notin> q_freed s"

definition succ :: "'v CQueue \<Rightarrow> nat \<Rightarrow> nat option \<Rightarrow> bool" where
  "succ s y x \<longleftrightarrow> (\<forall>z. x = Some z \<longrightarrow> q_next s y = Some z)"

definition safe :: "'v CQueue \<Rightarrow> nat \<Rightarrow> nat option \<Rightarrow> bool" where
  "safe s t x \<longleftrightarrow> (\<forall>z. x = Some z \<longrightarrow> q_hp1 s t = Some z \<and> z \<notin> q_freed s)"

definition gone :: "nat list \<Rightarrow> nat \<Rightarrow> 'v CQueue \<Rightarrow> nat \<Rightarrow> bool" where
  "gone c h s y \<longleftrightarrow> before c h y \<and> y \<notin> set (q_retired s) \<union> q_freed s"

fun bound :: "qop \<Rightarrow> nat \<Rightarrow> nat \<Rightarrow> nat" where
  "bound (Push n) h k = k" | "bound Pop h k = h"

fun thr :: "nat list \<Rightarrow> nat \<Rightarrow> nat \<Rightarrow> 'v CQueue \<Rightarrow> nat \<Rightarrow> 'v status \<Rightarrow> 'v qpc \<Rightarrow> bool" where
  "thr c h k s t a QIdle \<longleftrightarrow> a = SIdle"
| "thr c h k s t a (Load1 op) \<longleftrightarrow> op_ok c s a op"
| "thr c h k s t a (Store1 op y) \<longleftrightarrow> op_ok c s a op"
| "thr c h k s t a (Load2 op y) \<longleftrightarrow> op_ok c s a op \<and> q_hp0 s t = Some y"
| "thr c h k s t a (Load3 op y) \<longleftrightarrow> op_ok c s a op \<and> seen c (bound op h k) s t y"
| "thr c h k s t a (Store3 op y x) \<longleftrightarrow> op_ok c s a op \<and> seen c (bound op h k) s t y \<and> succ s y x"
| "thr c h k s t a (Load4 op y x) \<longleftrightarrow> op_ok c s a op \<and> seen c (bound op h k) s t y \<and> succ s y x \<and> q_hp1 s t = x"
| "thr c h k s t a (Chk op y x) \<longleftrightarrow> op_ok c s a op \<and> seen c (bound op h k) s t y \<and> succ s y x \<and> q_hp1 s t = x \<and>
     (op = Pop \<and> x = None \<and> q_head s = y \<longrightarrow> a = SPopping True)"
| "thr c h k s t a (PushCas n y) \<longleftrightarrow> op_ok c s a (Push n) \<and> seen c k s t y"
| "thr c h k s t a (PushHelp n y x) \<longleftrightarrow> op_ok c s a (Push n) \<and> before c (Suc k) y \<and> q_next s y = Some x"
| "thr c h k s t a (PushSwing n y) \<longleftrightarrow> a = SPushed \<and> before c (Suc k) y \<and> q_next s y = Some n"
| "thr c h k s t a PushSize \<longleftrightarrow> a = SPushed"
| "thr c h k s t a PushDone \<longleftrightarrow> a = SPushed"
| "thr c h k s t a (PopTail y x) \<longleftrightarrow> (\<exists>e. a = SPopping e) \<and> seen c h s t y \<and> succ s y x \<and> safe s t x \<and> (x = None \<longrightarrow> a = SPopping True)"
| "thr c h k s t a (PopHelp y x) \<longleftrightarrow> (\<exists>e. a = SPopping e) \<and> before c (Suc k) y \<and> q_next s y = Some x"
| "thr c h k s t a (PopNext y x) \<longleftrightarrow> (\<exists>e. a = SPopping e) \<and> seen c h s t y \<and> before c k y \<and> succ s y x \<and> safe s t x"
| "thr c h k s t a (PopCas y x) \<longleftrightarrow> (\<exists>e. a = SPopping e) \<and> before c k y \<and> q_next s y = Some x \<and> safe s t (Some x)"
| "thr c h k s t a (PopRead y x) \<longleftrightarrow> (\<exists>v. a = SPopped v \<and> q_data s x = Some v) \<and> gone c h s y \<and> q_next s y = Some x \<and> safe s t (Some x)"
| "thr c h k s t a (PopRetire y v) \<longleftrightarrow> a = SPopped v \<and> gone c h s y"
| "thr c h k s t a (PopSize v) \<longleftrightarrow> a = SPopped v"
| "thr c h k s t a (PopDone v) \<longleftrightarrow> a = SPopped v"
| "thr c h k s t a PopEmpty \<longleftrightarrow> a = SPopping True"

text \<open>The nodes a thread relies on, one for each of its holders: it has stored the node there and found it still
  in the queue afterwards.\<close>

fun held0 :: "'v qpc \<Rightarrow> nat option" where
  "held0 (Load3 op y) = Some y" | "held0 (Store3 op y x) = Some y" | "held0 (Load4 op y x) = Some y" | "held0 (Chk op y x) = Some y"
| "held0 (PushCas n y) = Some y" | "held0 (PopTail y x) = Some y" | "held0 (PopNext y x) = Some y" | "held0 _ = None"

fun held1 :: "'v qpc \<Rightarrow> nat option" where
  "held1 (PopTail y x) = x" | "held1 (PopNext y x) = x" | "held1 (PopCas y x) = Some x" | "held1 (PopRead y x) = Some x" | "held1 _ = None"

text \<open>Nodes that belong to one thread: the one it is about to link, and the one it has unlinked.\<close>

fun new_node :: "qop \<Rightarrow> nat option" where
  "new_node (Push n) = Some n" | "new_node Pop = None"

fun mine :: "'v qpc \<Rightarrow> nat option" where
  "mine (Load1 op) = new_node op" | "mine (Store1 op y) = new_node op" | "mine (Load2 op y) = new_node op" | "mine (Load3 op y) = new_node op"
| "mine (Store3 op y x) = new_node op" | "mine (Load4 op y x) = new_node op" | "mine (Chk op y x) = new_node op"
| "mine (PushCas n y) = Some n" | "mine (PushHelp n y x) = Some n" | "mine _ = None"

fun unlinked :: "'v qpc \<Rightarrow> nat option" where
  "unlinked (PopRead y x) = Some y" | "unlinked (PopRetire y v) = Some y" | "unlinked _ = None"

definition one_each :: "('b \<Rightarrow> nat option) \<Rightarrow> (nat \<Rightarrow> 'b) \<Rightarrow> bool" where
  "one_each f pc \<longleftrightarrow> (\<forall>t u n. f (pc t) = Some n \<and> f (pc u) = Some n \<longrightarrow> t = u)"

definition rel :: "nat list \<Rightarrow> nat \<Rightarrow> nat \<Rightarrow> 'v CQueue \<Rightarrow> 'v queue_spec \<Rightarrow> bool" where
  "rel c h k s A \<longleftrightarrow> chain c h k s \<and> (\<forall>t. thr c h k s t (st A t) (q_pc s t)) \<and> one_each mine (q_pc s) \<and> one_each unlinked (q_pc s) \<and>
     sq A = map (\<lambda>y. the (q_data s y)) (drop (Suc h) c) \<and> (sq A = [] \<longrightarrow> (\<forall>t. st A t \<noteq> SPopping False))"

section \<open>What other threads do\<close>

lemma before_mono: "before c m y \<Longrightarrow> m \<le> m' \<Longrightarrow> before (c @ ys) m' y"
  by (auto simp: before_def nth_append intro: less_le_trans)

lemma before_index: "distinct c \<Longrightarrow> before c m (c ! i) \<Longrightarrow> i < length c \<Longrightarrow> i < m"
  by (auto simp: before_def nth_eq_iff_index_eq)

lemma bound_mono: "h \<le> h' \<Longrightarrow> k \<le> k' \<Longrightarrow> bound op h k \<le> bound op h' k'"
  by (cases op) auto

lemma note_empty_simps [simp]:
  "note_empty b a = SIdle \<longleftrightarrow> a = SIdle" "note_empty b a = SPushing v \<longleftrightarrow> a = SPushing v" "note_empty b a = SPushed \<longleftrightarrow> a = SPushed"
  "note_empty b a = SPopped v \<longleftrightarrow> a = SPopped v" "note_empty b a = SPopping False \<longleftrightarrow> a = SPopping False \<and> \<not> b"
  by (cases a; auto)+

lemma note_empty_False [simp]: "note_empty False a = a"
  by (cases a) auto

text \<open>The shared state moves on: nodes are added at the end, the ends move forward, and nothing a thread
  depends on is taken away.\<close>

definition moves_on :: "nat list \<Rightarrow> nat list \<Rightarrow> nat \<Rightarrow> nat \<Rightarrow> nat \<Rightarrow> nat \<Rightarrow> 'v CQueue \<Rightarrow> 'v CQueue \<Rightarrow> nat \<Rightarrow> 'v qpc \<Rightarrow> bool" where
  "moves_on c ys h h' k k' s s' u p \<longleftrightarrow> h \<le> h' \<and> k \<le> k' \<and> q_fresh s \<le> q_fresh s' \<and> q_hp0 s' u = q_hp0 s u \<and> q_hp1 s' u = q_hp1 s u \<and>
     (\<forall>n. mine p = Some n \<longrightarrow> n \<notin> set ys \<and> q_data s' n = q_data s n \<and> q_next s' n = q_next s n) \<and>
     (\<forall>y. y \<in> q_freed s' \<longrightarrow> y \<in> q_freed s \<or> held0 p \<noteq> Some y \<and> held1 p \<noteq> Some y) \<and>
     (\<forall>y \<in> set c. \<forall>z. q_next s y = Some z \<longrightarrow> q_next s' y = Some z) \<and>
     (\<forall>y. unlinked p = Some y \<and> y \<notin> set (q_retired s) \<union> q_freed s \<longrightarrow> y \<notin> set (q_retired s') \<union> q_freed s') \<and>
     (\<forall>y x. p = PopRead y x \<and> y \<in> set c \<and> q_next s y = Some x \<longrightarrow> q_data s' x = q_data s x)"

lemma op_ok_mono:
  assumes "op_ok c s a op" "q_fresh s \<le> q_fresh s'" "\<forall>n. new_node op = Some n \<longrightarrow> n \<notin> set ys \<and> q_data s' n = q_data s n \<and> q_next s' n = q_next s n"
  shows "op_ok (c @ ys) s' (note_empty b a) op"
  using assms by (cases op) auto

lemma seen_mono:
  "seen c m s u y \<Longrightarrow> held0 p = Some y \<Longrightarrow> moves_on c ys h h' k k' s s' u p \<Longrightarrow> m \<le> m' \<Longrightarrow> seen (c @ ys) m' s' u y"
  using before_mono [of c "Suc m" y "Suc m'" ys] by (auto simp: seen_def moves_on_def)

lemma safe_mono: "safe s u x \<Longrightarrow> held1 p = x \<Longrightarrow> moves_on c ys h h' k k' s s' u p \<Longrightarrow> safe s' u x"
  by (auto simp: safe_def moves_on_def)

lemma before_set: "before c m y \<Longrightarrow> y \<in> set c"
  by (auto simp: before_def)

lemma succ_mono: "succ s y x \<Longrightarrow> y \<in> set c \<Longrightarrow> moves_on c ys h h' k k' s s' u p \<Longrightarrow> succ s' y x"
  by (auto simp: succ_def moves_on_def)

lemma gone_mono: "gone c h s y \<Longrightarrow> unlinked p = Some y \<Longrightarrow> moves_on c ys h h' k k' s s' u p \<Longrightarrow> gone (c @ ys) h' s' y"
  using before_mono [of c h y h' ys] by (auto simp: gone_def moves_on_def)

lemma thr_mono:
  assumes t: "thr c h k s u a p" and m: "moves_on c ys h h' k k' s s' u p"
    and ends: "q_head s = c ! h" "h < length c" "q_head s' = (c @ ys) ! h'" "h' < length (c @ ys)" "distinct (c @ ys)"
  shows "thr (c @ ys) h' k' s' u (note_empty b a) p"
proof -
  have le: "h \<le> h'" "k \<le> k'" "q_fresh s \<le> q_fresh s'" using m by (auto simp: moves_on_def)
  have o: "op_ok (c @ ys) s' (note_empty b a) op" if "op_ok c s a op" "mine p = new_node op" for op
    using op_ok_mono [OF that(1), of s' ys b] m that(2) by (auto simp: moves_on_def)
  have sn: "seen (c @ ys) m' s' u y \<and> y \<in> set c" if "seen c m0 s u y" "m0 \<le> m'" "held0 p = Some y" for y m0 m'
    using seen_mono [OF that(1,3) m that(2)] that(1) before_set by (auto simp: seen_def)
  have nx: "q_next s' y = Some x" if "before c m0 y" "q_next s y = Some x" for y x m0
    using m that before_set [OF that(1)] by (auto simp: moves_on_def)
  have bd: "bound op h k \<le> bound op h' k'" for op using le(1,2) by (rule bound_mono)
  have hd: "q_head s = y" if y: "before c (Suc h) y" "q_head s' = y" for y
  proof -
    obtain i where i: "i \<le> h" "i < length c" "c ! i = y" using y(1) by (auto simp: before_def less_Suc_eq_le)
    then have "(c @ ys) ! i = (c @ ys) ! h'" using ends(3) y(2) by (simp add: nth_append)
    then have "i = h'" using ends(4,5) i(2) nth_eq_iff_index_eq [OF ends(5), of i h'] by simp
    then show ?thesis using i le ends(1) by simp
  qed
  have sf: "safe s u x \<Longrightarrow> held1 p = x \<Longrightarrow> safe s' u x" for x using safe_mono [OF _ _ m] .
  have sc: "succ s y x \<Longrightarrow> y \<in> set c \<Longrightarrow> succ s' y x" for y x using succ_mono [OF _ _ m] .
  have gn: "gone c h s y \<Longrightarrow> unlinked p = Some y \<Longrightarrow> gone (c @ ys) h' s' y" for y using gone_mono [OF _ _ m] .
  have hp: "q_hp0 s' u = q_hp0 s u" "q_hp1 s' u = q_hp1 s u" using m by (auto simp: moves_on_def)
  show ?thesis
  proof (cases p)
    case (Chk op y x)
    show ?thesis unfolding Chk thr.simps
    proof (intro conjI impI; (elim conjE)?)
      show "note_empty b a = SPopping True" if "op = Pop" "x = None" "q_head s' = y"
        using t hd [of y] that Chk by (auto simp: seen_def)
    qed (use t Chk o sn [OF _ bd] sc hp in auto)
  next
    case (PopNext y x) then show ?thesis using t sn [OF _ le(1)] sc sf before_mono [OF _ le(2)] by auto
  next
    case (PopTail y x) then show ?thesis using t sn [OF _ le(1)] sc sf by auto
  next
    case (PopRead y x) then show ?thesis using t gn sf nx m by (auto simp: gone_def moves_on_def dest: before_set)
  next
    case (PopCas y x) then show ?thesis using t sf nx before_mono [OF _ le(2)] by auto
  next
    case (PushSwing n y) then show ?thesis using t nx before_mono [of c "Suc k" _ "Suc k'"] le by auto
  next
    case (PushHelp n y x) then show ?thesis using t o [of "Push n"] nx before_mono [of c "Suc k" _ "Suc k'"] le by auto
  next
    case (PopHelp y x) then show ?thesis using t nx before_mono [of c "Suc k" _ "Suc k'"] le by auto
  next
    case (PushCas n y) then show ?thesis using t o [of "Push n"] sn [OF _ le(2)] by auto
  qed (use t o sn [OF _ bd] sc gn hp in auto)
qed

section \<open>One step\<close>

lemma qgoto_simps [simp]:
  "q_pc (qgoto t p s) = (q_pc s)(t := p)" "q_data (qgoto t p s) = q_data s" "q_next (qgoto t p s) = q_next s"
  "q_fresh (qgoto t p s) = q_fresh s" "q_head (qgoto t p s) = q_head s" "q_tail (qgoto t p s) = q_tail s"
  "q_size (qgoto t p s) = q_size s" "q_hp0 (qgoto t p s) = q_hp0 s" "q_hp1 (qgoto t p s) = q_hp1 s"
  "q_retired (qgoto t p s) = q_retired s" "q_freed (qgoto t p s) = q_freed s"
  by (simp_all add: qgoto_def)

lemma op_ok_frame [simp]:
  "op_ok c (qgoto t p s) a op = op_ok c s a op" "op_ok c (s\<lparr>q_hp0 := f\<rparr>) a op = op_ok c s a op" "op_ok c (s\<lparr>q_hp1 := f\<rparr>) a op = op_ok c s a op"
  "op_ok c (s\<lparr>q_tail := y\<rparr>) a op = op_ok c s a op" "op_ok c (s\<lparr>q_head := y\<rparr>) a op = op_ok c s a op"
  by (cases op; simp)+

lemma one_each_move:
  assumes "one_each f pc" "\<forall>n. f p = Some n \<longrightarrow> f (pc t) = Some n \<or> (\<forall>u. f (pc u) \<noteq> Some n)"
  shows "one_each f (pc(t := p))"
  using assms unfolding one_each_def by (auto split: if_splits)

text \<open>A step of \<open>t\<close>: what has to be checked of the shared state, of \<open>t\<close>, and of the others.\<close>

lemma rel_move:
  assumes r: "rel c h k s A" and c: "chain (c @ ys) h' k' s'" and pc: "q_pc s' = (q_pc s)(t := p)"
    and st: "\<And>u. u \<noteq> t \<Longrightarrow> st A' u = note_empty b (st A u)" and t: "thr (c @ ys) h' k' s' t (st A' t) p"
    and m: "\<And>u. u \<noteq> t \<Longrightarrow> moves_on c ys h h' k k' s s' u (q_pc s u)"
    and one: "\<forall>n. mine p = Some n \<longrightarrow> mine (q_pc s t) = Some n \<or> (\<forall>u. mine (q_pc s u) \<noteq> Some n)"
      "\<forall>n. unlinked p = Some n \<longrightarrow> unlinked (q_pc s t) = Some n \<or> (\<forall>u. unlinked (q_pc s u) \<noteq> Some n)"
    and sq: "sq A' = map (\<lambda>y. the (q_data s' y)) (drop (Suc h') (c @ ys))" "sq A' = [] \<Longrightarrow> \<forall>u. st A' u \<noteq> SPopping False"
  shows "rel (c @ ys) h' k' s' A'"
proof -
  have th: "thr c h k s u (st A u) (q_pc s u)" for u using r by (simp add: rel_def)
  have e: "q_head s = c ! h" "h < length c" "q_head s' = (c @ ys) ! h'" "h' < length (c @ ys)" "distinct (c @ ys)"
    using r c by (auto simp: rel_def chain_def)
  have "thr (c @ ys) h' k' s' u (st A' u) (q_pc s' u)" for u
    using thr_mono [OF th m e, of u b] st t pc by (cases "u = t") auto
  then show ?thesis using r c sq one_each_move [of mine "q_pc s" p t] one_each_move [of unlinked "q_pc s" p t] one pc by (simp add: rel_def)
qed

text \<open>Steps that only change where \<open>t\<close> is, its holders or the count.\<close>

lemma rel_local:
  assumes "rel c h k s A" "s' = qgoto t p s0"
    and "q_data s0 = q_data s" "q_next s0 = q_next s" "q_fresh s0 = q_fresh s" "q_head s0 = q_head s" "q_tail s0 = q_tail s"
      "q_retired s0 = q_retired s" "q_freed s0 = q_freed s" "q_pc s0 = q_pc s"
      "\<forall>u. u \<noteq> t \<longrightarrow> q_hp0 s0 u = q_hp0 s u \<and> q_hp1 s0 u = q_hp1 s u"
    and "thr c h k s' t a p" "sq A = [] \<Longrightarrow> a \<noteq> SPopping False"
    and "mine p = None \<or> mine p = mine (q_pc s t)" "unlinked p = None \<or> unlinked p = unlinked (q_pc s t)"
  shows "rel c h k s' (A\<lparr>st := (st A)(t := a)\<rparr>)"
proof -
  have "rel (c @ []) h k s' (A\<lparr>st := (st A)(t := a)\<rparr>)"
  proof (rule rel_move [OF assms(1), where t = t and p = p and b = False])
    show "moves_on c [] h h k k s s' u (q_pc s u)" if "u \<noteq> t" for u using assms(2-11) that by (simp add: moves_on_def)
    show "sq (A\<lparr>st := (st A)(t := a)\<rparr>) = map (\<lambda>y. the (q_data s' y)) (drop (Suc h) (c @ []))" using assms(1-3) by (simp add: rel_def)
    show "\<forall>u. st (A\<lparr>st := (st A)(t := a)\<rparr>) u \<noteq> SPopping False" if "sq (A\<lparr>st := (st A)(t := a)\<rparr>) = []"
      using assms(1,13) that by (simp add: rel_def)
  qed (use assms in \<open>auto simp: rel_def chain_def\<close>)
  then show ?thesis by simp
qed

text \<open>Facts of the chain.\<close>

lemma chain_index: "chain c h k s \<Longrightarrow> i < length c \<Longrightarrow> j < length c \<Longrightarrow> c ! i = c ! j \<longleftrightarrow> i = j"
  by (simp add: chain_def nth_eq_iff_index_eq)

lemma chain_next:
  assumes "chain c h k s" "i < length c"
  shows "q_next s (c ! i) = (if Suc i < length c then Some (c ! Suc i) else None)"
proof (cases "Suc i < length c")
  case False
  then have "i = length c - 1" "c \<noteq> []" using assms(2) by auto
  then have "c ! i = last c" by (simp add: last_conv_nth)
  then show ?thesis using assms(1) False by (simp add: chain_def)
qed (use assms in \<open>simp add: chain_def\<close>)

lemma chain_alive:
  assumes "chain c h k s" "h \<le> i" "i < length c"
  shows "c ! i \<notin> set (q_retired s)" "c ! i \<notin> q_freed s"
proof -
  have "\<not> before c h (c ! i)" using assms before_index [of c h i] by (auto simp: chain_def)
  then show "c ! i \<notin> set (q_retired s)" "c ! i \<notin> q_freed s" using assms(1) by (auto simp: chain_def)
qed

lemma chain_end:
  assumes "chain c h k s"
  shows "q_end op s = c ! bound op h k" "bound op h k < length c" "h \<le> bound op h k"
  using assms by (cases op; auto simp: chain_def)+

lemma end_seen: "chain c h k s \<Longrightarrow> q_hp0 s' t = Some (q_end op s) \<Longrightarrow> q_freed s' = q_freed s \<Longrightarrow> seen c (bound op h k) s' t (q_end op s)"
  using chain_end [of c h k s op] chain_alive(2) [of c h k s "bound op h k"] by (auto simp: seen_def before_def)

lemma head_last:
  assumes "rel c h k s A" "q_next s (q_head s) = None"
  shows "st A t \<noteq> SPopping False"
proof -
  have ch: "chain c h k s" using assms(1) by (simp add: rel_def)
  then have "length c \<le> Suc h" using chain_next [OF ch, of h] assms(2) by (auto simp: chain_def split: if_splits)
  then show ?thesis using assms(1) by (simp add: rel_def)
qed

lemma head_next_alive:
  assumes "chain c h k s" "q_next s (q_head s) = Some z"
  shows "z \<notin> set (q_retired s) \<and> z \<notin> q_freed s"
proof -
  have h: "q_head s = c ! h" "h < length c" using assms(1) by (auto simp: chain_def)
  then have "Suc h < length c" "z = c ! Suc h" using chain_next [OF assms(1) h(2)] assms(2) by (auto split: if_splits)
  then show ?thesis using chain_alive [OF assms(1), of "Suc h"] by simp
qed

lemma before_tail:
  assumes "chain c h k s" "before c (Suc h) y" "q_tail s \<noteq> y"
  shows "before c k y"
proof -
  obtain i where i: "i \<le> h" "i < length c" "c ! i = y" using assms(2) by (auto simp: before_def less_Suc_eq_le)
  moreover have "h \<le> k" "i \<noteq> k" using assms(1,3) i(3) by (auto simp: chain_def)
  ultimately show ?thesis by (auto simp: before_def intro!: exI [of _ i])
qed

lemma before_not_last:
  assumes "chain c h k s" "before c k y"
  shows "\<exists>z. q_next s y = Some z"
proof -
  obtain i where "i < k" "c ! i = y" using assms(2) by (auto simp: before_def)
  then show ?thesis using chain_next [OF assms(1), of i] assms(1) by (auto simp: chain_def)
qed

definition simulated :: "nat \<Rightarrow> 'v label \<Rightarrow> 'v CQueue \<Rightarrow> 'v queue_spec \<Rightarrow> bool" where
  "simulated t l s' A \<longleftrightarrow> (\<exists>c h k A'. spec_step t l A A' \<and> rel c h k s' A')"

lemma stays:
  assumes "rel c h k s A" "s' = qgoto t p s0"
    and "q_data s0 = q_data s" "q_next s0 = q_next s" "q_fresh s0 = q_fresh s" "q_head s0 = q_head s" "q_tail s0 = q_tail s"
      "q_retired s0 = q_retired s" "q_freed s0 = q_freed s" "q_pc s0 = q_pc s"
      "\<forall>u. u \<noteq> t \<longrightarrow> q_hp0 s0 u = q_hp0 s u \<and> q_hp1 s0 u = q_hp1 s u"
    and "thr c h k s' t (st A t) p" "mine p = None \<or> mine p = mine (q_pc s t)" "unlinked p = None \<or> unlinked p = unlinked (q_pc s t)"
  shows "simulated t Tau s' A"
proof -
  have "rel c h k s' (A\<lparr>st := (st A)(t := st A t)\<rparr>)"
    using assms by (intro rel_local [where s = s and s0 = s0 and p = p]) (auto simp: rel_def)
  then show ?thesis using s_stutter [of t A] by (auto simp: simulated_def)
qed

lemma mine_ok: "thr c h k s t a p \<Longrightarrow> mine p = Some n \<Longrightarrow> op_ok c s a (Push n)"
  by (cases p) (auto elim: new_node.elims)

lemma chain_next_in:
  assumes "chain c h k s" "y \<in> set c" "q_next s y = Some x"
  obtains i where "Suc i < length c" "c ! i = y" "c ! Suc i = x"
proof -
  obtain i where "i < length c" "c ! i = y" using assms(2) by (auto simp: in_set_conv_nth)
  then show ?thesis using chain_next [OF assms(1), of i] assms(3) that [of i] by (auto split: if_splits)
qed

lemma new_node_call:
  assumes r: "rel c h k s A" and t: "q_pc s t = QIdle" and n: "n = q_fresh s"
    and s': "s' = qgoto t (Load1 (Push n)) (s\<lparr>q_fresh := n + 1, q_data := (q_data s)(n := Some v), q_next := (q_next s)(n := None)\<rparr>)"
  shows "simulated t (CallPush v) s' A"
proof -
  have ch: "chain c h k s" and th: "\<And>u. thr c h k s u (st A u) (q_pc s u)" using r by (auto simp: rel_def)
  have nc: "n \<notin> set c" "\<And>y. y \<in> set c \<Longrightarrow> y \<noteq> n" using ch n by (auto simp: chain_def)
  have nm: "mine (q_pc s u) \<noteq> Some n" for u using mine_ok [OF th, of u n] n by auto
  have nn: "c ! i \<noteq> n" if "i < length c" for i using nc that by auto
  have sn: "x \<noteq> n" if "y \<in> set c" "q_next s y = Some x" for y x using chain_next_in [OF ch that] nc(2) by (metis nth_mem)
  let ?A = "A\<lparr>st := (st A)(t := SPushing v)\<rparr>"
  have "rel (c @ []) h k s' ?A"
  proof (rule rel_move [OF r, where t = t and p = "Load1 (Push n)" and b = False])
    have "last c \<noteq> n" using ch nc(1) by (metis chain_def last_in_set less_zeroE list.size(3))
    then show "chain (c @ []) h k s'" using ch s' n nn by (auto simp: chain_def)
    show "moves_on c [] h h k k s s' u (q_pc s u)" if "u \<noteq> t" for u
      using s' nm [of u] nc n sn unfolding moves_on_def by auto
    show "sq ?A = map (\<lambda>y. the (q_data s' y)) (drop (Suc h) (c @ []))"
      using r s' nc(2) by (auto simp: rel_def dest: in_set_dropD)
  qed (use r s' nc nm n in \<open>auto simp: rel_def\<close>)
  then show ?thesis using s_call_push [of A t v] th [of t] t by (auto simp: simulated_def)
qed

lemma tail_moves:
  assumes r: "rel c h k s A" and y: "q_tail s = y" "q_next s y = Some x" and s': "s' = qgoto t p (s\<lparr>q_tail := x\<rparr>)"
    and t: "thr c h (Suc k) s' t (st A t) p" "mine p = None \<or> mine p = mine (q_pc s t)" "unlinked p = None"
  shows "simulated t Tau s' A"
proof -
  have ch: "chain c h k s" using r by (simp add: rel_def)
  have x: "Suc k < length c" "x = c ! Suc k" using chain_next [OF ch, of k] ch y by (auto simp: chain_def split: if_splits)
  have "rel (c @ []) h (Suc k) s' A"
    by (rule rel_move [OF r, where t = t and p = p and b = False]) (use r s' t x ch in \<open>auto simp: rel_def chain_def moves_on_def\<close>)
  then show ?thesis using s_stutter [of t A] by (auto simp: simulated_def)
qed

lemma link_step:
  assumes r: "rel c h k s A" and t: "q_pc s t = PushCas n y" and y: "q_next s y = None"
    and s': "s' = qgoto t (PushSwing n y) (s\<lparr>q_next := (q_next s)(y := Some n)\<rparr>)"
  shows "simulated t Tau s' A"
proof -
  have ch: "chain c h k s" and th: "\<And>u. thr c h k s u (st A u) (q_pc s u)" using r by (auto simp: rel_def)
  obtain v where n: "n \<notin> set c" "n < q_fresh s" "q_next s n = None" "st A t = SPushing v" "q_data s n = Some v"
    and b: "before c (Suc k) y" using th [of t] t by (auto simp: seen_def)
  obtain i where i: "i \<le> k" "i < length c" "c ! i = y" using b by (auto simp: before_def less_Suc_eq_le)
  have len: "k < length c" "h < length c" using ch by (auto simp: chain_def)
  then have "length c = Suc k" "i = k" using chain_next [OF ch i(2)] i y by (auto split: if_splits)
  then have k: "length c = Suc k" "y = c ! k" using i(3) by auto
  have yn: "y \<noteq> n" using n(1) i by auto
  let ?A = "A\<lparr>sq := sq A @ [v], st := (st A)(t := SPushed)\<rparr>"
  have "rel (c @ [n]) h k s' ?A"
  proof (rule rel_move [OF r, where t = t and p = "PushSwing n y" and b = False])
    have nx: "q_next s' ((c @ [n]) ! j) = Some ((c @ [n]) ! Suc j)" if j: "Suc j < length (c @ [n])" for j
    proof (cases "j = k")
      case False
      then have "c ! j \<noteq> y" "Suc j < length c" using chain_index [OF ch, of j k] j k by auto
      then show ?thesis using ch s' by (simp add: chain_def nth_append)
    qed (use s' k in \<open>simp add: nth_append\<close>)
    show "chain (c @ [n]) h k s'"
      unfolding chain_def using nx ch s' n k yn before_mono [of c h _ h "[n]"]
      by (auto simp: chain_def nth_append less_Suc_eq)
    show "moves_on c [n] h h k k s s' u (q_pc s u)" if u: "u \<noteq> t" for u
    proof -
      have "mine (q_pc s u) \<noteq> Some n" using r t u by (auto simp: rel_def one_each_def)
      moreover have "m \<noteq> y" if "mine (q_pc s u) = Some m" for m using mine_ok [OF th that] i by auto
      ultimately show ?thesis using s' y by (auto simp: moves_on_def)
    qed
    show "sq ?A = map (\<lambda>y. the (q_data s' y)) (drop (Suc h) (c @ [n]))" using r s' n len by (simp add: rel_def)
    show "thr (c @ [n]) h k s' t (st ?A t) (PushSwing n y)" using s' before_mono [OF b, of "Suc k"] by simp
  qed (use s' in auto)
  then show ?thesis using s_push [of A t v] n(4) by (auto simp: simulated_def)
qed

lemma head_step:
  assumes r: "rel c h k s A" and t: "q_pc s t = PopCas y x" and y: "q_head s = y" and s': "s' = qgoto t (PopRead y x) (s\<lparr>q_head := x\<rparr>)"
  shows "simulated t Tau s' A"
proof -
  have ch: "chain c h k s" and th: "\<And>u. thr c h k s u (st A u) (q_pc s u)" using r by (auto simp: rel_def)
  obtain e where e: "st A t = SPopping e" and b: "before c k y" and nx: "q_next s y = Some x" and sf: "safe s t (Some x)"
    using th [of t] t by auto
  have h: "y = c ! h" "h < length c" "k < length c" "h \<le> k" using ch y by (auto simp: chain_def)
  then have hk: "h < k" using before_index [of c k h] b ch by (auto simp: chain_def)
  then have x: "Suc h < length c" "x = c ! Suc h" using chain_next [OF ch h(2)] h nx by (auto split: if_splits)
  then obtain v where v: "q_data s x = Some v" using ch by (auto simp: chain_def)
  have dr: "drop (Suc h) c = x # drop (Suc (Suc h)) c" using x by (simp add: Cons_nth_drop_Suc)
  define vs where "vs = map (\<lambda>y. the (q_data s y)) (drop (Suc (Suc h)) c)"
  have sq: "sq A = v # vs" using r v dr by (simp add: rel_def vs_def)
  define A' where "A' = \<lparr>sq = vs, st = (\<lambda>u. if u = t then SPopped v else note_empty (vs = []) (st A u))\<rparr>"
  have al: "y \<notin> set (q_retired s)" "y \<notin> q_freed s" using chain_alive [OF ch, of h] h by auto
  have bh: "before c (Suc h) z" if "before c h z" for z using before_mono [OF that, of "Suc h" "[]"] by simp
  have "rel (c @ []) (Suc h) k s' A'"
  proof (rule rel_move [OF r, where t = t and p = "PopRead y x" and b = "vs = []"])
    show "chain (c @ []) (Suc h) k s'" using ch s' hk x bh by (auto simp: chain_def)
    show "thr (c @ []) (Suc h) k s' t (st A' t) (PopRead y x)"
      using s' v nx sf al h by (auto simp: A'_def gone_def safe_def before_def intro!: exI [of _ h])
    have "unlinked (q_pc s u) \<noteq> Some y" for u
    proof
      assume "unlinked (q_pc s u) = Some y"
      then have "before c h y" using th [of u] by (cases "q_pc s u") (auto simp: gone_def)
      then show False using before_index [of c h h] h ch by (auto simp: chain_def)
    qed
    then show "\<forall>n. unlinked (PopRead y x) = Some n \<longrightarrow> unlinked (q_pc s t) = Some n \<or> (\<forall>u. unlinked (q_pc s u) \<noteq> Some n)" by simp
  qed (use s' in \<open>auto simp: A'_def vs_def moves_on_def\<close>)
  then show ?thesis using s_pop [OF e sq] by (auto simp: simulated_def A'_def)
qed

lemma read_step:
  assumes r: "rel c h k s A" and t: "q_pc s t = PopRead y x" and v: "q_data s x = Some v"
    and s': "s' = qgoto t (PopRetire y v) (s\<lparr>q_data := (q_data s)(x := None)\<rparr>)"
  shows "simulated t Tau s' A"
proof -
  have ch: "chain c h k s" and th: "\<And>u. thr c h k s u (st A u) (q_pc s u)" using r by (auto simp: rel_def)
  have g: "gone c h s y" "q_next s y = Some x" "st A t = SPopped v" using th [of t] t v by auto
  obtain i where i: "i < h" "Suc i < length c" "c ! i = y" "c ! Suc i = x"
  proof -
    obtain i where i: "Suc i < length c" "c ! i = y" "c ! Suc i = x"
      using chain_next_in [OF ch before_set [of c h] g(2)] g(1) by (auto simp: gone_def)
    moreover have "i < h" using before_index [of c h i] g(1) i ch by (auto simp: gone_def chain_def)
    ultimately show ?thesis using that by blast
  qed
  have nx: "c ! j \<noteq> x" if "h < j" "j < length c" for j using chain_index [OF ch, of j "Suc i"] that i by auto
  have "rel (c @ []) h k s' A"
  proof (rule rel_move [OF r, where t = t and p = "PopRetire y v" and b = False])
    show "chain (c @ []) h k s'" using ch s' nx by (auto simp: chain_def)
    have "z \<noteq> x" if z: "z \<in> set (drop (Suc h) c)" for z
    proof -
      obtain j where "j < length c - Suc h" "z = c ! (Suc h + j)" using z by (auto simp: in_set_conv_nth)
      then show ?thesis using nx [of "Suc h + j"] by simp
    qed
    then show "sq A = map (\<lambda>y. the (q_data s' y)) (drop (Suc h) (c @ []))" using r s' by (auto simp: rel_def)
    show "moves_on c [] h h k k s s' u (q_pc s u)" if u: "u \<noteq> t" for u
    proof -
      have "n \<noteq> x" if "mine (q_pc s u) = Some n" for n using mine_ok [OF th that] i nth_mem [of "Suc i" c] by auto
      moreover have "x' \<noteq> x" if p: "q_pc s u = PopRead y' x'" "y' \<in> set c" "q_next s y' = Some x'" for y' x'
      proof
        assume xx: "x' = x"
        obtain j where j: "Suc j < length c" "c ! j = y'" "c ! Suc j = x'" using chain_next_in [OF ch p(2,3)] by blast
        then have "y' = y" using chain_index [OF ch, of "Suc j" "Suc i"] i xx by simp
        then show False using r t p(1) u unfolding rel_def one_each_def by (metis unlinked.simps(1))
      qed
      ultimately show ?thesis using s' by (auto simp: moves_on_def)
    qed
  qed (use s' g t r in \<open>auto simp: rel_def gone_def\<close>)
  then show ?thesis using s_stutter [of t A] by (auto simp: simulated_def)
qed

lemma retire_step:
  assumes r: "rel c h k s A" and t: "q_pc s t = PopRetire y v" and s': "s' = qgoto t (PopSize v) (s\<lparr>q_retired := y # q_retired s\<rparr>)"
  shows "simulated t Tau s' A"
proof -
  have ch: "chain c h k s" and th: "thr c h k s t (st A t) (q_pc s t)" using r by (auto simp: rel_def)
  have g: "gone c h s y" "st A t = SPopped v" using th t by auto
  have "rel (c @ []) h k s' A"
  proof (rule rel_move [OF r, where t = t and p = "PopSize v" and b = False])
    show "chain (c @ []) h k s'" using ch s' g by (auto simp: chain_def gone_def)
    show "moves_on c [] h h k k s s' u (q_pc s u)" if u: "u \<noteq> t" for u
    proof -
      have "unlinked (q_pc s u) \<noteq> Some y" using r t u unfolding rel_def one_each_def by (metis unlinked.simps(2))
      then show ?thesis using s' by (auto simp: moves_on_def)
    qed
  qed (use s' g r in \<open>auto simp: rel_def\<close>)
  then show ?thesis using s_stutter [of t A] by (auto simp: simulated_def)
qed

lemma delete_step:
  assumes r: "rel c h k s A" and y: "y \<in> set (q_retired s)" "\<And>u. held0 (q_pc s u) \<noteq> Some y \<and> held1 (q_pc s u) \<noteq> Some y"
    and s': "s' = s\<lparr>q_retired := remove1 y (q_retired s), q_freed := insert y (q_freed s)\<rparr>"
  shows "rel c h k s' A"
proof -
  have ch: "chain c h k s" and th: "thr c h k s 0 (st A 0) (q_pc s 0)" using r by (auto simp: rel_def)
  have e: "q_head s = c ! h" "h < length c" "q_head s' = (c @ []) ! h" "h < length (c @ [])" "distinct (c @ [])" using ch s' by (auto simp: chain_def)
  have m: "moves_on c [] h h k k s s' u (q_pc s u)" for u using s' y by (auto simp: moves_on_def dest: notin_set_remove1)
  have "rel (c @ []) h k s' A"
  proof (rule rel_move [OF r, where t = 0 and p = "q_pc s 0" and b = False])
    show "chain (c @ []) h k s'" using ch s' y by (auto simp: chain_def set_remove1_eq)
    show "thr (c @ []) h k s' 0 (st A 0) (q_pc s 0)" using thr_mono [OF th m e, of False] by simp
  qed (use s' m r in \<open>auto simp: rel_def\<close>)
  then show ?thesis by simp
qed

lemma queue_step:
  assumes r: "rel c h k s A" and "cq_step t l s s'"
  shows "simulated t l s' A"
proof -
  have ch: "chain c h k s" using r by (simp add: rel_def)
  have th: "thr c h k s t (st A t) (q_pc s t)" using r by (simp add: rel_def)
  note [simp] = seen_def succ_def safe_def
  have ret: "rel c h k (qgoto t QIdle (unmark t s)) (A\<lparr>st := (st A)(t := SIdle)\<rparr>)"
    by (rule rel_local [OF r refl]) (auto simp: unmark_def)
  from assms(2) show ?thesis
  proof cases
    case (call_push n v) then show ?thesis using new_node_call [OF r] by blast
  next
    case call_pop
    have "rel c h k s' (A\<lparr>st := (st A)(t := SPopping (sq A = []))\<rparr>)" by (rule rel_local [OF r call_pop(2)]) auto
    then show ?thesis using s_call_pop [of A t] th call_pop by (auto simp: simulated_def)
  next
    case (node_same op y)
    show ?thesis unfolding node_same(1) using node_same th end_seen [OF ch, of s' t op] by (intro stays [OF r node_same(2)]) auto
  next
    case (next_same op y x)
    show ?thesis unfolding next_same(1) using next_same th head_last [OF r, of t] by (intro stays [OF r next_same(2)]) auto
  next
    case (pop_front y x)
    show ?thesis unfolding pop_front(1) using pop_front th head_next_alive [OF ch] by (intro stays [OF r pop_front(2)]) auto
  next
    case (pop_more y x)
    show ?thesis unfolding pop_more(1) using pop_more th before_tail [OF ch] by (intro stays [OF r pop_more(2)]) auto
  next
    case (pop_behind y x)
    have "before c (Suc k) (q_tail s)" using ch by (auto simp: chain_def before_def)
    then show ?thesis unfolding pop_behind(1) using pop_behind th by (intro stays [OF r pop_behind(2)]) auto
  next
    case (link n y) then show ?thesis using link_step [OF r] by blast
  next
    case (push_help n y x)
    show ?thesis unfolding push_help(1) using push_help th by (intro tail_moves [OF r _ _ push_help(2)]) auto
  next
    case (swing n y)
    show ?thesis unfolding swing(1) using swing th by (intro tail_moves [OF r _ _ swing(2)]) auto
  next
    case (pop_help y x)
    show ?thesis unfolding pop_help(1) using pop_help th by (intro tail_moves [OF r _ _ pop_help(2)]) auto
  next
    case ret_push then show ?thesis using ret th s_ret_push [of A t] by (auto simp: simulated_def)
  next
    case (ret_pop v) then show ?thesis using ret th s_ret_pop [of A t v] by (auto simp: simulated_def)
  next
    case ret_empty then show ?thesis using ret th s_ret_empty [of A t] by (auto simp: simulated_def)
  next
    case (pop_cas y x) then show ?thesis using head_step [OF r] by blast
  next
    case (pop_read y x v) then show ?thesis using read_step [OF r] by blast
  next
    case (pop_retire y v) then show ?thesis using retire_step [OF r] by blast
  qed (frule stays [OF r]; use th in auto)+
qed

section \<open>What the queue promises\<close>

lemma queue_start: "rel [0] 0 0 mk_CQueue \<lparr>sq = [], st = (\<lambda>_. SIdle)\<rparr>"
  by (auto simp: rel_def mk_CQueue_def chain_def one_each_def)

text \<open>What a walk knows: of the nodes it has taken and not met, none is relied on through a holder it has read.
  A thread comes to rely only on nodes of the queue, which are not retired.\<close>

definition walks_ok :: "nat \<Rightarrow> 'v CQueue \<Rightarrow> (nat \<Rightarrow> Walk) \<Rightarrow> bool" where
  "walks_ok n s W \<longleftrightarrow> (\<forall>u \<ge> n. q_pc s u = QIdle) \<and> (\<forall>r. w_taken (W r) \<subseteq> set (q_retired s)) \<and>
     (\<forall>r r' y. y \<in> w_taken (W r) \<and> y \<in> w_taken (W r') \<longrightarrow> r = r') \<and>
     (\<forall>r y u. y \<in> w_taken (W r) \<and> y \<notin> w_found (W r) \<longrightarrow>
       ((u, False) \<in> w_visited (W r) \<longrightarrow> held0 (q_pc s u) \<noteq> Some y) \<and> ((u, True) \<in> w_visited (W r) \<longrightarrow> held1 (q_pc s u) \<noteq> Some y))"

lemma held_hp:
  assumes "thr c h k s u a (q_pc s u)"
  shows "held0 (q_pc s u) = Some y \<Longrightarrow> q_hp0 s u = Some y" "held1 (q_pc s u) = Some y \<Longrightarrow> q_hp1 s u = Some y"
  using assms by (cases "q_pc s u"; auto simp: seen_def safe_def)+

lemma cq_step_frame: "cq_step t l s s' \<Longrightarrow> (\<forall>u. u \<noteq> t \<longrightarrow> q_pc s' u = q_pc s u) \<and> set (q_retired s) \<subseteq> set (q_retired s')"
  by (erule cq_step.cases) (auto simp: unmark_def)

lemma cq_step_held:
  assumes "chain c h k s" "thr c h k s t a (q_pc s t)" "cq_step t l s s'"
  shows "held0 (q_pc s' t) = Some y \<Longrightarrow> held0 (q_pc s t) = Some y \<or> y \<notin> set (q_retired s)"
    "held1 (q_pc s' t) = Some y \<Longrightarrow> held1 (q_pc s t) = Some y \<or> y \<notin> set (q_retired s)"
proof -
  have e: "q_end op s \<notin> set (q_retired s)" for op
    using chain_end [OF assms(1), of op] chain_alive(1) [OF assms(1), of "bound op h k"] by simp
  have x: "z \<notin> set (q_retired s)" if "q_next s (q_head s) = Some z" for z
    using head_next_alive [OF assms(1) that] by simp
  show "held0 (q_pc s' t) = Some y \<Longrightarrow> held0 (q_pc s t) = Some y \<or> y \<notin> set (q_retired s)"
    using assms(3) by cases (use e in auto)
  show "held1 (q_pc s' t) = Some y \<Longrightarrow> held1 (q_pc s t) = Some y \<or> y \<notin> set (q_retired s)"
    using assms(3) by cases (use x assms(2) in \<open>auto simp: succ_def\<close>)
qed

lemma walks_step:
  assumes "rel c h k s A" "walks_ok n s W" "t < n" "cq_step t l s s'"
  shows "walks_ok n s' W"
proof -
  have ct: "chain c h k s" "thr c h k s t (st A t) (q_pc s t)" using assms(1) by (auto simp: rel_def)
  have tk: "w_taken (W r) \<subseteq> set (q_retired s)" for r using assms(2) by (simp add: walks_ok_def)
  have fr: "\<forall>u. u \<noteq> t \<longrightarrow> q_pc s' u = q_pc s u" "set (q_retired s) \<subseteq> set (q_retired s')" using cq_step_frame [OF assms(4)] by auto
  have "((u, False) \<in> w_visited (W r) \<longrightarrow> held0 (q_pc s' u) \<noteq> Some y) \<and> ((u, True) \<in> w_visited (W r) \<longrightarrow> held1 (q_pc s' u) \<noteq> Some y)"
    if y: "y \<in> w_taken (W r)" "y \<notin> w_found (W r)" for r y u
  proof -
    have "((u, False) \<in> w_visited (W r) \<longrightarrow> held0 (q_pc s u) \<noteq> Some y) \<and> ((u, True) \<in> w_visited (W r) \<longrightarrow> held1 (q_pc s u) \<noteq> Some y)"
      using assms(2) y unfolding walks_ok_def by blast
    then show ?thesis using cq_step_held [OF ct assms(4), of y] fr(1) y(1) tk [of r] by (cases "u = t") auto
  qed
  moreover have "\<forall>u \<ge> n. q_pc s' u = QIdle" using assms(2,3) fr(1) by (auto simp: walks_ok_def)
  ultimately show ?thesis using assms(2) fr(2) unfolding walks_ok_def by blast
qed

lemma walks_update:
  assumes w: "walks_ok n s W" and tk: "\<And>y. y \<in> w_taken w \<Longrightarrow> y \<in> set (q_retired s) \<and> (\<forall>r'. r' \<noteq> r \<longrightarrow> y \<notin> w_taken (W r'))"
    and vis: "\<And>y u. y \<in> w_taken w \<Longrightarrow> y \<notin> w_found w \<Longrightarrow>
      ((u, False) \<in> w_visited w \<longrightarrow> held0 (q_pc s u) \<noteq> Some y) \<and> ((u, True) \<in> w_visited w \<longrightarrow> held1 (q_pc s u) \<noteq> Some y)"
  shows "walks_ok n s (W(r := w))"
  unfolding walks_ok_def
proof (intro conjI allI impI; (elim conjE)?)
  show "w_taken ((W(r := w)) r') \<subseteq> set (q_retired s)" for r' using w tk by (auto simp: walks_ok_def)
  show "r1 = r2" if "y \<in> w_taken ((W(r := w)) r1)" "y \<in> w_taken ((W(r := w)) r2)" for r1 r2 y
    using that w tk [of y] unfolding walks_ok_def by (cases "r1 = r"; cases "r2 = r"; simp; metis)
qed (use w vis in \<open>auto simp: walks_ok_def split: if_splits\<close>)

lemma walks_reclaim:
  assumes r: "rel c h k s A" and w: "walks_ok n s W" and ls: "{..<n} \<subseteq> set ls" and step: "rc_step ls r s W s' W'"
  shows "rel c h k s' A \<and> walks_ok n s' W'"
proof -
  have th: "thr c h k s u (st A u) (q_pc s u)" for u using r by (simp add: rel_def)
  have own: "y \<in> set (q_retired s) \<and> (\<forall>r'. r' \<noteq> r \<longrightarrow> y \<notin> w_taken (W r'))" if "y \<in> w_taken (W r)" for y
    using w that unfolding walks_ok_def by blast
  have old: "((u, False) \<in> w_visited (W r) \<longrightarrow> held0 (q_pc s u) \<noteq> Some y) \<and> ((u, True) \<in> w_visited (W r) \<longrightarrow> held1 (q_pc s u) \<noteq> Some y)"
    if "y \<in> w_taken (W r)" "y \<notin> w_found (W r)" for y u using w that unfolding walks_ok_def by blast
  from step show ?thesis
  proof cases
    case (rc_take y)
    show ?thesis unfolding rc_take(1,2) using rc_take(3-5) own by (intro conjI r walks_update [OF w]) auto
  next
    case (rc_visit0 u)
    show ?thesis unfolding rc_visit0(1,2) using own old held_hp(1) [OF th, of u] by (intro conjI r walks_update [OF w]) auto
  next
    case (rc_visit1 u)
    show ?thesis unfolding rc_visit1(1,2) using own old held_hp(2) [OF th, of u] by (intro conjI r walks_update [OF w]) auto
  next
    case (rc_keep y)
    show ?thesis unfolding rc_keep(1,2) using own old by (intro conjI r walks_update [OF w]) auto
  next
    case rc_end
    show ?thesis unfolding rc_end(1,2) by (intro conjI r walks_update [OF w]) (auto simp: no_walk_def)
  next
    case (rc_delete y)
    have "held0 (q_pc s u) \<noteq> Some y \<and> held1 (q_pc s u) \<noteq> Some y" for u
    proof (cases "u < n")
      case True
      then have "(u, False) \<in> w_visited (W r)" "(u, True) \<in> w_visited (W r)" using ls rc_delete(3) by auto
      then show ?thesis using old [OF rc_delete(4,5), of u] by blast
    qed (use w in \<open>simp add: walks_ok_def\<close>)
    then have "rel c h k s' A" using delete_step [OF r _ _ rc_delete(1)] own rc_delete(4) by blast
    moreover have u: "walks_ok n s W'" unfolding rc_delete(2) using own old by (intro walks_update [OF w]) auto
    moreover have "distinct (q_retired s)" using r by (simp add: rel_def chain_def)
    moreover have "y \<notin> w_taken (W' r')" for r' using own [OF rc_delete(4)] rc_delete(2) by auto
    ultimately show ?thesis using rc_delete(1) unfolding walks_ok_def by auto
  qed
qed

lemma queue_simulation:
  assumes "cq_run n ls tr s W" "{..<n} \<subseteq> set ls"
  shows "\<exists>c h k A. spec_run tr A \<and> rel c h k s A \<and> walks_ok n s W"
  using assms(1)
proof (induction rule: cq_run.induct)
  case start
  then show ?case using queue_start s_start by (fastforce simp: walks_ok_def no_walk_def mk_CQueue_def)
next
  case (step tr s W t l s') then show ?case using queue_step walks_step unfolding simulated_def by (metis s_step)
next
  case (reclaim tr s W r s' W') then show ?case using walks_reclaim [OF _ _ assms(2)] by metis
qed

lemma derefs_safe: "thr c h k s t a p \<Longrightarrow> y \<in> set (derefs p) \<Longrightarrow> y \<notin> q_freed s"
  by (cases p) (auto simp: seen_def safe_def)

lemma cq_step_enabled:
  assumes "chain c h k s" "thr c h k s t a (q_pc s t)" "q_pc s t \<noteq> QIdle"
  shows "\<exists>l s'. cq_step t l s s'"
proof (cases "q_pc s t")
  case (Load2 op y) then show ?thesis by (cases "q_end op s = y") (blast intro: cq_step.intros)+
next
  case (Load4 op y x) then show ?thesis by (cases "q_next s y = x") (blast intro: cq_step.intros)+
next
  case (Chk op y x)
  then show ?thesis by (cases "q_end op s = y"; cases op; cases x) (force intro: cq_step.intros)+
next
  case (PushCas n y) then show ?thesis by (cases "q_next s y = None") (blast intro: cq_step.intros)+
next
  case (PopTail y x) then show ?thesis by (cases "q_tail s = y"; cases x) (blast intro: cq_step.intros)+
next
  case (PopNext y x)
  then obtain z where "q_next s y = Some z" using before_not_last [OF assms(1), of y] assms(2) by auto
  then show ?thesis using PopNext by (cases "x = Some z") (force intro: cq_step.intros)+
next
  case (PopCas y x) then show ?thesis by (cases "q_head s = y") (blast intro: cq_step.intros)+
next
  case (PopRead y x) then show ?thesis using assms(2) cq_step.pop_read [OF PopRead] by auto
qed (use assms(3) in \<open>blast intro: cq_step.intros\<close>)+

text \<open>C17. The job queue is linearizable and memory-safe, provided that the holders of every thread that uses
  it are on the list the reclaimers walk (\<open>Hazard_Ptr\<close> shows that the code can lose a holder from that list, and
  then nothing is promised) and that all threads see the accesses in one order. Whatever the
  interleaving of the threads, of several reclaimers and of their walks over the holders, the calls and
  returns of the queue are those of a queue whose operations take effect at one moment between call and
  return: values come out once and in the order they were put in, and \<open>pop\<close> reports nothing only if the queue
  was empty at some moment of the call. No thread reads or writes a node that has been deleted, no node is
  retired twice, and a call that has begun can always take its next step, so the assertion that the
  successor of the head exists holds.\<close>

theorem queue_linearizable:
  assumes "cq_run n ls tr s W" and "{..<n} \<subseteq> set ls"
  shows "(\<exists>A. spec_run tr A) \<and> (\<forall>t. \<forall>y \<in> set (derefs (q_pc s t)). y \<notin> q_freed s) \<and>
    distinct (q_retired s) \<and> set (q_retired s) \<inter> q_freed s = {} \<and> (\<forall>t. q_pc s t \<noteq> QIdle \<longrightarrow> (\<exists>l s'. cq_step t l s s'))"
proof -
  obtain c h k A where sim: "spec_run tr A" "rel c h k s A" using queue_simulation [OF assms] by blast
  then have ch: "chain c h k s" and th: "thr c h k s t (st A t) (q_pc s t)" for t by (auto simp: rel_def)
  show ?thesis using sim(1) derefs_safe [OF th] ch cq_step_enabled [OF ch th] by (auto simp: chain_def)
qed

text \<open>The destructor: it ends and retires the nodes from the head on, none of which has been retired before.\<close>

definition ends_at :: "nat list \<Rightarrow> nat \<Rightarrow> nat \<Rightarrow> 'v CQueue \<Rightarrow> bool" where
  "ends_at c h k s \<longleftrightarrow> h \<le> k \<and> k < length c \<and> distinct c \<and> q_head s = c ! h \<and> q_tail s = c ! k \<and>
     (\<forall>i < length c. q_next s (c ! i) = (if Suc i < length c then Some (c ! Suc i) else None))"

lemma pop_alone_eq:
  assumes "ends_at c h k s"
  shows "Suc h < length c \<Longrightarrow> \<exists>s' k'. pop_alone s = Some (True, s') \<and> ends_at c (Suc h) k' s' \<and> q_retired s' = c ! h # q_retired s \<and> q_freed s' = q_freed s"
    "\<not> Suc h < length c \<Longrightarrow> pop_alone s = Some (False, s)"
proof -
  have e: "h \<le> k" "k < length c" "distinct c" "q_head s = c ! h" "q_tail s = c ! k"
    and nx: "\<And>i. i < length c \<Longrightarrow> q_next s (c ! i) = (if Suc i < length c then Some (c ! Suc i) else None)" using assms by (auto simp: ends_at_def)
  have ix: "c ! h = c ! j \<longleftrightarrow> h = j" if "j < length c" for j using nth_eq_iff_index_eq [OF e(3), of h j] e(1,2) that by simp
  have go: "\<exists>s' k'. pop_alone r = Some (True, s') \<and> ends_at c (Suc h) k' s' \<and> q_retired s' = c ! h # q_retired s \<and> q_freed s' = q_freed s"
    if "r = s\<lparr>q_tail := c ! j\<rparr>" "h < j" "j < length c" for r j
    using that e ix [of j] nx [of h] assms by (subst pop_alone.simps) (auto simp: ends_at_def intro!: exI [of _ j])
  show "\<exists>s' k'. pop_alone s = Some (True, s') \<and> ends_at c (Suc h) k' s' \<and> q_retired s' = c ! h # q_retired s \<and> q_freed s' = q_freed s"
    if h: "Suc h < length c"
  proof (cases "h = k")
    case True
    have "pop_alone s = pop_alone (s\<lparr>q_tail := c ! Suc h\<rparr>)"
      using True e nx [of h] h by (subst pop_alone.simps) simp
    then show ?thesis using go [of _ "Suc h"] h by simp
  next
    case False
    then show ?thesis using go [of s k] e by simp
  qed
  show "pop_alone s = Some (False, s)" if "\<not> Suc h < length c"
  proof -
    have "k = h" using that e(1,2) by linarith
    then have "q_tail s = c ! h" using e(5) by simp
    moreover have "q_next s (c ! h) = None" using that e(1,2) nx [of h] by simp
    ultimately have "q_tail s = c ! h" "q_next s (c ! h) = None" .
    then show ?thesis using e(4) by (subst pop_alone.simps) simp
  qed
qed

lemma pop_all_eq:
  "ends_at c h k s \<Longrightarrow> \<exists>s'. pop_all s = Some s' \<and> q_head s' = last c \<and> q_retired s' = rev (butlast (drop h c)) @ q_retired s \<and> q_freed s' = q_freed s"
proof (induction "length c - h" arbitrary: h k s)
  case 0 then show ?case by (simp add: ends_at_def)
next
  case (Suc n)
  show ?case
  proof (cases "Suc h < length c")
    case True
    obtain s' k' where s': "pop_alone s = Some (True, s')" "ends_at c (Suc h) k' s'" "q_retired s' = c ! h # q_retired s" "q_freed s' = q_freed s"
      using pop_alone_eq(1) [OF Suc.prems True] by blast
    have d: "drop h c = c ! h # drop (Suc h) c" "drop (Suc h) c \<noteq> []" using True by (simp_all add: Cons_nth_drop_Suc)
    have "pop_all s = pop_all s'" by (subst pop_all.simps) (simp add: s'(1))
    then show ?thesis using Suc.hyps(1) [OF _ s'(2)] Suc.hyps(2) s'(3,4) d by auto
  next
    case False
    have "h < length c" using Suc.prems by (simp add: ends_at_def)
    with False have "h = length c - 1" "c \<noteq> []" by auto
    then have l: "drop h c = [c ! h]" "c ! h = last c" by (auto simp: Cons_nth_drop_Suc [symmetric] last_conv_nth)
    show ?thesis using pop_alone_eq(2) [OF Suc.prems False] Suc.prems l by (subst pop_all.simps) (simp add: ends_at_def)
  qed
qed

lemma destroy_retires:
  assumes "cq_run n ls tr s W" "{..<n} \<subseteq> set ls"
  shows "\<exists>s'. cq_destroy s = Some s' \<and> distinct (q_retired s') \<and> set (q_retired s') \<inter> q_freed s' = {}"
proof -
  obtain c h k A where r: "rel c h k s A" using queue_simulation [OF assms] by blast
  then have ch: "chain c h k s" by (simp add: rel_def)
  then have e: "ends_at c h k s" using chain_next [OF ch] by (simp add: ends_at_def chain_def)
  obtain s' where s': "pop_all s = Some s'" "q_head s' = last c" "q_retired s' = rev (butlast (drop h c)) @ q_retired s" "q_freed s' = q_freed s"
    using pop_all_eq [OF e] by blast
  have h: "h < length c" "distinct c" using ch by (auto simp: chain_def)
  then have d: "drop h c \<noteq> []" "last c = last (drop h c)" by simp_all
  have "rev (drop h c) = rev (butlast (drop h c) @ [last c])" unfolding d(2) using append_butlast_last_id [OF d(1)] by simp
  then have al: "rev (drop h c) = last c # rev (butlast (drop h c))" by simp
  have "y \<notin> set (q_retired s) \<and> y \<notin> q_freed s" if y: "y \<in> set (drop h c)" for y
  proof -
    obtain i where "i < length c - h" "y = c ! (h + i)" using y by (auto simp: in_set_conv_nth)
    then show ?thesis using chain_alive [OF ch, of "h + i"] by simp
  qed
  then have "distinct (rev (drop h c) @ q_retired s)" "set (rev (drop h c) @ q_retired s) \<inter> q_freed s = {}"
    using ch h by (auto simp: chain_def)
  then show ?thesis using s' unfolding al by (simp add: cq_destroy_def)
qed

text \<open>A thread that pushes while nobody else is in the queue.\<close>

lemma run_tau: "cq_run n ls tr s W \<Longrightarrow> cq_step t Tau s s' \<Longrightarrow> t < n \<Longrightarrow> cq_run n ls tr s' W"
  using cq_run.step [of n ls tr s W t Tau s'] by simp

lemma push_linked:
  "\<exists>s. cq_run 1 [0] [(0, CallPush v)] s (\<lambda>_. no_walk) \<and> q_pc s 0 = PushSwing 1 0 \<and> q_tail s = 0 \<and> q_next s 0 = Some 1 \<and> q_hp0 s 0 = Some 0"
proof -
  let ?W = "\<lambda>_ :: nat. no_walk"
  note c = cq_run.step [OF cq_run.start [of 1 "[0]"] _ cq_step.call_push [of mk_CQueue 0 1 v]]
  obtain s where s: "cq_run 1 [0] [(0, CallPush v)] s ?W" "q_pc s 0 = Load1 (Push 1)" "q_tail s = 0" "q_next s 0 = None"
    using c by (auto simp: mk_CQueue_def)
  then obtain s where s: "cq_run 1 [0] [(0, CallPush v)] s ?W" "q_pc s 0 = Store1 (Push 1) 0" "q_tail s = 0" "q_next s 0 = None"
    using run_tau [OF s(1) cq_step.protect_load [OF s(2)]] by fastforce
  then obtain s where s: "cq_run 1 [0] [(0, CallPush v)] s ?W" "q_pc s 0 = Load2 (Push 1) 0" "q_tail s = 0" "q_next s 0 = None" "q_hp0 s 0 = Some 0"
    using run_tau [OF s(1) cq_step.protect_store [OF s(2)]] by fastforce
  then obtain s where s: "cq_run 1 [0] [(0, CallPush v)] s ?W" "q_pc s 0 = Load3 (Push 1) 0" "q_tail s = 0" "q_next s 0 = None" "q_hp0 s 0 = Some 0"
    using run_tau [OF s(1) cq_step.node_same [OF s(2)]] by fastforce
  then obtain s where s: "cq_run 1 [0] [(0, CallPush v)] s ?W" "q_pc s 0 = Store3 (Push 1) 0 None" "q_tail s = 0" "q_next s 0 = None" "q_hp0 s 0 = Some 0"
    using run_tau [OF s(1) cq_step.next_load [OF s(2)]] by fastforce
  then obtain s where s: "cq_run 1 [0] [(0, CallPush v)] s ?W" "q_pc s 0 = Load4 (Push 1) 0 None" "q_tail s = 0" "q_next s 0 = None" "q_hp0 s 0 = Some 0"
    using run_tau [OF s(1) cq_step.next_store [OF s(2)]] by fastforce
  then obtain s where s: "cq_run 1 [0] [(0, CallPush v)] s ?W" "q_pc s 0 = Chk (Push 1) 0 None" "q_tail s = 0" "q_next s 0 = None" "q_hp0 s 0 = Some 0"
    using run_tau [OF s(1) cq_step.next_same [OF s(2)]] by fastforce
  then obtain s where s: "cq_run 1 [0] [(0, CallPush v)] s ?W" "q_pc s 0 = PushCas 1 0" "q_tail s = 0" "q_next s 0 = None" "q_hp0 s 0 = Some 0"
    using run_tau [OF s(1) cq_step.push_last [OF s(2)]] by fastforce
  then show ?thesis using run_tau [OF s(1) cq_step.link [OF s(2)]] by fastforce
qed

theorem queue_linearizable_witness:
  "\<exists>s. cq_run 1 [0] [(0, CallPush (7 :: nat)), (0, RetPush)] s (\<lambda>_. no_walk) \<and> q_pc s 0 = QIdle \<and> q_tail s = 1 \<and>
     (\<exists>A :: nat queue_spec. spec_run [(0, CallPush 7), (0, RetPush)] A)"
proof -
  let ?W = "\<lambda>_ :: nat. no_walk"
  obtain s where s: "cq_run 1 [0] [(0, CallPush (7 :: nat))] s ?W" "q_pc s 0 = PushSwing 1 0" "q_tail s = 0" using push_linked [of 7] by blast
  then obtain s where s: "cq_run 1 [0] [(0, CallPush (7 :: nat))] s ?W" "q_pc s 0 = PushSize" "q_tail s = 1"
    using run_tau [OF s(1) cq_step.swing [OF s(2)]] by fastforce
  then obtain s where s: "cq_run 1 [0] [(0, CallPush (7 :: nat))] s ?W" "q_pc s 0 = PushDone" "q_tail s = 1"
    using run_tau [OF s(1) cq_step.push_size [OF s(2)]] by fastforce
  then obtain s where s: "cq_run 1 [0] [(0, CallPush (7 :: nat)), (0, RetPush)] s ?W" "q_pc s 0 = QIdle" "q_tail s = 1"
    using cq_run.step [OF s(1) _ cq_step.ret_push [OF s(2)]] by (fastforce simp: unmark_def)
  then show ?thesis using queue_linearizable [OF s(1)] by force
qed

end
