(* ===== verification/Hazard_Ptr.thy ===== *)
theory Hazard_Ptr
  imports Lsmkv_Prelude "HOL-Library.Multiset"
begin

text \<open>
  \<^verbatim>\<open>utils/hazard_ptr.h\<close>: the reclaimer that deletes the nodes of the job queue. Its operations run one
  after the other here; pointers are 64-bit words and 0 is the null pointer. The list of holders,
  which threads extend concurrently, is modelled a second time as a step relation.
\<close>

section \<open>Lists of retired objects\<close>

text \<open>A retired object: the address of its list node, which chooses the shard, and the pointer.\<close>

record retire_node =
  rn_addr :: u64
  raw_ptr :: u64

record holder =
  hd_ptr :: u64
  hd_active :: bool

text \<open>\<open>linked_list\<close> is the list of its nodes from head to tail with its counter, which a constructor from two
  nodes leaves at 0.\<close>

record linked_list =
  ll_nodes :: "retire_node list"
  ll_size :: int

definition ll_new :: linked_list where "ll_new = \<lparr>ll_nodes = [], ll_size = 0\<rparr>"

definition ll_of :: "retire_node list \<Rightarrow> linked_list" where "ll_of ns = \<lparr>ll_nodes = ns, ll_size = 0\<rparr>"

definition ll_push :: "retire_node \<Rightarrow> linked_list \<Rightarrow> linked_list" where
  "ll_push n l = \<lparr>ll_nodes = ll_nodes l @ [n], ll_size = ll_size l + 1\<rparr>"

definition ll_splice :: "linked_list \<Rightarrow> linked_list \<Rightarrow> linked_list" where
  "ll_splice l m = (if ll_nodes m = [] then l
     else if ll_nodes l = [] then \<lparr>ll_nodes = ll_nodes m, ll_size = ll_size m\<rparr>
     else \<lparr>ll_nodes = ll_nodes l @ ll_nodes m, ll_size = ll_size l + ll_size m\<rparr>)"

section \<open>The reclaimer\<close>

definition kNumShards :: nat where "kNumShards = 8"

record reclaimer =
  rc_holders :: "holder list"
  rc_local :: "nat \<Rightarrow> nat list"  \<comment> \<open>\<open>holder_storage\<close> of each thread, as positions in the list\<close>
  rc_count :: int
  rc_shards :: "retire_node list list"
  rc_deleted :: "u64 list"

definition mk_reclaimer :: reclaimer where
  "mk_reclaimer = \<lparr>rc_holders = [], rc_local = (\<lambda>_. []), rc_count = 0, rc_shards = replicate kNumShards [], rc_deleted = []\<rparr>"

definition make_holder :: "reclaimer \<Rightarrow> nat \<times> reclaimer" where
  "make_holder r = (length (rc_holders r), r\<lparr>rc_holders := rc_holders r @ [\<lparr>hd_ptr = 0, hd_active = True\<rparr>]\<rparr>)"

fun make_holders :: "nat \<Rightarrow> reclaimer \<Rightarrow> nat list \<times> reclaimer" where
  "make_holders 0 r = ([], r)"
| "make_holders (Suc n) r = (let (i, r1) = make_holder r; (is, r2) = make_holders n r1 in (i # is, r2))"

definition reserve_hazp :: "nat \<Rightarrow> nat \<Rightarrow> reclaimer \<Rightarrow> reclaimer" where
  "reserve_hazp t sz r = (let old = rc_local r t in
     if sz \<le> length old then r
     else let (is, r1) = make_holders (sz - length old) r in r1\<lparr>rc_local := (rc_local r1)(t := old @ is)\<rparr>)"

definition store_ptr :: "nat \<Rightarrow> u64 \<Rightarrow> reclaimer \<Rightarrow> reclaimer" where
  "store_ptr i p r = r\<lparr>rc_holders := (rc_holders r)[i := (rc_holders r ! i)\<lparr>hd_ptr := p\<rparr>]\<rparr>"

definition get_hazard_ptr :: "nat \<Rightarrow> nat \<Rightarrow> reclaimer \<Rightarrow> nat option" where
  "get_hazard_ptr t index r = (if index < length (rc_local r t) then Some (rc_local r t ! index) else None)"

definition protect :: "nat \<Rightarrow> u64 \<Rightarrow> reclaimer \<Rightarrow> reclaimer" where
  "protect i p r = store_ptr i p r"

definition hp_unmark :: "nat \<Rightarrow> reclaimer \<Rightarrow> reclaimer" where
  "hp_unmark i r = store_ptr i 0 r"

definition release_holders :: "nat \<Rightarrow> reclaimer \<Rightarrow> reclaimer" where
  "release_holders t r = r\<lparr>rc_holders := fold (\<lambda>i hs. hs[i := \<lparr>hd_ptr = 0, hd_active = False\<rparr>]) (rc_local r t) (rc_holders r),
     rc_local := (rc_local r)(t := [])\<rparr>"

text \<open>\<open>local_holder::make_hazard_ptr\<close> for an atomic that holds \<open>p\<close>: the first free holder of the thread, or a new one.\<close>

definition make_hazard_ptr :: "nat \<Rightarrow> u64 \<Rightarrow> reclaimer \<Rightarrow> nat \<times> reclaimer" where
  "make_hazard_ptr t p r = (case List.find (\<lambda>i. hd_ptr (rc_holders r ! i) = 0) (rc_local r t) of
     Some i \<Rightarrow> (i, store_ptr i p r)
   | None \<Rightarrow> let (i, r1) = make_holder r; r2 = store_ptr i p r1 in (i, r2\<lparr>rc_local := (rc_local r2)(t := rc_local r2 t @ [i])\<rparr>))"

text \<open>\<open>load_hazptr_vals\<close>: every pointer in a holder, the null pointers of free holders included.\<close>

definition load_hazptr_vals :: "reclaimer \<Rightarrow> u64 list" where
  "load_hazptr_vals r = map hd_ptr (rc_holders r)"

definition add_count :: "int \<Rightarrow> reclaimer \<Rightarrow> reclaimer" where
  "add_count n r = r\<lparr>rc_count := rc_count r + n\<rparr>"

definition check_count_threshold :: "reclaimer \<Rightarrow> int \<times> reclaimer" where
  "check_count_threshold r = (if 1000 \<le> rc_count r then (rc_count r, r\<lparr>rc_count := 0\<rparr>) else (0, r))"

fun list_match_condition :: "(retire_node \<Rightarrow> bool) \<Rightarrow> retire_node list \<Rightarrow> linked_list \<Rightarrow> linked_list \<Rightarrow> linked_list \<times> linked_list" where
  "list_match_condition cond [] match nomatch = (match, nomatch)"
| "list_match_condition cond (obj # objs) match nomatch =
     (if cond obj then list_match_condition cond objs (ll_push obj match) nomatch
      else list_match_condition cond objs match (ll_push obj nomatch))"

definition retired_list_empty :: "reclaimer \<Rightarrow> bool" where
  "retired_list_empty r = list_all (\<lambda>l. l = []) (rc_shards r)"

definition reclaim_obj :: "retire_node list \<Rightarrow> reclaimer \<Rightarrow> reclaimer" where
  "reclaim_obj objs r = r\<lparr>rc_deleted := rc_deleted r @ map raw_ptr objs\<rparr>"

definition extract_retired_objects :: "reclaimer \<Rightarrow> bool \<times> retire_node list list \<times> reclaimer" where
  "extract_retired_objects r = (\<not> list_all (\<lambda>l. l = []) (rc_shards r), rc_shards r, r\<lparr>rc_shards := map (\<lambda>_. []) (rc_shards r)\<rparr>)"

fun match_shards :: "u64 list \<Rightarrow> retire_node list list \<Rightarrow> linked_list \<Rightarrow> int \<Rightarrow> bool \<Rightarrow> reclaimer \<Rightarrow> linked_list \<times> int \<times> bool \<times> reclaimer" where
  "match_shards hs [] keep cnt dn r = (keep, cnt, dn, r)"
| "match_shards hs (l # ls) keep cnt dn r =
     (let (match, nomatch) = list_match_condition (\<lambda>o'. raw_ptr o' \<in> set hs) l ll_new ll_new;
          r1 = reclaim_obj (ll_nodes nomatch) r
      in match_shards hs ls (ll_splice keep match) (cnt + ll_size nomatch) (dn \<and> retired_list_empty r1) r1)"

definition push_shard :: "nat \<Rightarrow> linked_list \<Rightarrow> reclaimer \<Rightarrow> reclaimer" where
  "push_shard i l r = (if ll_nodes l = [] then r else r\<lparr>rc_shards := (rc_shards r)[i := ll_nodes l @ rc_shards r ! i]\<rparr>)"

definition match_reclaim :: "retire_node list list \<Rightarrow> u64 list \<Rightarrow> reclaimer \<Rightarrow> int \<times> bool \<times> reclaimer" where
  "match_reclaim retired hs r =
     (let (keep, cnt, dn, r1) = match_shards hs retired ll_new 0 True r
      in (cnt, dn, push_shard 0 (ll_of (ll_nodes keep)) r1))"

text \<open>One turn of the loop of \<open>do_reclamation\<close>, and the loop, which may go on for ever: \<open>None\<close> then.\<close>

definition reclamation_turn :: "int \<Rightarrow> reclaimer \<Rightarrow> int \<times> bool \<times> reclaimer" where
  "reclamation_turn rcount r =
     (let (some, untagged, r1) = extract_retired_objects r;
          (n, dn, r2) = (if some then match_reclaim untagged (load_hazptr_vals r1) r1 else (0, True, r1));
          rcount1 = rcount - n;
          r3 = (if rcount1 \<noteq> 0 then add_count rcount1 r2 else r2);
          (rcount2, r4) = check_count_threshold r3
      in (rcount2, dn, r4))"

partial_function (option) reclamation_loop :: "int \<Rightarrow> reclaimer \<Rightarrow> reclaimer option" where
  "reclamation_loop rcount r =
     (let (rcount', dn, r') = reclamation_turn rcount r
      in if rcount' = 0 \<and> dn then Some r' else reclamation_loop rcount' r')"

definition do_reclamation :: "int \<Rightarrow> reclaimer \<Rightarrow> reclaimer option" where
  "do_reclamation rcount r = (if rcount \<ge> 0 then reclamation_loop rcount r else None)"

definition check_threshold_and_reclaim :: "reclaimer \<Rightarrow> reclaimer option" where
  "check_threshold_and_reclaim r = (let (rcount, r1) = check_count_threshold r in if rcount = 0 then Some r1 else do_reclamation rcount r1)"

definition push_list :: "retire_node \<Rightarrow> reclaimer \<Rightarrow> reclaimer option" where
  "push_list n r = (let i = unat (drop_bit 8 (rn_addr n) AND 7)
     in check_threshold_and_reclaim (add_count 1 (push_shard i (ll_of [n]) r)))"

text \<open>\<open>retire\<close>; \<open>addr\<close> is where the new list node is allocated.\<close>

definition retire :: "u64 \<Rightarrow> u64 \<Rightarrow> reclaimer \<Rightarrow> reclaimer option" where
  "retire addr p r = push_list \<lparr>rn_addr = addr, raw_ptr = p\<rparr> r"

definition reclaim :: "reclaimer \<Rightarrow> reclaimer option" where
  "reclaim r = do_reclamation 0 r"

definition reclaim_all_objects :: "reclaimer \<Rightarrow> reclaimer" where
  "reclaim_all_objects r = (reclaim_obj (concat (rc_shards r)) r)\<lparr>rc_shards := map (\<lambda>_. []) (rc_shards r)\<rparr>"

section \<open>What reclamation keeps and deletes\<close>

definition retired :: "reclaimer \<Rightarrow> u64 list" where
  "retired r = map raw_ptr (concat (rc_shards r))"

definition rc_inv :: "reclaimer \<Rightarrow> bool" where
  "rc_inv r \<longleftrightarrow> length (rc_shards r) = kNumShards \<and> rc_count r = int (length (retired r))"

lemma add_count_frame [simp]:
  "retired (add_count n r) = retired r" "rc_holders (add_count n r) = rc_holders r" "rc_local (add_count n r) = rc_local r"
  "rc_shards (add_count n r) = rc_shards r" "rc_deleted (add_count n r) = rc_deleted r"
  by (simp_all add: add_count_def retired_def)

lemma list_match_condition_filter:
  "list_match_condition cond objs m n =
    (\<lparr>ll_nodes = ll_nodes m @ filter cond objs, ll_size = ll_size m + int (length (filter cond objs))\<rparr>,
     \<lparr>ll_nodes = ll_nodes n @ filter (Not \<circ> cond) objs, ll_size = ll_size n + int (length (filter (Not \<circ> cond) objs))\<rparr>)"
  by (induction cond objs m n rule: list_match_condition.induct) (auto simp: ll_push_def)

lemma ll_splice_nodes [simp]: "ll_nodes (ll_splice l m) = ll_nodes l @ ll_nodes m"
  by (simp add: ll_splice_def)

lemma match_shards_eq:
  assumes "match_shards hs ls keep cnt dn r = (keep', cnt', dn', r')"
  shows "ll_nodes keep' = ll_nodes keep @ filter (\<lambda>n. raw_ptr n \<in> set hs) (concat ls)"
    "cnt' = cnt + int (length (filter (\<lambda>n. raw_ptr n \<notin> set hs) (concat ls)))"
    "r' = reclaim_obj (filter (\<lambda>n. raw_ptr n \<notin> set hs) (concat ls)) r" "dn' \<longleftrightarrow> dn \<and> (ls = [] \<or> retired_list_empty r)"
  using assms
  by (induction hs ls keep cnt dn r rule: match_shards.induct)
    (auto simp: list_match_condition_filter ll_new_def reclaim_obj_def retired_list_empty_def comp_def)

text \<open>What one turn does, when the objects in the lists are those counted and those taken into account.\<close>

definition protected_of :: "reclaimer \<Rightarrow> u64 list" where
  "protected_of r = filter (\<lambda>p. p \<in> set (load_hazptr_vals r)) (retired r)"

definition swept :: "reclaimer \<Rightarrow> reclaimer \<Rightarrow> bool" where
  "swept r r' \<longleftrightarrow> rc_holders r' = rc_holders r \<and> rc_local r' = rc_local r \<and> length (rc_shards r') = kNumShards \<and>
     retired r' = protected_of r \<and> rc_deleted r' = rc_deleted r @ filter (\<lambda>p. p \<notin> set (load_hazptr_vals r)) (retired r)"

lemma concat_map_Nil [simp]: "concat (map (\<lambda>_. []) xs) = []"
  by (induction xs) auto

lemma match_reclaim_eq:
  assumes "length (rc_shards r) = kNumShards" "match_reclaim ls hs (r\<lparr>rc_shards := map (\<lambda>_. []) (rc_shards r)\<rparr>) = (n, dn, r')"
  shows "n = int (length (filter (\<lambda>x. raw_ptr x \<notin> set hs) (concat ls)))" "dn"
    "rc_deleted r' = rc_deleted r @ map raw_ptr (filter (\<lambda>x. raw_ptr x \<notin> set hs) (concat ls))"
    "rc_holders r' = rc_holders r" "rc_local r' = rc_local r" "rc_count r' = rc_count r" "length (rc_shards r') = kNumShards"
    "concat (rc_shards r') = filter (\<lambda>x. raw_ptr x \<in> set hs) (concat ls)"
proof -
  let ?r = "r\<lparr>rc_shards := map (\<lambda>_. []) (rc_shards r)\<rparr>"
  obtain keep cnt dn1 r1 where m: "match_shards hs ls ll_new 0 True ?r = (keep, cnt, dn1, r1)" by (metis prod_cases4)
  note e = match_shards_eq [OF m]
  have r': "n = cnt" "dn = dn1" "r' = push_shard 0 (ll_of (ll_nodes keep)) r1" using assms(2) m by (auto simp: match_reclaim_def)
  have k: "ll_nodes keep = filter (\<lambda>x. raw_ptr x \<in> set hs) (concat ls)" using e(1) by (simp add: ll_new_def)
  have sh: "rc_shards r1 = [] # map (\<lambda>_. []) (tl (rc_shards r))" using e(3) assms(1)
    by (cases "rc_shards r") (auto simp: reclaim_obj_def kNumShards_def)
  show "n = int (length (filter (\<lambda>x. raw_ptr x \<notin> set hs) (concat ls)))" using r' e by simp
  show "dn" using r' e by (auto simp: retired_list_empty_def list_all_iff)
  show "concat (rc_shards r') = filter (\<lambda>x. raw_ptr x \<in> set hs) (concat ls)"
    using r' sh k by (simp add: push_shard_def ll_of_def)
  show "length (rc_shards r') = kNumShards" using r' sh assms(1) by (simp add: push_shard_def kNumShards_def)
qed (use assms in \<open>auto simp: match_reclaim_def push_shard_def reclaim_obj_def Let_def dest!: match_shards_eq(3) split: prod.splits if_splits\<close>)

lemma turn_sweeps:
  assumes "length (rc_shards r) = kNumShards" "rcount + rc_count r = int (length (retired r))"
  shows "\<exists>r'. reclamation_turn rcount r = (if 1000 \<le> length (protected_of r) then int (length (protected_of r)) else 0, True, r') \<and> swept r r' \<and>
    rc_count r' = (if 1000 \<le> length (protected_of r) then 0 else int (length (protected_of r)))"
proof -
  let ?r = "r\<lparr>rc_shards := map (\<lambda>_. []) (rc_shards r)\<rparr>" and ?hs = "load_hazptr_vals r"
  obtain n dn r2 where m: "match_reclaim (rc_shards r) ?hs ?r = (n, dn, r2)" by (metis prod_cases3)
  note e = match_reclaim_eq [OF assms(1) m]
  have hs: "load_hazptr_vals ?r = ?hs" by (simp add: load_hazptr_vals_def)
  have pr: "protected_of r = map raw_ptr (filter (\<lambda>x. raw_ptr x \<in> set ?hs) (concat (rc_shards r)))"
    by (simp add: protected_of_def retired_def filter_map comp_def)
  have un: "filter (\<lambda>p. p \<notin> set ?hs) (retired r) = map raw_ptr (filter (\<lambda>x. raw_ptr x \<notin> set ?hs) (concat (rc_shards r)))"
    by (simp add: retired_def filter_map comp_def)
  have sum: "length (retired r) = length (protected_of r) + nat n"
    using sum_length_filter_compl [of "\<lambda>p. p \<in> set ?hs" "retired r"] un e(1) by (simp add: protected_of_def)
  have n: "0 \<le> n" using e(1) by simp
  show ?thesis
  proof (cases "retired_list_empty r")
    case True
    then have em: "concat (rc_shards r) = []" "map (\<lambda>_. []) (rc_shards r) = rc_shards r"
      by (auto simp: retired_list_empty_def list_all_iff intro: map_idI)
    have "retired r = []" unfolding retired_def em(1) by simp
    moreover have "protected_of r = []" unfolding pr em(1) by simp
    ultimately have z: "retired r = []" "protected_of r = []" .
    let ?cr = "if rcount \<noteq> 0 then add_count rcount r else r"
    have c: "rc_count ?cr = 0" using assms(2) z(1) by (simp add: add_count_def)
    have "reclamation_turn rcount r = (0, True, ?cr)"
      using True em(2) c by (cases "rcount = 0") (simp_all add: reclamation_turn_def extract_retired_objects_def retired_list_empty_def check_count_threshold_def Let_def)
    moreover have "swept r ?cr" using z assms(1) by (simp add: swept_def)
    ultimately show ?thesis using c z(2) by (intro exI [of _ ?cr]) simp
  next
    case False
    let ?cr = "if rcount - n \<noteq> 0 then add_count (rcount - n) r2 else r2"
    have t: "reclamation_turn rcount r = (fst (check_count_threshold ?cr), True, snd (check_count_threshold ?cr))"
      using False m e(2) hs by (simp add: reclamation_turn_def extract_retired_objects_def retired_list_empty_def split: prod.splits)
    have c: "rc_count ?cr = int (length (protected_of r))" using e(6) assms(2) sum n by (simp add: add_count_def)
    have "swept r (snd (check_count_threshold ?cr))"
      using e pr un by (simp add: swept_def check_count_threshold_def add_count_def retired_def)
    then show ?thesis using t c by (auto simp: check_count_threshold_def)
  qed
qed

lemma loop_ends:
  assumes "length (rc_shards r) = kNumShards" "rcount + rc_count r = int (length (retired r))" "length (protected_of r) < 1000"
  shows "\<exists>r'. reclamation_loop rcount r = Some r' \<and> swept r r' \<and> rc_inv r'"
proof -
  obtain r' where r': "reclamation_turn rcount r = (0, True, r')" "swept r r'" "rc_count r' = int (length (protected_of r))"
    using turn_sweeps [OF assms(1,2)] assms(3) by auto
  then have "reclamation_loop rcount r = Some r'" by (subst reclamation_loop.simps) simp
  then show ?thesis using r' by (auto simp: swept_def rc_inv_def)
qed

text \<open>With a thousand retired objects that stay protected the loop goes round for ever.\<close>

lemma reclamation_spins:
  assumes "length (rc_shards r) = kNumShards" "rcount + rc_count r = int (length (retired r))" "1000 \<le> length (protected_of r)"
  shows "reclamation_loop rcount r = None"
proof -
  have "\<not> (length (rc_shards r) = kNumShards \<and> rcount + rc_count r = int (length (retired r)) \<and> 1000 \<le> length (protected_of r))"
    if "reclamation_loop rcount r = Some y" for rcount r y
  proof (rule reclamation_loop.raw_induct [OF _ that])
    fix loop rcount r y
    assume ih: "\<And>rcount r y. loop rcount r = Some y \<Longrightarrow>
        \<not> (length (rc_shards r) = kNumShards \<and> rcount + rc_count r = int (length (retired r)) \<and> 1000 \<le> length (protected_of r))"
      and body: "(let (rcount', dn, r') = reclamation_turn rcount r in if rcount' = 0 \<and> dn then Some r' else loop rcount' r') = Some y"
    show "\<not> (length (rc_shards r) = kNumShards \<and> rcount + rc_count r = int (length (retired r)) \<and> 1000 \<le> length (protected_of r))"
    proof
      assume a: "length (rc_shards r) = kNumShards \<and> rcount + rc_count r = int (length (retired r)) \<and> 1000 \<le> length (protected_of r)"
      then obtain r' where r': "reclamation_turn rcount r = (int (length (protected_of r)), True, r')" "swept r r'" "rc_count r' = 0"
        using turn_sweeps [of r rcount] by auto
      have "protected_of r' = protected_of r" using r'(2) by (simp add: swept_def protected_of_def load_hazptr_vals_def)
      moreover have "int (length (protected_of r)) \<noteq> 0" using a by auto
      ultimately have "loop (int (length (protected_of r))) r' = Some y" using body r'(1) by simp
      from ih [OF this] show False using r' a \<open>protected_of r' = protected_of r\<close> by (simp add: swept_def)
    qed
  qed
  then show ?thesis using assms by (cases "reclamation_loop rcount r") auto
qed

text \<open>No more objects than holders are protected, as long as no object is retired twice.\<close>

lemma protected_le: "distinct (retired r) \<Longrightarrow> length (protected_of r) \<le> length (rc_holders r)"
proof -
  assume d: "distinct (retired r)"
  then have "length (protected_of r) = card (set (protected_of r))" using distinct_card [of "protected_of r"] by (simp add: protected_of_def)
  also have "\<dots> \<le> card (set (load_hazptr_vals r))" by (intro card_mono) (auto simp: protected_of_def)
  also have "\<dots> \<le> length (rc_holders r)" using card_length [of "load_hazptr_vals r"] by (simp add: load_hazptr_vals_def)
  finally show ?thesis .
qed

lemma concat_update_mset: "i < length xs \<Longrightarrow> mset (concat (xs[i := ys @ xs ! i])) = mset ys + mset (concat xs)"
proof (induction xs arbitrary: i)
  case (Cons x xs) then show ?case by (cases i) auto
qed simp

lemma pushed:
  fixes a p :: u64
  assumes "rc_inv r"
  defines "r' \<equiv> add_count 1 (push_shard (unat (drop_bit 8 a AND 7)) (ll_of [\<lparr>rn_addr = a, raw_ptr = p\<rparr>]) r)"
  shows "rc_inv r'" "mset (retired r') = add_mset p (mset (retired r))" "rc_holders r' = rc_holders r" "rc_local r' = rc_local r" "rc_deleted r' = rc_deleted r"
proof -
  have "(drop_bit 8 a AND 7 :: u64) \<le> 7" by (rule word_and_le1)
  then have "unat (drop_bit 8 a AND 7) \<le> 7" using word_le_nat_alt [of "drop_bit 8 a AND 7" 7] by simp
  then have i: "unat (drop_bit 8 a AND 7) < length (rc_shards r)" using assms(1) by (simp add: rc_inv_def kNumShards_def)
  have sh: "rc_shards r' = (rc_shards r)[unat (drop_bit 8 a AND 7) := [\<lparr>rn_addr = a, raw_ptr = p\<rparr>] @ rc_shards r ! unat (drop_bit 8 a AND 7)]"
    by (simp add: r'_def add_count_def push_shard_def ll_of_def)
  show m: "mset (retired r') = add_mset p (mset (retired r))"
    unfolding retired_def sh mset_map concat_update_mset [OF i] by simp
  have "length (retired r') = Suc (length (retired r))" using arg_cong [OF m, of size] by simp
  then show "rc_inv r'" using assms(1) sh by (simp add: rc_inv_def r'_def add_count_def push_shard_def ll_of_def)
qed (simp_all add: r'_def add_count_def push_shard_def ll_of_def)

text \<open>C19. Reclamation deletes what nobody protects, loses nothing and ends. When every object is retired once
  and there are fewer than a thousand holders, \<open>retire\<close> and \<open>reclaim\<close> return; they delete no object whose
  pointer is in a holder; every object that was waiting is afterwards either waiting or deleted, once;
  the counter is the number of objects that wait; after \<open>retire\<close> fewer than a thousand wait, and after
  \<open>reclaim\<close> exactly the protected ones.\<close>

theorem reclaim_keeps_protected:
  assumes "rc_inv r" "distinct (p # retired r)" "length (rc_holders r) < 1000"
  shows "(\<exists>r' ds. retire addr p r = Some r' \<and> rc_inv r' \<and> length (retired r') < 1000 \<and> rc_holders r' = rc_holders r \<and>
      rc_deleted r' = rc_deleted r @ ds \<and> set ds \<inter> set (load_hazptr_vals r) = {} \<and> mset ds + mset (retired r') = mset (p # retired r)) \<and>
    (\<exists>r' ds. reclaim r = Some r' \<and> rc_inv r' \<and> retired r' = protected_of r \<and> rc_holders r' = rc_holders r \<and>
      rc_deleted r' = rc_deleted r @ ds \<and> set ds \<inter> set (load_hazptr_vals r) = {} \<and> mset ds + mset (retired r') = mset (retired r))"
proof (intro conjI)
  have ms: "mset (filter (\<lambda>p. p \<notin> set hs) xs) + mset (filter (\<lambda>p. p \<in> set hs) xs) = mset xs" for hs xs :: "u64 list"
    by (simp add: multiset_partition [symmetric] add.commute)
  let ?r = "add_count 1 (push_shard (unat (drop_bit 8 addr AND 7)) (ll_of [\<lparr>rn_addr = addr, raw_ptr = p\<rparr>]) r)"
  note q = pushed [OF assms(1), of addr p]
  have rt: "retire addr p r = check_threshold_and_reclaim ?r" by (simp add: retire_def push_list_def)
  show "\<exists>r' ds. retire addr p r = Some r' \<and> rc_inv r' \<and> length (retired r') < 1000 \<and> rc_holders r' = rc_holders r \<and>
      rc_deleted r' = rc_deleted r @ ds \<and> set ds \<inter> set (load_hazptr_vals r) = {} \<and> mset ds + mset (retired r') = mset (p # retired r)"
  proof (cases "1000 \<le> rc_count ?r")
    case False
    then have "retire addr p r = Some ?r" by (simp add: rt check_threshold_and_reclaim_def check_count_threshold_def)
    then show ?thesis using q False by (intro exI [of _ ?r] exI [of _ "[]"]) (auto simp: rc_inv_def)
  next
    case True
    let ?zr = "?r\<lparr>rc_count := 0\<rparr>"
    have s: "retired ?zr = retired ?r" "load_hazptr_vals ?zr = load_hazptr_vals r" "protected_of ?zr = protected_of ?r"
      using q(3) by (simp_all add: retired_def load_hazptr_vals_def protected_of_def)
    have "mset (retired ?r) = mset (p # retired r)" using q(2) by simp
    from mset_eq_imp_distinct_iff [OF this] have "distinct (retired ?r)" using assms(2) by blast
    then have "length (protected_of ?zr) < 1000" using protected_le [of ?r] assms(3) q(3) s(3) by simp
    then obtain r' where r': "reclamation_loop (rc_count ?r) ?zr = Some r'" "swept ?zr r'" "rc_inv r'"
      using loop_ends [of ?zr "rc_count ?r"] q(1) s(1) by (auto simp: rc_inv_def)
    have "retire addr p r = Some r'" using True r'(1) by (simp add: rt check_threshold_and_reclaim_def check_count_threshold_def do_reclamation_def)
    moreover have "length (retired r') < 1000" using r'(2) \<open>length (protected_of ?zr) < 1000\<close> by (simp add: swept_def)
    ultimately show ?thesis using r' q s ms [of "load_hazptr_vals r" "retired ?r"]
      by (intro exI [of _ r'] exI [of _ "filter (\<lambda>p. p \<notin> set (load_hazptr_vals r)) (retired ?r)"]) (auto simp: swept_def protected_of_def)
  qed
  have "length (protected_of r) < 1000" using protected_le [of r] assms(2,3) by simp
  then obtain r' where r': "reclamation_loop 0 r = Some r'" "swept r r'" "rc_inv r'"
    using loop_ends [of r 0] assms(1) by (auto simp: rc_inv_def)
  then show "\<exists>r' ds. reclaim r = Some r' \<and> rc_inv r' \<and> retired r' = protected_of r \<and> rc_holders r' = rc_holders r \<and>
      rc_deleted r' = rc_deleted r @ ds \<and> set ds \<inter> set (load_hazptr_vals r) = {} \<and> mset ds + mset (retired r') = mset (retired r)"
    using ms [of "load_hazptr_vals r" "retired r"]
    by (intro exI [of _ r'] exI [of _ "filter (\<lambda>p. p \<notin> set (load_hazptr_vals r)) (retired r)"])
      (auto simp: swept_def protected_of_def reclaim_def do_reclamation_def)
qed

text \<open>One thread with two holders that protects an object and retires it.\<close>

definition sample_reclaimer :: reclaimer where
  "sample_reclaimer = protect 0 7 (reserve_hazp 0 2 mk_reclaimer)"

theorem reclaim_keeps_protected_witness:
  "load_hazptr_vals sample_reclaimer = [7, 0] \<and> (\<exists>r'. retire 0x100 7 sample_reclaimer = Some r' \<and> length (retired r') < 1000 \<and>
     7 \<notin> set (rc_deleted r'))"
proof -
  have h: "rc_holders sample_reclaimer = [\<lparr>hd_ptr = 7, hd_active = True\<rparr>, \<lparr>hd_ptr = 0, hd_active = True\<rparr>]" "retired sample_reclaimer = []"
      "rc_count sample_reclaimer = 0" "length (rc_shards sample_reclaimer) = kNumShards" "rc_deleted sample_reclaimer = []"
    by (simp_all add: sample_reclaimer_def protect_def store_ptr_def reserve_hazp_def make_holder_def mk_reclaimer_def retired_def
        kNumShards_def eval_nat_numeral)
  then have l: "load_hazptr_vals sample_reclaimer = [7, 0]" by (simp add: load_hazptr_vals_def)
  have "rc_inv sample_reclaimer" "distinct (7 # retired sample_reclaimer)" "length (rc_holders sample_reclaimer) < 1000"
    using h by (simp_all add: rc_inv_def)
  from reclaim_keeps_protected [OF this, of "0x100", THEN conjunct1] show ?thesis using l h(5) by auto
qed

section \<open>The list of holders\<close>

text \<open>\<open>holder_list::push_back\<close> by several threads, and the walk of \<open>load_hazptr_vals\<close>. Nodes are numbered as they are
  allocated; node 0 is the head.\<close>

datatype hl_pc = HIdle | HLoad nat | HCas nat nat | HStore nat nat | HDone nat

record holder_list =
  hl_next :: "nat \<Rightarrow> nat option"
  hl_tail :: nat
  hl_fresh :: nat
  hl_pc :: "nat \<Rightarrow> hl_pc"

definition mk_holder_list :: holder_list where
  "mk_holder_list = \<lparr>hl_next = (\<lambda>_. None), hl_tail = 0, hl_fresh = 1, hl_pc = (\<lambda>_. HIdle)\<rparr>"

inductive push_back :: "nat \<Rightarrow> holder_list \<Rightarrow> holder_list \<Rightarrow> bool" for t where
  pb_new: "hl_pc s t = HIdle \<Longrightarrow> push_back t s (s\<lparr>hl_fresh := hl_fresh s + 1, hl_pc := (hl_pc s)(t := HLoad (hl_fresh s))\<rparr>)"
| pb_load: "hl_pc s t = HLoad n \<Longrightarrow> push_back t s (s\<lparr>hl_pc := (hl_pc s)(t := HCas n (hl_tail s))\<rparr>)"
| pb_cas: "hl_pc s t = HCas n y \<Longrightarrow> hl_tail s = y \<Longrightarrow> push_back t s (s\<lparr>hl_tail := n, hl_pc := (hl_pc s)(t := HStore n y)\<rparr>)"
| pb_cas_fail: "hl_pc s t = HCas n y \<Longrightarrow> push_back t s (s\<lparr>hl_pc := (hl_pc s)(t := HCas n (hl_tail s))\<rparr>)"
| pb_store: "hl_pc s t = HStore n y \<Longrightarrow> push_back t s (s\<lparr>hl_next := (hl_next s)(y := Some n), hl_pc := (hl_pc s)(t := HDone n)\<rparr>)"

inductive hl_reach :: "holder_list \<Rightarrow> bool" where
  hl_start: "hl_reach mk_holder_list"
| hl_step: "hl_reach s \<Longrightarrow> push_back t s s' \<Longrightarrow> hl_reach s'"

fun hl_walk :: "nat \<Rightarrow> (nat \<Rightarrow> nat option) \<Rightarrow> nat \<Rightarrow> nat list" where
  "hl_walk 0 nx y = []"
| "hl_walk (Suc k) nx y = (case nx y of None \<Rightarrow> [] | Some z \<Rightarrow> z # hl_walk k nx z)"

text \<open>\<open>c\<close> is the order in which the tail moved; a link may still be missing while its thread has not stored it.\<close>

fun hl_thr :: "nat list \<Rightarrow> nat \<Rightarrow> hl_pc \<Rightarrow> bool" where
  "hl_thr c f HIdle = True"
| "hl_thr c f (HLoad n) = (n \<notin> set c \<and> n < f)"
| "hl_thr c f (HCas n y) = (n \<notin> set c \<and> n < f)"
| "hl_thr c f (HStore n y) = (\<exists>i. Suc i < length c \<and> c ! i = y \<and> c ! Suc i = n)"
| "hl_thr c f (HDone n) = (n \<in> set (tl c))"

fun hl_mine :: "hl_pc \<Rightarrow> nat option" where
  "hl_mine (HLoad n) = Some n" | "hl_mine (HCas n y) = Some n" | "hl_mine _ = None"

definition hl_inv :: "nat list \<Rightarrow> holder_list \<Rightarrow> bool" where
  "hl_inv c s \<longleftrightarrow> distinct c \<and> c \<noteq> [] \<and> hd c = 0 \<and> last c = hl_tail s \<and> (\<forall>y \<in> set c. y < hl_fresh s) \<and>
     (\<forall>i. Suc i < length c \<longrightarrow> hl_next s (c ! i) = Some (c ! Suc i) \<or> (\<exists>t. hl_pc s t = HStore (c ! Suc i) (c ! i))) \<and>
     (\<forall>y. y \<notin> set (butlast c) \<longrightarrow> hl_next s y = None) \<and>
     (\<forall>t. hl_thr c (hl_fresh s) (hl_pc s t)) \<and> (\<forall>t u n. hl_mine (hl_pc s t) = Some n \<and> hl_mine (hl_pc s u) = Some n \<longrightarrow> t = u)"

lemma hl_thr_mono: "hl_thr c f p \<Longrightarrow> f \<le> f' \<Longrightarrow> (\<And>n. hl_mine p = Some n \<Longrightarrow> n \<notin> set ys) \<Longrightarrow> hl_thr (c @ ys) f' p"
proof (induction c f p rule: hl_thr.induct)
  case (4 c f n y)
  then obtain i where "Suc i < length c" "c ! i = y" "c ! Suc i = n" by auto
  then show ?case by (auto simp: nth_append intro!: exI [of _ i])
next
  case (5 c f n) then show ?case by (cases c) auto
qed auto

lemma hl_mine_less: "hl_thr c f p \<Longrightarrow> hl_mine p = Some n \<Longrightarrow> n < f"
  by (cases p) auto

lemma hl_inv_move:
  assumes i: "hl_inv c s" and t: "hl_pc s t = p" "hl_pc s' = (hl_pc s)(t := p')" "hl_thr (c @ ys) (hl_fresh s') p'"
    and m: "hl_mine p' = None \<or> hl_mine p' = hl_mine p \<or> hl_mine p' = Some (hl_fresh s)" "\<And>u n. u \<noteq> t \<Longrightarrow> hl_mine (hl_pc s u) = Some n \<Longrightarrow> n \<notin> set ys"
    and c: "distinct (c @ ys)" "last (c @ ys) = hl_tail s'" "\<forall>y \<in> set (c @ ys). y < hl_fresh s'" "hl_fresh s \<le> hl_fresh s'"
    and l: "\<forall>i. Suc i < length (c @ ys) \<longrightarrow> hl_next s' ((c @ ys) ! i) = Some ((c @ ys) ! Suc i) \<or> (\<exists>t. hl_pc s' t = HStore ((c @ ys) ! Suc i) ((c @ ys) ! i))"
      "\<forall>y. y \<notin> set (butlast (c @ ys)) \<longrightarrow> hl_next s' y = None"
  shows "hl_inv (c @ ys) s'"
proof -
  have th: "hl_thr c (hl_fresh s) (hl_pc s u)" for u using i by (simp add: hl_inv_def)
  have "hl_thr (c @ ys) (hl_fresh s') (hl_pc s' u)" for u using hl_thr_mono [OF th c(4) m(2)] t by (cases "u = t") auto
  moreover have "u = v" if "hl_mine (hl_pc s' u) = Some n" "hl_mine (hl_pc s' v) = Some n" for u v n
  proof -
    have one: "hl_mine (hl_pc s u) = Some n \<Longrightarrow> hl_mine (hl_pc s v) = Some n \<Longrightarrow> u = v" for u v using i by (simp add: hl_inv_def)
    show ?thesis using that m(1) t(1,2) hl_mine_less [OF th, of u n] hl_mine_less [OF th, of v n] one [of u v] one [of t v] one [of u t]
      by (cases "u = t"; cases "v = t") auto
  qed
  ultimately show ?thesis using i c l by (auto simp: hl_inv_def)
qed

text \<open>Steps that change neither the links nor the tail.\<close>

lemma hl_inv_local:
  assumes i: "hl_inv c s" and t: "hl_pc s t = p" "\<And>n y. p \<noteq> HStore n y" "hl_pc s' = (hl_pc s)(t := p')" "hl_thr c (hl_fresh s') p'"
    and m: "hl_mine p' = None \<or> hl_mine p' = hl_mine p \<or> hl_mine p' = Some (hl_fresh s)"
    and s: "hl_next s' = hl_next s" "hl_tail s' = hl_tail s" "hl_fresh s \<le> hl_fresh s'"
  shows "hl_inv (c @ []) s'"
proof (rule hl_inv_move [OF i t(1,3)])
  have "hl_next s' (c ! j) = Some (c ! Suc j) \<or> (\<exists>u. hl_pc s' u = HStore (c ! Suc j) (c ! j))" if j: "Suc j < length c" for j
  proof -
    have "hl_next s (c ! j) = Some (c ! Suc j) \<or> (\<exists>u. hl_pc s u = HStore (c ! Suc j) (c ! j))" using i j by (simp add: hl_inv_def)
    then show ?thesis using s(1) t(1-3) by (metis fun_upd_other)
  qed
  then show "\<forall>j. Suc j < length (c @ []) \<longrightarrow> hl_next s' ((c @ []) ! j) = Some ((c @ []) ! Suc j) \<or>
      (\<exists>u. hl_pc s' u = HStore ((c @ []) ! Suc j) ((c @ []) ! j))" by simp
  show "\<forall>y \<in> set (c @ []). y < hl_fresh s'" using i s(3) by (fastforce simp: hl_inv_def)
qed (use i t m s in \<open>auto simp: hl_inv_def\<close>)

lemma hl_inv_step:
  assumes i: "hl_inv c s" and "push_back t s s'"
  shows "\<exists>c'. hl_inv c' s'"
proof -
  have th: "hl_thr c (hl_fresh s) (hl_pc s u)" for u using i by (simp add: hl_inv_def)
  have l: "hl_next s (c ! j) = Some (c ! Suc j) \<or> (\<exists>t. hl_pc s t = HStore (c ! Suc j) (c ! j))" if "Suc j < length c" for j
    using i that by (simp add: hl_inv_def)
  have c: "distinct c" "c \<noteq> []" "last c = hl_tail s" "\<forall>y \<in> set c. y < hl_fresh s" using i by (auto simp: hl_inv_def)
  have eq: "c ! j = c ! k \<longleftrightarrow> j = k" if "j < length c" "k < length c" for j k using nth_eq_iff_index_eq [OF c(1)] that by blast
  from assms(2) have "\<exists>ys. hl_inv (c @ ys) s'"
  proof cases
    case pb_new then show ?thesis using c(4) by (intro exI [of _ "[]"] hl_inv_local [OF i pb_new(2)]) auto
  next
    case (pb_load n) then show ?thesis using th [of t] by (intro exI [of _ "[]"] hl_inv_local [OF i pb_load(2)]) auto
  next
    case (pb_cas_fail n y) then show ?thesis using th [of t] by (intro exI [of _ "[]"] hl_inv_local [OF i pb_cas_fail(2)]) auto
  next
    case (pb_cas n y)
    then have n: "n \<notin> set c" "n < hl_fresh s" using th [of t] by auto
    have "hl_inv (c @ [n]) s'"
    proof (rule hl_inv_move [OF i pb_cas(2)])
      show "\<forall>j. Suc j < length (c @ [n]) \<longrightarrow> hl_next s' ((c @ [n]) ! j) = Some ((c @ [n]) ! Suc j) \<or>
          (\<exists>u. hl_pc s' u = HStore ((c @ [n]) ! Suc j) ((c @ [n]) ! j))"
      proof (intro allI impI)
        fix j assume j: "Suc j < length (c @ [n])"
        show "hl_next s' ((c @ [n]) ! j) = Some ((c @ [n]) ! Suc j) \<or> (\<exists>u. hl_pc s' u = HStore ((c @ [n]) ! Suc j) ((c @ [n]) ! j))"
        proof (cases "Suc j < length c")
          case True
          have "hl_pc s t \<noteq> HStore (c ! Suc j) (c ! j)" using pb_cas(2) by simp
          then show ?thesis using l [OF True] pb_cas(1) True by (auto simp: nth_append)
        next
          case False
          then have "j = length c - 1" "c \<noteq> []" using j c(2) by auto
          then have "(c @ [n]) ! j = y" "(c @ [n]) ! Suc j = n" using c(3) pb_cas(3) by (auto simp: nth_append last_conv_nth)
          then show ?thesis using pb_cas by (auto intro!: exI [of _ t])
        qed
      qed
      show "hl_thr (c @ [n]) (hl_fresh s') (HStore n y)"
        using c pb_cas(3) by (auto simp: nth_append last_conv_nth intro!: exI [of _ "length c - 1"])
      show "m \<notin> set [n]" if "u \<noteq> t" "hl_mine (hl_pc s u) = Some m" for u m using i that pb_cas(2) by (auto simp: hl_inv_def)
      show "\<forall>z. z \<notin> set (butlast (c @ [n])) \<longrightarrow> hl_next s' z = None"
        using i pb_cas(1) by (auto simp: hl_inv_def dest: in_set_butlastD)
    qed (use pb_cas n c in auto)
    then show ?thesis by blast
  next
    case (pb_store n y)
    then obtain k where k: "Suc k < length c" "c ! k = y" "c ! Suc k = n" using th [of t] by auto
    have "hl_inv (c @ []) s'"
    proof (rule hl_inv_move [OF i pb_store(2)])
      have "hl_next s' (c ! j) = Some (c ! Suc j) \<or> (\<exists>u. hl_pc s' u = HStore (c ! Suc j) (c ! j))" if j: "Suc j < length c" for j
      proof (cases "j = k")
        case False
        then have "c ! j \<noteq> y" using eq [of j k] k j by simp
        then show ?thesis using l [OF j] pb_store(1,2) by auto (metis fun_upd_other hl_pc.inject(3))
      qed (use k pb_store(1) in simp)
      then show "\<forall>j. Suc j < length (c @ []) \<longrightarrow> hl_next s' ((c @ []) ! j) = Some ((c @ []) ! Suc j) \<or>
          (\<exists>u. hl_pc s' u = HStore ((c @ []) ! Suc j) ((c @ []) ! j))" by simp
      have "y \<in> set (butlast c)" using k nth_butlast [of k c] nth_mem [of k "butlast c"] by auto
      then show "\<forall>z. z \<notin> set (butlast (c @ [])) \<longrightarrow> hl_next s' z = None" using i pb_store(1) by (auto simp: hl_inv_def)
      show "hl_thr (c @ []) (hl_fresh s') (HDone n)" using k c(2) by (cases c) auto
    qed (use pb_store c in auto)
    then show ?thesis by blast
  qed
  then show ?thesis by blast
qed

lemma hl_walk_chain:
  assumes "\<forall>i. Suc i < length c \<longrightarrow> nx (c ! i) = Some (c ! Suc i)" "i < length c" "length c \<le> i + k"
  shows "set (drop (Suc i) c) \<subseteq> set (hl_walk k nx (c ! i))"
  using assms(2,3)
proof (induction k arbitrary: i)
  case (Suc k)
  show ?case
  proof (cases "Suc i < length c")
    case True
    then have "drop (Suc i) c = c ! Suc i # drop (Suc (Suc i)) c" by (simp add: Cons_nth_drop_Suc)
    then show ?thesis using Suc.IH [of "Suc i"] Suc.prems True assms(1) by auto
  qed simp
qed simp

text \<open>When no thread is between moving the tail and storing the link, the walk finds every holder.\<close>

lemma settled_holders_seen:
  assumes "hl_reach s" "\<forall>t n y. hl_pc s t \<noteq> HStore n y" "hl_pc s t = HDone n"
  shows "n \<in> set (hl_walk (hl_fresh s) (hl_next s) 0)"
proof -
  have "\<exists>c. hl_inv c s" using assms(1)
  proof (induction rule: hl_reach.induct)
    case hl_start then show ?case by (intro exI [of _ "[0]"]) (simp add: hl_inv_def mk_holder_list_def)
  qed (use hl_inv_step in blast)
  then obtain c where c: "hl_inv c s" by blast
  then have h: "c \<noteq> []" "c ! 0 = 0" and n: "n \<in> set (tl c)" and f: "\<forall>y \<in> set c. y < hl_fresh s" and d: "distinct c"
    using assms(3) by (auto simp: hl_inv_def hd_conv_nth dest: spec [of _ t])
  have "set c \<subseteq> {..<hl_fresh s}" using f by auto
  then have "length c \<le> hl_fresh s" using d card_mono [of "{..<hl_fresh s}" "set c"] by (simp add: distinct_card)
  then have "set (drop (Suc 0) c) \<subseteq> set (hl_walk (hl_fresh s) (hl_next s) (c ! 0))"
    using c assms(2) h(1) by (intro hl_walk_chain) (auto simp: hl_inv_def)
  then show ?thesis using n h by (auto simp: drop_Suc)
qed

text \<open>C20. A holder can be in use and not be found. Thread 0 moves the tail to its node and is interrupted before
  it stores the link; thread 1 appends behind it and returns from \<open>push_back\<close>, so it protects objects with
  its holder. The walk of \<open>load_hazptr_vals\<close> ends at the missing link and sees neither: until thread 0 goes
  on, what thread 1 protects can be deleted.\<close>

theorem holder_not_seen:
  "\<exists>s. hl_reach s \<and> hl_pc s 0 = HStore 1 0 \<and> hl_pc s 1 = HDone 2 \<and> hl_walk (hl_fresh s) (hl_next s) 0 = []"
proof -
  note step = hl_reach.hl_step
  obtain s where s: "hl_reach s" "hl_pc s 0 = HLoad 1" "hl_pc s 1 = HIdle" "hl_tail s = 0" "hl_fresh s = 2" "hl_next s = (\<lambda>_. None)"
    using step [OF hl_reach.hl_start push_back.pb_new [of _ 0]] by (fastforce simp: mk_holder_list_def)
  then obtain s where s: "hl_reach s" "hl_pc s 0 = HCas 1 0" "hl_pc s 1 = HIdle" "hl_tail s = 0" "hl_fresh s = 2" "hl_next s = (\<lambda>_. None)"
    using step [OF s(1) push_back.pb_load [OF s(2)]] by fastforce
  then obtain s where s: "hl_reach s" "hl_pc s 0 = HStore 1 0" "hl_pc s 1 = HIdle" "hl_tail s = 1" "hl_fresh s = 2" "hl_next s = (\<lambda>_. None)"
    using step [OF s(1) push_back.pb_cas [OF s(2)]] by fastforce
  then obtain s where s: "hl_reach s" "hl_pc s 1 = HLoad 2" "hl_pc s 0 = HStore 1 0" "hl_tail s = 1" "hl_fresh s = 3" "hl_next s = (\<lambda>_. None)"
    using step [OF s(1) push_back.pb_new [OF s(3)]] by fastforce
  then obtain s where s: "hl_reach s" "hl_pc s 1 = HCas 2 1" "hl_pc s 0 = HStore 1 0" "hl_tail s = 1" "hl_fresh s = 3" "hl_next s = (\<lambda>_. None)"
    using step [OF s(1) push_back.pb_load [OF s(2)]] by fastforce
  then obtain s where s: "hl_reach s" "hl_pc s 1 = HStore 2 1" "hl_pc s 0 = HStore 1 0" "hl_tail s = 2" "hl_fresh s = 3" "hl_next s = (\<lambda>_. None)"
    using step [OF s(1) push_back.pb_cas [OF s(2)]] by fastforce
  then obtain s where s: "hl_reach s" "hl_pc s 1 = HDone 2" "hl_pc s 0 = HStore 1 0" "hl_fresh s = 3" "hl_next s 0 = None"
    using step [OF s(1) push_back.pb_store [OF s(2)]] by fastforce
  then show ?thesis by (intro exI [of _ s]) (simp add: eval_nat_numeral)
qed

end
