(* ===== verification/Executor.thy ===== *)
theory Executor
  imports Lsmkv_Prelude "HOL-Library.Multiset"
begin

text \<open>
  \<^verbatim>\<open>utils/executor.h\<close>: the threads that run background jobs, as a step relation. The job queue is a list and a
  push or a pop of it is one step, which \<open>Concurrent_Queue\<close> justifies; the counting semaphore is a number.
  \<open>Shutdown\<close> is called when the flag is down, as by the destructor, which tests it; a second explicit call is not
  modelled.
\<close>

section \<open>The executor\<close>

datatype 'a worker =
  Acquire         \<comment> \<open>\<open>StartSchedule\<close>: waiting for the semaphore\<close>
  | CheckStop
  | PopTask
  | Running 'a
  | Exited

datatype client =
  Outside
  | Release       \<comment> \<open>\<open>submit\<close>: the task is in the queue, the semaphore not yet released\<close>
  | ReleaseAll    \<comment> \<open>\<open>Shutdown\<close>: the flag is set\<close>
  | Joining

record 'a Executor =
  ex_stop :: bool
  ex_sem :: nat
  ex_queue :: "'a list"
  ex_worker :: "nat \<Rightarrow> 'a worker"
  ex_client :: "nat \<Rightarrow> client"
  ex_submitted :: "'a list"  \<comment> \<open>the tasks submitted so far\<close>
  ex_started :: "'a list"    \<comment> \<open>the tasks taken from the queue so far\<close>
  ex_done :: "'a list"       \<comment> \<open>the tasks that have been run\<close>

definition mk_Executor :: "'a Executor" where
  "mk_Executor = \<lparr>ex_stop = False, ex_sem = 0, ex_queue = [], ex_worker = (\<lambda>_. Acquire), ex_client = (\<lambda>_. Outside),
     ex_submitted = [], ex_started = [], ex_done = []\<rparr>"

definition wgoto :: "nat \<Rightarrow> 'a worker \<Rightarrow> 'a Executor \<Rightarrow> 'a Executor" where
  "wgoto w p s = s\<lparr>ex_worker := (ex_worker s)(w := p)\<rparr>"

definition cgoto :: "nat \<Rightarrow> client \<Rightarrow> 'a Executor \<Rightarrow> 'a Executor" where
  "cgoto c p s = s\<lparr>ex_client := (ex_client s)(c := p)\<rparr>"

text \<open>Steps of worker \<open>w\<close> and of client \<open>c\<close> with \<open>n\<close> worker threads. The destructor calls \<open>Shutdown\<close> only if the
  flag is not set yet.\<close>

inductive work :: "nat \<Rightarrow> 'a Executor \<Rightarrow> 'a Executor \<Rightarrow> bool" for w where
  acquire: "ex_worker s w = Acquire \<Longrightarrow> 0 < ex_sem s \<Longrightarrow> work w s (wgoto w CheckStop (s\<lparr>ex_sem := ex_sem s - 1\<rparr>))"
| stopped: "ex_worker s w = CheckStop \<Longrightarrow> ex_stop s \<Longrightarrow> work w s (wgoto w Exited s)"
| go_on: "ex_worker s w = CheckStop \<Longrightarrow> \<not> ex_stop s \<Longrightarrow> work w s (wgoto w PopTask s)"
| pop_task: "ex_worker s w = PopTask \<Longrightarrow> ex_queue s = a # q \<Longrightarrow>
    work w s (wgoto w (Running a) (s\<lparr>ex_queue := q, ex_started := ex_started s @ [a]\<rparr>))"
| pop_nothing: "ex_worker s w = PopTask \<Longrightarrow> ex_queue s = [] \<Longrightarrow> work w s (wgoto w Acquire s)"
| run: "ex_worker s w = Running a \<Longrightarrow> work w s (wgoto w Acquire (s\<lparr>ex_done := ex_done s @ [a]\<rparr>))"

inductive call :: "nat \<Rightarrow> nat \<Rightarrow> 'a Executor \<Rightarrow> 'a Executor \<Rightarrow> bool" for n c where
  submit_push: "ex_client s c = Outside \<Longrightarrow>
    call n c s (cgoto c Release (s\<lparr>ex_queue := ex_queue s @ [a], ex_submitted := ex_submitted s @ [a]\<rparr>))"
| submit_release: "ex_client s c = Release \<Longrightarrow> call n c s (cgoto c Outside (s\<lparr>ex_sem := ex_sem s + 1\<rparr>))"
| shutdown: "ex_client s c = Outside \<Longrightarrow> \<not> ex_stop s \<Longrightarrow> call n c s (cgoto c ReleaseAll (s\<lparr>ex_stop := True\<rparr>))"
| shutdown_release: "ex_client s c = ReleaseAll \<Longrightarrow> call n c s (cgoto c Joining (s\<lparr>ex_sem := ex_sem s + n\<rparr>))"
| joined: "ex_client s c = Joining \<Longrightarrow> (\<forall>w < n. ex_worker s w = Exited) \<Longrightarrow> call n c s (cgoto c Outside s)"

inductive ex_reach :: "nat \<Rightarrow> nat \<Rightarrow> 'a Executor \<Rightarrow> bool" for n m where
  ex_start: "ex_reach n m mk_Executor"
| ex_work: "ex_reach n m s \<Longrightarrow> w < n \<Longrightarrow> work w s s' \<Longrightarrow> ex_reach n m s'"
| ex_call: "ex_reach n m s \<Longrightarrow> c < m \<Longrightarrow> call n c s s' \<Longrightarrow> ex_reach n m s'"

section \<open>The invariant\<close>

definition workers :: "nat \<Rightarrow> ('a worker \<Rightarrow> bool) \<Rightarrow> 'a Executor \<Rightarrow> nat" where
  "workers n P s = card {w. w < n \<and> P (ex_worker s w)}"

definition clients :: "nat \<Rightarrow> client \<Rightarrow> 'a Executor \<Rightarrow> nat" where
  "clients m p s = card {c. c < m \<and> ex_client s c = p}"

fun holds_token :: "'a worker \<Rightarrow> bool" where
  "holds_token CheckStop = True" | "holds_token PopTask = True" | "holds_token _ = False"

fun running :: "'a worker \<Rightarrow> 'a multiset" where
  "running (Running a) = {#a#}" | "running _ = {#}"

text \<open>Before the shutdown every task in the queue has its token: in the semaphore, with a worker, or with
  the client that is about to release it. A worker about to pop has a task for itself throughout. Once
  \<open>Shutdown\<close> has released the semaphore there is a token for every worker that has not left.\<close>

definition ex_inv :: "nat \<Rightarrow> nat \<Rightarrow> 'a Executor \<Rightarrow> bool" where
  "ex_inv n m s \<longleftrightarrow> ex_started s @ ex_queue s = ex_submitted s \<and> mset (ex_started s) = mset (ex_done s) + (\<Sum>w < n. running (ex_worker s w)) \<and>
     (\<not> ex_stop s \<longrightarrow> ex_sem s + workers n holds_token s + clients m Release s = length (ex_queue s) \<and>
        (\<forall>w. ex_worker s w \<noteq> Exited) \<and> (\<forall>c. ex_client s c \<noteq> ReleaseAll \<and> ex_client s c \<noteq> Joining)) \<and>
     workers n (\<lambda>p. p = PopTask) s \<le> length (ex_queue s) \<and>
     (\<forall>c d. ex_client s c \<in> {ReleaseAll, Joining} \<and> ex_client s d \<in> {ReleaseAll, Joining} \<longrightarrow> c = d) \<and>
     ((\<exists>c. ex_client s c = Joining) \<longrightarrow> workers n (\<lambda>p. p \<noteq> Exited) s \<le> ex_sem s + workers n (\<lambda>p. p = CheckStop) s)"

lemma ex_goto_simps [simp]:
  "ex_worker (wgoto w p s) = (ex_worker s)(w := p)" "ex_client (wgoto w p s) = ex_client s" "ex_stop (wgoto w p s) = ex_stop s"
  "ex_sem (wgoto w p s) = ex_sem s" "ex_queue (wgoto w p s) = ex_queue s" "ex_submitted (wgoto w p s) = ex_submitted s"
  "ex_started (wgoto w p s) = ex_started s" "ex_done (wgoto w p s) = ex_done s"
  "ex_client (cgoto c p' s) = (ex_client s)(c := p')" "ex_worker (cgoto c p' s) = ex_worker s" "ex_stop (cgoto c p' s) = ex_stop s"
  "ex_sem (cgoto c p' s) = ex_sem s" "ex_queue (cgoto c p' s) = ex_queue s" "ex_submitted (cgoto c p' s) = ex_submitted s"
  "ex_started (cgoto c p' s) = ex_started s" "ex_done (cgoto c p' s) = ex_done s"
  by (simp_all add: wgoto_def cgoto_def)

lemma card_move:
  fixes f :: "nat \<Rightarrow> 'b"
  assumes "t < n"
  shows "card {u. u < n \<and> P ((f(t := p)) u)} + (if P (f t) then 1 else 0) = card {u. u < n \<and> P (f u)} + (if P p then 1 else 0)"
proof -
  let ?S = "{u. u < n \<and> u \<noteq> t \<and> P (f u)}"
  have "{u. u < n \<and> P ((f(t := p)) u)} = (if P p then insert t ?S else ?S)" "{u. u < n \<and> P (f u)} = (if P (f t) then insert t ?S else ?S)"
    using assms by auto
  then show ?thesis by simp
qed

lemma workers_move:
  assumes "w < n" "ex_worker s' = (ex_worker s)(w := p)"
  shows "workers n P s' + (if P (ex_worker s w) then 1 else 0) = workers n P s + (if P p then 1 else 0)"
  using card_move [OF assms(1), of P "ex_worker s" p] assms(2) by (simp add: workers_def)

lemma clients_move:
  assumes "c < m" "ex_client s' = (ex_client s)(c := p)"
  shows "clients m q s' + (if ex_client s c = q then 1 else 0) = clients m q s + (if p = q then 1 else 0)"
  using card_move [OF assms(1), of "\<lambda>x. x = q" "ex_client s" p] assms(2) by (simp add: clients_def)

lemma workers_cong: "ex_worker s' = ex_worker s \<Longrightarrow> workers n P s' = workers n P s"
  by (simp add: workers_def)

lemma clients_cong: "ex_client s' = ex_client s \<Longrightarrow> clients m p s' = clients m p s"
  by (simp add: clients_def)

lemma workers_le: "workers n P s \<le> n"
  using card_mono [of "{..<n}" "{w. w < n \<and> P (ex_worker s w)}"] by (auto simp: workers_def)

lemma running_move:
  assumes "w < n" "ex_worker s' = (ex_worker s)(w := p)"
  shows "(\<Sum>u < n. running (ex_worker s' u)) + running (ex_worker s w) = (\<Sum>u < n. running (ex_worker s u)) + running p"
proof -
  have "(\<Sum>u < n. running (ex_worker s' u)) = running p + (\<Sum>u \<in> {..<n} - {w}. running (ex_worker s u))"
    using assms by (subst sum.remove [of _ w]) auto
  moreover have "(\<Sum>u < n. running (ex_worker s u)) = running (ex_worker s w) + (\<Sum>u \<in> {..<n} - {w}. running (ex_worker s u))"
    using assms(1) by (subst sum.remove [of _ w]) auto
  ultimately show ?thesis by (simp add: add_ac)
qed

lemma pop_le_token: "workers n (\<lambda>p. p = PopTask) s \<le> workers n holds_token s"
  unfolding workers_def by (rule card_mono) auto

lemma work_inv:
  assumes "ex_inv n m s" "w < n" "work w s s'"
  shows "ex_inv n m s'"
proof -
  note i = assms(1) [unfolded ex_inv_def]
  have w: "workers n P s' + (if P (ex_worker s w) then 1 else 0) = workers n P s + (if P p then 1 else 0)"
    if "ex_worker s' = (ex_worker s)(w := p)" for P p using workers_move [OF assms(2) that] .
  have c: "clients m q s' = clients m q s" if "ex_client s' = ex_client s" for q using clients_cong [OF that] .
  have moved: "workers n holds_token s' + (if holds_token (ex_worker s w) then 1 else 0) = workers n holds_token s + (if holds_token p then 1 else 0)"
      "workers n (\<lambda>p. p = PopTask) s' + (if ex_worker s w = PopTask then 1 else 0) = workers n (\<lambda>p. p = PopTask) s + (if p = PopTask then 1 else 0)"
      "workers n (\<lambda>p. p = CheckStop) s' + (if ex_worker s w = CheckStop then 1 else 0) = workers n (\<lambda>p. p = CheckStop) s + (if p = CheckStop then 1 else 0)"
      "workers n (\<lambda>p. p \<noteq> Exited) s' + (if ex_worker s w \<noteq> Exited then 1 else 0) = workers n (\<lambda>p. p \<noteq> Exited) s + (if p \<noteq> Exited then 1 else 0)"
      "(\<Sum>u < n. running (ex_worker s' u)) + running (ex_worker s w) = (\<Sum>u < n. running (ex_worker s u)) + running p"
    if "ex_worker s' = (ex_worker s)(w := p)" for p
    using w [OF that, of holds_token] w [OF that, of "\<lambda>p. p = PopTask"] w [OF that, of "\<lambda>p. p = CheckStop"] w [OF that, of "\<lambda>p. p \<noteq> Exited"]
      running_move [OF assms(2) that] by simp_all
  from assms(3) show ?thesis
  proof cases
    case acquire then show ?thesis using i moved [of CheckStop] c unfolding ex_inv_def by auto
  next
    case stopped then show ?thesis using i moved [of Exited] c unfolding ex_inv_def by auto
  next
    case go_on then show ?thesis using i moved [of PopTask] c pop_le_token [of n s'] unfolding ex_inv_def by auto
  next
    case (pop_task a q) then show ?thesis using i moved [of "Running a"] c unfolding ex_inv_def by auto
  next
    case pop_nothing then show ?thesis using i moved(2) [of Acquire] unfolding ex_inv_def by auto
  next
    case (run a) then show ?thesis using i moved [of Acquire] c unfolding ex_inv_def by auto
  qed
qed

lemma call_inv:
  assumes "ex_inv n m s" "c < m" "call n c s s'"
  shows "ex_inv n m s'"
proof -
  note i = assms(1) [unfolded ex_inv_def]
  have c: "clients m Release s' + (if ex_client s c = Release then 1 else 0) = clients m Release s + (if p = Release then 1 else 0)"
    if "ex_client s' = (ex_client s)(c := p)" for p using clients_move [OF assms(2) that] .
  have w: "workers n P s' = workers n P s" if "ex_worker s' = ex_worker s" for P using workers_cong [OF that] .
  from assms(3) show ?thesis
  proof cases
    case (submit_push a) then show ?thesis using i c [of Release] w unfolding ex_inv_def by auto
  next
    case submit_release then show ?thesis using i c [of Outside] w unfolding ex_inv_def by auto
  next
    case shutdown then show ?thesis using i w unfolding ex_inv_def by auto
  next
    case shutdown_release
    have "workers n (\<lambda>p. p \<noteq> Exited) s \<le> ex_sem s + n + workers n (\<lambda>p. p = CheckStop) s" using workers_le [of n "\<lambda>p. p \<noteq> Exited" s] by linarith
    then show ?thesis using shutdown_release i w unfolding ex_inv_def by auto
  next
    case joined then show ?thesis using i w unfolding ex_inv_def by auto
  qed
qed

lemma ex_reach_inv: "ex_reach n m s \<Longrightarrow> ex_inv n m s"
proof (induction rule: ex_reach.induct)
  case ex_start then show ?case by (simp add: ex_inv_def mk_Executor_def workers_def clients_def)
qed (auto intro: work_inv call_inv)

section \<open>What the executor promises\<close>

lemma token_worker: "0 < workers n P s \<Longrightarrow> \<exists>w < n. P (ex_worker s w)"
  by (auto simp: workers_def card_gt_0_iff)

lemma worker_moves:
  assumes "w < n" "ex_inv n m s" "ex_worker s w \<noteq> Exited" "ex_worker s w = Acquire \<Longrightarrow> 0 < ex_sem s"
  shows "\<exists>s'. work w s s'"
proof (cases "ex_worker s w")
  case PopTask then show ?thesis by (cases "ex_queue s") (blast intro: work.intros)+
next
  case CheckStop then show ?thesis by (cases "ex_stop s") (blast intro: work.intros)+
qed (use assms in \<open>blast intro: work.intros\<close>)+

text \<open>C16. The executor starts every task once and in the order of submission, never forgets one and shuts down.
  The tasks taken from the queue followed by those in it are the tasks submitted; those that have been
  run and those running are the ones taken. A worker that goes to the queue always finds a task. As
  long as nobody shuts the executor down and no \<open>submit\<close> is between its two steps, a task in the queue
  means that some worker can go on. After \<open>Shutdown\<close> has released the semaphore, some worker can go on
  until all have left.\<close>

theorem executor_runs_tasks:
  assumes "ex_reach n m s"
  shows "ex_started s @ ex_queue s = ex_submitted s \<and> mset (ex_started s) = mset (ex_done s) + (\<Sum>w < n. running (ex_worker s w)) \<and>
    (\<forall>w < n. ex_worker s w = PopTask \<longrightarrow> ex_queue s \<noteq> []) \<and>
    (0 < n \<and> ex_queue s \<noteq> [] \<and> \<not> ex_stop s \<and> (\<forall>c. ex_client s c \<noteq> Release) \<longrightarrow> (\<exists>w < n. \<exists>s'. work w s s')) \<and>
    ((\<exists>c. ex_client s c = Joining) \<and> (\<exists>w < n. ex_worker s w \<noteq> Exited) \<longrightarrow> (\<exists>w < n. \<exists>s'. work w s s'))"
proof (intro conjI impI allI; (elim conjE exE)?)
  note inv = ex_reach_inv [OF assms]
  note i = inv [unfolded ex_inv_def]
  show "ex_started s @ ex_queue s = ex_submitted s" "mset (ex_started s) = mset (ex_done s) + (\<Sum>w < n. running (ex_worker s w))"
    using i by blast+
  show "ex_queue s \<noteq> []" if "w < n" "ex_worker s w = PopTask" for w
  proof -
    have "0 < workers n (\<lambda>p. p = PopTask) s" using that by (auto simp: workers_def card_gt_0_iff)
    then show ?thesis using i by auto
  qed
  show "\<exists>w < n. \<exists>s'. work w s s'" if n: "0 < n" and q: "ex_queue s \<noteq> []" "\<not> ex_stop s" "\<forall>c. ex_client s c \<noteq> Release"
  proof (cases "0 < ex_sem s")
    case True
    then show ?thesis using worker_moves [of 0 n m s] inv i q(2) n by blast
  next
    case False
    have "clients m Release s = 0" using q(3) by (simp add: clients_def)
    then have "0 < workers n holds_token s" using False i q by simp
    then obtain w where "w < n" "holds_token (ex_worker s w)" using token_worker by blast
    then show ?thesis using worker_moves [of w n m s] inv by (cases "ex_worker s w") auto
  qed
  show "\<exists>w < n. \<exists>s'. work w s s'" if c: "ex_client s c = Joining" and w: "w < n" "ex_worker s w \<noteq> Exited" for c w
  proof (cases "0 < ex_sem s")
    case True then show ?thesis using worker_moves [of w n m s] inv w by blast
  next
    case False
    have "0 < workers n (\<lambda>p. p \<noteq> Exited) s" using w by (auto simp: workers_def card_gt_0_iff)
    then have "0 < workers n (\<lambda>p. p = CheckStop) s" using False i c by fastforce
    then obtain v where "v < n" "ex_worker s v = CheckStop" using token_worker by blast
    then show ?thesis using worker_moves [of v n m s] inv by auto
  qed
qed

text \<open>One worker, one client that has submitted a task.\<close>

theorem executor_runs_tasks_witness:
  "\<exists>s. ex_reach 1 1 s \<and> ex_queue s = [7 :: nat] \<and> (\<exists>s'. work 0 s s')"
proof -
  have "ex_reach 1 1 (cgoto 0 Release (mk_Executor\<lparr>ex_queue := [7 :: nat], ex_submitted := [7]\<rparr>))"
    using ex_reach.ex_call [OF ex_reach.ex_start _ call.submit_push [of mk_Executor 0 1 7], of 1] by (simp add: mk_Executor_def)
  from ex_reach.ex_call [OF this, of 0, OF _ call.submit_release]
  obtain s :: "nat Executor" where s: "ex_reach 1 1 s" "ex_queue s = [7]" "\<not> ex_stop s" "\<forall>c. ex_client s c \<noteq> Release"
    by (auto simp: mk_Executor_def)
  show ?thesis using executor_runs_tasks [OF s(1)] s by (intro exI [of _ s]) auto
qed

end
