(* ===== verification/Spec2Isabelle.thy ===== *)
theory Spec2Isabelle
  imports Block_Iterator Bloom_Filter Crc16 Arena Lru Memtable Ring_Buffer Sst_Reader Table_Iterator Vlog Build_Table Store_Scan Rwlock Concurrent_Queue Hazard_Ptr Executor
begin

text \<open>
  A verification library of lsmkv, a key-value store that keeps recent writes in a memtable, older
  ones in sorted tables on seven levels, and the values in logs beside them.

  \<^bold>\<open>How the program is put together.\<close> \<open>KVStore\<close> (\<^verbatim>\<open>src/kvstore.cc\<close>) appends a value to the value log
  (\<^verbatim>\<open>src/include/vlog_builder.h\<close>) and puts the key with a pointer to the value into the memtable
  (\<^verbatim>\<open>src/memtable.cpp\<close>, a skip list over an arena). A full memtable is set aside and written by a
  background job as a table of level 0 (\<^verbatim>\<open>src/builder.cpp\<close>, \<^verbatim>\<open>src/table_builder.cpp\<close>); the level cache
  (\<^verbatim>\<open>src/levelcache.cpp\<close>) knows the tables of each level, searches them and merges them when a level
  is full. A lookup goes through the memtable, the memtable that waits, and the levels, and reads the
  value through the pointer it finds; a range query merges the same sources.

  \<^bold>\<open>Conventions.\<close> Machine integers are words of their width, bytes are lists of 8-bit words, and
  \<open>None\<close> stands for what the code leaves undefined: a read past a buffer, a null pointer, a failed
  assertion. A \<open>Status\<close> is the value the code returns. Files, the kernel's ring, the random levels of
  the skip list, uninitialised bytes and the CRC-32C (a library outside the repository) are
  arguments. A loop that is not structurally recursive has a termination
  proof or is a partial function whose theorems say that it returns: the searches of the skip list,
  the loops that write and merge tables and those that scan them, \<open>Prepare\<close> and the reclaimer. Fuel
  occurs in the range seek of the table iterator only, where it is the number of index entries.

  \<^bold>\<open>The theories.\<close>
  \<^item> \<open>Lsmkv_Prelude\<close>: words, byte strings, partial reads and writes, little-endian conversion.
  \<^item> \<open>Coding\<close> (\<^verbatim>\<open>utils/coding.h\<close>), \<open>Status\<close> (\<^verbatim>\<open>utils/status.h\<close>), \<open>Dbformat\<close> (\<^verbatim>\<open>include/lsmkv/dbformat.h\<close>):
    fixed-width integers, result codes, the layouts of keys; each decoder inverts its encoder.
  \<^item> \<open>Comparators\<close> (\<^verbatim>\<open>utils/comparator.h\<close>, \<^verbatim>\<open>src/comparator.cpp\<close>): the orders on keys. The locale \<open>comparator\<close>
    states what a total order promises and is interpreted for user and internal keys.
  \<^item> \<open>Crc16\<close>, \<open>Bloom_Filter\<close>, \<open>Lru\<close>, \<open>Ring_Buffer\<close>, \<open>Arena\<close> (\<^verbatim>\<open>utils/\<close>): the CRC by slicing equals the one by
    bytes; filters have no false negatives; the cache refines a bounded list (locale \<open>bounded_cache\<close>);
    the ring is a byte queue across wrap-around; regions of the arena are disjoint and aligned.
  \<^item> \<open>Version\<close> (\<^verbatim>\<open>src/include/option.h\<close>, \<^verbatim>\<open>utils/filename.h\<close>, \<^verbatim>\<open>src/include/version.h\<close>): constants, file names and counters.
  \<^item> \<open>Block_Format\<close>, \<open>Block_Iterator\<close>, \<open>Table_Iterator\<close> (\<^verbatim>\<open>src/include/block_format.h\<close>): the layouts of blocks,
    footers and pointers, and the iterators. The locale \<open>iterator\<close> is the interface of
    \<^verbatim>\<open>utils/iterator.h\<close>, interpreted for blocks, tables, memtables and their sum.
  \<^item> \<open>File_System\<close>, \<open>Writable_File\<close>, \<open>Uring_File\<close> (\<^verbatim>\<open>src/include/file.h\<close>, \<^verbatim>\<open>src/file.cpp\<close>): named files, the buffered
    and unbuffered writers, and the writer over the kernel's ring, which may complete requests in any
    order. The locales \<open>append_file\<close>, \<open>writable_file\<close>, \<open>table_file\<close> and \<open>reliable_table_file\<close> are what the table
    builder relies on.
  \<^item> \<open>Table_Builder\<close>, \<open>Sst_Reader\<close>, \<open>Build_Table\<close>, \<open>Vlog\<close> (\<^verbatim>\<open>src/table_builder.cpp\<close>, \<^verbatim>\<open>src/include/reader.h\<close>,
    \<^verbatim>\<open>src/reader.cpp\<close>, \<^verbatim>\<open>src/builder.cpp\<close>, \<^verbatim>\<open>src/include/vlog_builder.h\<close>): tables and logs are read back as they were
    written, by the synchronous and by the batch reader.
  \<^item> \<open>Skiplist\<close>, \<open>Memtable\<close> (\<^verbatim>\<open>src/include/skiplist.h\<close>, \<^verbatim>\<open>src/memtable.cpp\<close>): the locale \<open>skiplist_keys\<close> carries the
    search and insertion proofs, interpreted for the keys of the memtable; the last write wins.
  \<^item> \<open>Scan\<close>, \<open>Loser_Tree\<close>, \<open>Level_Cache\<close>, \<open>Compaction\<close> (\<^verbatim>\<open>src/include/levelcache.h\<close>, \<^verbatim>\<open>src/levelcache.cpp\<close>): the range
    query of one source, the merge, the levels as ordered maps (locale \<open>std_map\<close>), the choice of a
    compaction, and the compaction with every early return. The theorem on compactions is about target
    levels that keep the value log; of those that rewrite it, only the move of one value to the new log
    is proved.
  \<^item> \<open>Kvstore\<close> (\<^verbatim>\<open>src/kvstore.cc\<close>): every operation of the store. A client call runs under the lock and is one
    step; \<open>kv_jobs\<close> counts the jobs handed to the background thread and \<open>run_job\<close> runs one. Where a writer
    sleeps or waits in \<open>Prepare\<close>, a schedule that is an argument says whether a job runs meanwhile.
  \<^item> \<open>Store_Spec\<close>, \<open>Store_Scan\<close>: what the store promises. \<open>spec_write\<close>, \<open>spec_get\<close> and \<open>spec_expire\<close> work on a map from
    keys to last writes; \<open>kv_rep\<close> relates it to the memtables, the tables and the logs. The operations
    implement those of the map, setting the memtable aside and writing it as a table keep the map,
    and a range query returns the map between its bounds.
  \<^item> \<open>Rwlock\<close> (\<^verbatim>\<open>utils/rwlock.h\<close>, \<^verbatim>\<open>utils/cond_var.h\<close>): the lock as a step relation over any number of threads; writers
    exclude everyone, the assertions hold, and some call can always go on.
  \<^item> \<open>Concurrent_Queue\<close> (\<^verbatim>\<open>utils/concurrent_queue.h\<close>): the lock-free queue of the executor, one step per access to
    shared memory, with the holders of the hazard pointers, and beside it the reclaimers that read the
    holders one by one and delete retired nodes. A forward simulation to a queue whose operations are
    atomic gives linearizability; the same relation gives that no deleted node is accessed, both as
    long as every thread's holders are on the list that is read and all threads see the accesses in
    one order.
  \<^item> \<open>Executor\<close> (\<^verbatim>\<open>utils/executor.h\<close>): workers and clients over the queue and a semaphore; tasks are taken once
    and in order, a task that waits has a worker that can go on, and a shutdown does not get stuck.
  \<^item> \<open>Hazard_Ptr\<close> (\<^verbatim>\<open>utils/hazard_ptr.h\<close>): the reclaimer, one operation after the other: what is protected is
    kept, nothing is lost, the loop ends while fewer than a thousand objects are protected. Its loop is
    a partial function, and that it returns is part of the theorem. The list of holders is also a step
    relation, which shows that a holder in use can be missed.

  \<^bold>\<open>Where the code falls short of its intent.\<close> Some theorems state what the code does where it is not
  what it means to do: the merge orders versions by the bytes of their trailer and so delivers the older one
  first when their sequence numbers differ in the low byte only, a value in the waiting
  memtable is read as empty, a range seek may look in the wrong block, the ring-backed file
  overwrites data after a large append and reports durability early, \<open>ExpireAt\<close> expires the next write,
  a hazard pointer can be missed by the reclaimer, and the short successor depends on the sign of
  \<open>char\<close>. The hypotheses of the positive theorems name these cases.

  \<^bold>\<open>Not modelled.\<close> Logging; the learned index, whose training is disabled and works on floating-point
  numbers; the mapped-file cache, which nothing uses; the ring of liburing, which is
  outside the repository, and the wrapper around it; \<open>Slice\<close>, a view of bytes that the model has as bytes;
  weak memory: atomic operations are taken in one order. A call of the store is one step under its
  lock; the interleaving of several clients is left to \<open>Rwlock\<close>. The destructors of the holder lists only
  free memory.
\<close>

end
